(* ===== verification/Prelude.thy ===== *)
theory Prelude
  imports Main "HOL-Library.Word"
begin

text \<open>
  What every component of the development shares: byte strings and slices of them, the
  fixed-width little-endian and big-endian encodings of Go's package encoding/binary, the
  conversions between Go's \<open>int64\<close> and \<open>uint64\<close>, the error values of the package with
  \<open>errors.Is\<close> and \<open>errors.Join\<close>, and the collections of lemmas the component proofs use.
\<close>

section \<open>Collections\<close>

named_theorems slice_simps \<open>reading and overwriting ranges of byte strings\<close>
named_theorems frame_rules \<open>which parts of the store an operation leaves alone\<close>

section \<open>Byte strings\<close>

type_synonym byte = "8 word"
type_synonym u64 = "64 word"
type_synonym bytes = "byte list"
type_synonym hash = "bytes \<Rightarrow> u64"

text \<open>The Go expression \<open>b[i:j]\<close>, and the effect of \<open>copy(b[i:], ys)\<close> with room for \<open>ys\<close>.\<close>

definition slice :: "nat \<Rightarrow> nat \<Rightarrow> 'a list \<Rightarrow> 'a list" where
  "slice i j xs = take (j - i) (drop i xs)"

definition put_at :: "nat \<Rightarrow> 'a list \<Rightarrow> 'a list \<Rightarrow> 'a list" where
  "put_at i ys xs = take i xs @ ys @ drop (i + length ys) xs"

lemma length_slice [simp, slice_simps]: "length (slice i j xs) = min (length xs - i) (j - i)"
  by (simp add: slice_def)

lemma length_put_at [simp, slice_simps]:
  "i + length ys \<le> length xs \<Longrightarrow> length (put_at i ys xs) = length xs"
  by (simp add: put_at_def)

lemma slice_put_at_same [slice_simps]:
  "i + length ys \<le> length xs \<Longrightarrow> j = i + length ys \<Longrightarrow> slice i j (put_at i ys xs) = ys"
  by (simp add: slice_def put_at_def)

lemma slice_put_at_before [slice_simps]:
  "k \<le> i \<Longrightarrow> i \<le> length xs \<Longrightarrow> slice j k (put_at i ys xs) = slice j k xs"
  by (cases "j \<le> i") (auto simp: slice_def put_at_def min_def take_drop)

lemma slice_put_at_after [slice_simps]:
  "i + length ys \<le> j \<Longrightarrow> i + length ys \<le> length xs \<Longrightarrow> slice j k (put_at i ys xs) = slice j k xs"
  by (simp add: slice_def put_at_def)

lemma nth_put_at_other [slice_simps]:
  "i + length ys \<le> length xs \<Longrightarrow> j < length xs \<Longrightarrow> j < i \<or> i + length ys \<le> j
    \<Longrightarrow> put_at i ys xs ! j = xs ! j"
  by (cases "length xs \<le> i") (auto simp: put_at_def nth_append)

lemma put_at_nth_same:
  "i < length xs \<Longrightarrow> put_at i [y] xs ! i = y"
  by (simp add: put_at_def nth_append)

lemma take_drop_eq: "take (j - i) (drop i xs) = drop i (take j xs)"
  by (simp add: drop_take)

lemma nth_slice: "k < j - i \<Longrightarrow> i + k < length xs \<Longrightarrow> slice i j xs ! k = xs ! (i + k)"
  by (simp add: slice_def)

lemma slice_split: "i \<le> j \<Longrightarrow> j \<le> k \<Longrightarrow> slice i k xs = slice i j xs @ slice j k xs"
proof -
  assume "i \<le> j" "j \<le> k"
  then have k: "k - i = (j - i) + (k - j)" and j: "j = (j - i) + i" by auto
  show ?thesis
    unfolding slice_def k take_add by (subst (3) j) simp
qed

lemma slice_all: "length xs \<le> j \<Longrightarrow> slice 0 j xs = xs"
  by (simp add: slice_def)

lemma slice_append1: "j \<le> length xs \<Longrightarrow> slice i j (xs @ ys) = slice i j xs"
  by (simp add: slice_def)

lemma slice_append2: "length xs \<le> i \<Longrightarrow> slice i j (xs @ ys) = slice (i - length xs) (j - length xs) ys"
  by (simp add: slice_def)

lemma slice_slice: "slice a b (slice i j xs) = slice (i + a) (min (i + b) j) xs"
proof -
  have "min (b - a) (j - i - a) = min (i + b) j - (i + a)" by arith
  then show ?thesis by (simp add: slice_def drop_take add.commute)
qed

lemma slice_cong_prefix:
  "slice i j xs = slice i j ys \<Longrightarrow> k \<le> j \<Longrightarrow> slice i k xs = slice i k ys"
  by (metis (no_types, opaque_lifting) diff_le_mono min.absorb1 slice_def take_take)

section \<open>Fixed-width integers in byte order\<close>

text \<open>
  \<open>le_put k n\<close> is the \<open>k\<close> low bytes of \<open>n\<close>, least significant first, and \<open>le_nat\<close> reads
  such a string back; \<open>be_put\<close>/\<open>be_nat\<close> are the big-endian pair.  \<open>binary.LittleEndian.PutUint64\<close>
  writes \<open>le_put 8\<close>, \<open>binary.LittleEndian.Uint64\<close> is \<open>le_nat\<close> of eight bytes.
\<close>

fun le_put :: "nat \<Rightarrow> nat \<Rightarrow> bytes" where
  "le_put 0 n = []"
| "le_put (Suc k) n = of_nat (n mod 256) # le_put k (n div 256)"

fun le_nat :: "bytes \<Rightarrow> nat" where
  "le_nat [] = 0"
| "le_nat (b # bs) = unat b + 256 * le_nat bs"

definition be_put :: "nat \<Rightarrow> nat \<Rightarrow> bytes" where
  "be_put k n = rev (le_put k n)"

definition be_nat :: "bytes \<Rightarrow> nat" where
  "be_nat bs = le_nat (rev bs)"

lemma length_le_put [simp]: "length (le_put k n) = k"
  by (induction k arbitrary: n) auto

lemma unat_of_nat_byte [simp]: "unat (of_nat (n mod 256) :: byte) = n mod 256"
  by (simp add: unat_of_nat)

lemma unat_byte_less [simp]: "unat (b :: byte) < 256"
  using unsigned_less [of b] by simp

lemma le_nat_put: "le_nat (le_put k n) = n mod 256 ^ k"
proof (induction k arbitrary: n)
  case (Suc k)
  have "n mod 256 ^ Suc k = n mod 256 + 256 * (n div 256 mod 256 ^ k)"
    by (simp add: mod_mult2_eq)
  with Suc show ?case by simp
qed simp

lemma le_nat_bound: "le_nat bs < 256 ^ length bs"
proof (induction bs)
  case (Cons b bs)
  define y :: nat where "y = 256 ^ length bs"
  from Cons have "le_nat bs < y" by (simp add: y_def)
  then have "unat b + 256 * le_nat bs < 256 * y" using unat_byte_less [of b] by linarith
  then show ?case by (simp add: y_def)
qed simp

lemma le_put_nat: "length bs = k \<Longrightarrow> le_put k (le_nat bs) = bs"
proof (induction bs arbitrary: k)
  case (Cons b bs)
  have "(unat b + 256 * le_nat bs) mod 256 = unat b"
    and "(unat b + 256 * le_nat bs) div 256 = le_nat bs"
    using unat_byte_less [of b] by auto
  with Cons show ?case by auto
qed simp

lemma le_put_mod: "le_put k (n mod 256 ^ k) = le_put k n"
  using le_put_nat [of "le_put k n" k] by (simp add: le_nat_put)

lemma length_be_put [simp]: "length (be_put k n) = k"
  by (simp add: be_put_def)

lemma be_nat_put: "be_nat (be_put k n) = n mod 256 ^ k"
  by (simp add: be_nat_def be_put_def le_nat_put)

section \<open>Conversions between int64 and uint64\<close>

text \<open>
  Go's \<open>uint64(v)\<close> of an \<open>int64\<close> keeps the bits, and so does \<open>int64(u)\<close>: reduction modulo
  $2^{64}$ into \<open>[0, 2^64)\<close> and into \<open>[-2^63, 2^63)\<close>.  \<open>wrap64\<close> is the result of an \<open>int64\<close>
  addition.
\<close>

definition to_u64 :: "int \<Rightarrow> nat" where
  "to_u64 v = nat (v mod 2 ^ 64)"

definition to_i64 :: "nat \<Rightarrow> int" where
  "to_i64 u = (if u mod 2 ^ 64 < 2 ^ 63 then int (u mod 2 ^ 64) else int (u mod 2 ^ 64) - 2 ^ 64)"

definition wrap64 :: "int \<Rightarrow> int" where
  "wrap64 v = to_i64 (to_u64 v)"

definition maxInt64 :: int where
  "maxInt64 = 2 ^ 63 - 1"

definition is_i64 :: "int \<Rightarrow> bool" where
  "is_i64 v \<longleftrightarrow> - (2 ^ 63) \<le> v \<and> v < 2 ^ 63"

lemma to_u64_bound [simp]: "to_u64 v < 2 ^ 64"
  by (simp add: to_u64_def nat_less_iff)

lemma wrap64_id: "is_i64 v \<Longrightarrow> wrap64 v = v"
proof -
  assume v: "is_i64 v"
  show ?thesis
  proof (cases "0 \<le> v")
    case True
    with v have "v mod 2 ^ 64 = v" by (simp add: is_i64_def)
    with True v show ?thesis
      by (simp add: wrap64_def to_i64_def to_u64_def is_i64_def nat_less_iff)
  next
    case False
    then have "v mod 2 ^ 64 = (v + 2 ^ 64) mod 2 ^ 64" by simp
    also have "\<dots> = v + 2 ^ 64" using v False by (intro mod_pos_pos_trivial) (auto simp: is_i64_def)
    finally have "v mod 2 ^ 64 = v + 2 ^ 64" .
    with False v show ?thesis
      by (simp add: wrap64_def to_i64_def to_u64_def is_i64_def nat_less_iff)
  qed
qed

lemma is_i64_to_i64: "is_i64 (to_i64 u)"
proof -
  have "u mod 2 ^ 64 < 2 ^ 64" by simp
  then show ?thesis unfolding is_i64_def to_i64_def by (auto simp del: mod_less_divisor)
qed

lemma to_i64_to_u64: "is_i64 v \<Longrightarrow> to_i64 (to_u64 v) = v"
  using wrap64_id by (simp add: wrap64_def)

section \<open>Error values\<close>

text \<open>
  The sentinels of diskqueue.go, the operating-system errors the source tells apart, the two
  end-of-file errors of package io (one value: \<open>isShortRead\<close> accepts both), and \<open>Wrap\<close> for
  \<open>fmt.Errorf("%w: %w", a, b)\<close> and \<open>errors.Join(a, b)\<close>.  A format text added to a sentinel
  (\<open>"%w: record checksum"\<close>) does not change what \<open>errors.Is\<close> answers and is dropped.
\<close>

datatype errno = EEXIST | EIO | ENOSPC | EACCES | EMFILE | EINVAL | ENOTSUP | ENOSYS
  | EPERM | ENODEV | EWOULDBLOCK | ENOLCK | EBADF

datatype err = ErrClosed | ErrFull | ErrInvalidOffset | ErrRecordTooLarge | ErrCorrupt | ErrCodec
  | ErrSegmentSizeMismatch | ErrLocked | ErrIO
  | ErrNumSpace \<comment> \<open>\<open>diskqueue: segment number space exhausted\<close>\<close>
  | ErrShortStamp \<comment> \<open>\<open>errShortStamp\<close>\<close>
  | ErrNotExist \<comment> \<open>\<open>os.ErrNotExist\<close>: ENOENT\<close>
  | ErrFileClosed \<comment> \<open>\<open>os.ErrClosed\<close>\<close>
  | EOF
  | Errno errno
  | Caller nat \<comment> \<open>an error of the caller's codec\<close>
  | Wrap err err

fun err_is :: "err \<Rightarrow> err \<Rightarrow> bool" where
  "err_is (Wrap a b) t \<longleftrightarrow> Wrap a b = t \<or> err_is a t \<or> err_is b t"
| "err_is e t \<longleftrightarrow> e = t"

definition err_join :: "err option \<Rightarrow> err option \<Rightarrow> err option" where
  "err_join a b = (case (a, b) of (None, _) \<Rightarrow> b | (_, None) \<Rightarrow> a | (Some x, Some y) \<Rightarrow> Some (Wrap x y))"

lemma err_join_None [simp]: "err_join a b = None \<longleftrightarrow> a = None \<and> b = None"
  by (auto simp: err_join_def split: option.splits)

type_synonym 'a result = "err + 'a"

definition as_result :: "err option \<Rightarrow> unit result" where
  "as_result e = (case e of None \<Rightarrow> Inr () | Some x \<Rightarrow> Inl x)"

definition err_of :: "'a result \<Rightarrow> err option" where
  "err_of r = (case r of Inl e \<Rightarrow> Some e | Inr _ \<Rightarrow> None)"

lemma as_result_simps [simp]: "as_result None = Inr ()" "as_result (Some e) = Inl e"
  by (simp_all add: as_result_def)

lemma err_of_simps [simp]: "err_of (Inl e) = Some e" "err_of (Inr v) = None"
  by (simp_all add: err_of_def)

end
