(* ===== verification/Header.thy ===== *)
theory Header
  imports Prelude
begin

text \<open>
  The segment header of header.go: the constants of the on-disk format, the 64-byte header as
  a byte string with one accessor and one modifier per field, the checksum over its first 56
  bytes, and the \<open>dataFile\<close> structure.  The xxhash64 function of the third-party package
  cespare/xxhash is the parameter \<open>xx\<close> of the definitions that compute a checksum.
\<close>

unbundle bit_operations_syntax

section \<open>Constants of the format\<close>

definition headerSize :: nat where "headerSize = 64"
definition checksumSize :: nat where "checksumSize = 8"
definition readAhead :: nat where "readAhead = 65536"
definition formatVersion :: byte where "formatVersion = 1"
definition hdrSumCovered :: nat where "hdrSumCovered = 56"
definition flagOversized :: byte where "flagOversized = 1"

lemmas header_consts = headerSize_def checksumSize_def readAhead_def formatVersion_def
  hdrSumCovered_def flagOversized_def

text \<open>\<open>headerMagic\<close>: the eight bytes \<open>WALGOseg\<close> read as a little-endian \<open>uint64\<close>.\<close>

definition headerMagicBytes :: bytes where
  "headerMagicBytes = [87, 65, 76, 71, 79, 115, 101, 103]"

definition headerMagic :: nat where
  "headerMagic = le_nat headerMagicBytes"

definition knownVersion :: "byte \<Rightarrow> bool" where
  "knownVersion v \<longleftrightarrow> v = formatVersion"

section \<open>Accessors\<close>

definition Uint64 :: "bytes \<Rightarrow> nat" where
  "Uint64 b = le_nat (take 8 b)"

definition magic :: "bytes \<Rightarrow> nat" where
  "magic hdr = Uint64 (slice 0 8 hdr)"

definition version :: "bytes \<Rightarrow> byte" where
  "version hdr = hdr ! 40"

definition oversized :: "bytes \<Rightarrow> bool" where
  "oversized hdr \<longleftrightarrow> (hdr ! 41) AND flagOversized \<noteq> 0"

definition commitCursor :: "bytes \<Rightarrow> int" where
  "commitCursor hdr = to_i64 (Uint64 (slice 8 16 hdr))"

definition writeCursor :: "bytes \<Rightarrow> int" where
  "writeCursor hdr = to_i64 (Uint64 (slice 16 24 hdr))"

definition writtenCount :: "bytes \<Rightarrow> int" where
  "writtenCount hdr = to_i64 (Uint64 (slice 24 32 hdr))"

definition committedCount :: "bytes \<Rightarrow> int" where
  "committedCount hdr = to_i64 (Uint64 (slice 32 40 hdr))"

definition hdrCapacity :: "bytes \<Rightarrow> int" where
  "hdrCapacity hdr = to_i64 (Uint64 (slice 42 50 hdr))"

text \<open>Six raw little-endian bytes, shifted together.\<close>

definition hdrSegSize :: "bytes \<Rightarrow> int" where
  "hdrSegSize hdr = to_i64 (le_nat (slice 50 56 hdr))"

lemmas hdr_get_defs = magic_def version_def oversized_def commitCursor_def writeCursor_def
  writtenCount_def committedCount_def hdrCapacity_def hdrSegSize_def

section \<open>Modifiers\<close>

text \<open>
  The setters of header.go return a function to be applied by \<open>header()\<close>; here each is the
  function on the header bytes, and \<open>header_mods\<close> applies a list of them in order.
\<close>

definition putUint64 :: "nat \<Rightarrow> nat \<Rightarrow> bytes \<Rightarrow> bytes" where
  "putUint64 i v hdr = put_at i (le_put 8 v) hdr"

definition setOversized :: "bytes \<Rightarrow> bytes" where
  "setOversized hdr = put_at 41 [(hdr ! 41) OR flagOversized] hdr"

definition setCommitCursor :: "int \<Rightarrow> bytes \<Rightarrow> bytes" where
  "setCommitCursor v = putUint64 8 (to_u64 v)"

definition setWriteCursor :: "int \<Rightarrow> bytes \<Rightarrow> bytes" where
  "setWriteCursor v = putUint64 16 (to_u64 v)"

definition setWrittenCount :: "int \<Rightarrow> bytes \<Rightarrow> bytes" where
  "setWrittenCount v = putUint64 24 (to_u64 v)"

definition setCommittedCount :: "int \<Rightarrow> bytes \<Rightarrow> bytes" where
  "setCommittedCount v = putUint64 32 (to_u64 v)"

definition setHdrCapacity :: "int \<Rightarrow> bytes \<Rightarrow> bytes" where
  "setHdrCapacity v = putUint64 42 (to_u64 v)"

definition setHdrSegSize :: "int \<Rightarrow> bytes \<Rightarrow> bytes" where
  "setHdrSegSize v hdr = put_at 50 (le_put 6 (to_u64 v)) hdr"

definition initHeader :: "bytes \<Rightarrow> bytes" where
  "initHeader hdr = put_at 40 [formatVersion] (putUint64 0 headerMagic hdr)"

lemmas hdr_set_defs = setOversized_def setCommitCursor_def setWriteCursor_def setWrittenCount_def
  setCommittedCount_def setHdrCapacity_def setHdrSegSize_def initHeader_def putUint64_def

definition setHeaderChecksum :: "hash \<Rightarrow> bytes \<Rightarrow> bytes" where
  "setHeaderChecksum xx hdr = putUint64 56 (unat (xx (take hdrSumCovered hdr))) hdr"

definition headerChecksumOK :: "hash \<Rightarrow> bytes \<Rightarrow> bool" where
  "headerChecksumOK xx hdr \<longleftrightarrow>
     Uint64 (slice 56 64 hdr) = unat (xx (take hdrSumCovered hdr))"

definition header_mods :: "hash \<Rightarrow> (bytes \<Rightarrow> bytes) list \<Rightarrow> bytes \<Rightarrow> bytes" where
  "header_mods xx mods hdr = setHeaderChecksum xx (fold (\<lambda>f h. f h) mods hdr)"

section \<open>The segment structure\<close>

text \<open>
  \<open>dataFile\<close>.  A pointer to one is its segment number: numbers are unique among the live
  segments.  \<open>df_open\<close> says whether the handle \<open>f\<close> is non-nil; \<open>path\<close> is a function of the
  number and is not repeated.  The LRU links are pointers.
\<close>

record dataFile =
  df_num :: nat
  df_open :: bool
  df_hdr :: bytes
  df_diskHeader :: bytes
  df_base :: int
  df_size :: int
  df_capacity :: int
  df_written :: int
  df_committed :: int
  df_lruPrev :: "nat option"
  df_lruNext :: "nat option"
  df_dirty :: bool
  df_writeSeq :: nat
  df_pins :: nat
  df_truncated :: bool
  df_resetCommit :: bool

definition header :: "hash \<Rightarrow> (bytes \<Rightarrow> bytes) list \<Rightarrow> dataFile \<Rightarrow> dataFile" where
  "header xx mods df = df\<lparr>df_hdr := header_mods xx mods (df_hdr df)\<rparr>"

section \<open>Get and set laws\<close>

lemma le64_roundtrip: "le_nat (le_put 8 n) = n mod 2 ^ 64"
  by (simp add: le_nat_put)

lemma to_i64_mod: "to_i64 (n mod 2 ^ 64) = to_i64 n"
  by (simp add: to_i64_def)

lemma to_i64_le64 [simp]: "to_i64 (le_nat (le_put 8 n)) = to_i64 n"
  by (simp add: le64_roundtrip to_i64_mod del: power_numeral)

lemma to_i64_le48: "0 \<le> v \<Longrightarrow> v < 2 ^ 48 \<Longrightarrow> to_i64 (le_nat (le_put 6 (to_u64 v))) = v"
  by (simp add: le_nat_put to_u64_def to_i64_def nat_mod_distrib nat_less_iff)

lemma headerMagic_value: "headerMagic = 7450487942890144087"
  by (simp add: headerMagic_def headerMagicBytes_def)

lemma Uint64_take8 [simp]: "length b = 8 \<Longrightarrow> Uint64 b = le_nat b"
  by (simp add: Uint64_def)

lemma length_modifier [simp]:
  assumes "length hdr = headerSize"
  shows "length (setOversized hdr) = headerSize" "length (setCommitCursor v hdr) = headerSize"
    "length (setWriteCursor v hdr) = headerSize" "length (setWrittenCount v hdr) = headerSize"
    "length (setCommittedCount v hdr) = headerSize" "length (setHdrCapacity v hdr) = headerSize"
    "length (setHdrSegSize v hdr) = headerSize" "length (initHeader hdr) = headerSize"
    "length (setHeaderChecksum xx hdr) = headerSize"
  using assms by (simp_all add: hdr_set_defs setHeaderChecksum_def header_consts)

named_theorems hdr_laws \<open>what each accessor returns after each modifier\<close>

text \<open>A modifier sets its own field.\<close>

lemma hdr_get_set [hdr_laws]:
  assumes "length hdr = headerSize"
  shows "is_i64 v \<Longrightarrow> commitCursor (setCommitCursor v hdr) = v"
    and "is_i64 v \<Longrightarrow> writeCursor (setWriteCursor v hdr) = v"
    and "is_i64 v \<Longrightarrow> writtenCount (setWrittenCount v hdr) = v"
    and "is_i64 v \<Longrightarrow> committedCount (setCommittedCount v hdr) = v"
    and "is_i64 v \<Longrightarrow> hdrCapacity (setHdrCapacity v hdr) = v"
    and "0 \<le> v \<Longrightarrow> v < 2 ^ 48 \<Longrightarrow> hdrSegSize (setHdrSegSize v hdr) = v"
  using assms
  by (simp_all add: hdr_get_defs hdr_set_defs slice_simps header_consts to_i64_to_u64 to_i64_le48)

lemma hdr_get_init [hdr_laws]:
  assumes "length hdr = headerSize"
  shows "magic (initHeader hdr) = headerMagic"
    and "version (initHeader hdr) = formatVersion"
    and "oversized (setOversized hdr)"
  using assms
  by (simp_all add: hdr_get_defs hdr_set_defs slice_simps header_consts
      put_at_nth_same headerMagic_value le64_roundtrip)

text \<open>The fields do not overlap: no modifier changes a field that is not its own.\<close>

lemma magic_set [hdr_laws]:
  assumes "length hdr = headerSize"
  shows "magic (setOversized hdr) = magic hdr" "magic (setCommitCursor v hdr) = magic hdr"
    "magic (setWriteCursor v hdr) = magic hdr" "magic (setWrittenCount v hdr) = magic hdr"
    "magic (setCommittedCount v hdr) = magic hdr" "magic (setHdrCapacity v hdr) = magic hdr"
    "magic (setHdrSegSize v hdr) = magic hdr" "magic (setHeaderChecksum xx hdr) = magic hdr"
  using assms
  by (simp_all add: hdr_get_defs hdr_set_defs setHeaderChecksum_def slice_simps header_consts)

lemma version_set [hdr_laws]:
  assumes "length hdr = headerSize"
  shows "version (setOversized hdr) = version hdr" "version (setCommitCursor v hdr) = version hdr"
    "version (setWriteCursor v hdr) = version hdr" "version (setWrittenCount v hdr) = version hdr"
    "version (setCommittedCount v hdr) = version hdr" "version (setHdrCapacity v hdr) = version hdr"
    "version (setHdrSegSize v hdr) = version hdr" "version (setHeaderChecksum xx hdr) = version hdr"
  using assms
  by (simp_all add: hdr_get_defs hdr_set_defs setHeaderChecksum_def slice_simps header_consts)

lemma oversized_set [hdr_laws]:
  assumes "length hdr = headerSize"
  shows "oversized (setCommitCursor v hdr) = oversized hdr" "oversized (setWriteCursor v hdr) = oversized hdr"
    "oversized (setWrittenCount v hdr) = oversized hdr" "oversized (setCommittedCount v hdr) = oversized hdr"
    "oversized (setHdrCapacity v hdr) = oversized hdr" "oversized (setHdrSegSize v hdr) = oversized hdr"
    "oversized (initHeader hdr) = oversized hdr" "oversized (setHeaderChecksum xx hdr) = oversized hdr"
  using assms
  by (simp_all add: hdr_get_defs hdr_set_defs setHeaderChecksum_def slice_simps header_consts)

lemma commitCursor_set [hdr_laws]:
  assumes "length hdr = headerSize"
  shows "commitCursor (setOversized hdr) = commitCursor hdr" "commitCursor (setWriteCursor v hdr) = commitCursor hdr"
    "commitCursor (setWrittenCount v hdr) = commitCursor hdr" "commitCursor (setCommittedCount v hdr) = commitCursor hdr"
    "commitCursor (setHdrCapacity v hdr) = commitCursor hdr" "commitCursor (setHdrSegSize v hdr) = commitCursor hdr"
    "commitCursor (initHeader hdr) = commitCursor hdr" "commitCursor (setHeaderChecksum xx hdr) = commitCursor hdr"
  using assms
  by (simp_all add: hdr_get_defs hdr_set_defs setHeaderChecksum_def slice_simps header_consts)

lemma writeCursor_set [hdr_laws]:
  assumes "length hdr = headerSize"
  shows "writeCursor (setOversized hdr) = writeCursor hdr" "writeCursor (setCommitCursor v hdr) = writeCursor hdr"
    "writeCursor (setWrittenCount v hdr) = writeCursor hdr" "writeCursor (setCommittedCount v hdr) = writeCursor hdr"
    "writeCursor (setHdrCapacity v hdr) = writeCursor hdr" "writeCursor (setHdrSegSize v hdr) = writeCursor hdr"
    "writeCursor (initHeader hdr) = writeCursor hdr" "writeCursor (setHeaderChecksum xx hdr) = writeCursor hdr"
  using assms
  by (simp_all add: hdr_get_defs hdr_set_defs setHeaderChecksum_def slice_simps header_consts)

lemma writtenCount_set [hdr_laws]:
  assumes "length hdr = headerSize"
  shows "writtenCount (setOversized hdr) = writtenCount hdr" "writtenCount (setCommitCursor v hdr) = writtenCount hdr"
    "writtenCount (setWriteCursor v hdr) = writtenCount hdr" "writtenCount (setCommittedCount v hdr) = writtenCount hdr"
    "writtenCount (setHdrCapacity v hdr) = writtenCount hdr" "writtenCount (setHdrSegSize v hdr) = writtenCount hdr"
    "writtenCount (initHeader hdr) = writtenCount hdr" "writtenCount (setHeaderChecksum xx hdr) = writtenCount hdr"
  using assms
  by (simp_all add: hdr_get_defs hdr_set_defs setHeaderChecksum_def slice_simps header_consts)

lemma committedCount_set [hdr_laws]:
  assumes "length hdr = headerSize"
  shows "committedCount (setOversized hdr) = committedCount hdr" "committedCount (setCommitCursor v hdr) = committedCount hdr"
    "committedCount (setWriteCursor v hdr) = committedCount hdr" "committedCount (setWrittenCount v hdr) = committedCount hdr"
    "committedCount (setHdrCapacity v hdr) = committedCount hdr" "committedCount (setHdrSegSize v hdr) = committedCount hdr"
    "committedCount (initHeader hdr) = committedCount hdr" "committedCount (setHeaderChecksum xx hdr) = committedCount hdr"
  using assms
  by (simp_all add: hdr_get_defs hdr_set_defs setHeaderChecksum_def slice_simps header_consts)

lemma hdrCapacity_set [hdr_laws]:
  assumes "length hdr = headerSize"
  shows "hdrCapacity (setOversized hdr) = hdrCapacity hdr" "hdrCapacity (setCommitCursor v hdr) = hdrCapacity hdr"
    "hdrCapacity (setWriteCursor v hdr) = hdrCapacity hdr" "hdrCapacity (setWrittenCount v hdr) = hdrCapacity hdr"
    "hdrCapacity (setCommittedCount v hdr) = hdrCapacity hdr" "hdrCapacity (setHdrSegSize v hdr) = hdrCapacity hdr"
    "hdrCapacity (initHeader hdr) = hdrCapacity hdr" "hdrCapacity (setHeaderChecksum xx hdr) = hdrCapacity hdr"
  using assms
  by (simp_all add: hdr_get_defs hdr_set_defs setHeaderChecksum_def slice_simps header_consts)

lemma hdrSegSize_set [hdr_laws]:
  assumes "length hdr = headerSize"
  shows "hdrSegSize (setOversized hdr) = hdrSegSize hdr" "hdrSegSize (setCommitCursor v hdr) = hdrSegSize hdr"
    "hdrSegSize (setWriteCursor v hdr) = hdrSegSize hdr" "hdrSegSize (setWrittenCount v hdr) = hdrSegSize hdr"
    "hdrSegSize (setCommittedCount v hdr) = hdrSegSize hdr" "hdrSegSize (setHdrCapacity v hdr) = hdrSegSize hdr"
    "hdrSegSize (initHeader hdr) = hdrSegSize hdr" "hdrSegSize (setHeaderChecksum xx hdr) = hdrSegSize hdr"
  using assms
  by (simp_all add: hdr_get_defs hdr_set_defs setHeaderChecksum_def slice_simps header_consts)

lemma headerChecksumOK_set [hdr_laws]:
  assumes "length hdr = headerSize"
  shows "headerChecksumOK xx (setHeaderChecksum xx hdr)"
proof -
  have "take 56 (putUint64 56 v hdr) = take 56 hdr" for v
    using assms by (simp add: putUint64_def put_at_def header_consts)
  moreover have "unat (xx b) mod 2 ^ 64 = unat (xx b)" for b
    using unsigned_less [of "xx b", where ?'a = nat] by simp
  ultimately show ?thesis using assms
    by (simp add: headerChecksumOK_def setHeaderChecksum_def hdrSumCovered_def putUint64_def
        slice_simps headerSize_def le64_roundtrip del: power_numeral)
qed

lemma length_fold_mods:
  "\<forall>f \<in> set mods. \<forall>h. length h = headerSize \<longrightarrow> length (f h) = headerSize \<Longrightarrow>
   length hdr = headerSize \<Longrightarrow> length (fold (\<lambda>f h. f h) mods hdr) = headerSize"
  by (induction mods arbitrary: hdr) auto

lemma length_header_mods:
  "\<forall>f \<in> set mods. \<forall>h. length h = headerSize \<longrightarrow> length (f h) = headerSize \<Longrightarrow>
   length hdr = headerSize \<Longrightarrow> length (header_mods xx mods hdr) = headerSize"
  by (simp add: header_mods_def length_fold_mods)

section \<open>Properties of the header\<close>

text \<open>
  Every header image the store publishes goes through \<open>header()\<close> with cursor and count
  modifiers.  Such an image reads back exactly what was set, passes its checksum, and keeps
  every other field.
\<close>

text \<open>
  C27: publishing a cursor/count update through \<open>header()\<close> is a faithful round trip: the four
  fields read back as set for every \<open>int64\<close> value, the checksum verifies, and magic, version,
  flags and both geometry fields keep their values.
\<close>

theorem header_update_roundtrip:
  assumes len: "length hdr = headerSize"
    and rng: "is_i64 cc" "is_i64 wc" "is_i64 w" "is_i64 c"
    and new: "hdr' = header_mods xx [setWriteCursor wc, setWrittenCount w, setCommitCursor cc,
                setCommittedCount c] hdr"
  shows "writeCursor hdr' = wc \<and> writtenCount hdr' = w \<and> commitCursor hdr' = cc \<and>
    committedCount hdr' = c \<and> headerChecksumOK xx hdr' \<and> length hdr' = headerSize \<and>
    magic hdr' = magic hdr \<and> version hdr' = version hdr \<and> oversized hdr' = oversized hdr \<and>
    hdrCapacity hdr' = hdrCapacity hdr \<and> hdrSegSize hdr' = hdrSegSize hdr"
  unfolding new header_mods_def using len rng by (simp add: hdr_laws)

theorem header_update_roundtrip_witness:
  "let hdr = replicate 64 (7::byte); xx = (\<lambda>b. of_nat (length b)) in
   writeCursor (header_mods xx [setWriteCursor 100, setWrittenCount 3, setCommitCursor (- 1),
      setCommittedCount 2] hdr) = 100"
  using header_update_roundtrip [of "replicate 64 7" "- 1" 100 3 2 _ "\<lambda>b. of_nat (length b)", OF _ _ _ _ _ refl]
  by (simp add: headerSize_def is_i64_def Let_def)

text \<open>
  A header rewrite is an overwrite in place, and a power cut can leave any interleaving of the
  old and the new bytes.  The cursor and count fields then hold garbage, but magic and version
  are identical in both images, so every interleaving still identifies the segment: this is the
  fact that lets recovery tell a torn header from a foreign file.
\<close>

lemma mix_slice:
  assumes "length old = n" "length new = n" "length mix = n" "j \<le> n"
    and mix: "\<And>k. k < n \<Longrightarrow> mix ! k = old ! k \<or> mix ! k = new ! k"
    and same: "slice i j old = slice i j new"
  shows "slice i j mix = slice i j old"
proof (rule nth_equalityI)
  show "length (slice i j mix) = length (slice i j old)" using assms by simp
next
  fix k assume "k < length (slice i j mix)"
  then have k: "k < j - i" "i + k < n" using assms by auto
  have "slice i j old ! k = old ! (i + k)" "slice i j new ! k = new ! (i + k)"
    "slice i j mix ! k = mix ! (i + k)"
    using k assms(1-3) by (simp_all add: nth_slice)
  with mix [OF k(2)] same show "slice i j mix ! k = slice i j old ! k" by auto
qed

lemma header_mods_keep:
  assumes "length hdr = headerSize"
    and "hdr' = header_mods xx [setWriteCursor wc, setWrittenCount w, setCommitCursor cc,
           setCommittedCount c] hdr"
  shows "slice 0 8 hdr' = slice 0 8 hdr" "slice 40 56 hdr' = slice 40 56 hdr"
  using assms by (simp_all add: header_mods_def setHeaderChecksum_def hdr_set_defs slice_simps header_consts)

lemma version_slice: "length hdr = headerSize \<Longrightarrow> version hdr = slice 40 56 hdr ! 0"
  by (simp add: version_def slice_def headerSize_def)

text \<open>C26: any byte-wise interleaving of an old header image and its cursor/count update keeps
  magic, version and the geometry fields.\<close>

theorem torn_header_identifies:
  assumes len: "length hdr = headerSize" "length mix = headerSize"
    and new: "hdr' = header_mods xx [setWriteCursor wc, setWrittenCount w, setCommitCursor cc,
                setCommittedCount c] hdr"
    and mix: "\<And>k. k < headerSize \<Longrightarrow> mix ! k = hdr ! k \<or> mix ! k = hdr' ! k"
  shows "magic mix = magic hdr \<and> version mix = version hdr \<and>
    hdrCapacity mix = hdrCapacity hdr \<and> hdrSegSize mix = hdrSegSize hdr"
proof -
  have len': "length hdr' = headerSize"
    unfolding new header_mods_def using len(1) by simp
  have s1: "slice 0 8 mix = slice 0 8 hdr"
    by (rule mix_slice [OF len(1) len' len(2) _ mix])
      (use header_mods_keep [OF len(1) new] in \<open>simp_all add: headerSize_def\<close>)
  have s2: "slice 40 56 mix = slice 40 56 hdr"
    by (rule mix_slice [OF len(1) len' len(2) _ mix])
      (use header_mods_keep [OF len(1) new] in \<open>simp_all add: headerSize_def\<close>)
  have "slice 42 50 h = slice 2 10 (slice 40 56 h)" "slice 50 56 h = slice 10 16 (slice 40 56 h)" for h :: bytes
    by (simp_all add: slice_slice)
  with s1 s2 len show ?thesis
    by (simp add: magic_def version_slice hdrCapacity_def hdrSegSize_def)
qed

theorem torn_header_identifies_witness:
  "\<exists>mix hdr'. hdr' = header_mods (\<lambda>b. 0) [setWriteCursor 70, setWrittenCount 1, setCommitCursor 64,
      setCommittedCount 0] (replicate headerSize 1) \<and> mix = take 20 (replicate headerSize 1) @ drop 20 hdr' \<and>
      version mix = 1"
proof -
  let ?h = "replicate headerSize 1 :: bytes"
  let ?h' = "header_mods (\<lambda>b. 0) [setWriteCursor 70, setWrittenCount 1, setCommitCursor 64,
      setCommittedCount 0] ?h"
  let ?mix = "take 20 ?h @ drop 20 ?h'"
  have len: "length ?h' = headerSize" by (simp add: header_mods_def)
  then have lm: "length ?mix = headerSize" by (simp add: headerSize_def)
  have mix: "?mix ! k = ?h ! k \<or> ?mix ! k = ?h' ! k" if "k < headerSize" for k
    using that len by (auto simp: nth_append headerSize_def)
  have "version ?mix = version ?h"
    using torn_header_identifies [OF length_replicate lm refl mix] by blast
  then show ?thesis by (simp add: version_def headerSize_def)
qed

end
