(* ===== verification/Frame.thy ===== *)
theory Frame
  imports Header
begin

text \<open>
  The record frame of record.go, the part that is arithmetic on bytes: the unsigned varint of
  package encoding/binary, the framed length every admission decision uses, the overflow-free
  guard on a decoded length, the frame \<open>writeRecord\<close> lays down, and a reference decoder that
  says what bytes mean when they are read straight from a segment's data region.
\<close>

section \<open>Unsigned varints\<close>

text \<open>\<open>uvarintLen\<close>: the \<open>for x >= 0x80\<close> loop, and \<open>binary.PutUvarint\<close>, whose bytes it counts.\<close>

fun uvarintLen :: "nat \<Rightarrow> nat" where
  "uvarintLen x = (if x \<ge> 128 then Suc (uvarintLen (x div 128)) else 1)"

fun PutUvarint :: "nat \<Rightarrow> bytes" where
  "PutUvarint x = (if x \<ge> 128 then of_nat (x mod 128 + 128) # PutUvarint (x div 128) else [of_nat x])"

declare uvarintLen.simps [simp del] PutUvarint.simps [simp del]

definition MaxVarintLen64 :: nat where "MaxVarintLen64 = 10"

text \<open>
  \<open>binary.Uvarint\<close>: the loop over the buffer with index \<open>i\<close>, accumulator \<open>x\<close> (a \<open>uint64\<close>) and
  shift \<open>s = 7 * i\<close>.  The second component is the number of bytes read, 0 when the buffer ends
  too early and negative on overflow.
\<close>

fun uvarint_loop :: "nat \<Rightarrow> nat \<Rightarrow> bytes \<Rightarrow> nat \<times> int" where
  "uvarint_loop i x [] = (0, 0)"
| "uvarint_loop i x (b # bs) =
     (if i = MaxVarintLen64 then (0, - (int i + 1))
      else if b < 0x80 then
        (if i = MaxVarintLen64 - 1 \<and> b > 1 then (0, - (int i + 1))
         else (x OR take_bit 64 (push_bit (7 * i) (unat b)), int i + 1))
      else uvarint_loop (Suc i) (x OR take_bit 64 (push_bit (7 * i) (unat (b AND 0x7f)))) bs)"

definition Uvarint :: "bytes \<Rightarrow> nat \<times> int" where
  "Uvarint buf = uvarint_loop 0 0 buf"

section \<open>Lengths and guards\<close>

definition framedLen :: "nat \<Rightarrow> int" where
  "framedLen L = int (uvarintLen L) + int L + int checksumSize"

definition maxFramedLen :: int where
  "maxFramedLen = maxInt64"

definition framedTooLarge :: "int \<Rightarrow> int \<Rightarrow> bool" where
  "framedTooLarge framed maxInt \<longleftrightarrow> framed > maxInt"

text \<open>All arithmetic here is on \<open>uint64\<close>, where \<open>+\<close> wraps.\<close>

definition fitsWithin :: "u64 \<Rightarrow> int \<Rightarrow> int \<Rightarrow> u64 \<Rightarrow> bool" where
  "fitsWithin v n avail maxInt \<longleftrightarrow>
     v \<le> word_of_int avail \<and>
     word_of_int n + v + of_nat checksumSize \<le> min (word_of_int avail) maxInt"

definition fitsInRecord :: "u64 \<Rightarrow> int \<Rightarrow> int \<Rightarrow> bool" where
  "fitsInRecord v n avail = fitsWithin v n avail (drop_bit 1 (- 1))"

section \<open>The frame and its reference decoder\<close>

text \<open>The bytes \<open>writeRecord\<close> assembles in \<open>writeBuf\<close>.\<close>

definition frame :: "hash \<Rightarrow> bytes \<Rightarrow> bytes" where
  "frame xx payload =
     PutUvarint (length payload) @ payload @ le_put 8 (unat (xx payload))"

text \<open>
  \<open>frame_at bs\<close> decodes the frame that starts \<open>bs\<close>, where \<open>bs\<close> is what is left of the published
  data region: the prefix width, the payload length and the total length, or \<open>None\<close> when the
  bytes cannot be trusted to frame a record inside the region (\<open>frameHeader\<close>'s verdict).
\<close>

definition frame_hdr :: "bytes \<Rightarrow> int \<Rightarrow> (nat \<times> nat) option" where
  "frame_hdr probe avail =
     (case Uvarint probe of (v, n) \<Rightarrow>
        if n \<le> 0 \<or> \<not> fitsInRecord (of_nat v) n avail then None
        else Some (nat n, nat n + v + checksumSize))"

definition frame_at :: "bytes \<Rightarrow> (nat \<times> nat) option" where
  "frame_at bs = frame_hdr (take MaxVarintLen64 bs) (int (length bs))"

definition frame_payload :: "nat \<Rightarrow> nat \<Rightarrow> bytes \<Rightarrow> bytes" where
  "frame_payload n tot bs = slice n (tot - checksumSize) bs"

definition frame_sum :: "nat \<Rightarrow> bytes \<Rightarrow> nat" where
  "frame_sum tot bs = Uint64 (slice (tot - checksumSize) tot bs)"

section \<open>Facts about varints\<close>

lemma uvarintLen_small [simp]: "x < 128 \<Longrightarrow> uvarintLen x = 1"
  by (simp add: uvarintLen.simps)

lemma uvarintLen_pos [simp]: "0 < uvarintLen x"
  by (subst uvarintLen.simps) simp

lemma length_PutUvarint [simp]: "length (PutUvarint x) = uvarintLen x"
  by (induction x rule: PutUvarint.induct) (simp add: PutUvarint.simps uvarintLen.simps)

lemma uvarintLen_bound: "x < 128 ^ k \<Longrightarrow> 0 < k \<Longrightarrow> uvarintLen x \<le> k"
proof (induction k arbitrary: x)
  case (Suc k)
  show ?case
  proof (cases "x < 128")
    case False
    then have "0 < k" using Suc.prems by (cases k) auto
    moreover have "x div 128 < 128 ^ k" using Suc.prems by (simp add: less_mult_imp_div_less mult.commute)
    ultimately show ?thesis using False Suc.IH by (simp add: uvarintLen.simps [of x])
  qed simp
qed simp

lemma uvarintLen_max: "x < 2 ^ 64 \<Longrightarrow> uvarintLen x \<le> MaxVarintLen64"
  by (rule order_trans [OF uvarintLen_bound [of x 10]]) (auto simp: MaxVarintLen64_def)

lemma or_shift: "x < 2 ^ s \<Longrightarrow> x OR push_bit s y = x + y * 2 ^ s" for x y :: nat
proof -
  assume x: "x < 2 ^ s"
  have "\<not> bit x n \<or> \<not> bit (push_bit s y) n" for n
  proof (cases "n < s")
    case False
    with x have "x < 2 ^ n" by (meson le_less_trans less_le_not_le linorder_not_less one_le_numeral power_increasing)
    then show ?thesis by (simp add: bit_iff_odd)
  qed (simp add: bit_push_bit_iff)
  then have "x + push_bit s y = x OR push_bit s y" by (intro disjunctive_add) auto
  then show ?thesis by (simp add: push_bit_eq_mult)
qed

lemma or_shift64: "x < 2 ^ s \<Longrightarrow> y * 2 ^ s < 2 ^ 64 \<Longrightarrow>
    x OR take_bit 64 (push_bit s y) = x + y * 2 ^ s" for x y :: nat
  using or_shift [of x s y] by (simp add: take_bit_eq_mod push_bit_eq_mult)

lemma unat_low7: "unat (b AND 0x7f) = unat b mod 128" for b :: byte
proof -
  have "b AND 0x7f = take_bit 7 b" by (simp add: take_bit_eq_mask mask_eq_exp_minus_1)
  also have "unat (take_bit 7 b) = take_bit 7 (unat b)" by (rule unsigned_take_bit_eq)
  finally show ?thesis by (simp add: take_bit_eq_mod)
qed

lemma unat_cont_byte: "unat (of_nat (x mod 128 + 128) :: byte) = x mod 128 + 128"
proof -
  have "x mod 128 + 128 < 256" using mod_less_divisor [of 128 x] by linarith
  then show ?thesis by (simp only: unat_of_nat) simp
qed

lemma unat_cont_byte' [simp]: "unat (of_nat (x mod 128) + 128 :: byte) = x mod 128 + 128"
  using unat_cont_byte [of x] by simp

lemma unat_last_byte: "x < 128 \<Longrightarrow> unat (of_nat x :: byte) = x"
  by (simp add: unat_of_nat)

lemma byte_lt_80: "b < 0x80 \<longleftrightarrow> unat b < 128" for b :: byte
  by (simp add: word_less_nat_alt)

lemma byte_gt_1: "b > 1 \<longleftrightarrow> unat b > 1" for b :: byte
  by (simp add: word_less_nat_alt)

lemma uvarint_loop_put:
  "i \<le> 9 \<Longrightarrow> x < 2 ^ (7 * i) \<Longrightarrow> y < 2 ^ (64 - 7 * i) \<Longrightarrow>
   uvarint_loop i x (PutUvarint y @ rest) = (x + y * 2 ^ (7 * i), int i + int (uvarintLen y))"
proof (induction y arbitrary: i x rule: PutUvarint.induct)
  case (1 y)
  have split64: "(2::nat) ^ (64 - 7 * i) * 2 ^ (7 * i) = 2 ^ 64"
    using "1.prems"(1) by (simp flip: power_add)
  have y64: "y * 2 ^ (7 * i) < 2 ^ 64"
    using mult_strict_right_mono [OF "1.prems"(3), of "2 ^ (7 * i)"] split64 by simp
  show ?case
  proof (cases "y \<ge> 128")
    case True
    have i8: "i \<le> 8"
    proof (rule ccontr)
      assume "\<not> i \<le> 8"
      with "1.prems" have "i = 9" by simp
      with "1.prems"(3) True show False by simp
    qed
    let ?x' = "x + (y mod 128) * 2 ^ (7 * i)"
    have "(y mod 128) * 2 ^ (7 * i) < 2 ^ 64"
      using y64 by (meson le_less_trans mod_less_eq_dividend mult_le_mono1)
    then have or: "x OR take_bit 64 (push_bit (7 * i) (y mod 128)) = ?x'"
      using or_shift64 "1.prems"(2) by simp
    have "?x' < 2 ^ (7 * i) + (y mod 128) * 2 ^ (7 * i)" using "1.prems"(2) by simp
    also have "\<dots> = (1 + y mod 128) * 2 ^ (7 * i)" by simp
    also have "\<dots> \<le> 128 * 2 ^ (7 * i)" by (rule mult_le_mono1) (simp add: Suc_leI)
    finally have x': "?x' < 2 ^ (7 * Suc i)" by (simp add: power_add)
    have e: "64 - 7 * i = (64 - 7 * Suc i) + 7" using i8 by simp
    have "(2::nat) ^ (64 - 7 * i) = 2 ^ (64 - 7 * Suc i) * 128" by (subst e, subst power_add) simp
    with "1.prems"(3) have "y < 2 ^ (64 - 7 * Suc i) * 128" by (simp only:)
    then have y': "y div 128 < 2 ^ (64 - 7 * Suc i)" by (simp add: less_mult_imp_div_less)
    have "uvarint_loop i x (PutUvarint y @ rest) = uvarint_loop (Suc i) ?x' (PutUvarint (y div 128) @ rest)"
      using True i8 or
      by (simp add: PutUvarint.simps [of y] MaxVarintLen64_def byte_lt_80 unat_cont_byte unat_low7)
    also have "\<dots> = (?x' + (y div 128) * 2 ^ (7 * Suc i), int (Suc i) + int (uvarintLen (y div 128)))"
      using "1.IH" [OF True, of "Suc i" ?x'] i8 x' y' by simp
    also have "?x' + (y div 128) * 2 ^ (7 * Suc i) = x + (y mod 128 + 128 * (y div 128)) * 2 ^ (7 * i)"
      by (simp only: mult_Suc_right power_add distrib_right) simp
    finally show ?thesis using True by (simp add: uvarintLen.simps [of y])
  next
    case False
    have "i = 9 \<Longrightarrow> y < 2" using "1.prems"(3) by simp
    then show ?thesis
      using False "1.prems" or_shift64 [OF "1.prems"(2) y64]
      by (auto simp: PutUvarint.simps [of y] MaxVarintLen64_def byte_lt_80 byte_gt_1 unat_last_byte)
  qed
qed

lemma Uvarint_put: "x < 2 ^ 64 \<Longrightarrow> Uvarint (PutUvarint x @ rest) = (x, int (uvarintLen x))"
  by (simp add: Uvarint_def uvarint_loop_put)

section \<open>The length guard\<close>

lemma uint_i64: "0 \<le> a \<Longrightarrow> a < 2 ^ 63 \<Longrightarrow> uint (word_of_int a :: u64) = a"
  by (simp add: uint_word_of_int)

text \<open>
  The guard means what it says over the integers.  The decoded length \<open>v\<close> is an arbitrary
  \<open>uint64\<close>, so the sum could wrap; the first comparison is what rules it out.
\<close>

lemma fitsWithin_iff:
  assumes avail: "0 \<le> avail" "avail < 2 ^ 63" and n: "0 < n" "n \<le> int MaxVarintLen64"
  shows "fitsWithin v n avail maxInt \<longleftrightarrow>
     uint v + n + int checksumSize \<le> min avail (uint maxInt)"
proof -
  have a: "uint (word_of_int avail :: u64) = avail" using uint_i64 avail by blast
  have min: "uint (min (word_of_int avail) maxInt) = min avail (uint maxInt)"
    using a by (auto simp: min_def word_le_def)
  show ?thesis
  proof (cases "uint v \<le> avail")
    case True
    have nn: "uint (word_of_int n :: u64) = n" using n by (simp add: uint_i64 MaxVarintLen64_def)
    have "uint (word_of_int n + v) = n + uint v"
      using True avail n nn by (subst uint_add_lem [THEN iffD1]) (auto simp: MaxVarintLen64_def)
    then have "uint (word_of_int n + v + of_nat checksumSize) = uint v + n + int checksumSize"
      using True avail n by (subst uint_add_lem [THEN iffD1]) (auto simp: MaxVarintLen64_def checksumSize_def)
    then show ?thesis using True a min
      by (simp add: fitsWithin_def word_le_def)
  next
    case False
    then show ?thesis using a n by (auto simp: fitsWithin_def word_le_def)
  qed
qed

text \<open>
  C30: for every 64-bit length a corrupt prefix can decode to, the guard accepts exactly when
  the whole frame fits both the bytes left in the segment and the platform's int, with the sum
  taken without wrap-around.
\<close>

theorem fitsWithin_exact:
  assumes avail: "0 \<le> avail" "avail < 2 ^ 63" and n: "0 < n" "n \<le> int MaxVarintLen64"
  shows "fitsWithin v n avail maxInt \<longleftrightarrow>
     uint v + n + int checksumSize \<le> min avail (uint maxInt)"
  using assms by (rule fitsWithin_iff)

theorem fitsWithin_exact_witness:
  "\<not> fitsWithin (2 ^ 64 - 20) 10 4096 (2 ^ 31 - 1) \<and> fitsWithin 100 1 4096 (2 ^ 31 - 1)"
  using fitsWithin_exact [of 4096 10 "2 ^ 64 - 20" "2 ^ 31 - 1"]
    fitsWithin_exact [of 4096 1 100 "2 ^ 31 - 1"]
  by (simp add: MaxVarintLen64_def checksumSize_def)

lemma fitsInRecord_exact:
  assumes "0 \<le> avail" "avail < 2 ^ 63" "0 < n" "n \<le> int MaxVarintLen64"
  shows "fitsInRecord v n avail \<longleftrightarrow> uint v + n + int checksumSize \<le> avail"
proof -
  have "uint (drop_bit 1 (- 1) :: u64) = 2 ^ 63 - 1" by (simp add: drop_bit_eq_div)
  with assms show ?thesis by (simp add: fitsInRecord_def fitsWithin_iff)
qed

section \<open>Encoding and decoding a frame\<close>

lemma length_frame: "int (length (frame xx p)) = framedLen (length p)"
  by (simp add: frame_def framedLen_def checksumSize_def)

lemma framedLen_pos: "framedLen L > int L" "framedLen L \<ge> 9"
  using uvarintLen_pos [of L] unfolding framedLen_def checksumSize_def by linarith+

lemma frame_nonempty [simp]: "frame xx p \<noteq> []"
proof
  assume "frame xx p = []"
  then have "framedLen (length p) = 0" using length_frame [of xx p] by simp
  then show False using framedLen_pos(2) [of "length p"] by simp
qed

lemma uvarint_loop_take:
  "i \<le> MaxVarintLen64 \<Longrightarrow> k = MaxVarintLen64 - i \<Longrightarrow> snd (uvarint_loop i x bs) > 0 \<Longrightarrow>
   uvarint_loop i x (take k bs) = uvarint_loop i x bs"
proof (induction i x bs arbitrary: k rule: uvarint_loop.induct)
  case (2 i x b bs)
  show ?case
  proof (cases "i = MaxVarintLen64")
    case False
    with "2.prems" have k: "k = Suc (MaxVarintLen64 - Suc i)" by simp
    show ?thesis
    proof (cases "b < 0x80")
      case True
      then show ?thesis using False k by simp
    next
      case nl: False
      then have "snd (uvarint_loop (Suc i) (x OR take_bit 64 (push_bit (7 * i) (unat (b AND 0x7f)))) bs) > 0"
        using "2.prems" False by simp
      then have "uvarint_loop (Suc i) (x OR take_bit 64 (push_bit (7 * i) (unat (b AND 0x7f))))
          (take (MaxVarintLen64 - Suc i) bs) =
        uvarint_loop (Suc i) (x OR take_bit 64 (push_bit (7 * i) (unat (b AND 0x7f)))) bs"
        using "2.IH" [OF False nl _ refl] "2.prems" False by simp
      then show ?thesis unfolding k take_Suc_Cons using False nl by simp
    qed
  qed (use "2.prems" in simp)
qed simp

lemma uvarint_loop_n_bound:
  "i \<le> MaxVarintLen64 \<Longrightarrow> snd (uvarint_loop i x bs) \<le> int MaxVarintLen64"
  by (induction i x bs rule: uvarint_loop.induct) (auto simp: MaxVarintLen64_def)

lemma Uvarint_n_bound: "snd (Uvarint bs) \<le> int MaxVarintLen64"
  by (simp add: Uvarint_def uvarint_loop_n_bound)

lemma or64_bound: "x < 2 ^ 64 \<Longrightarrow> x OR take_bit 64 y < 2 ^ 64" for x y :: nat
proof -
  assume "x < 2 ^ 64"
  then have "take_bit 64 x = x" by (simp add: take_bit_nat_eq_self_iff)
  then have "take_bit 64 (x OR take_bit 64 y) = x OR take_bit 64 y" by simp
  then show ?thesis using take_bit_nat_less_exp [of 64] by metis
qed

lemma uvarint_loop_u64: "x < 2 ^ 64 \<Longrightarrow> fst (uvarint_loop i x bs) < 2 ^ 64"
proof (induction i x bs rule: uvarint_loop.induct)
  case (2 i x b bs)
  then show ?case by (simp add: or64_bound del: power_numeral)
qed simp

lemma Uvarint_u64: "fst (Uvarint bs) < 2 ^ 64"
  unfolding Uvarint_def by (rule uvarint_loop_u64) simp

lemma Uvarint_take: "snd (Uvarint bs) > 0 \<Longrightarrow> Uvarint (take MaxVarintLen64 bs) = Uvarint bs"
  unfolding Uvarint_def by (rule uvarint_loop_take) auto

lemma frame_at_frame:
  assumes "int (length (frame xx p @ rest)) < 2 ^ 63"
  shows "frame_at (frame xx p @ rest) = Some (uvarintLen (length p), length (frame xx p))"
proof -
  let ?bs = "frame xx p @ rest"
  have len: "length (frame xx p) = uvarintLen (length p) + length p + checksumSize"
    by (simp add: frame_def checksumSize_def)
  then have L: "length p < 2 ^ 63" using assms by simp
  have uv: "Uvarint ?bs = (length p, int (uvarintLen (length p)))"
    using Uvarint_put [of "length p"] L by (simp add: frame_def)
  then have "Uvarint (take MaxVarintLen64 ?bs) = (length p, int (uvarintLen (length p)))"
    using Uvarint_take [of ?bs] by simp
  moreover have "uint (of_nat (length p) :: u64) = int (length p)"
    using L by (simp add: uint_nat unat_of_nat)
  moreover have "int (uvarintLen (length p)) \<le> int MaxVarintLen64"
    using uvarintLen_max [of "length p"] L by simp
  ultimately show ?thesis
    using assms len by (simp add: frame_at_def frame_hdr_def fitsInRecord_exact)
qed

lemma frame_payload_frame:
  "frame_payload (uvarintLen (length p)) (length (frame xx p)) (frame xx p @ rest) = p"
  by (simp add: frame_payload_def frame_def slice_def checksumSize_def)

lemma frame_sum_frame: "frame_sum (length (frame xx p)) (frame xx p @ rest) = unat (xx p)"
proof -
  have "unat (xx p) mod 2 ^ 64 = unat (xx p)"
    using unsigned_less [of "xx p", where ?'a = nat] by simp
  then show ?thesis
    by (simp add: frame_sum_def frame_def slice_def checksumSize_def le64_roundtrip del: power_numeral)
qed

text \<open>A decoded frame lies inside the region it was decoded from.\<close>

lemma frame_hdr_bounds:
  assumes "frame_hdr probe avail = Some (n, tot)" "0 \<le> avail" "avail < 2 ^ 63"
  shows "0 < n" "n \<le> MaxVarintLen64" "n + checksumSize \<le> tot" "int tot \<le> avail"
proof -
  obtain v m where uv: "Uvarint probe = (v, m)" by force
  have m: "m \<le> int MaxVarintLen64" using Uvarint_n_bound [of probe] uv by simp
  from assms(1) uv have pos: "m > 0" and fits: "fitsInRecord (of_nat v) m avail"
    and n: "n = nat m" and tot: "tot = nat m + v + checksumSize"
    by (auto simp: frame_hdr_def split: if_splits)
  show "0 < n" "n \<le> MaxVarintLen64" "n + checksumSize \<le> tot" using n m pos tot by auto
  from fits have "uint (of_nat v :: u64) + m + int checksumSize \<le> avail"
    using fitsInRecord_exact assms pos m by blast
  moreover have "uint (of_nat v :: u64) = int v"
    using Uvarint_u64 [of probe] uv by (simp add: uint_nat unat_of_nat)
  ultimately show "int tot \<le> avail" using n tot pos by simp
qed

section \<open>Properties of the frame\<close>

text \<open>
  C31: a varint written by \<open>PutUvarint\<close> reads back as the same \<open>uint64\<close>, whatever follows it,
  and occupies \<open>uvarintLen\<close> bytes, at most ten.
\<close>

theorem uvarint_roundtrip:
  assumes "x < 2 ^ 64"
  shows "Uvarint (PutUvarint x @ rest) = (x, int (uvarintLen x)) \<and>
    length (PutUvarint x) = uvarintLen x \<and> uvarintLen x \<le> MaxVarintLen64"
  using assms by (simp add: Uvarint_put uvarintLen_max del: power_numeral)

theorem uvarint_roundtrip_witness:
  "(300::nat) < 2 ^ 64 \<and> Uvarint (PutUvarint 300 @ [1, 2]) = (300, int (uvarintLen 300))"
  using uvarint_roundtrip [of 300 "[1, 2]"] by simp

text \<open>
  C25: a frame laid down by \<open>writeRecord\<close> decodes, at the start of any region shorter than
  $2^{63}$ bytes, to exactly its payload, its checksum and its length, and that length is what
  \<open>framedLen\<close> reports to every admission and cycling decision.
\<close>

theorem frame_roundtrip:
  assumes "int (length (frame xx p @ rest)) < 2 ^ 63"
  shows "\<exists>n tot. frame_at (frame xx p @ rest) = Some (n, tot) \<and>
    frame_payload n tot (frame xx p @ rest) = p \<and>
    frame_sum tot (frame xx p @ rest) = unat (xx p) \<and>
    drop tot (frame xx p @ rest) = rest \<and> int tot = framedLen (length p)"
  using frame_at_frame [OF assms] frame_payload_frame frame_sum_frame length_frame by fastforce

theorem frame_roundtrip_witness:
  "\<exists>n tot. frame_at (frame (\<lambda>_. 5) [1, 2, 3] @ [0, 0]) = Some (n, tot) \<and>
     frame_payload n tot (frame (\<lambda>_. 5) [1, 2, 3] @ [0, 0]) = [1, 2, 3]"
  using frame_roundtrip [of "\<lambda>_. 5" "[1, 2, 3]" "[0, 0]"]
  by (simp add: frame_def uvarintLen.simps) blast

section \<open>A region of frames\<close>

text \<open>
  \<open>records xx bs\<close> decodes a whole data region: \<open>Some ps\<close> when it is exactly a sequence of
  frames that decode and verify, \<open>None\<close> otherwise.
\<close>

function records :: "hash \<Rightarrow> bytes \<Rightarrow> bytes list option" where
  "records xx bs =
     (if bs = [] then Some []
      else case frame_at bs of
        None \<Rightarrow> None
      | Some (n, tot) \<Rightarrow>
          if 0 < tot \<and> tot \<le> length bs \<and> frame_sum tot bs = unat (xx (frame_payload n tot bs))
          then map_option (Cons (frame_payload n tot bs)) (records xx (drop tot bs))
          else None)"
  by pat_completeness auto
termination
  by (relation "measure (\<lambda>(xx, bs). length bs)") auto

declare records.simps [simp del]

definition frames :: "hash \<Rightarrow> bytes list \<Rightarrow> bytes" where
  "frames xx ps = concat (map (frame xx) ps)"

lemma frames_simps [simp]:
  "frames xx [] = []" "frames xx (p # ps) = frame xx p @ frames xx ps"
  "frames xx (ps @ qs) = frames xx ps @ frames xx qs"
  by (simp_all add: frames_def)

lemma records_frames: "int (length (frames xx ps)) < 2 ^ 63 \<Longrightarrow> records xx (frames xx ps) = Some ps"
proof (induction ps)
  case Nil
  show ?case by (simp add: records.simps)
next
  case (Cons p ps)
  then have "frame_at (frames xx (p # ps)) = Some (uvarintLen (length p), length (frame xx p))"
    using frame_at_frame by simp
  moreover have "records xx (frames xx ps) = Some ps" using Cons by simp
  ultimately show ?case
    by (simp add: records.simps [of xx "frame xx p @ frames xx ps"] frame_payload_frame frame_sum_frame)
qed

lemma frames_inject:
  "frames xx ps = frames xx qs \<Longrightarrow> int (length (frames xx ps)) < 2 ^ 63 \<Longrightarrow> ps = qs"
  by (metis option.inject records_frames)

end
