(* ===== verification/Os.thy ===== *)
theory Os
  imports Prelude
begin

text \<open>
  The operating system as the package uses it: one directory of numbered segment files, read
  and written with pread/pwrite, created, unlinked and flushed.  Every call that can fail
  consumes one verdict from \<open>script\<close>; when the script is empty the call succeeds.  A theorem
  that holds for every script therefore holds for every pattern of I/O failures, and a theorem
  that assumes an empty script is about a healthy disk.  A scripted failure is never
  \<open>os.ErrNotExist\<close>: only a name that is not in the directory gives that error.

  \<open>inode n\<close> is what a handle on segment \<open>n\<close> reads and writes (the page cache), \<open>linked n\<close> says
  that the directory names it: an open handle outlives its directory entry.  \<open>stable n\<close> is what
  the last successful flush of the file put on stable storage and \<open>stable_dir\<close> the directory
  entries the last successful directory flush did.
\<close>

datatype verdict = VOk | VFail errno nat

record os =
  inode :: "nat \<Rightarrow> bytes"
  linked :: "nat \<Rightarrow> bool"
  stable :: "nat \<Rightarrow> bytes"
  stable_dir :: "nat \<Rightarrow> bool"
  script :: "verdict list"

text \<open>An empty directory on a healthy disk.\<close>

definition os_empty :: os where
  "os_empty = \<lparr>inode = (\<lambda>_. []), linked = (\<lambda>_. False), stable = (\<lambda>_. []), stable_dir = (\<lambda>_. False), script = []\<rparr>"

definition os_tick :: "os \<Rightarrow> verdict \<times> os" where
  "os_tick w = (case script w of [] \<Rightarrow> (VOk, w) | v # vs \<Rightarrow> (v, w\<lparr>script := vs\<rparr>))"

text \<open>A call with no effect of its own on the files: opening, closing, locking.\<close>

definition os_plain :: "os \<Rightarrow> unit result \<times> os" where
  "os_plain w = (case os_tick w of (VOk, w1) \<Rightarrow> (Inr (), w1) | (VFail e k, w1) \<Rightarrow> (Inl (Errno e), w1))"

text \<open>Writing \<open>ys\<close> at \<open>off\<close>; a write past the end leaves zeros in the gap.\<close>

definition overwrite :: "nat \<Rightarrow> bytes \<Rightarrow> bytes \<Rightarrow> bytes" where
  "overwrite off ys xs =
     take off (xs @ replicate (off - length xs) 0) @ ys @ drop (off + length ys) xs"

definition os_open :: "nat \<Rightarrow> os \<Rightarrow> unit result \<times> os" where
  "os_open n w =
     (case os_tick w of
        (VFail e k, w1) \<Rightarrow> (Inl (Errno e), w1)
      | (VOk, w1) \<Rightarrow> if linked w1 n then (Inr (), w1) else (Inl ErrNotExist, w1))"

definition os_close :: "os \<Rightarrow> unit result \<times> os" where
  "os_close = os_plain"

text \<open>\<open>os.OpenFile\<close> with \<open>O_CREATE|O_EXCL\<close>.\<close>

definition os_create :: "nat \<Rightarrow> os \<Rightarrow> unit result \<times> os" where
  "os_create n w =
     (case os_tick w of
        (VFail e k, w1) \<Rightarrow> (Inl (Errno e), w1)
      | (VOk, w1) \<Rightarrow>
          if linked w1 n then (Inl (Errno EEXIST), w1)
          else (Inr (), w1\<lparr>inode := (inode w1)(n := []), linked := (linked w1)(n := True),
                          stable := (stable w1)(n := []), stable_dir := (stable_dir w1)(n := False)\<rparr>))"

definition os_remove :: "nat \<Rightarrow> os \<Rightarrow> unit result \<times> os" where
  "os_remove n w =
     (case os_tick w of
        (VFail e k, w1) \<Rightarrow> (Inl (Errno e), w1)
      | (VOk, w1) \<Rightarrow>
          if linked w1 n then (Inr (), w1\<lparr>linked := (linked w1)(n := False)\<rparr>)
          else (Inl ErrNotExist, w1))"

text \<open>\<open>os.Stat\<close>: the length of the file.\<close>

definition os_stat :: "nat \<Rightarrow> os \<Rightarrow> int result \<times> os" where
  "os_stat n w =
     (case os_tick w of
        (VFail e k, w1) \<Rightarrow> (Inl (Errno e), w1)
      | (VOk, w1) \<Rightarrow>
          if linked w1 n then (Inr (int (length (inode w1 n))), w1) else (Inl ErrNotExist, w1))"

text \<open>
  \<open>File.ReadAt\<close>: the bytes that arrived and the error, end of file when fewer than \<open>len\<close> are
  there.  A failing read may still have delivered a prefix.
\<close>

definition os_pread :: "nat \<Rightarrow> nat \<Rightarrow> nat \<Rightarrow> os \<Rightarrow> (bytes \<times> err option) \<times> os" where
  "os_pread n off len w =
     (case os_tick w of
        (VFail e k, w1) \<Rightarrow> ((take k (slice off (off + len) (inode w1 n)), Some (Errno e)), w1)
      | (VOk, w1) \<Rightarrow>
          (let bs = slice off (off + len) (inode w1 n)
           in ((bs, if length bs < len then Some EOF else None), w1)))"

text \<open>\<open>File.WriteAt\<close>: a failing write may have overwritten any prefix of its range.\<close>

definition os_pwrite :: "nat \<Rightarrow> nat \<Rightarrow> bytes \<Rightarrow> os \<Rightarrow> unit result \<times> os" where
  "os_pwrite n off bs w =
     (case os_tick w of
        (VFail e k, w1) \<Rightarrow>
          (Inl (Errno e), w1\<lparr>inode := (inode w1)(n := overwrite off (take k bs) (inode w1 n))\<rparr>)
      | (VOk, w1) \<Rightarrow>
          (Inr (), w1\<lparr>inode := (inode w1)(n := overwrite off bs (inode w1 n))\<rparr>))"

text \<open>\<open>File.Sync\<close> and \<open>fdatasync(2)\<close>.\<close>

definition os_fsync :: "nat \<Rightarrow> os \<Rightarrow> unit result \<times> os" where
  "os_fsync n w =
     (case os_tick w of
        (VFail e k, w1) \<Rightarrow> (Inl (Errno e), w1)
      | (VOk, w1) \<Rightarrow> (Inr (), w1\<lparr>stable := (stable w1)(n := inode w1 n)\<rparr>))"

definition datasync :: "nat \<Rightarrow> os \<Rightarrow> unit result \<times> os" where
  "datasync n w =
     (case os_fsync n w of
        (Inl e, w1) \<Rightarrow> if e = Errno ENOSYS then os_fsync n w1 else (Inl e, w1)
      | (Inr _, w1) \<Rightarrow> (Inr (), w1))"

definition dirSyncUnsupported :: "err \<Rightarrow> bool" where
  "dirSyncUnsupported e \<longleftrightarrow>
     err_is e (Errno EINVAL) \<or> err_is e (Errno ENOTSUP) \<or> err_is e (Errno ENOSYS)"

text \<open>
  A file system without a directory flush answers with one of these errors; the source takes it
  to keep its entries itself, and so does the model.  Any other failure flushes nothing.
\<close>

definition fsyncDir :: "os \<Rightarrow> unit result \<times> os" where
  "fsyncDir w =
     (case os_tick w of
        (VFail e k, w1) \<Rightarrow> (Inl (Errno e), if dirSyncUnsupported (Errno e) then w1\<lparr>stable_dir := linked w1\<rparr> else w1)
      | (VOk, w1) \<Rightarrow> (Inr (), w1\<lparr>stable_dir := linked w1\<rparr>))"

text \<open>\<open>fallocate(2)\<close> only ever lengthens a file, \<open>File.Truncate\<close> sets its length.\<close>

definition os_fallocate :: "nat \<Rightarrow> nat \<Rightarrow> os \<Rightarrow> unit result \<times> os" where
  "os_fallocate n len w =
     (case os_tick w of
        (VFail e k, w1) \<Rightarrow> (Inl (Errno e), w1)
      | (VOk, w1) \<Rightarrow>
          (Inr (), w1\<lparr>inode := (inode w1)(n := inode w1 n @ replicate (len - length (inode w1 n)) 0)\<rparr>))"

definition os_truncate :: "nat \<Rightarrow> nat \<Rightarrow> os \<Rightarrow> unit result \<times> os" where
  "os_truncate n len w =
     (case os_tick w of
        (VFail e k, w1) \<Rightarrow> (Inl (Errno e), w1)
      | (VOk, w1) \<Rightarrow>
          (Inr (), w1\<lparr>inode := (inode w1)(n := take len (inode w1 n @ replicate (len - length (inode w1 n)) 0))\<rparr>))"

definition preallocate :: "nat \<Rightarrow> int \<Rightarrow> os \<Rightarrow> unit result \<times> os" where
  "preallocate n len w =
     (case os_fallocate n (nat len) w of
        (Inr _, w1) \<Rightarrow> (Inr (), w1)
      | (Inl e, w1) \<Rightarrow>
          if err_is e (Errno ENOTSUP) \<or> err_is e (Errno ENOSYS) \<or> err_is e (Errno EINVAL) \<or>
             err_is e (Errno EPERM) \<or> err_is e (Errno ENODEV)
          then os_truncate n (nat len) w1
          else (Inl e, w1))"

text \<open>\<open>tryLockDir\<close>: the non-blocking advisory lock on the directory.\<close>

definition tryLockDir :: "os \<Rightarrow> unit result \<times> os" where
  "tryLockDir w =
     (case os_plain w of
        (Inr _, w1) \<Rightarrow> (Inr (), w1)
      | (Inl e, w1) \<Rightarrow>
          if err_is e (Errno EWOULDBLOCK) then (Inl ErrLocked, w1)
          else if err_is e (Errno ENOTSUP) \<or> err_is e (Errno ENOLCK) \<or> err_is e (Errno EINVAL) \<or>
                  err_is e (Errno ENOSYS) then (Inr (), w1)
          else (Inl e, w1))"

lemmas os_op_defs = os_plain_def os_open_def os_close_def os_create_def os_remove_def os_stat_def
  os_pread_def os_pwrite_def os_fsync_def datasync_def fsyncDir_def os_fallocate_def
  os_truncate_def preallocate_def tryLockDir_def

section \<open>What each call leaves alone\<close>

text \<open>
  \<open>same_files w w'\<close>: no file's content and no directory entry changed; only verdicts were
  consumed and stable storage may have caught up.
\<close>

definition same_files :: "os \<Rightarrow> os \<Rightarrow> bool" where
  "same_files w w' \<longleftrightarrow> inode w' = inode w \<and> linked w' = linked w"

lemma same_files_refl [simp]: "same_files w w"
  by (simp add: same_files_def)

lemma same_files_trans [trans]: "same_files a b \<Longrightarrow> same_files b c \<Longrightarrow> same_files a c"
  by (simp add: same_files_def)

lemma os_tick_same: "os_tick w = (v, w') \<Longrightarrow> same_files w w' \<and> stable w' = stable w \<and> stable_dir w' = stable_dir w"
  by (auto simp: os_tick_def same_files_def split: list.splits)

lemma os_tick_healthy [simp]: "script w = [] \<Longrightarrow> os_tick w = (VOk, w)"
  by (simp add: os_tick_def)

lemma os_plain_same: "os_plain w = (r, w') \<Longrightarrow> same_files w w' \<and> stable w' = stable w \<and> stable_dir w' = stable_dir w"
  by (auto simp: os_plain_def split: prod.splits verdict.splits dest!: os_tick_same)

lemma os_open_same: "os_open n w = (r, w') \<Longrightarrow> same_files w w' \<and> stable w' = stable w \<and> stable_dir w' = stable_dir w"
  by (auto simp: os_open_def split: prod.splits verdict.splits if_splits dest!: os_tick_same)

lemma os_close_same: "os_close w = (r, w') \<Longrightarrow> same_files w w' \<and> stable w' = stable w \<and> stable_dir w' = stable_dir w"
  by (simp add: os_close_def os_plain_same)

lemma os_pread_same: "os_pread n off len w = (r, w') \<Longrightarrow> same_files w w' \<and> stable w' = stable w \<and> stable_dir w' = stable_dir w"
  by (auto simp: os_pread_def Let_def split: prod.splits verdict.splits if_splits dest!: os_tick_same)

lemma os_fsync_same: "os_fsync n w = (r, w') \<Longrightarrow> same_files w w'"
  by (auto simp: os_fsync_def same_files_def split: prod.splits verdict.splits dest!: os_tick_same)

lemma datasync_same: "datasync n w = (r, w') \<Longrightarrow> same_files w w'"
  by (auto simp: datasync_def split: prod.splits sum.splits if_splits dest!: os_fsync_same
      intro: same_files_trans)

lemma datasync_dir: "datasync n w = (r, w') \<Longrightarrow> stable_dir w' = stable_dir w"
  by (auto simp: datasync_def os_fsync_def split: prod.splits sum.splits verdict.splits if_splits dest!: os_tick_same)

lemma fsyncDir_dir:
  assumes "fsyncDir w = (r, w')"
  shows "stable_dir w' = stable_dir w \<or> stable_dir w' = linked w"
    "r = Inr u \<or> r = Inl e \<and> dirSyncUnsupported e \<Longrightarrow> stable_dir w' = linked w"
  using assms by (auto simp: fsyncDir_def same_files_def split: prod.splits verdict.splits if_splits dest!: os_tick_same)

lemma fsyncDir_same: "fsyncDir w = (r, w') \<Longrightarrow> same_files w w' \<and> stable w' = stable w"
  by (auto simp: fsyncDir_def same_files_def split: prod.splits verdict.splits dest!: os_tick_same)

text \<open>A successful flush makes the file's current content stable, and no flush touches another file.\<close>

lemma os_fsync_stable:
  "os_fsync n w = (r, w') \<Longrightarrow>
   stable w' = (case r of Inr _ \<Rightarrow> (stable w)(n := inode w n) | Inl _ \<Rightarrow> stable w)"
  by (auto simp: os_fsync_def same_files_def split: prod.splits verdict.splits dest!: os_tick_same)

lemma datasync_stable:
  "datasync n w = (r, w') \<Longrightarrow>
   stable w' = (case r of Inr _ \<Rightarrow> (stable w)(n := inode w n) | Inl _ \<Rightarrow> stable w)"
  using os_fsync_same [of n w] os_fsync_stable [of n w]
  by (auto simp: datasync_def same_files_def split: prod.splits sum.splits if_splits
      dest!: os_fsync_stable)

text \<open>On a healthy disk every call succeeds, and the script stays empty.\<close>

lemma os_healthy:
  assumes "script w = []"
  shows "os_close w = (Inr (), w)"
    "linked w n \<Longrightarrow> os_open n w = (Inr (), w)"
    "datasync n w = (Inr (), w\<lparr>stable := (stable w)(n := inode w n)\<rparr>)"
    "os_fsync n w = (Inr (), w\<lparr>stable := (stable w)(n := inode w n)\<rparr>)"
    "os_pwrite n off bs w = (Inr (), w\<lparr>inode := (inode w)(n := overwrite off bs (inode w n))\<rparr>)"
    "fsyncDir w = (Inr (), w\<lparr>stable_dir := linked w\<rparr>)"
    "linked w n \<Longrightarrow> os_remove n w = (Inr (), w\<lparr>linked := (linked w)(n := False)\<rparr>)"
  using assms by (simp_all add: os_op_defs)

lemma length_overwrite: "length (overwrite off ys xs) = max (off + length ys) (length xs)"
  by (auto simp: overwrite_def)

lemma overwrite_inside: "off + length ys \<le> length xs \<Longrightarrow> overwrite off ys xs = put_at off ys xs"
  by (simp add: overwrite_def put_at_def)

lemma slice_overwrite_before:
  "j \<le> off \<Longrightarrow> j \<le> length xs \<Longrightarrow> slice i j (overwrite off ys xs) = slice i j xs"
proof -
  assume a: "j \<le> off" "j \<le> length xs"
  have "take j (overwrite off ys xs) = take j xs" using a by (simp add: overwrite_def)
  then show ?thesis by (simp add: slice_def take_drop_eq)
qed

lemma slice_overwrite_same:
  "j = off + length ys \<Longrightarrow> slice off j (overwrite off ys xs) = ys"
  by (simp add: slice_def overwrite_def)

end
