(* ===== verification/Store_State.thy ===== *)
theory Store_State
  imports Frame Os
begin

text \<open>
  The \<open>store\<close> structure of store.go and the queries that only look at it.  \<open>heap\<close> holds the
  \<open>dataFile\<close> objects by segment number, \<open>files\<close> is the slice of pointers to the live ones, and
  \<open>os\<close> is the state of the operating system the store runs on.  The directory name is fixed and
  is not a field.  Byte counts, offsets and counters are mathematical integers: the offsets are
  bounded by bytes really written, and the operations whose arithmetic on untrusted values can
  wrap (\<open>fitsWithin\<close>, the header accessors) keep their 64-bit types.
\<close>

section \<open>State\<close>

text \<open>\<open>reservation\<close> of reserve.go.\<close>

record reservation =
  r_start :: int
  r_end :: int
  r_acked :: bool
  r_corrupt :: bool
  r_written :: int

record store =
  dirOpen :: bool
  segmentSize :: int
  maxSegments :: int
  maxBytes :: int
  noSync :: bool
  syncEvery :: int
  maxOpenFiles :: int
  ioErr :: "err option"
  files :: "nat list"
  heap :: "nat \<Rightarrow> dataFile"
  nextNum :: nat
  diskBytes :: int
  lruMRU :: "nat option"
  lruLRU :: "nat option"
  nOpen :: int
  pendingBytes :: int
  pendingRecs :: int
  inFlight :: int
  inFlightRecs :: int
  lastFrameAt :: int
  lastFrameEnd :: int
  writeBuf :: bytes
  readBuf :: bytes
  blockFile :: "nat option"
  blockOff :: int
  blockLen :: int
  writeOff :: int
  headOff :: int
  commitOff :: int
  reserved :: "reservation list"
  nWritten :: int
  nCommitted :: int
  unsynced :: int
  unsyncedBytes :: int
  flushEpoch :: nat
  unreclaimed :: int
  pendingCorrupt :: int
  corruptions :: int
  lostBytes :: int
  lostRecords :: int
  lostSegments :: int
  foreignSegments :: int
  foreignBytes :: int
  discardedBytes :: int
  nHeaderWrites :: int
  nAdded :: int
  nDelivered :: int
  nFull :: int
  nCommittedTotal :: int
  os :: os

type_synonym 'a op = "store \<Rightarrow> 'a result \<times> store"

text \<open>
  The zero value of a \<open>dataFile\<close> with its number, and the structure literal of \<open>openStore\<close> with the
  floor on a nonzero descriptor cap.
\<close>

definition zero_dataFile :: "nat \<Rightarrow> dataFile" where
  "zero_dataFile n =
     \<lparr>df_num = n, df_open = False, df_hdr = replicate headerSize 0, df_diskHeader = replicate headerSize 0,
      df_base = 0, df_size = 0, df_capacity = 0, df_written = 0, df_committed = 0, df_lruPrev = None,
      df_lruNext = None, df_dirty = False, df_writeSeq = 0, df_pins = 0, df_truncated = False,
      df_resetCommit = False\<rparr>"

definition capOpenFiles :: "int \<Rightarrow> int" where
  "capOpenFiles maxOpen = (if maxOpen \<noteq> 0 \<and> maxOpen < 3 then 3 else maxOpen)"

definition new_store :: "int \<Rightarrow> int \<Rightarrow> bool \<Rightarrow> int \<Rightarrow> int \<Rightarrow> os \<Rightarrow> store" where
  "new_store segSize maxSegs nosync every maxOpen w =
     \<lparr>dirOpen = False, segmentSize = segSize, maxSegments = maxSegs, maxBytes = 0, noSync = nosync,
      syncEvery = every, maxOpenFiles = capOpenFiles maxOpen, ioErr = None, files = [],
      heap = zero_dataFile, nextNum = 0, diskBytes = 0, lruMRU = None, lruLRU = None, nOpen = 0,
      pendingBytes = 0, pendingRecs = 0, inFlight = 0, inFlightRecs = 0, lastFrameAt = 0,
      lastFrameEnd = 0, writeBuf = [], readBuf = [], blockFile = None, blockOff = 0, blockLen = 0,
      writeOff = 0, headOff = 0, commitOff = 0, reserved = [], nWritten = 0, nCommitted = 0,
      unsynced = 0, unsyncedBytes = 0, flushEpoch = 0, unreclaimed = 0, pendingCorrupt = 0,
      corruptions = 0, lostBytes = 0, lostRecords = 0, lostSegments = 0, foreignSegments = 0,
      foreignBytes = 0, discardedBytes = 0, nHeaderWrites = 0, nAdded = 0, nDelivered = 0, nFull = 0,
      nCommittedTotal = 0, os = w\<rparr>"

text \<open>Assigning fields of the object a pointer names, and running an operating-system call.\<close>

definition upd_df :: "nat \<Rightarrow> (dataFile \<Rightarrow> dataFile) \<Rightarrow> store \<Rightarrow> store" where
  "upd_df n f s = s\<lparr>heap := (heap s)(n := f (heap s n))\<rparr>"

definition os_run :: "(os \<Rightarrow> 'a \<times> os) \<Rightarrow> store \<Rightarrow> 'a \<times> store" where
  "os_run f s = (case f (os s) of (r, w) \<Rightarrow> (r, s\<lparr>os := w\<rparr>))"

definition mark_dirty :: "nat \<Rightarrow> store \<Rightarrow> store" where
  "mark_dirty n = upd_df n (\<lambda>d. d\<lparr>df_dirty := True, df_writeSeq := Suc (df_writeSeq d)\<rparr>)"

definition df_end :: "dataFile \<Rightarrow> int" where
  "df_end d = df_base d + df_size d"

section \<open>Queries\<close>

definition active :: "store \<Rightarrow> nat option" where
  "active s = (if files s = [] then None else Some (last (files s)))"

definition batched :: "store \<Rightarrow> bool" where
  "batched s \<longleftrightarrow> \<not> noSync s \<and> syncEvery s > 1"

definition perOp :: "store \<Rightarrow> bool" where
  "perOp s \<longleftrightarrow> \<not> noSync s \<and> \<not> batched s"

definition stagedBytes :: "store \<Rightarrow> int" where
  "stagedBytes s = inFlight s + pendingBytes s"

definition store_size :: "store \<Rightarrow> int" where
  "store_size s = writeOff s - commitOff s"

definition store_count :: "store \<Rightarrow> int" where
  "store_count s = (if nWritten s - nCommitted s > 0 then nWritten s - nCommitted s else 0)"

definition drained :: "int \<Rightarrow> store \<Rightarrow> bool" where
  "drained fin s \<longleftrightarrow> headOff s \<ge> fin \<and> pendingCorrupt s = 0"

definition store_empty :: "store \<Rightarrow> bool" where
  "store_empty s \<longleftrightarrow> drained (writeOff s) s"

definition progress :: "store \<Rightarrow> int \<times> int" where
  "progress s = (headOff s, pendingCorrupt s)"

definition flushChunkSize :: "store \<Rightarrow> int" where
  "flushChunkSize s = (if maxOpenFiles s \<le> 0 then 0 else max (maxOpenFiles s - 2) 1)"

definition needsCycle :: "int \<Rightarrow> store \<Rightarrow> bool" where
  "needsCycle recLen s =
     (case active s of
        None \<Rightarrow> True
      | Some n \<Rightarrow> df_size (heap s n) + stagedBytes s + recLen > df_capacity (heap s n))"

text \<open>\<open>failIO\<close>: the first durability failure is kept and repeated.\<close>

definition failIO :: "err \<Rightarrow> 'a op" where
  "failIO e s =
     (let s1 = (if ioErr s = None then s\<lparr>ioErr := Some (Wrap ErrIO e)\<rparr> else s)
      in (Inl (the (ioErr s1)), s1))"

section \<open>Binary search\<close>

text \<open>\<open>sort.Search\<close> of the Go library: the loop over \<open>[i, j)\<close>.\<close>

function search_loop :: "(nat \<Rightarrow> bool) \<Rightarrow> nat \<Rightarrow> nat \<Rightarrow> nat" where
  "search_loop f i j =
     (if i < j then
        let h = (i + j) div 2
        in if \<not> f h then search_loop f (Suc h) j else search_loop f i h
      else i)"
  by pat_completeness auto
termination
  by (relation "measure (\<lambda>(f, i, j). j - i)") auto

declare search_loop.simps [simp del]

definition sort_Search :: "nat \<Rightarrow> (nat \<Rightarrow> bool) \<Rightarrow> nat" where
  "sort_Search n f = search_loop f 0 n"

definition fileForOffset :: "int \<Rightarrow> store \<Rightarrow> nat option" where
  "fileForOffset off s =
     (let fs = files s; i = sort_Search (length fs) (\<lambda>i. df_end (heap s (fs ! i)) > off)
      in if i < length fs \<and> off \<ge> df_base (heap s (fs ! i)) then Some (fs ! i) else None)"

definition live :: "nat \<Rightarrow> store \<Rightarrow> bool" where
  "live n s =
     (let fs = files s; i = sort_Search (length fs) (\<lambda>i. df_num (heap s (fs ! i)) \<ge> df_num (heap s n))
      in i < length fs \<and> fs ! i = n)"

section \<open>Facts about binary search\<close>

lemma search_loop_bounds: "i \<le> j \<Longrightarrow> i \<le> search_loop f i j \<and> search_loop f i j \<le> j"
proof (induction f i j rule: search_loop.induct)
  case (1 f i j)
  show ?case
  proof (cases "i < j")
    case True
    let ?h = "(i + j) div 2"
    have h: "i \<le> ?h" "?h < j" using True by auto
    show ?thesis
      using 1 True h by (cases "f ?h") (force simp: search_loop.simps [of f i j] Let_def)+
  qed (use 1 in \<open>simp add: search_loop.simps\<close>)
qed

text \<open>Below the answer the predicate fails, at the answer it holds, if it is monotone.\<close>

definition upward :: "nat \<Rightarrow> (nat \<Rightarrow> bool) \<Rightarrow> bool" where
  "upward n f \<longleftrightarrow> (\<forall>a b. a \<le> b \<longrightarrow> b < n \<longrightarrow> f a \<longrightarrow> f b)"

lemma search_loop_correct:
  assumes "upward n f"
  shows "i \<le> j \<Longrightarrow> j \<le> n \<Longrightarrow> (\<And>k. k < i \<Longrightarrow> \<not> f k) \<Longrightarrow> (j < n \<longrightarrow> f j) \<Longrightarrow>
    (\<forall>k < search_loop f i j. \<not> f k) \<and> (search_loop f i j < n \<longrightarrow> f (search_loop f i j))"
  using assms
proof (induction f i j rule: search_loop.induct)
  case (1 f i j)
  show ?case
  proof (cases "i < j")
    case True
    let ?h = "(i + j) div 2"
    have h: "i \<le> ?h" "?h < j" "?h < n" using True "1.prems"(2) by auto
    show ?thesis
    proof (cases "f ?h")
      case t: True
      have "search_loop f i j = search_loop f i ?h"
        using True t by (simp add: search_loop.simps [of f i j] Let_def)
      moreover have "(\<forall>k < search_loop f i ?h. \<not> f k) \<and> (search_loop f i ?h < n \<longrightarrow> f (search_loop f i ?h))"
        by (rule "1.IH"(2) [OF True refl]) (use t h "1.prems" in auto)
      ultimately show ?thesis by simp
    next
      case f: False
      have "\<not> f k" if "k < Suc ?h" for k
        using f "1.prems"(5) h that unfolding upward_def by (meson less_Suc_eq_le)
      moreover have "search_loop f i j = search_loop f (Suc ?h) j"
        using True f by (simp add: search_loop.simps [of f i j] Let_def)
      moreover have "(\<forall>k < search_loop f (Suc ?h) j. \<not> f k) \<and> (search_loop f (Suc ?h) j < n \<longrightarrow> f (search_loop f (Suc ?h) j))"
        by (rule "1.IH"(1) [OF True refl f]) (use calculation h "1.prems" in auto)
      ultimately show ?thesis by simp
    qed
  next
    case False
    then have "search_loop f i j = i" by (subst search_loop.simps) simp
    moreover have "i = j" using False "1.prems"(1) by simp
    ultimately show ?thesis using "1.prems" by auto
  qed
qed

lemma sort_Search_le: "sort_Search n f \<le> n"
  using search_loop_bounds [of 0 n f] by (simp add: sort_Search_def)

lemma sort_Search_correct:
  assumes "upward n f"
  shows "\<And>k. k < sort_Search n f \<Longrightarrow> \<not> f k" "sort_Search n f < n \<Longrightarrow> f (sort_Search n f)"
  using search_loop_correct [of n f 0 n] assms by (auto simp: sort_Search_def)

lemma sort_Search_eqI:
  assumes mono: "upward n f"
    and "i < n" "f i" "\<And>k. k < i \<Longrightarrow> \<not> f k"
  shows "sort_Search n f = i"
proof -
  note c = sort_Search_correct [of n f, OF mono]
  have "\<not> sort_Search n f < i" using c(2) assms(2,4) by force
  moreover have "\<not> i < sort_Search n f" using c(1) assms(3) by blast
  ultimately show ?thesis by simp
qed

section \<open>Facts about assignments\<close>

lemma upd_df_simps [simp]:
  "heap (upd_df n f s) = (heap s)(n := f (heap s n))"
  "files (upd_df n f s) = files s" "os (upd_df n f s) = os s" "ioErr (upd_df n f s) = ioErr s"
  "lruMRU (upd_df n f s) = lruMRU s" "lruLRU (upd_df n f s) = lruLRU s" "nOpen (upd_df n f s) = nOpen s"
  "maxOpenFiles (upd_df n f s) = maxOpenFiles s" "noSync (upd_df n f s) = noSync s"
  by (simp_all add: upd_df_def)

lemma os_runE:
  assumes "os_run f s = (r, s')"
  obtains w where "f (os s) = (r, w)" "s' = s\<lparr>os := w\<rparr>"
  using assms by (auto simp: os_run_def split: prod.splits)

lemma failIO_result: "failIO e s = (r, s') \<Longrightarrow> \<exists>x. r = Inl x \<and> ioErr s' = Some x"
  by (auto simp: failIO_def Let_def split: if_splits)

lemma failIO_state: "failIO e s = (r, s') \<Longrightarrow> s' = s\<lparr>ioErr := ioErr s'\<rparr> \<and> (ioErr s \<noteq> None \<longrightarrow> s' = s)"
  by (auto simp: failIO_def Let_def split: if_splits)

end
