(* ===== verification/Handles.thy ===== *)
theory Handles
  imports Store_State
begin

text \<open>
  The open segment handles of store.go: the intrusive doubly linked LRU list threaded through
  the \<open>dataFile\<close> objects, opening on demand, eviction down to \<open>maxOpenFiles\<close>, and the flush of
  one file.  The list is modelled with its pointers; \<open>lru_repr\<close> says which sequence of open
  segments they represent, most recently used first.
\<close>

section \<open>The linked list\<close>

definition lruPushMRU :: "nat \<Rightarrow> store \<Rightarrow> store" where
  "lruPushMRU n s =
     (let s1 = upd_df n (\<lambda>d. d\<lparr>df_lruPrev := None, df_lruNext := lruMRU s\<rparr>) s;
          s2 = (case lruMRU s1 of
                  Some m \<Rightarrow> upd_df m (\<lambda>d. d\<lparr>df_lruPrev := Some n\<rparr>) s1
                | None \<Rightarrow> s1\<lparr>lruLRU := Some n\<rparr>)
      in s2\<lparr>lruMRU := Some n, nOpen := nOpen s2 + 1\<rparr>)"

definition lruUnlink :: "nat \<Rightarrow> store \<Rightarrow> store" where
  "lruUnlink n s =
     (let s1 = (case df_lruPrev (heap s n) of
                  Some p \<Rightarrow> upd_df p (\<lambda>d. d\<lparr>df_lruNext := df_lruNext (heap s n)\<rparr>) s
                | None \<Rightarrow> s\<lparr>lruMRU := df_lruNext (heap s n)\<rparr>);
          s2 = (case df_lruNext (heap s1 n) of
                  Some q \<Rightarrow> upd_df q (\<lambda>d. d\<lparr>df_lruPrev := df_lruPrev (heap s1 n)\<rparr>) s1
                | None \<Rightarrow> s1\<lparr>lruLRU := df_lruPrev (heap s1 n)\<rparr>);
          s3 = upd_df n (\<lambda>d. d\<lparr>df_lruPrev := None, df_lruNext := None\<rparr>) s2
      in s3\<lparr>nOpen := nOpen s3 - 1\<rparr>)"

definition touchOpen :: "nat \<Rightarrow> store \<Rightarrow> store" where
  "touchOpen n s = (if lruMRU s = Some n then s else lruPushMRU n (lruUnlink n s))"

definition untrackOpen :: "nat \<Rightarrow> store \<Rightarrow> store" where
  "untrackOpen n s = lruUnlink n s"

section \<open>Flushing, evicting, opening\<close>

text \<open>
  The body of \<open>flushFile\<close> once the file is known to be dirty and open.  \<open>evictOpen\<close> calls
  \<open>flushFile\<close> on a victim taken from the LRU list, whose members are open, so the reopening
  branch of \<open>flushFile\<close> cannot be taken there; the model of \<open>evictOpen\<close> therefore uses this body
  directly, which is what keeps the two definitions from being mutually recursive.
\<close>

definition flushSync :: "nat \<Rightarrow> unit op" where
  "flushSync n s =
     (case ioErr s of
        Some e \<Rightarrow> (Inl e, s)
      | None \<Rightarrow>
          (case os_run (datasync n) s of
             (Inl e, s1) \<Rightarrow> failIO e s1
           | (Inr _, s1) \<Rightarrow> (Inr (), upd_df n (\<lambda>d. d\<lparr>df_dirty := False\<rparr>) s1)))"

definition flushVictim :: "nat \<Rightarrow> unit op" where
  "flushVictim n s = (if \<not> df_dirty (heap s n) then (Inr (), s) else flushSync n s)"

text \<open>The inner walk of \<open>evictOpen\<close> from the least recently used end; \<open>nOpen\<close> bounds it.\<close>

fun lru_walk :: "nat \<Rightarrow> (nat \<Rightarrow> bool) \<Rightarrow> (nat \<Rightarrow> dataFile) \<Rightarrow> nat option \<Rightarrow> nat option" where
  "lru_walk k P h None = None"
| "lru_walk 0 P h (Some n) = None"
| "lru_walk (Suc k) P h (Some n) = (if P n then Some n else lru_walk k P h (df_lruPrev (h n)))"

definition evictable :: "nat option \<Rightarrow> nat \<Rightarrow> store \<Rightarrow> nat \<Rightarrow> bool" where
  "evictable act keep s n \<longleftrightarrow> Some n \<noteq> act \<and> n \<noteq> keep \<and> df_pins (heap s n) = 0"

definition evict_victim :: "nat option \<Rightarrow> nat \<Rightarrow> store \<Rightarrow> nat option" where
  "evict_victim act keep s = lru_walk (nat (nOpen s)) (evictable act keep s) (heap s) (lruLRU s)"

definition evict_one :: "nat \<Rightarrow> store \<Rightarrow> store" where
  "evict_one n s =
     (let s1 = (if noSync s then s else snd (flushVictim n s));
          s2 = snd (os_run os_close s1);
          s3 = upd_df n (\<lambda>d. d\<lparr>df_open := False\<rparr>) s2
      in lruUnlink n s3)"

lemma lru_list_frame [simp]:
  "maxOpenFiles (lruUnlink n s) = maxOpenFiles s" "nOpen (lruUnlink n s) = nOpen s - 1"
  "maxOpenFiles (lruPushMRU n s) = maxOpenFiles s" "nOpen (lruPushMRU n s) = nOpen s + 1"
  by (auto simp: lruUnlink_def lruPushMRU_def Let_def split: option.splits)

lemma flushVictim_nOpen [simp]:
  "nOpen (snd (flushVictim n s)) = nOpen s" "maxOpenFiles (snd (flushVictim n s)) = maxOpenFiles s"
  by (auto simp: flushVictim_def flushSync_def os_run_def failIO_def Let_def
      split: option.splits prod.splits sum.splits)

lemma evict_one_nOpen [simp]:
  "nOpen (evict_one n s) = nOpen s - 1" "maxOpenFiles (evict_one n s) = maxOpenFiles s"
  by (auto simp: evict_one_def os_run_def Let_def split: prod.splits)

function evict_loop :: "nat option \<Rightarrow> nat \<Rightarrow> store \<Rightarrow> store" where
  "evict_loop act keep s =
     (if nOpen s > maxOpenFiles s then
        (case evict_victim act keep s of
           None \<Rightarrow> s
         | Some v \<Rightarrow> evict_loop act keep (evict_one v s))
      else s)"
  by pat_completeness auto
termination
  by (relation "measure (\<lambda>(act, keep, s). nat (nOpen s - maxOpenFiles s))") auto

declare evict_loop.simps [simp del]

definition evictOpen :: "nat \<Rightarrow> store \<Rightarrow> store" where
  "evictOpen keep s = (if maxOpenFiles s \<le> 0 then s else evict_loop (active s) keep s)"

definition trackOpen :: "nat \<Rightarrow> store \<Rightarrow> store" where
  "trackOpen n s = evictOpen n (lruPushMRU n s)"

definition ensureOpen :: "nat \<Rightarrow> unit op" where
  "ensureOpen n s =
     (if df_open (heap s n) then (Inr (), touchOpen n s)
      else case os_run (os_open n) s of
        (Inl e, s1) \<Rightarrow> (Inl e, s1)
      | (Inr _, s1) \<Rightarrow> (Inr (), trackOpen n (upd_df n (\<lambda>d. d\<lparr>df_open := True\<rparr>) s1)))"

definition flushFile :: "nat \<Rightarrow> unit op" where
  "flushFile n s =
     (if \<not> df_dirty (heap s n) then (Inr (), s)
      else case (if df_open (heap s n) then (Inr (), s) else ensureOpen n s) of
        (Inl e, s1) \<Rightarrow> (Inl e, s1)
      | (Inr _, s1) \<Rightarrow> flushSync n s1)"

section \<open>The core of the state\<close>

text \<open>
  Handle operations change the open flags, the links, the dirty flags, the latched failure and
  what stable storage holds, and nothing else.  \<open>core\<close> erases exactly those, so the frame
  condition of every handle operation is one equation.
\<close>

definition core_df :: "dataFile \<Rightarrow> dataFile" where
  "core_df d = d\<lparr>df_open := False, df_lruPrev := None, df_lruNext := None, df_dirty := False\<rparr>"

definition core_os :: "os \<Rightarrow> os" where
  "core_os w = w\<lparr>stable := (\<lambda>_. []), stable_dir := (\<lambda>_. False), script := []\<rparr>"

definition core :: "store \<Rightarrow> store" where
  "core s = s\<lparr>heap := (\<lambda>n. core_df (heap s n)), lruMRU := None, lruLRU := None, nOpen := 0,
              ioErr := None, os := core_os (os s)\<rparr>"

lemma core_os_eq: "core_os w = core_os w' \<longleftrightarrow> same_files w' w"
  by (cases w; cases w') (auto simp: core_os_def same_files_def)

lemma core_df_idem [simp]: "core_df (core_df d) = core_df d"
  by (simp add: core_df_def)

lemma core_eq_df:
  assumes "core s' = core s"
  shows "core_df (heap s' n) = core_df (heap s n)"
  using arg_cong [OF assms, of heap] by (simp add: core_def fun_eq_iff)

lemma core_eq_os:
  assumes "core s' = core s"
  shows "same_files (os s) (os s')"
  using arg_cong [OF assms, of os] by (simp add: core_def core_os_eq)

lemma core_eq_df_fields:
  assumes "core s' = core s"
  shows "df_num (heap s' n) = df_num (heap s n)" "df_hdr (heap s' n) = df_hdr (heap s n)"
    "df_diskHeader (heap s' n) = df_diskHeader (heap s n)" "df_base (heap s' n) = df_base (heap s n)"
    "df_size (heap s' n) = df_size (heap s n)" "df_capacity (heap s' n) = df_capacity (heap s n)"
    "df_written (heap s' n) = df_written (heap s n)" "df_committed (heap s' n) = df_committed (heap s n)"
    "df_writeSeq (heap s' n) = df_writeSeq (heap s n)" "df_pins (heap s' n) = df_pins (heap s n)"
    "df_truncated (heap s' n) = df_truncated (heap s n)" "df_resetCommit (heap s' n) = df_resetCommit (heap s n)"
    "df_end (heap s' n) = df_end (heap s n)"
  using core_eq_df [OF assms, of n]
  by (cases "heap s' n"; cases "heap s n"; simp add: core_df_def df_end_def)+

lemma core_eq_fields:
  assumes "core s' = core s"
  shows "dirOpen s' = dirOpen s" "segmentSize s' = segmentSize s" "maxSegments s' = maxSegments s"
    "maxBytes s' = maxBytes s" "noSync s' = noSync s" "syncEvery s' = syncEvery s"
    "maxOpenFiles s' = maxOpenFiles s" "files s' = files s" "nextNum s' = nextNum s"
    "diskBytes s' = diskBytes s" "pendingBytes s' = pendingBytes s" "pendingRecs s' = pendingRecs s"
    "inFlight s' = inFlight s" "inFlightRecs s' = inFlightRecs s" "lastFrameAt s' = lastFrameAt s"
    "lastFrameEnd s' = lastFrameEnd s" "writeBuf s' = writeBuf s" "readBuf s' = readBuf s"
    "blockFile s' = blockFile s" "blockOff s' = blockOff s" "blockLen s' = blockLen s"
    "writeOff s' = writeOff s" "headOff s' = headOff s" "commitOff s' = commitOff s"
    "reserved s' = reserved s" "nWritten s' = nWritten s" "nCommitted s' = nCommitted s"
    "unsynced s' = unsynced s" "unsyncedBytes s' = unsyncedBytes s" "flushEpoch s' = flushEpoch s"
    "unreclaimed s' = unreclaimed s" "pendingCorrupt s' = pendingCorrupt s" "corruptions s' = corruptions s"
    "lostBytes s' = lostBytes s" "lostRecords s' = lostRecords s" "lostSegments s' = lostSegments s"
    "foreignSegments s' = foreignSegments s" "foreignBytes s' = foreignBytes s"
    "discardedBytes s' = discardedBytes s" "nHeaderWrites s' = nHeaderWrites s" "nAdded s' = nAdded s"
    "nDelivered s' = nDelivered s" "nFull s' = nFull s" "nCommittedTotal s' = nCommittedTotal s"
    "inode (os s') = inode (os s)" "linked (os s') = linked (os s)"
  using assms core_eq_os [OF assms]
  by (cases s'; cases s; simp add: core_def same_files_def)+

lemma core_upd_df: "(\<And>d. core_df (f d) = core_df d) \<Longrightarrow> core (upd_df n f s) = core s"
  by (auto simp: core_def upd_df_def fun_eq_iff)

lemma core_lru [simp]: "core (s\<lparr>lruMRU := a\<rparr>) = core s" "core (s\<lparr>lruLRU := b\<rparr>) = core s"
  "core (s\<lparr>nOpen := k\<rparr>) = core s" "core (s\<lparr>ioErr := e\<rparr>) = core s"
  by (simp_all add: core_def)

lemma core_lru_df [simp]:
  "core_df (d\<lparr>df_lruPrev := a\<rparr>) = core_df d" "core_df (d\<lparr>df_lruNext := b\<rparr>) = core_df d"
  "core_df (d\<lparr>df_open := c\<rparr>) = core_df d" "core_df (d\<lparr>df_dirty := e\<rparr>) = core_df d"
  by (simp_all add: core_df_def)

lemma core_os_run: "os_run f s = (r, s') \<Longrightarrow> (\<And>w. same_files w (snd (f w))) \<Longrightarrow> core s' = core s"
  by (auto simp: os_run_def core_def core_os_eq split: prod.splits)
    (metis core_os_eq snd_conv)

lemma core_lruPushMRU [frame_rules, simp]: "core (lruPushMRU n s) = core s"
  by (simp add: lruPushMRU_def Let_def core_upd_df split: option.split)

lemma core_lruUnlink [frame_rules, simp]: "core (lruUnlink n s) = core s"
  by (simp add: lruUnlink_def Let_def core_upd_df split: option.split)

lemma core_touchOpen [frame_rules, simp]: "core (touchOpen n s) = core s"
  by (simp add: touchOpen_def)

lemma core_untrackOpen [frame_rules, simp]: "core (untrackOpen n s) = core s"
  by (simp add: untrackOpen_def)

lemma core_failIO [frame_rules]: "failIO e s = (r, s') \<Longrightarrow> core s' = core s"
  by (auto simp: failIO_def Let_def split: if_splits)

lemma core_datasync [frame_rules]: "os_run (datasync n) s = (r, s') \<Longrightarrow> core s' = core s"
  by (erule core_os_run) (metis datasync_same prod.collapse)

lemma core_os_open [frame_rules]: "os_run (os_open n) s = (r, s') \<Longrightarrow> core s' = core s"
  by (erule core_os_run) (metis os_open_same prod.collapse)

lemma core_os_close [frame_rules]: "os_run os_close s = (r, s') \<Longrightarrow> core s' = core s"
  by (erule core_os_run) (metis os_close_same prod.collapse)

lemma core_fsyncDir [frame_rules]: "os_run fsyncDir s = (r, s') \<Longrightarrow> core s' = core s"
  by (erule core_os_run) (metis fsyncDir_same prod.collapse)

lemma core_flushSync [frame_rules]: "flushSync n s = (r, s') \<Longrightarrow> core s' = core s"
  by (auto simp: flushSync_def core_upd_df split: option.splits prod.splits sum.splits
      dest!: core_failIO core_datasync)

lemma core_flushVictim [frame_rules]: "flushVictim n s = (r, s') \<Longrightarrow> core s' = core s"
  by (auto simp: flushVictim_def split: if_splits dest!: core_flushSync)

lemma core_evict_one [frame_rules, simp]: "core (evict_one n s) = core s"
proof -
  have 1: "core (snd (flushVictim n s)) = core s" using core_flushVictim by (metis prod.collapse)
  have 2: "core (snd (os_run os_close t)) = core t" for t using core_os_close by (metis prod.collapse)
  show ?thesis using 1 2 by (simp add: evict_one_def Let_def core_upd_df)
qed

lemma core_evict_loop [frame_rules, simp]: "core (evict_loop act keep s) = core s"
proof (induction act keep s rule: evict_loop.induct)
  case (1 act keep s)
  then show ?case by (simp add: evict_loop.simps [of act keep s] split: option.split)
qed

lemma core_trackOpen [frame_rules, simp]: "core (trackOpen n s) = core s"
  by (simp add: trackOpen_def evictOpen_def)

lemma core_ensureOpen [frame_rules]: "ensureOpen n s = (r, s') \<Longrightarrow> core s' = core s"
  by (auto simp: ensureOpen_def core_upd_df split: if_splits prod.splits sum.splits dest!: core_os_open)

lemma core_flushFile [frame_rules]: "flushFile n s = (r, s') \<Longrightarrow> core s' = core s"
  by (auto simp: flushFile_def split: if_splits prod.splits sum.splits dest!: core_ensureOpen core_flushSync)

end
