(* ===== verification/Lru_Refine.thy ===== *)
theory Lru_Refine
  imports Handles
begin

text \<open>
  The pointer list of Handles.thy refines a plain sequence: \<open>lru_repr s xs\<close> says that the links
  reachable from \<open>lruMRU\<close> and \<open>lruLRU\<close> spell \<open>xs\<close>, that \<open>xs\<close> is exactly the set of open segments
  and that \<open>nOpen\<close> counts it.  Pushing, unlinking and touching are list operations on \<open>xs\<close>, and
  eviction keeps the representation, respects the cap, and never closes a protected handle.
\<close>

section \<open>List segments\<close>

fun lru_seg :: "(nat \<Rightarrow> dataFile) \<Rightarrow> nat option \<Rightarrow> nat list \<Rightarrow> nat option \<Rightarrow> bool" where
  "lru_seg h p [] q \<longleftrightarrow> True"
| "lru_seg h p (x # xs) q \<longleftrightarrow>
     df_lruPrev (h x) = p \<and> df_lruNext (h x) = (case xs of [] \<Rightarrow> q | y # _ \<Rightarrow> Some y) \<and>
     lru_seg h (Some x) xs q"

definition hd_opt :: "'a list \<Rightarrow> 'a option" where
  "hd_opt xs = (case xs of [] \<Rightarrow> None | x # _ \<Rightarrow> Some x)"

definition last_opt :: "'a list \<Rightarrow> 'a option" where
  "last_opt xs = (if xs = [] then None else Some (last xs))"

lemma hd_opt_simps [simp]: "hd_opt [] = None" "hd_opt (x # xs) = Some x"
  by (simp_all add: hd_opt_def)

lemma last_opt_simps [simp]: "last_opt [] = None" "last_opt (xs @ [x]) = Some x"
  by (simp_all add: last_opt_def)

definition lru_list :: "store \<Rightarrow> nat list \<Rightarrow> bool" where
  "lru_list s xs \<longleftrightarrow> distinct xs \<and> lruMRU s = hd_opt xs \<and> lruLRU s = last_opt xs \<and>
     lru_seg (heap s) None xs None \<and> nOpen s = int (length xs)"

definition lru_repr :: "store \<Rightarrow> nat list \<Rightarrow> bool" where
  "lru_repr s xs \<longleftrightarrow> lru_list s xs \<and> (\<forall>n. df_open (heap s n) \<longleftrightarrow> n \<in> set xs)"

lemma lru_seg_append:
  "lru_seg h p (xs @ ys) q \<longleftrightarrow>
     lru_seg h p xs (if ys = [] then q else Some (hd ys)) \<and>
     lru_seg h (if xs = [] then p else Some (last xs)) ys q"
proof (induction xs arbitrary: p)
  case (Cons x xs)
  then show ?case by (cases xs; cases ys) auto
qed simp

lemma lru_seg_cong:
  "(\<And>x. x \<in> set xs \<Longrightarrow> df_lruPrev (h' x) = df_lruPrev (h x) \<and> df_lruNext (h' x) = df_lruNext (h x)) \<Longrightarrow>
   lru_seg h' p xs q = lru_seg h p xs q"
  by (induction xs arbitrary: p) auto

lemma lru_seg_upd_other [simp]: "n \<notin> set xs \<Longrightarrow> lru_seg (h(n := d)) p xs q = lru_seg h p xs q"
  by (rule lru_seg_cong) auto

lemma lru_seg_set_prev:
  "lru_seg h p (x # xs) q \<Longrightarrow> x \<notin> set xs \<Longrightarrow> lru_seg (h(x := (h x)\<lparr>df_lruPrev := p'\<rparr>)) p' (x # xs) q"
  by simp

lemma lru_seg_set_next:
  assumes "lru_seg h p (xs @ [x]) q" "x \<notin> set xs"
  shows "lru_seg (h(x := (h x)\<lparr>df_lruNext := q'\<rparr>)) p (xs @ [x]) q'"
  using assms by (simp add: lru_seg_append)

section \<open>The list operations\<close>

lemma lru_list_cong:
  assumes "lru_list s xs" "lruMRU s' = lruMRU s" "lruLRU s' = lruLRU s" "nOpen s' = nOpen s"
    "\<And>k. df_lruPrev (heap s' k) = df_lruPrev (heap s k) \<and> df_lruNext (heap s' k) = df_lruNext (heap s k)"
  shows "lru_list s' xs"
  using assms lru_seg_cong [of xs "heap s'" "heap s"] by (auto simp: lru_list_def)

lemma lru_list_push:
  assumes r: "lru_list s xs" and n: "n \<notin> set xs"
  shows "lru_list (lruPushMRU n s) (n # xs)"
proof (cases xs)
  case Nil
  with assms show ?thesis
    by (auto simp: lru_list_def lruPushMRU_def Let_def last_opt_def upd_df_def)
next
  case (Cons m ms)
  then have mn: "m \<noteq> n" and seg: "lru_seg (heap s) None (m # ms) None" and m: "m \<notin> set ms" "n \<notin> set ms"
    using r n by (auto simp: lru_list_def)
  have "lru_seg ((heap s)(m := (heap s m)\<lparr>df_lruPrev := Some n\<rparr>)) (Some n) (m # ms) None"
    by (rule lru_seg_set_prev [OF seg m(1)])
  then show ?thesis
    using r n Cons mn m
    by (auto simp: lru_list_def lruPushMRU_def Let_def last_opt_def upd_df_def)
qed

lemma lruUnlink_frame [simp]:
  "ioErr (lruUnlink n s) = ioErr s" "os (lruUnlink n s) = os s"
  "df_dirty (heap (lruUnlink n s) k) = df_dirty (heap s k)"
  "df_open (heap (lruUnlink n s) k) = df_open (heap s k)"
  by (auto simp: lruUnlink_def Let_def split: option.splits)

lemma lruPushMRU_frame [simp]:
  "ioErr (lruPushMRU n s) = ioErr s" "os (lruPushMRU n s) = os s"
  "df_dirty (heap (lruPushMRU n s) k) = df_dirty (heap s k)"
  "df_open (heap (lruPushMRU n s) k) = df_open (heap s k)"
  by (auto simp: lruPushMRU_def Let_def split: option.splits)

lemma lru_list_unlink:
  assumes r: "lru_list s (ys @ n # zs)"
  shows "lru_list (lruUnlink n s) (ys @ zs)"
proof -
  have d: "n \<notin> set ys" "n \<notin> set zs" "set ys \<inter> set zs = {}" "distinct ys" "distinct zs"
    and segy: "lru_seg (heap s) None ys (Some n)" and prev: "df_lruPrev (heap s n) = last_opt ys"
    and nxt: "df_lruNext (heap s n) = hd_opt zs" and segz: "lru_seg (heap s) (Some n) zs None"
    and mru: "lruMRU s = hd_opt (ys @ n # zs)" and lru: "lruLRU s = last_opt (ys @ n # zs)"
    and cnt: "nOpen s = int (length (ys @ n # zs))"
    using r by (auto simp: lru_list_def lru_seg_append last_opt_def hd_opt_def split: if_splits list.splits)
  have ends: "lruMRU (lruUnlink n s) = hd_opt (ys @ zs)" "lruLRU (lruUnlink n s) = last_opt (ys @ zs)"
    using prev nxt mru lru d
    by (cases ys; cases zs; auto simp: lruUnlink_def Let_def last_opt_def hd_opt_def split: option.splits)+
  have "lru_seg (heap (lruUnlink n s)) None (ys @ zs) None"
  proof (cases ys rule: rev_cases)
    case Nil
    then show ?thesis using prev nxt segz d
      by (cases zs) (auto simp: lruUnlink_def Let_def)
  next
    case (snoc ys' y)
    have segy': "lru_seg ((heap s)(y := (heap s y)\<lparr>df_lruNext := q\<rparr>)) None (ys' @ [y]) q" for q
      by (rule lru_seg_set_next) (use segy snoc d in auto)
    show ?thesis
    proof (cases zs)
      case Nil
      then show ?thesis using prev nxt segy' [of None] d snoc
        by (auto simp: lruUnlink_def Let_def fun_upd_twist)
    next
      case (Cons z zs')
      then have yz: "y \<noteq> z" "n \<noteq> y" "n \<noteq> z" "y \<notin> set zs'" "z \<notin> set ys'" using d snoc by auto
      have "lru_seg (heap (lruUnlink n s)) None (ys' @ [y]) (Some z)"
        using prev nxt segy' [of "Some z"] d snoc Cons yz
        by (auto simp: lruUnlink_def Let_def fun_upd_twist)
      moreover have "lru_seg (heap (lruUnlink n s)) (Some y) (z # zs') None"
        using prev nxt segz d snoc Cons yz
        by (auto simp: lruUnlink_def Let_def)
      ultimately show ?thesis using snoc Cons by (simp add: lru_seg_append)
    qed
  qed
  then show ?thesis using ends d cnt by (auto simp: lru_list_def)
qed

lemma lru_list_remove:
  assumes "lru_list s xs" "n \<in> set xs"
  shows "lru_list (lruUnlink n s) (remove1 n xs)"
proof -
  obtain ys zs where xs: "xs = ys @ n # zs" using assms(2) by (meson split_list)
  then have "remove1 n xs = ys @ zs" using assms(1) by (simp add: lru_list_def remove1_append)
  then show ?thesis using lru_list_unlink assms(1) xs by simp
qed

text \<open>
  The interface the handle operations rely on: a representation by a sequence without
  duplicates, pushed at the front and unlinked anywhere.
\<close>

locale recency =
  fixes repr :: "'s \<Rightarrow> 'a list \<Rightarrow> bool"
    and push :: "'a \<Rightarrow> 's \<Rightarrow> 's"
    and unlink :: "'a \<Rightarrow> 's \<Rightarrow> 's"
  assumes repr_distinct: "repr s xs \<Longrightarrow> distinct xs"
    and repr_push: "repr s xs \<Longrightarrow> n \<notin> set xs \<Longrightarrow> repr (push n s) (n # xs)"
    and repr_unlink: "repr s xs \<Longrightarrow> n \<in> set xs \<Longrightarrow> repr (unlink n s) (remove1 n xs)"
begin

lemma repr_touch: "repr s xs \<Longrightarrow> n \<in> set xs \<Longrightarrow> repr (push n (unlink n s)) (n # remove1 n xs)"
  by (intro repr_push repr_unlink) (auto dest: repr_distinct)

lemma repr_push_unlink: "repr s xs \<Longrightarrow> n \<notin> set xs \<Longrightarrow> repr (unlink n (push n s)) xs"
  using repr_unlink [OF repr_push, of s xs n n] by simp

lemma repr_unlink_all:
  "repr s xs \<Longrightarrow> distinct ys \<Longrightarrow> set ys \<subseteq> set xs \<Longrightarrow>
   repr (fold unlink ys s) (fold remove1 ys xs)"
proof (induction ys arbitrary: s xs)
  case (Cons y ys)
  have "repr (unlink y s) (remove1 y xs)" by (rule repr_unlink) (use Cons.prems in auto)
  moreover have "set ys \<subseteq> set (remove1 y xs)"
    using Cons.prems repr_distinct [OF Cons.prems(1)] by auto
  ultimately show ?case using Cons by simp
qed simp

end

interpretation lru: recency lru_list lruPushMRU lruUnlink
  by unfold_locales (simp_all add: lru_list_push lru_list_remove, simp add: lru_list_def)

lemma lru_push:
  assumes "lru_repr s xs" "n \<notin> set xs"
  shows "lru_repr (lruPushMRU n (upd_df n (\<lambda>d. d\<lparr>df_open := True\<rparr>) s)) (n # xs)"
proof -
  let ?s = "upd_df n (\<lambda>d. d\<lparr>df_open := True\<rparr>) s"
  have "lru_list s xs" using assms by (simp add: lru_repr_def)
  then have "lru_list ?s xs" by (rule lru_list_cong) auto
  then have "lru_list (lruPushMRU n ?s) (n # xs)" using assms(2) by (rule lru_list_push)
  then show ?thesis using assms by (auto simp: lru_repr_def)
qed

lemma lru_remove:
  assumes "lru_repr s xs" "n \<in> set xs"
  shows "lru_repr (lruUnlink n (upd_df n (\<lambda>d. d\<lparr>df_open := False\<rparr>) s)) (remove1 n xs)"
proof -
  let ?s = "upd_df n (\<lambda>d. d\<lparr>df_open := False\<rparr>) s"
  have l: "lru_list s xs" using assms by (simp add: lru_repr_def)
  then have "lru_list ?s xs" by (rule lru_list_cong) auto
  then have "lru_list (lruUnlink n ?s) (remove1 n xs)" using assms(2) by (rule lru_list_remove)
  then show ?thesis using assms l by (auto simp: lru_repr_def lru_list_def)
qed

lemma lru_touch:
  assumes r: "lru_repr s xs" and n: "n \<in> set xs"
  shows "lru_repr (touchOpen n s) (n # remove1 n xs)"
proof (cases "lruMRU s = Some n")
  case True
  then obtain ys where "xs = n # ys" using r n by (cases xs) (auto simp: lru_repr_def lru_list_def)
  then show ?thesis using r True by (simp add: touchOpen_def)
next
  case False
  have l: "lru_list s xs" using r by (simp add: lru_repr_def)
  then have "lru_list (lruPushMRU n (lruUnlink n s)) (n # remove1 n xs)"
    using n by (rule lru.repr_touch)
  then show ?thesis using False r n l by (auto simp: touchOpen_def lru_repr_def lru_list_def)
qed

section \<open>The eviction walk\<close>

lemma lru_walk_spec:
  "lru_seg h None xs q \<Longrightarrow> length xs \<le> k \<Longrightarrow>
   lru_walk k P h (last_opt xs) = hd_opt (filter P (rev xs))"
proof (induction xs arbitrary: k q rule: rev_induct)
  case (snoc x xs)
  then obtain k' where k: "k = Suc k'" by (cases k) auto
  have "df_lruPrev (h x) = last_opt xs" and seg: "lru_seg h None xs (Some x)"
    using snoc.prems(1) by (auto simp: lru_seg_append last_opt_def)
  moreover have "lru_walk k' P h (last_opt xs) = hd_opt (filter P (rev xs))"
    by (rule snoc.IH [OF seg]) (use snoc.prems k in simp)
  ultimately show ?case unfolding k by simp
qed simp

lemma evict_victim_spec:
  "lru_repr s xs \<Longrightarrow> evict_victim act keep s = hd_opt (filter (evictable act keep s) (rev xs))"
  unfolding evict_victim_def by (auto simp: lru_repr_def lru_list_def lru_walk_spec)

section \<open>One eviction\<close>

lemma flushVictim_frame:
  assumes "flushVictim n s = (r, s')"
  shows "lruMRU s' = lruMRU s" "lruLRU s' = lruLRU s" "nOpen s' = nOpen s"
    "df_lruPrev (heap s' k) = df_lruPrev (heap s k)" "df_lruNext (heap s' k) = df_lruNext (heap s k)"
    "df_open (heap s' k) = df_open (heap s k)"
    "k \<noteq> n \<Longrightarrow> df_dirty (heap s' k) = df_dirty (heap s k)"
    "ioErr s \<noteq> None \<Longrightarrow> ioErr s' = ioErr s"
    "k \<noteq> n \<Longrightarrow> stable (os s') k = stable (os s) k"
    "ioErr s' = None \<Longrightarrow> df_dirty (heap s n) \<Longrightarrow> \<not> df_dirty (heap s' n) \<and> stable (os s') n = inode (os s) n"
  using assms
  by (auto simp: flushVictim_def flushSync_def os_run_def failIO_def Let_def
      split: if_splits option.splits prod.splits sum.splits dest!: datasync_stable)

lemma lru_repr_cong:
  assumes "lru_repr s xs" "lruMRU s' = lruMRU s" "lruLRU s' = lruLRU s" "nOpen s' = nOpen s"
    "\<And>k. df_lruPrev (heap s' k) = df_lruPrev (heap s k) \<and> df_lruNext (heap s' k) = df_lruNext (heap s k) \<and>
      df_open (heap s' k) = df_open (heap s k)"
  shows "lru_repr s' xs"
  using assms lru_list_cong [of s xs s'] by (auto simp: lru_repr_def)

text \<open>What closing the handle of \<open>n\<close> may do to the file's dirty state.\<close>

definition closed_safely :: "store \<Rightarrow> nat \<Rightarrow> store \<Rightarrow> bool" where
  "closed_safely s n s' \<longleftrightarrow>
     (if noSync s then df_dirty (heap s' n) = df_dirty (heap s n)
      else df_dirty (heap s n) \<longrightarrow>
        ioErr s' \<noteq> None \<or> \<not> df_dirty (heap s' n) \<and> stable (os s') n = inode (os s) n)"

lemma evict_one_spec:
  assumes r: "lru_repr s xs" and n: "n \<in> set xs"
  shows "lru_repr (evict_one n s) (remove1 n xs)"
    and "closed_safely s n (evict_one n s)"
    and "k \<noteq> n \<Longrightarrow> df_dirty (heap (evict_one n s) k) = df_dirty (heap s k)"
    and "k \<noteq> n \<Longrightarrow> stable (os (evict_one n s)) k = stable (os s) k"
    and "ioErr s \<noteq> None \<Longrightarrow> ioErr (evict_one n s) = ioErr s"
proof -
  define s1 where "s1 = (if noSync s then s else snd (flushVictim n s))"
  define s2 where "s2 = snd (os_run os_close s1)"
  have e: "evict_one n s = lruUnlink n (upd_df n (\<lambda>d. d\<lparr>df_open := False\<rparr>) s2)"
    by (simp add: evict_one_def Let_def s1_def s2_def)
  obtain r2 where "os_run os_close s1 = (r2, s2)" unfolding s2_def by (metis prod.collapse)
  then obtain w where "os_close (os s1) = (r2, w)" "s2 = s1\<lparr>os := w\<rparr>" by (rule os_runE)
  then have c: "heap s2 = heap s1" "ioErr s2 = ioErr s1" "lruMRU s2 = lruMRU s1"
    "lruLRU s2 = lruLRU s1" "nOpen s2 = nOpen s1" "stable (os s2) = stable (os s1)"
    by (auto dest: os_close_same)
  obtain r1 where f: "noSync s \<or> flushVictim n s = (r1, s1)" unfolding s1_def by (metis prod.collapse)
  have s1: "noSync s \<Longrightarrow> s1 = s" by (simp add: s1_def)
  have "lru_repr s1 xs"
  proof (cases "noSync s")
    case False
    then have fv: "flushVictim n s = (r1, s1)" using f by simp
    show ?thesis
      by (rule lru_repr_cong [OF r]) (simp_all add: flushVictim_frame [OF fv])
  qed (simp add: s1 r)
  then have "lru_repr s2 xs" by (rule lru_repr_cong) (simp_all add: c)
  then show "lru_repr (evict_one n s) (remove1 n xs)" unfolding e by (rule lru_remove [OF _ n])
  show "closed_safely s n (evict_one n s)"
    using f s1 flushVictim_frame(10) [of n s r1 s1] by (auto simp: closed_safely_def e c)
  show "k \<noteq> n \<Longrightarrow> df_dirty (heap (evict_one n s) k) = df_dirty (heap s k)"
    using f s1 flushVictim_frame(7) [of n s r1 s1] by (auto simp: e c)
  show "k \<noteq> n \<Longrightarrow> stable (os (evict_one n s)) k = stable (os s) k"
    using f s1 flushVictim_frame(9) [of n s r1 s1] by (auto simp: e c)
  have "ioErr s \<noteq> None \<Longrightarrow> ioErr s1 = ioErr s"
    using f s1 flushVictim_frame(8) [of n s r1 s1] by blast
  then show "ioErr s \<noteq> None \<Longrightarrow> ioErr (evict_one n s) = ioErr s" by (simp add: e c)
qed

section \<open>Evicting down to the cap\<close>

lemma evictable_core: "core s' = core s \<Longrightarrow> evictable act keep s' = evictable act keep s"
  by (rule ext) (simp only: evictable_def core_eq_df_fields(10) [of s' s])

text \<open>\<open>evicted s xs s' ys\<close>: the handles of \<open>xs\<close> that are not in \<open>ys\<close> were closed, safely, and no other
  file's flags or stable content changed.\<close>

definition evicted :: "store \<Rightarrow> nat list \<Rightarrow> store \<Rightarrow> nat list \<Rightarrow> bool" where
  "evicted s xs s' ys \<longleftrightarrow> set ys \<subseteq> set xs \<and>
     (\<forall>n \<in> set xs - set ys. closed_safely s n s') \<and>
     (\<forall>n. n \<notin> set xs - set ys \<longrightarrow>
        df_dirty (heap s' n) = df_dirty (heap s n) \<and> stable (os s') n = stable (os s) n) \<and>
     (ioErr s \<noteq> None \<longrightarrow> ioErr s' = ioErr s)"

lemma evicted_refl: "evicted s xs s xs"
  by (simp add: evicted_def)

lemma evicted_step:
  assumes r: "lru_repr s xs" and v: "v \<in> set xs"
    and e: "evicted (evict_one v s) (remove1 v xs) s' ys"
  shows "evicted s xs s' ys"
proof -
  let ?t = "evict_one v s"
  have d: "distinct xs" using r by (simp add: lru_repr_def lru_list_def)
  note one = evict_one_spec [OF r v]
  have cf: "noSync ?t = noSync s" "inode (os ?t) = inode (os s)"
    by (rule core_eq_fields [OF core_evict_one])+
  have vs: "v \<notin> set ys" and keep: "df_dirty (heap s' v) = df_dirty (heap ?t v)"
      "stable (os s') v = stable (os ?t) v"
    using e d by (auto simp: evicted_def)
  have io: "ioErr s' = None \<Longrightarrow> ioErr ?t = None" using e by (auto simp: evicted_def)
  have "closed_safely s v s'"
    using one(2) keep io by (auto simp: closed_safely_def split: if_splits)
  moreover have "closed_safely s n s'" if n: "n \<in> set xs - set ys" "n \<noteq> v" for n
    using e n d one(3) [of n] cf by (auto simp: evicted_def closed_safely_def)
  ultimately have "\<forall>n \<in> set xs - set ys. closed_safely s n s'" by blast
  moreover have "df_dirty (heap s' n) = df_dirty (heap s n) \<and> stable (os s') n = stable (os s) n"
    if n: "n \<notin> set xs - set ys" for n
  proof -
    have "n \<noteq> v" and "n \<notin> set (remove1 v xs) - set ys" using n v vs d by auto
    then show ?thesis using e one(3,4) [of n] by (simp add: evicted_def)
  qed
  moreover have "set ys \<subseteq> set xs" using e d by (auto simp: evicted_def)
  moreover have "ioErr s \<noteq> None \<longrightarrow> ioErr s' = ioErr s"
    using e one(5) by (auto simp: evicted_def)
  ultimately show ?thesis unfolding evicted_def by blast
qed

lemma evict_loop_spec:
  assumes "lru_repr s xs"
  shows "\<exists>ys. lru_repr (evict_loop act keep s) ys \<and> evicted s xs (evict_loop act keep s) ys \<and>
    (\<forall>n \<in> set xs. \<not> evictable act keep s n \<longrightarrow> n \<in> set ys) \<and>
    (int (length ys) \<le> maxOpenFiles s \<or> (\<forall>n \<in> set ys. \<not> evictable act keep s n))"
  using assms
proof (induction act keep s arbitrary: xs rule: evict_loop.induct)
  case (1 act keep s)
  have len: "nOpen s = int (length xs)" using "1.prems" by (simp add: lru_repr_def lru_list_def)
  have d: "distinct xs" using "1.prems" by (simp add: lru_repr_def lru_list_def)
  note victim = evict_victim_spec [OF "1.prems", of act keep]
  consider (fits) "nOpen s \<le> maxOpenFiles s"
    | (none) "nOpen s > maxOpenFiles s" "evict_victim act keep s = None"
    | (some) v where "nOpen s > maxOpenFiles s" "evict_victim act keep s = Some v"
    by (metis not_le option.exhaust)
  then show ?case
  proof cases
    case fits
    then show ?thesis using "1.prems" len
      by (intro exI [of _ xs]) (simp add: evict_loop.simps [of act keep s] evicted_refl)
  next
    case none
    then have "\<forall>n \<in> set xs. \<not> evictable act keep s n"
      using victim by (auto simp: hd_opt_def filter_empty_conv split: list.splits)
    then show ?thesis using "1.prems" none
      by (intro exI [of _ xs]) (simp add: evict_loop.simps [of act keep s] evicted_refl)
  next
    case some
    have "v \<in> set (filter (evictable act keep s) (rev xs))"
      using victim some(2) by (cases "filter (evictable act keep s) (rev xs)") auto
    then have v: "v \<in> set xs" "evictable act keep s v" by auto
    let ?t = "evict_one v s"
    have t: "evict_loop act keep s = evict_loop act keep ?t"
      using some by (simp add: evict_loop.simps [of act keep s])
    have ev: "evictable act keep ?t = evictable act keep s" by (rule evictable_core) simp
    obtain ys where ys: "lru_repr (evict_loop act keep ?t) ys"
      "evicted ?t (remove1 v xs) (evict_loop act keep ?t) ys"
      "\<forall>n \<in> set (remove1 v xs). \<not> evictable act keep s n \<longrightarrow> n \<in> set ys"
      "int (length ys) \<le> maxOpenFiles s \<or> (\<forall>n \<in> set ys. \<not> evictable act keep s n)"
      using "1.IH" [OF some(1,2) evict_one_spec(1) [OF "1.prems" v(1)]] ev by auto
    then show ?thesis unfolding t
      using evicted_step [OF "1.prems" v(1) ys(2)] v d by (intro exI [of _ ys]) auto
  qed
qed

section \<open>Properties\<close>

lemma evictOpen_spec:
  assumes "lru_repr s xs" "0 < maxOpenFiles s"
  shows "\<exists>ys. lru_repr (evictOpen keep s) ys \<and> evicted s xs (evictOpen keep s) ys \<and>
    (\<forall>n \<in> set xs. \<not> evictable (active s) keep s n \<longrightarrow> n \<in> set ys) \<and>
    (int (length ys) \<le> maxOpenFiles s \<or> (\<forall>n \<in> set ys. \<not> evictable (active s) keep s n))"
  using evict_loop_spec [OF assms(1), of "active s" keep] assms(2) by (simp add: evictOpen_def)

lemma lru_repr_open: "lru_repr s xs \<Longrightarrow> df_open (heap s n) \<longleftrightarrow> n \<in> set xs"
  by (simp add: lru_repr_def)

lemma lru_repr_evictOpen: "lru_repr s xs \<Longrightarrow> \<exists>ys. lru_repr (evictOpen keep s) ys \<and> (keep \<in> set xs \<longrightarrow> keep \<in> set ys)"
  using evictOpen_spec [of s xs keep]
  by (cases "0 < maxOpenFiles s") (auto simp: evictable_def evictOpen_def)

lemma lru_repr_ensureOpen:
  assumes "lru_repr s xs" "ensureOpen n s = (r, s')"
  shows "\<exists>ys. lru_repr s' ys \<and> (r = Inr () \<longrightarrow> n \<in> set ys)"
proof (cases "df_open (heap s n)")
  case True
  then have "n \<in> set xs" using assms(1) by (simp add: lru_repr_open)
  then show ?thesis using True assms lru_touch [of s xs n] by (auto simp: ensureOpen_def)
next
  case False
  obtain r0 s1 where o: "os_run (os_open n) s = (r0, s1)" by force
  then have h: "heap s1 = heap s" and r1: "lru_repr s1 xs"
    using assms(1) lru_repr_cong [of s xs s1] by (auto elim!: os_runE)
  show ?thesis
  proof (cases r0)
    case (Inl e)
    then show ?thesis using assms(2) False o r1 by (auto simp: ensureOpen_def)
  next
    case (Inr u)
    have "n \<notin> set xs" using False assms(1) by (simp add: lru_repr_open)
    from lru_push [OF r1 this] lru_repr_evictOpen [of _ "n # xs" n] show ?thesis
      using assms(2) False o Inr by (auto simp: ensureOpen_def trackOpen_def)
  qed
qed

text \<open>
  C24: evicting handles keeps the doubly linked list consistent; it closes only handles that
  are neither the active segment, nor the one just opened, nor pinned by a flush in progress; a
  dirty file it closes is flushed first or the failure is latched (under \<open>noSync\<close> it stays marked
  dirty); files it does not close are not touched; and it stops only when the cap holds or
  nothing closable is left.
\<close>

theorem evictOpen_safe:
  assumes "lru_repr s xs" "0 < maxOpenFiles s"
  shows "\<exists>ys. lru_repr (evictOpen keep s) ys \<and> set ys \<subseteq> set xs \<and>
    (\<forall>n \<in> set xs. Some n = active s \<or> n = keep \<or> 0 < df_pins (heap s n) \<longrightarrow> n \<in> set ys) \<and>
    (int (length ys) \<le> maxOpenFiles s \<or>
       (\<forall>n \<in> set ys. Some n = active s \<or> n = keep \<or> 0 < df_pins (heap s n))) \<and>
    (\<forall>n \<in> set xs - set ys.
       if noSync s then df_dirty (heap (evictOpen keep s) n) = df_dirty (heap s n)
       else df_dirty (heap s n) \<longrightarrow> ioErr (evictOpen keep s) \<noteq> None \<or>
         \<not> df_dirty (heap (evictOpen keep s) n) \<and> stable (os (evictOpen keep s)) n = inode (os s) n) \<and>
    (\<forall>n. n \<notin> set xs - set ys \<longrightarrow> df_dirty (heap (evictOpen keep s) n) = df_dirty (heap s n) \<and>
       stable (os (evictOpen keep s)) n = stable (os s) n)"
proof -
  obtain ys where ys: "lru_repr (evictOpen keep s) ys" "evicted s xs (evictOpen keep s) ys"
    "\<forall>n \<in> set xs. \<not> evictable (active s) keep s n \<longrightarrow> n \<in> set ys"
    "int (length ys) \<le> maxOpenFiles s \<or> (\<forall>n \<in> set ys. \<not> evictable (active s) keep s n)"
    using evictOpen_spec [OF assms] by blast
  from ys(3,4) have "\<forall>n \<in> set xs. Some n = active s \<or> n = keep \<or> 0 < df_pins (heap s n) \<longrightarrow> n \<in> set ys"
    "int (length ys) \<le> maxOpenFiles s \<or>
       (\<forall>n \<in> set ys. Some n = active s \<or> n = keep \<or> 0 < df_pins (heap s n))"
    by (auto simp: evictable_def)
  with ys(1,2) show ?thesis unfolding evicted_def closed_safely_def by blast
qed

text \<open>Four handles under a cap of three, the least recently used one dirty.\<close>

definition push_open :: "nat \<Rightarrow> store \<Rightarrow> store" where
  "push_open n s = lruPushMRU n (upd_df n (\<lambda>d. d\<lparr>df_open := True\<rparr>) s)"

definition four_open :: store where
  "four_open = push_open 4 (push_open 3 (push_open 2 (push_open 1
     (mark_dirty 1 (new_store 4096 0 False 1 3 os_empty)))))"

lemma four_open_repr: "lru_repr four_open [4, 3, 2, 1]"
proof -
  have "lru_repr (mark_dirty 1 (new_store 4096 0 False 1 3 os_empty)) []"
    by (simp add: lru_repr_def lru_list_def mark_dirty_def new_store_def zero_dataFile_def upd_df_def)
  then show ?thesis unfolding four_open_def push_open_def by (intro lru_push) simp_all
qed

theorem evictOpen_safe_witness:
  "lru_repr four_open [4, 3, 2, 1] \<and>
   (\<exists>ys. lru_repr (evictOpen 4 four_open) ys \<and> set ys \<subseteq> {1, 2, 3, 4} \<and> length ys \<le> 3)"
proof -
  have m: "maxOpenFiles four_open = 3" "active four_open = None" "df_pins (heap four_open n) = 0" for n
    by (simp_all add: four_open_def push_open_def mark_dirty_def new_store_def capOpenFiles_def
        active_def zero_dataFile_def lruPushMRU_def Let_def split: option.split)
  have "0 < maxOpenFiles four_open" by (simp add: m)
  from evictOpen_safe [OF four_open_repr this, of 4] obtain ys where
    ys0: "lru_repr (evictOpen 4 four_open) ys" "set ys \<subseteq> set [4, 3, 2, 1]"
      "int (length ys) \<le> maxOpenFiles four_open \<or>
       (\<forall>n \<in> set ys. Some n = active four_open \<or> n = 4 \<or> 0 < df_pins (heap four_open n))" by blast
  then have ys: "lru_repr (evictOpen 4 four_open) ys" "set ys \<subseteq> {1, 2, 3, 4}"
      "length ys \<le> 3 \<or> set ys \<subseteq> {4}" by (auto simp: m)
  from ys(1) have "distinct ys" by (simp add: lru_repr_def lru_list_def)
  then have "length ys = card (set ys)" by (simp add: distinct_card)
  moreover have "set ys \<subseteq> {4} \<Longrightarrow> card (set ys) \<le> card {4::nat}" by (intro card_mono) auto
  ultimately have "length ys \<le> 3" using ys(3) by auto
  then show ?thesis using four_open_repr ys by auto
qed

end
