(* ===== verification/Healthy.thy ===== *)
theory Healthy
  imports Lru_Refine
begin

text \<open>
  A healthy store: no scripted failure is left and no failure is latched.  Every handle operation
  keeps it so, and opening a file the directory still names succeeds.
\<close>

definition healthy :: "store \<Rightarrow> bool" where
  "healthy s \<longleftrightarrow> script (os s) = [] \<and> ioErr s = None"

named_theorems healthy_rules \<open>operations that succeed on a healthy store and keep it healthy\<close>

lemma healthy_upd_df [simp]: "healthy (upd_df n f s) = healthy s"
  by (simp add: healthy_def)

lemma healthy_lruUnlink [simp]: "healthy (lruUnlink n s) = healthy s"
  by (simp add: healthy_def)

lemma healthy_lruPushMRU [simp]: "healthy (lruPushMRU n s) = healthy s"
  by (simp add: healthy_def)

lemma healthy_touchOpen [simp]: "healthy (touchOpen n s) = healthy s"
  by (simp add: touchOpen_def)

lemma healthy_flushSync [healthy_rules]:
  "healthy s \<Longrightarrow> flushSync n s =
     (Inr (), upd_df n (\<lambda>d. d\<lparr>df_dirty := False\<rparr>) (s\<lparr>os := (os s)\<lparr>stable := (stable (os s))(n := inode (os s) n)\<rparr>\<rparr>))"
  by (simp add: flushSync_def healthy_def os_run_def os_healthy)

lemma healthy_os_stable: "healthy s \<Longrightarrow> healthy (s\<lparr>os := (os s)\<lparr>stable := x\<rparr>\<rparr>)"
  by (simp add: healthy_def)

lemma healthy_flushVictim: "healthy s \<Longrightarrow> healthy (snd (flushVictim n s))"
  by (simp add: flushVictim_def healthy_flushSync healthy_os_stable)

lemma healthy_os_close: "healthy s \<Longrightarrow> os_run os_close s = (Inr (), s)"
  by (simp add: healthy_def os_run_def os_healthy)

lemma healthy_os_open: "healthy s \<Longrightarrow> linked (os s) n \<Longrightarrow> os_run (os_open n) s = (Inr (), s)"
  by (simp add: healthy_def os_run_def os_healthy)

lemma healthy_evict_one: "healthy s \<Longrightarrow> healthy (evict_one n s)"
  using healthy_flushVictim [of s n] by (simp add: evict_one_def Let_def healthy_os_close)

lemma healthy_evict_loop: "healthy s \<Longrightarrow> healthy (evict_loop act keep s)"
proof (induction act keep s rule: evict_loop.induct)
  case (1 act keep s)
  then show ?case
    by (cases "evict_victim act keep s") (simp_all add: evict_loop.simps [of act keep s] healthy_evict_one)
qed

lemma healthy_evictOpen: "healthy s \<Longrightarrow> healthy (evictOpen keep s)"
  by (simp add: evictOpen_def healthy_evict_loop)

lemma healthy_trackOpen: "healthy s \<Longrightarrow> healthy (trackOpen n s)"
  by (simp add: trackOpen_def healthy_evictOpen)

lemma healthy_ensureOpen:
  assumes "healthy s" "linked (os s) n"
  obtains s' where "ensureOpen n s = (Inr (), s')" "healthy s'" "core s' = core s"
proof -
  obtain s' where e: "ensureOpen n s = (Inr (), s')" and h: "healthy s'"
    using assms healthy_trackOpen [of "upd_df n (\<lambda>d. d\<lparr>df_open := True\<rparr>) s" n]
    by (cases "df_open (heap s n)") (auto simp: ensureOpen_def healthy_os_open)
  show ?thesis by (rule that [OF e h core_ensureOpen [OF e]])
qed

end
