(* ===== verification/Block_Cache.thy ===== *)
theory Block_Cache
  imports Healthy
begin

text \<open>
  The read block of record.go: \<open>readBuf\<close> caches a run of one segment's data region, and
  \<open>recordAt\<close>, \<open>recordLen\<close> and \<open>frameEnd\<close> decode records out of it.  A Go slice is modelled by its
  whole backing array, so \<open>cap(b)\<close> is the length of the list.  The reference reading
  \<open>ref_record\<close> decodes straight from the file; the properties show that the cached reader agrees
  with it whatever was cached before and whatever reads failed.
\<close>

section \<open>Buffers\<close>

definition growBuf :: "bytes \<Rightarrow> nat \<Rightarrow> bytes" where
  "growBuf b n = (if length b < n then replicate n 0 else b)"

definition trimOver :: "bytes \<Rightarrow> int \<Rightarrow> bytes" where
  "trimOver b limit = (if int (length b) > limit then [] else b)"

definition growKeeping :: "bytes \<Rightarrow> nat \<Rightarrow> nat \<Rightarrow> bytes" where
  "growKeeping b n keep = (if length b \<ge> n then b else take keep b @ replicate (n - keep) 0)"

section \<open>The block\<close>

definition blockHas :: "nat \<Rightarrow> int \<Rightarrow> int \<Rightarrow> store \<Rightarrow> bool" where
  "blockHas df dataOff n s \<longleftrightarrow>
     blockFile s = Some df \<and> dataOff \<ge> blockOff s \<and> dataOff + n \<le> blockOff s + blockLen s"

definition blockAt :: "int \<Rightarrow> nat \<Rightarrow> store \<Rightarrow> bytes" where
  "blockAt dataOff n s = (let i = nat (dataOff - blockOff s) in slice i (i + n) (readBuf s))"

definition dropBlock :: "store \<Rightarrow> store" where
  "dropBlock s = s\<lparr>blockFile := None, blockOff := 0, blockLen := 0,
                   readBuf := trimOver (readBuf s) (segmentSize s)\<rparr>"

definition isShortRead :: "err \<Rightarrow> bool" where
  "isShortRead e \<longleftrightarrow> err_is e EOF"

definition shortReadIsCorrupt :: "err \<Rightarrow> err" where
  "shortReadIsCorrupt e = (if isShortRead e then Wrap ErrCorrupt e else e)"

definition readBlock :: "nat \<Rightarrow> int \<Rightarrow> int \<Rightarrow> unit op" where
  "readBlock df dataOff n s =
     (let same = (blockFile s = Some df \<and> blockOff s = dataOff);
          have = (if same then blockLen s else 0)
      in if same \<and> blockLen s \<ge> n then (Inr (), s)
         else
           let s1 = (if have > 0 then s\<lparr>readBuf := growKeeping (readBuf s) (nat n) (nat have)\<rparr>
                     else let d = dropBlock s in d\<lparr>readBuf := growBuf (readBuf d) (nat n)\<rparr>)
           in case os_run (os_pread df (headerSize + nat (dataOff + have)) (nat (n - have))) s1 of
                ((bs, e), s2) \<Rightarrow>
                  let s3 = s2\<lparr>readBuf := put_at (nat have) bs (readBuf s2)\<rparr>
                  in case e of
                       Some x \<Rightarrow> (Inl x, s3)
                     | None \<Rightarrow> (Inr (), s3\<lparr>blockFile := Some df, blockOff := dataOff, blockLen := n\<rparr>))"

definition fillBlock :: "nat \<Rightarrow> int \<Rightarrow> int \<Rightarrow> int \<Rightarrow> unit op" where
  "fillBlock df dataOff avail need s =
     (let want = min (max (int readAhead) need) avail
      in case readBlock df dataOff want s of
           (Inr _, s1) \<Rightarrow> (Inr (), s1)
         | (Inl e, s1) \<Rightarrow>
             if \<not> isShortRead e then (Inl e, dropBlock s1)
             else
               let narrowed = min need avail
               in if narrowed < want then
                    (case readBlock df dataOff narrowed s1 of
                       (Inl e2, s2) \<Rightarrow> (Inl (shortReadIsCorrupt e2), dropBlock s2)
                     | (Inr _, s2) \<Rightarrow> (Inr (), s2))
                  else (Inl (shortReadIsCorrupt e), dropBlock s1))"

section \<open>Decoding\<close>

definition frameHeader :: "nat \<Rightarrow> int \<Rightarrow> int \<Rightarrow> (nat \<times> nat) option op" where
  "frameHeader df dataOff avail s =
     (let probe = min (int MaxVarintLen64) avail
      in case (if blockHas df dataOff probe s then (Inr (), s) else fillBlock df dataOff avail probe s) of
           (Inl e, s1) \<Rightarrow> (Inl e, s1)
         | (Inr _, s1) \<Rightarrow>
             (case Uvarint (blockAt dataOff (nat probe) s1) of (v, n) \<Rightarrow>
                if n \<le> 0 \<or> \<not> fitsInRecord (of_nat v) n avail then (Inr None, s1)
                else (Inr (Some (nat n, nat n + v + checksumSize)), s1)))"

text \<open>\<open>recordAt\<close>: the payload, the stored checksum and the offset past the record.\<close>

definition recordAt :: "nat \<Rightarrow> int \<Rightarrow> (bytes \<times> nat \<times> int) option op" where
  "recordAt df off s =
     (let dataOff = off - df_base (heap s df)
      in if dataOff < 0 \<or> dataOff \<ge> df_size (heap s df) then (Inr None, s)
         else
           let avail = df_size (heap s df) - dataOff
           in case frameHeader df dataOff avail s of
                (Inl e, s1) \<Rightarrow> (Inl e, s1)
              | (Inr None, s1) \<Rightarrow> (Inr None, s1)
              | (Inr (Some (n, tot)), s1) \<Rightarrow>
                  (case (if blockHas df dataOff (int tot) s1 then (Inr (), s1)
                         else case fillBlock df dataOff avail (int tot) s1 of
                                (Inl e, s2) \<Rightarrow> (Inl e, s2)
                              | (Inr _, s2) \<Rightarrow>
                                  if \<not> blockHas df dataOff (int tot) s2 then (Inl (shortReadIsCorrupt EOF), s2)
                                  else (Inr (), s2)) of
                     (Inl e, s2) \<Rightarrow> (Inl e, s2)
                   | (Inr _, s2) \<Rightarrow>
                       let fr = blockAt dataOff tot s2; L = tot - n - checksumSize
                       in (Inr (Some (slice n (n + L) fr, Uint64 (drop (n + L) fr), off + int tot)), s2)))"

definition recordLen :: "nat \<Rightarrow> int \<Rightarrow> int option op" where
  "recordLen df off s =
     (let dataOff = off - df_base (heap s df)
      in if dataOff < 0 \<or> dataOff \<ge> df_size (heap s df) then (Inr None, s)
         else case frameHeader df dataOff (df_size (heap s df) - dataOff) s of
                (Inl e, s1) \<Rightarrow> (Inl e, s1)
              | (Inr None, s1) \<Rightarrow> (Inr None, s1)
              | (Inr (Some (n, tot)), s1) \<Rightarrow> (Inr (Some (off + int tot)), s1))"

definition frameEnd :: "nat \<Rightarrow> int \<Rightarrow> int option op" where
  "frameEnd df off s =
     (if lastFrameEnd s \<noteq> 0 \<and> lastFrameAt s = off then (Inr (Some (lastFrameEnd s)), s)
      else recordLen df off s)"

section \<open>Writing a record\<close>

definition writeRecord :: "hash \<Rightarrow> nat \<Rightarrow> int \<Rightarrow> bytes \<Rightarrow> unit op" where
  "writeRecord xx df off payload s =
     (let framed = framedLen (length payload)
      in if framedTooLarge framed maxFramedLen then (Inl ErrRecordTooLarge, s)
         else
           let buf = put_at 0 (frame xx payload) (growBuf (writeBuf s) (nat framed));
               s1 = s\<lparr>writeBuf := buf\<rparr>
           in case os_run (os_pwrite df (headerSize + nat off) (take (nat framed) buf)) s1 of
                (Inl e, s2) \<Rightarrow> (Inl e, s2)
              | (Inr _, s2) \<Rightarrow> (Inr (), mark_dirty df s2))"

section \<open>The reference reading\<close>

text \<open>
  What a read of the record at \<open>off\<close> means on the file alone.  A region shorter than the
  published size is a file that was cut: a record that needs the missing bytes is corrupt.
\<close>

definition ref_hdr :: "dataFile \<Rightarrow> bytes \<Rightarrow> int \<Rightarrow> (nat \<times> nat) option result" where
  "ref_hdr d ino dataOff =
     (let avail = df_size d - dataOff; probe = nat (min (int MaxVarintLen64) avail);
          at = headerSize + nat dataOff
      in if at + probe > length ino then Inl (Wrap ErrCorrupt EOF)
         else Inr (frame_hdr (slice at (at + probe) ino) avail))"

definition ref_record :: "dataFile \<Rightarrow> bytes \<Rightarrow> int \<Rightarrow> (bytes \<times> nat \<times> int) option result" where
  "ref_record d ino off =
     (let dataOff = off - df_base d; at = headerSize + nat dataOff
      in if dataOff < 0 \<or> dataOff \<ge> df_size d then Inr None
         else case ref_hdr d ino dataOff of
                Inl e \<Rightarrow> Inl e
              | Inr None \<Rightarrow> Inr None
              | Inr (Some (n, tot)) \<Rightarrow>
                  if at + tot > length ino then Inl (Wrap ErrCorrupt EOF)
                  else let fr = slice at (at + tot) ino
                       in Inr (Some (frame_payload n tot fr, frame_sum tot fr, off + int tot)))"

definition ref_len :: "dataFile \<Rightarrow> bytes \<Rightarrow> int \<Rightarrow> int option result" where
  "ref_len d ino off =
     (let dataOff = off - df_base d
      in if dataOff < 0 \<or> dataOff \<ge> df_size d then Inr None
         else case ref_hdr d ino dataOff of
                Inl e \<Rightarrow> Inl e
              | Inr None \<Rightarrow> Inr None
              | Inr (Some (n, tot)) \<Rightarrow> Inr (Some (off + int tot)))"

section \<open>The invariant of the block\<close>

definition block_ok :: "store \<Rightarrow> bool" where
  "block_ok s \<longleftrightarrow>
     (case blockFile s of
        None \<Rightarrow> True
      | Some f \<Rightarrow>
          0 \<le> blockOff s \<and> 0 < blockLen s \<and> blockOff s + blockLen s \<le> df_size (heap s f) \<and>
          nat (blockLen s) \<le> length (readBuf s) \<and>
          headerSize + nat (blockOff s) + nat (blockLen s) \<le> length (inode (os s) f) \<and>
          take (nat (blockLen s)) (readBuf s) =
            slice (headerSize + nat (blockOff s)) (headerSize + nat (blockOff s) + nat (blockLen s)) (inode (os s) f))"

text \<open>\<open>view\<close> erases what reads may change: the handles, the block, and what is stable.\<close>

definition view :: "store \<Rightarrow> store" where
  "view s = (core s)\<lparr>readBuf := [], blockFile := None, blockOff := 0, blockLen := 0\<rparr>"

lemma core_imp_view: "core s' = core s \<Longrightarrow> view s' = view s"
  by (simp add: view_def)

lemma view_eq_df_fields:
  assumes "view s' = view s"
  shows "df_num (heap s' n) = df_num (heap s n)" "df_hdr (heap s' n) = df_hdr (heap s n)"
    "df_diskHeader (heap s' n) = df_diskHeader (heap s n)" "df_base (heap s' n) = df_base (heap s n)"
    "df_size (heap s' n) = df_size (heap s n)" "df_capacity (heap s' n) = df_capacity (heap s n)"
    "df_written (heap s' n) = df_written (heap s n)" "df_committed (heap s' n) = df_committed (heap s n)"
    "df_writeSeq (heap s' n) = df_writeSeq (heap s n)" "df_pins (heap s' n) = df_pins (heap s n)"
    "df_truncated (heap s' n) = df_truncated (heap s n)" "df_resetCommit (heap s' n) = df_resetCommit (heap s n)"
    "df_end (heap s' n) = df_end (heap s n)"
proof -
  have "heap (view s') n = heap (view s) n" using assms by simp
  then have "core_df (heap s' n) = core_df (heap s n)" by (simp add: view_def core_def)
  then show "df_num (heap s' n) = df_num (heap s n)" "df_hdr (heap s' n) = df_hdr (heap s n)"
    "df_diskHeader (heap s' n) = df_diskHeader (heap s n)" "df_base (heap s' n) = df_base (heap s n)"
    "df_size (heap s' n) = df_size (heap s n)" "df_capacity (heap s' n) = df_capacity (heap s n)"
    "df_written (heap s' n) = df_written (heap s n)" "df_committed (heap s' n) = df_committed (heap s n)"
    "df_writeSeq (heap s' n) = df_writeSeq (heap s n)" "df_pins (heap s' n) = df_pins (heap s n)"
    "df_truncated (heap s' n) = df_truncated (heap s n)" "df_resetCommit (heap s' n) = df_resetCommit (heap s n)"
    "df_end (heap s' n) = df_end (heap s n)"
    by (cases "heap s' n"; cases "heap s n"; simp add: core_df_def df_end_def)+
qed

lemma view_eq_fields:
  assumes "view s' = view s"
  shows "dirOpen s' = dirOpen s" "segmentSize s' = segmentSize s" "maxSegments s' = maxSegments s"
    "maxBytes s' = maxBytes s" "noSync s' = noSync s" "syncEvery s' = syncEvery s"
    "maxOpenFiles s' = maxOpenFiles s" "files s' = files s" "nextNum s' = nextNum s"
    "diskBytes s' = diskBytes s" "pendingBytes s' = pendingBytes s" "pendingRecs s' = pendingRecs s"
    "inFlight s' = inFlight s" "inFlightRecs s' = inFlightRecs s" "lastFrameAt s' = lastFrameAt s"
    "lastFrameEnd s' = lastFrameEnd s" "writeBuf s' = writeBuf s"
    "writeOff s' = writeOff s" "headOff s' = headOff s" "commitOff s' = commitOff s"
    "reserved s' = reserved s" "nWritten s' = nWritten s" "nCommitted s' = nCommitted s"
    "unsynced s' = unsynced s" "unsyncedBytes s' = unsyncedBytes s" "flushEpoch s' = flushEpoch s"
    "unreclaimed s' = unreclaimed s" "pendingCorrupt s' = pendingCorrupt s" "corruptions s' = corruptions s"
    "lostBytes s' = lostBytes s" "lostRecords s' = lostRecords s" "lostSegments s' = lostSegments s"
    "foreignSegments s' = foreignSegments s" "foreignBytes s' = foreignBytes s"
    "discardedBytes s' = discardedBytes s" "nHeaderWrites s' = nHeaderWrites s" "nAdded s' = nAdded s"
    "nDelivered s' = nDelivered s" "nFull s' = nFull s" "nCommittedTotal s' = nCommittedTotal s"
    "inode (os s') = inode (os s)" "linked (os s') = linked (os s)"
  using assms
  by (cases s'; cases s; simp add: view_def core_def core_os_eq same_files_def)+

lemma view_simps [simp]:
  "view (s\<lparr>readBuf := a\<rparr>) = view s" "view (s\<lparr>blockFile := b\<rparr>) = view s"
  "view (s\<lparr>blockOff := c\<rparr>) = view s" "view (s\<lparr>blockLen := d\<rparr>) = view s"
  by (simp_all add: view_def core_def)

lemma view_dropBlock [simp]: "view (dropBlock s) = view s"
  by (simp add: dropBlock_def)

lemma view_pread: "os_run (os_pread n off len) s = (r, s') \<Longrightarrow> view s' = view s"
  by (rule core_imp_view, erule core_os_run) (metis os_pread_same prod.collapse)

lemma block_ok_dropBlock [simp]: "block_ok (dropBlock s)"
  by (simp add: block_ok_def dropBlock_def)

lemma block_ok_None: "blockFile s = None \<Longrightarrow> block_ok s"
  by (simp add: block_ok_def)

lemma block_ok_core:
  assumes "core s' = core s" "block_ok s"
  shows "block_ok s'"
proof -
  note f = core_eq_fields [OF assms(1)] core_eq_df_fields [OF assms(1)]
  show ?thesis using assms(2) unfolding block_ok_def f .
qed

text \<open>What one read of the block does, in every outcome.\<close>

definition fault_free :: "store \<Rightarrow> bool" where
  "fault_free s \<longleftrightarrow> script (os s) = []"

lemma pread_cases:
  assumes "os_run (os_pread df off len) s = ((bs, e), s')"
  obtains (ok) "e = None" "bs = slice off (off + len) (inode (os s) df)" "length bs = len"
    | (short) "e = Some EOF" "length (slice off (off + len) (inode (os s) df)) < len" "length bs \<le> len"
    | (fault) x where "e = Some (Errno x)" "\<not> fault_free s" "length bs \<le> len"
  using assms
  by (auto simp: os_run_def os_pread_def os_tick_def fault_free_def Let_def split: list.splits verdict.splits if_splits)

lemma pread_frame:
  assumes "os_run (os_pread df off len) s = (r, s')"
  shows "readBuf s' = readBuf s" "blockFile s' = blockFile s" "blockOff s' = blockOff s"
    "blockLen s' = blockLen s" "heap s' = heap s" "inode (os s') = inode (os s)"
    "fault_free s \<Longrightarrow> fault_free s'" "ioErr s' = ioErr s" "segmentSize s' = segmentSize s"
  using assms
  by (auto simp: os_run_def os_pread_def os_tick_def fault_free_def Let_def split: list.splits verdict.splits prod.splits if_splits)


definition read_step :: "store \<Rightarrow> store \<Rightarrow> bool" where
  "read_step s s' \<longleftrightarrow> view s' = view s \<and> block_ok s' \<and> ioErr s' = ioErr s \<and> (fault_free s \<longrightarrow> fault_free s')"

lemma read_step_trans: "read_step a b \<Longrightarrow> read_step b c \<Longrightarrow> read_step a c"
  by (auto simp: read_step_def)

lemma read_step_refl: "block_ok s \<Longrightarrow> read_step s s"
  by (simp add: read_step_def)

lemma read_step_drop: "read_step s s' \<Longrightarrow> read_step s (dropBlock s')"
  by (auto simp: read_step_def fault_free_def dropBlock_def block_ok_def view_def core_def)

lemma length_growBuf: "n \<le> length (growBuf b n)"
  by (simp add: growBuf_def)

lemma length_growKeeping: "keep \<le> n \<Longrightarrow> keep \<le> length b \<Longrightarrow> n \<le> length (growKeeping b n keep)"
  by (simp add: growKeeping_def)

lemma take_growKeeping: "keep \<le> length b \<Longrightarrow> take keep (growKeeping b n keep) = take keep b"
  by (simp add: growKeeping_def)

lemma take_put_at: "i \<le> length xs \<Longrightarrow> n = i + length ys \<Longrightarrow> take n (put_at i ys xs) = take i xs @ ys"
  by (simp add: put_at_def)

lemma slice_full: "length (slice i j xs) = j - i \<Longrightarrow> i < j \<Longrightarrow> j \<le> length xs"
  by simp

lemma readBlock_spec:
  assumes b: "block_ok s" and q: "0 \<le> q" "0 < n" "q + n \<le> df_size (heap s df)"
    and r: "readBlock df q n s = (r, s')"
  shows "read_step s s' \<and>
    (case r of
       Inr _ \<Rightarrow> blockFile s' = Some df \<and> blockOff s' = q \<and> n \<le> blockLen s'
     | Inl e \<Rightarrow> e = EOF \<and> length (inode (os s) df) < headerSize + nat q + nat n \<or>
               (\<exists>x. e = Errno x) \<and> \<not> fault_free s)"
proof (cases "blockFile s = Some df \<and> blockOff s = q \<and> blockLen s \<ge> n")
  case True
  then have "r = Inr ()" "s' = s" using r by (auto simp: readBlock_def)
  then show ?thesis using True b by (simp add: read_step_refl)
next
  case False
  define same where "same \<longleftrightarrow> blockFile s = Some df \<and> blockOff s = q"
  define h where "h = (if same then blockLen s else 0)"
  define s1 where "s1 = (if h > 0 then s\<lparr>readBuf := growKeeping (readBuf s) (nat n) (nat h)\<rparr>
                     else let d = dropBlock s in d\<lparr>readBuf := growBuf (readBuf d) (nat n)\<rparr>)"
  obtain bs e s2 where p: "os_run (os_pread df (headerSize + nat (q + h)) (nat (n - h))) s1 = ((bs, e), s2)"
    by (metis surj_pair)
  define s3 where "s3 = s2\<lparr>readBuf := put_at (nat h) bs (readBuf s2)\<rparr>"
  have nc: "\<not> (same \<and> blockLen s \<ge> n)" using False by (auto simp: same_def)
  have out: "(r, s') = (case e of Some x \<Rightarrow> (Inl x, s3)
      | None \<Rightarrow> (Inr (), s3\<lparr>blockFile := Some df, blockOff := q, blockLen := n\<rparr>))"
    using r nc p unfolding readBlock_def same_def [symmetric] h_def [symmetric] Let_def s1_def [unfolded Let_def, symmetric]
    by (auto simp: s3_def split: option.splits)
  have h: "0 \<le> h" "h < n" using b q nc by (auto simp: h_def block_ok_def same_def split: option.splits)
  have held: "h > 0 \<Longrightarrow> nat h \<le> length (readBuf s) \<and> blockFile s = Some df \<and> blockOff s = q \<and> blockLen s = h \<and>
      take (nat h) (readBuf s) = slice (headerSize + nat q) (headerSize + nat q + nat h) (inode (os s) df)"
    using b by (auto simp: h_def same_def block_ok_def split: option.splits if_splits)
  have s1: "heap s1 = heap s" "os s1 = os s" "ioErr s1 = ioErr s" "view s1 = view s" "fault_free s1 = fault_free s"
    by (auto simp: s1_def Let_def dropBlock_def fault_free_def view_def core_def)
  have len1: "nat n \<le> length (readBuf s1)"
    using h held by (auto simp: s1_def Let_def length_growBuf intro!: length_growKeeping)
  have keep1: "take (nat h) (readBuf s1) = slice (headerSize + nat q) (headerSize + nat q + nat h) (inode (os s) df)"
    using held h by (cases "h > 0") (auto simp: s1_def take_growKeeping slice_def)
  have blk1: "block_ok s1"
  proof (cases "h > 0")
    case True
    then show ?thesis using held len1 keep1 b h by (auto simp: block_ok_def s1_def)
  next
    case f: False
    then show ?thesis by (auto simp: s1_def Let_def block_ok_def dropBlock_def)
  qed
  note fr = pread_frame [OF p]
  have lbs: "length bs \<le> nat (n - h)" using p by (cases rule: pread_cases) auto
  have take3: "take (nat h) (readBuf s3) = take (nat h) (readBuf s1)" and len3: "length (readBuf s3) = length (readBuf s1)"
    using lbs len1 h fr by (auto simp: s3_def put_at_def)
  have blk3: "block_ok s3"
  proof (cases "h > 0")
    case True
    have "blockFile s3 = Some df" "blockOff s3 = q" "blockLen s3 = h" "heap s3 = heap s" "os s3 = os s2"
      using True held fr s1 by (auto simp: s3_def s1_def)
    then show ?thesis using blk1 take3 len3 fr True held s1 by (auto simp: block_ok_def s1_def)
  next
    case f: False
    then show ?thesis using fr by (intro block_ok_None) (auto simp: s3_def s1_def Let_def dropBlock_def)
  qed
  have v3: "view s3 = view s" using view_pread [OF p] s1 by (simp add: s3_def)
  have step3: "read_step s s3"
    using blk3 v3 fr s1 by (auto simp: read_step_def s3_def fault_free_def)
  from p show ?thesis
  proof (cases rule: pread_cases)
    case ok
    then have s': "r = Inr ()" "s' = s3\<lparr>blockFile := Some df, blockOff := q, blockLen := n\<rparr>" using out by auto
    have i: "inode (os s2) = inode (os s)" using fr s1 by simp
    let ?a = "headerSize + nat q"
    have at: "headerSize + nat (q + h) = ?a + nat h" "?a + nat h + nat (n - h) = ?a + nat n" using q h by auto
    have bs: "bs = slice (?a + nat h) (?a + nat n) (inode (os s) df)" using ok at s1 by simp
    have "take (nat n) (readBuf s3) = take (nat h) (readBuf s1) @ bs"
      unfolding s3_def using fr len1 h ok by (simp add: take_put_at)
    also have "\<dots> = slice ?a (?a + nat n) (inode (os s) df)"
      unfolding keep1 bs by (rule slice_split [symmetric]) (use h in auto)
    finally have t: "take (nat n) (readBuf s3) = slice ?a (?a + nat n) (inode (os s) df)" .
    have "length bs = nat (n - h)" using ok by simp
    then have "length bs = (?a + nat n) - (?a + nat h)" using h by (simp add: nat_diff_distrib)
    then have room: "?a + nat n \<le> length (inode (os s) df)"
      unfolding bs by (rule slice_full) (use h in simp)
    have "block_ok s'"
      using t len1 len3 room q i s1 fr unfolding block_ok_def s' by (simp add: s3_def)
    moreover have "view s' = view s" "ioErr s' = ioErr s" "fault_free s \<longrightarrow> fault_free s'"
      using step3 s' by (auto simp: read_step_def fault_free_def)
    ultimately show ?thesis using s' by (simp add: read_step_def)
  next
    case short
    then have s': "r = Inl EOF" "s' = s3" using out by auto
    have "length (inode (os s) df) < headerSize + nat q + nat n" using short(2) h q s1 by auto
    then show ?thesis using s' step3 by simp
  next
    case (fault x)
    then have s': "r = Inl (Errno x)" "s' = s3" using out by auto
    then show ?thesis using step3 fault s1 by simp
  qed
qed


lemma err_class [simp]:
  "isShortRead EOF" "\<not> isShortRead (Errno x)" "shortReadIsCorrupt EOF = Wrap ErrCorrupt EOF"
  "shortReadIsCorrupt (Errno x) = Errno x"
  by (simp_all add: isShortRead_def shortReadIsCorrupt_def)

lemma blockAt_spec:
  assumes "block_ok s" "blockHas df q n s" "0 \<le> n"
  shows "blockAt q (nat n) s = slice (headerSize + nat q) (headerSize + nat q + nat n) (inode (os s) df)"
    and "headerSize + nat q + nat n \<le> length (inode (os s) df)"
proof -
  let ?a = "headerSize + nat (blockOff s)" and ?L = "nat (blockLen s)" and ?i = "nat (q - blockOff s)"
  have b: "0 \<le> blockOff s" "?a + ?L \<le> length (inode (os s) df)"
    "take ?L (readBuf s) = slice ?a (?a + ?L) (inode (os s) df)" "q \<ge> blockOff s" "q + n \<le> blockOff s + blockLen s"
    using assms by (auto simp: block_ok_def blockHas_def)
  have i: "?i + nat n \<le> ?L" "?a + ?i = headerSize + nat q" using b assms(3) by auto
  have "blockAt q (nat n) s = slice ?i (?i + nat n) (take ?L (readBuf s))"
    using i(1) by (simp add: blockAt_def Let_def slice_def drop_take min_def)
  also have "\<dots> = slice (?a + ?i) (?a + ?i + nat n) (inode (os s) df)"
    unfolding b(3) slice_slice using i(1) by (simp add: min_def add.assoc)
  finally show "blockAt q (nat n) s = slice (headerSize + nat q) (headerSize + nat q + nat n) (inode (os s) df)"
    unfolding i(2) .
  show "headerSize + nat q + nat n \<le> length (inode (os s) df)" using b(2) i by linarith
qed

lemma fillBlock_spec:
  assumes b: "block_ok s" and q: "0 \<le> q" "0 < need" "need \<le> avail" "q + avail = df_size (heap s df)"
    and r: "fillBlock df q avail need s = (r, s')"
  shows "read_step s s' \<and>
    (case r of
       Inr _ \<Rightarrow> blockHas df q need s'
     | Inl e \<Rightarrow> e = Wrap ErrCorrupt EOF \<and> length (inode (os s) df) < headerSize + nat q + nat need \<or>
               (\<exists>x. e = Errno x) \<and> \<not> fault_free s)"
proof -
  define want where "want = min (max (int readAhead) need) avail"
  have w: "0 < want" "need \<le> want" "q + want \<le> df_size (heap s df)"
    using q by (auto simp: want_def readAhead_def)
  have fb: "fillBlock df q avail need s = (case readBlock df q want s of
      (Inr _, s1) \<Rightarrow> (Inr (), s1)
    | (Inl e, s1) \<Rightarrow>
        if \<not> isShortRead e then (Inl e, dropBlock s1)
        else if need < want then
          (case readBlock df q need s1 of
             (Inl e2, s2) \<Rightarrow> (Inl (shortReadIsCorrupt e2), dropBlock s2)
           | (Inr _, s2) \<Rightarrow> (Inr (), s2))
        else (Inl (shortReadIsCorrupt e), dropBlock s1))"
    unfolding fillBlock_def Let_def min_absorb1 [OF q(3)] want_def [symmetric] by (rule refl)
  obtain r1 s1 where 1: "readBlock df q want s = (r1, s1)" by force
  note spec1 = readBlock_spec [OF b q(1) w(1,3) 1]
  show ?thesis
  proof (cases r1)
    case (Inr u)
    then have "r = Inr ()" "s' = s1" using r 1 unfolding fb by auto
    then show ?thesis using spec1 Inr w by (auto simp: blockHas_def)
  next
    case (Inl e)
    consider (fault) x where "e = Errno x" "\<not> fault_free s"
      | (short) "e = EOF" "length (inode (os s) df) < headerSize + nat q + nat want"
      using spec1 Inl by auto
    then show ?thesis
    proof cases
      case fault
      then have "r = Inl e" "s' = dropBlock s1" using r 1 Inl unfolding fb by auto
      then show ?thesis using spec1 fault by (auto intro: read_step_drop)
    next
      case short
      show ?thesis
      proof (cases "need < want")
        case False
        then have "r = Inl (Wrap ErrCorrupt EOF)" "s' = dropBlock s1" "need = want"
          using r 1 Inl short w unfolding fb by auto
        then show ?thesis using spec1 short by (auto intro: read_step_drop)
      next
        case True
        obtain r2 s2 where 2: "readBlock df q need s1 = (r2, s2)" by force
        have b1: "block_ok s1" and v1: "view s1 = view s" using spec1 by (auto simp: read_step_def)
        note f1 = view_eq_df_fields [OF v1] view_eq_fields [OF v1]
        have "q + need \<le> df_size (heap s1 df)" using w q f1 by simp
        note spec2 = readBlock_spec [OF b1 q(1,2) this 2]
        have st: "read_step s s2" using spec1 spec2 read_step_trans by blast
        have out: "(r, s') = (case r2 of Inl e2 \<Rightarrow> (Inl (shortReadIsCorrupt e2), dropBlock s2) | Inr _ \<Rightarrow> (Inr (), s2))"
          using r 1 2 Inl short True unfolding fb by (simp split: sum.splits)
        have ff: "fault_free s \<Longrightarrow> fault_free s1" using spec1 by (simp add: read_step_def)
        show ?thesis
        proof (cases r2)
          case (Inr u)
          then show ?thesis using out st spec2 by (auto simp: blockHas_def)
        next
          case (Inl e2)
          have "read_step s (dropBlock s2)" by (rule read_step_drop [OF st])
          then show ?thesis using Inl out spec2 ff f1 by (auto)
        qed
      qed
    qed
  qed
qed

lemma frameHeader_spec:
  assumes b: "block_ok s" and q: "0 \<le> q" "q < df_size (heap s df)" "avail = df_size (heap s df) - q"
    and r: "frameHeader df q avail s = (r, s')"
  shows "read_step s s' \<and>
    (r = ref_hdr (heap s df) (inode (os s) df) q \<or> (\<exists>x. r = Inl (Errno x)) \<and> \<not> fault_free s)"
proof -
  define probe where "probe = min (int MaxVarintLen64) avail"
  have p: "0 < probe" "probe \<le> avail" "0 \<le> probe" using q by (auto simp: probe_def MaxVarintLen64_def)
  obtain r1 s1 where 1: "(if blockHas df q probe s then (Inr (), s) else fillBlock df q avail probe s) = (r1, s1)" by force
  have spec: "read_step s s1 \<and> (case r1 of Inr _ \<Rightarrow> blockHas df q probe s1
     | Inl e \<Rightarrow> e = Wrap ErrCorrupt EOF \<and> length (inode (os s) df) < headerSize + nat q + nat probe \<or>
               (\<exists>x. e = Errno x) \<and> \<not> fault_free s)"
  proof (cases "blockHas df q probe s")
    case True
    then show ?thesis using 1 b by (auto intro: read_step_refl)
  next
    case False
    then have "fillBlock df q avail probe s = (r1, s1)" using 1 by simp
    then show ?thesis by (rule fillBlock_spec [OF b q(1) p(1,2), rotated]) (use q in simp)
  qed
  show ?thesis
  proof (cases r1)
    case (Inl e)
    then have "r = Inl e" "s' = s1" using r 1 by (auto simp: frameHeader_def probe_def [symmetric] Let_def)
    then show ?thesis using spec Inl q by (auto simp: ref_hdr_def probe_def Let_def)
  next
    case (Inr u)
    then have st: "read_step s s1" and bh: "blockHas df q probe s1" using spec by auto
    have b1: "block_ok s1" and i: "inode (os s1) = inode (os s)"
      using st view_eq_fields [of s1 s] by (auto simp: read_step_def)
    note at = blockAt_spec [OF b1 bh p(3), unfolded i]
    have "r = Inr (frame_hdr (blockAt q (nat probe) s1) avail)" "s' = s1"
      using r 1 Inr
      by (auto simp: frameHeader_def probe_def [symmetric] Let_def frame_hdr_def split: prod.splits if_splits)
    then show ?thesis using st at q by (auto simp: ref_hdr_def probe_def Let_def)
  qed
qed


lemma recordLen_spec:
  assumes b: "block_ok s" and r: "recordLen df off s = (r, s')"
  shows "read_step s s' \<and>
    (r = ref_len (heap s df) (inode (os s) df) off \<or> (\<exists>x. r = Inl (Errno x)) \<and> \<not> fault_free s)"
proof -
  let ?q = "off - df_base (heap s df)"
  show ?thesis
  proof (cases "?q < 0 \<or> ?q \<ge> df_size (heap s df)")
    case True
    then show ?thesis using r b by (auto simp: recordLen_def ref_len_def Let_def read_step_refl)
  next
    case False
    then have q: "0 \<le> ?q" "?q < df_size (heap s df)" by auto
    obtain r1 s1 where 1: "frameHeader df ?q (df_size (heap s df) - ?q) s = (r1, s1)" by force
    note spec = frameHeader_spec [OF b q refl 1]
    show ?thesis
      using spec r 1 False
      by (auto simp: recordLen_def ref_len_def Let_def split: sum.splits option.splits)
  qed
qed

text \<open>A header accepted by the reference decoder names a frame inside the published size.\<close>

lemma ref_hdr_bounds:
  assumes "ref_hdr d ino q = Inr (Some (n, tot))" "0 \<le> q" "q < df_size d" "df_size d < 2 ^ 63"
  shows "0 < n" "n + checksumSize \<le> tot" "int tot \<le> df_size d - q" "0 < tot"
proof -
  obtain probe where p: "frame_hdr probe (df_size d - q) = Some (n, tot)"
    using assms(1) by (auto simp: ref_hdr_def Let_def split: if_splits)
  have a: "0 \<le> df_size d - q" "df_size d - q < 2 ^ 63" using assms by auto
  show "0 < n" "n + checksumSize \<le> tot" "int tot \<le> df_size d - q"
    by (rule frame_hdr_bounds [OF p a])+
  then show "0 < tot" by linarith
qed

lemma recordAt_spec:
  assumes b: "block_ok s" and big: "df_size (heap s df) < 2 ^ 63" and r: "recordAt df off s = (r, s')"
  shows "read_step s s' \<and>
    (r = ref_record (heap s df) (inode (os s) df) off \<or> (\<exists>x. r = Inl (Errno x)) \<and> \<not> fault_free s)"
proof -
  let ?q = "off - df_base (heap s df)" and ?d = "heap s df" and ?ino = "inode (os s) df"
  show ?thesis
  proof (cases "?q < 0 \<or> ?q \<ge> df_size ?d")
    case True
    then show ?thesis using r b by (auto simp: recordAt_def ref_record_def Let_def read_step_refl)
  next
    case False
    then have q: "0 \<le> ?q" "?q < df_size ?d" by auto
    define avail where "avail = df_size ?d - ?q"
    obtain r1 s1 where 1: "frameHeader df ?q avail s = (r1, s1)" by force
    note spec1 = frameHeader_spec [OF b q avail_def 1]
    show ?thesis
    proof (cases "\<exists>n tot. r1 = Inr (Some (n, tot))")
      case nf: False
      then have "r = (case r1 of Inl e \<Rightarrow> Inl e | Inr _ \<Rightarrow> Inr None)" "s' = s1"
        using r 1 False by (auto simp: recordAt_def avail_def Let_def split: sum.splits option.splits)
      then show ?thesis using spec1 nf False
        by (auto simp: ref_record_def Let_def split: sum.splits option.splits)
    next
      case True
      then obtain n tot where r1: "r1 = Inr (Some (n, tot))" by blast
      with spec1 have hdr: "ref_hdr ?d ?ino ?q = Inr (Some (n, tot))" and st1: "read_step s s1" by auto
      note bd = ref_hdr_bounds [OF hdr q big]
      have b1: "block_ok s1" and v1: "view s1 = view s" using st1 by (auto simp: read_step_def)
      note f1 = view_eq_df_fields [OF v1] view_eq_fields [OF v1]
      obtain r2 s2 where 2: "(if blockHas df ?q (int tot) s1 then (Inr (), s1)
           else case fillBlock df ?q avail (int tot) s1 of
                  (Inl e, s2) \<Rightarrow> (Inl e, s2)
                | (Inr _, s2) \<Rightarrow>
                    if \<not> blockHas df ?q (int tot) s2 then (Inl (shortReadIsCorrupt EOF), s2)
                    else (Inr (), s2)) = (r2, s2)" by (rule prod.exhaust)
      have out: "(r, s') = (case r2 of Inl e \<Rightarrow> (Inl e, s2) | Inr _ \<Rightarrow>
           (let fr = blockAt ?q tot s2; L = tot - n - checksumSize
            in (Inr (Some (slice n (n + L) fr, Uint64 (drop (n + L) fr), off + int tot)), s2)))"
        using r 1 r1 2 False unfolding recordAt_def avail_def by (simp add: Let_def split: sum.splits)
      have spec2: "read_step s1 s2 \<and> (case r2 of Inr _ \<Rightarrow> blockHas df ?q (int tot) s2
        | Inl e \<Rightarrow> e = Wrap ErrCorrupt EOF \<and> length ?ino < headerSize + nat ?q + tot \<or>
                 (\<exists>x. e = Errno x) \<and> \<not> fault_free s1)"
      proof (cases "blockHas df ?q (int tot) s1")
        case True
        then show ?thesis using 2 b1 by (auto simp: read_step_refl)
      next
        case nb: False
        obtain r3 s3 where 3: "fillBlock df ?q avail (int tot) s1 = (r3, s3)" by force
        have "read_step s1 s3 \<and> (case r3 of Inr _ \<Rightarrow> blockHas df ?q (int tot) s3
          | Inl e \<Rightarrow> e = Wrap ErrCorrupt EOF \<and> length (inode (os s1) df) < headerSize + nat ?q + nat (int tot) \<or>
                 (\<exists>x. e = Errno x) \<and> \<not> fault_free s1)"
          by (rule fillBlock_spec [OF b1 q(1) _ _ _ 3]) (use bd f1 q in \<open>auto simp: avail_def\<close>)
        then show ?thesis using 2 3 nb f1 by (auto split: sum.splits)
      qed
      have st2: "read_step s s2" using st1 spec2 read_step_trans by blast
      show ?thesis
      proof (cases r2)
        case (Inl e)
        then have "r = Inl e" "s' = s2" using out by auto
        moreover have "\<not> fault_free s1 \<Longrightarrow> \<not> fault_free s" using st1 by (auto simp: read_step_def)
        ultimately show ?thesis using spec2 Inl st2 False hdr by (auto simp: ref_record_def Let_def)
      next
        case (Inr u)
        then have bh: "blockHas df ?q (int tot) s2" and b2: "block_ok s2" and v2: "view s2 = view s"
          using spec2 st2 by (auto simp: read_step_def)
        have L: "n + (tot - n - checksumSize) = tot - checksumSize" using bd by simp
        note at = blockAt_spec [OF b2 bh, unfolded view_eq_fields [OF v2], simplified]
        let ?fr = "slice (headerSize + nat ?q) (headerSize + nat ?q + tot) ?ino"
        have "Uint64 (drop (tot - checksumSize) ?fr) = frame_sum tot ?fr"
          by (simp add: frame_sum_def Uint64_def slice_def min_def checksumSize_def)
        then show ?thesis
          using out Inr st2 at False hdr L by (auto simp: ref_record_def Let_def frame_payload_def)
      qed
    qed
  qed
qed

section \<open>The reference reading of a frame\<close>

lemma take_slice: "k \<le> j - i \<Longrightarrow> take k (slice i j xs) = slice i (i + k) xs"
  by (simp add: slice_def min_def)

text \<open>\<open>region d ino q\<close>: what the file holds of the published data from \<open>q\<close> on.\<close>

definition region :: "dataFile \<Rightarrow> bytes \<Rightarrow> int \<Rightarrow> bytes" where
  "region d ino q = slice (headerSize + nat q) (headerSize + nat (df_size d)) ino"

definition whole :: "dataFile \<Rightarrow> bytes \<Rightarrow> bool" where
  "whole d ino \<longleftrightarrow> headerSize + nat (df_size d) \<le> length ino"

lemma length_region: "whole d ino \<Longrightarrow> 0 \<le> q \<Longrightarrow> q \<le> df_size d \<Longrightarrow> int (length (region d ino q)) = df_size d - q"
  by (auto simp: region_def whole_def)

lemma ref_hdr_region:
  assumes w: "whole d ino" and q: "0 \<le> q" "q < df_size d"
  shows "ref_hdr d ino q = Inr (frame_at (region d ino q))"
proof -
  let ?at = "headerSize + nat q" and ?R = "region d ino q"
  define probe where "probe = nat (min (int MaxVarintLen64) (df_size d - q))"
  have len: "int (length ?R) = df_size d - q" using length_region assms by simp
  have fit: "probe \<le> nat (df_size d) - nat q" "?at + probe \<le> length ino"
    using w q by (auto simp: probe_def whole_def)
  have "slice ?at (?at + probe) ino = take probe ?R"
    unfolding region_def using fit(1) by (simp add: take_slice)
  also have "\<dots> = take MaxVarintLen64 ?R" using len by (auto simp: probe_def min_def)
  finally show ?thesis
    using fit len unfolding ref_hdr_def Let_def probe_def [symmetric] by (simp add: frame_at_def)
qed

lemma ref_record_region:
  assumes w: "whole d ino" and q: "0 \<le> off - df_base d" "off < df_end d" "df_size d < 2 ^ 63"
    and f: "frame_at (region d ino (off - df_base d)) = Some (n, tot)"
  shows "ref_record d ino off =
    Inr (Some (frame_payload n tot (region d ino (off - df_base d)),
               frame_sum tot (region d ino (off - df_base d)), off + int tot))"
proof -
  let ?q = "off - df_base d" let ?at = "headerSize + nat ?q" and ?R = "region d ino ?q"
  have q': "0 \<le> ?q" "?q < df_size d" using q by (auto simp: df_end_def)
  have hdr: "ref_hdr d ino ?q = Inr (Some (n, tot))" using ref_hdr_region [OF w q'] f by simp
  note bd = ref_hdr_bounds [OF hdr q' q(3)]
  have k: "tot \<le> nat (df_size d) - nat ?q" "?at + tot \<le> length ino" using bd w q' by (auto simp: whole_def)
  have "slice ?at (?at + tot) ino = take tot ?R" unfolding region_def using k(1) by (simp add: take_slice)
  moreover have "frame_payload n tot (take tot ?R) = frame_payload n tot ?R"
    by (simp add: frame_payload_def slice_def drop_take min_def)
  moreover have "frame_sum tot (take tot ?R) = frame_sum tot ?R"
    by (simp add: frame_sum_def slice_def drop_take min_def)
  ultimately show ?thesis using hdr q' k(2) by (simp add: ref_record_def Let_def)
qed

lemma ref_record_frame:
  assumes w: "whole d ino" and q: "0 \<le> off - df_base d" "off < df_end d" "df_size d < 2 ^ 63"
    and R: "region d ino (off - df_base d) = frame xx p @ rest"
  shows "ref_record d ino off = Inr (Some (p, unat (xx p), off + framedLen (length p)))"
proof -
  let ?R = "region d ino (off - df_base d)"
  have "int (length ?R) = df_size d - (off - df_base d)"
    using w q by (intro length_region) (auto simp: df_end_def)
  then have "int (length (frame xx p @ rest)) < 2 ^ 63" using q R by simp
  from frame_at_frame [OF this] have "frame_at ?R = Some (uvarintLen (length p), length (frame xx p))"
    using R by simp
  from ref_record_region [OF w q this] show ?thesis
    unfolding R frame_payload_frame frame_sum_frame length_frame .
qed

section \<open>Properties of the cached reader\<close>

text \<open>
  C22: reading a record through the block cache gives exactly what decoding the file directly
  gives, whatever the cache held, including the corruption verdict for a record that a cut file
  no longer holds in full; the only other outcome is an error of the device.  Either way nothing
  but the cache changes, and the cache stays a true copy of a run of the file.
\<close>

theorem recordAt_reference:
  assumes "block_ok s" "df_size (heap s df) < 2 ^ 63" "recordAt df off s = (r, s')"
  shows "view s' = view s \<and> block_ok s' \<and>
    (r = ref_record (heap s df) (inode (os s) df) off \<or> (\<exists>x. r = Inl (Errno x)) \<and> \<not> fault_free s)"
  using recordAt_spec [OF assms] by (simp add: read_step_def)

definition two_records :: store where
  "two_records = (new_store 4096 0 False 1 3
      (os_empty\<lparr>inode := (\<lambda>_. replicate 64 0 @ frames (\<lambda>_. 5) [[1, 2], [3]])\<rparr>))
     \<lparr>heap := (\<lambda>n. (zero_dataFile n)\<lparr>df_size := 21\<rparr>)\<rparr>"

theorem recordAt_reference_witness:
  "fst (recordAt 1 11 two_records) = Inr (Some ([3], 5, 21))"
proof -
  have "block_ok two_records" "fault_free two_records"
    by (simp_all add: two_records_def new_store_def block_ok_def fault_free_def os_empty_def)
  moreover have "df_size (heap two_records 1) < 2 ^ 63" by (simp add: two_records_def)
  moreover have R: "region (heap two_records 1) (inode (os two_records) 1) (11 - df_base (heap two_records 1)) =
      frame (\<lambda>_. 5) [3] @ []"
    by (simp add: region_def two_records_def new_store_def os_empty_def zero_dataFile_def headerSize_def
        slice_def frame_def PutUvarint.simps)
  have "ref_record (heap two_records 1) (inode (os two_records) 1) 11 = Inr (Some ([3], 5, 21))"
    by (subst ref_record_frame [OF _ _ _ _ R]) (simp_all add: whole_def two_records_def new_store_def os_empty_def
        zero_dataFile_def df_end_def headerSize_def frame_def framedLen_def checksumSize_def)
  ultimately show ?thesis
    using recordAt_reference [of two_records 1 11 "fst (recordAt 1 11 two_records)" "snd (recordAt 1 11 two_records)"]
    by simp
qed

section \<open>Writing past the published extent\<close>

lemma take_put_frame:
  "take (nat (framedLen (length p))) (put_at 0 (frame xx p) (growBuf b (nat (framedLen (length p))))) = frame xx p"
proof -
  have l: "length (frame xx p) = nat (framedLen (length p))" using length_frame [of xx p] by simp
  show ?thesis by (simp add: put_at_def l)
qed

lemma writeRecord_cases:
  assumes "writeRecord xx df off p s = (r, s')"
  obtains (big) "r = Inl ErrRecordTooLarge" "s' = s" "framedLen (length p) > maxFramedLen"
    | (fail) x k w b where "r = Inl (Errno x)" "\<not> fault_free s" "s' = s\<lparr>writeBuf := b, os := w\<rparr>"
        "inode w = (inode (os s))(df := overwrite (headerSize + nat off) (take k (frame xx p)) (inode (os s) df))"
        "linked w = linked (os s)" "stable w = stable (os s)"
    | (ok) w b where "r = Inr ()" "s' = mark_dirty df (s\<lparr>writeBuf := b, os := w\<rparr>)"
        "inode w = (inode (os s))(df := overwrite (headerSize + nat off) (frame xx p) (inode (os s) df))"
        "linked w = linked (os s)" "stable w = stable (os s)" "fault_free s \<Longrightarrow> script w = []"
proof (cases "framedTooLarge (framedLen (length p)) maxFramedLen")
  case True
  then show ?thesis using assms that(1) by (auto simp: writeRecord_def Let_def framedTooLarge_def)
next
  case False
  let ?b = "put_at 0 (frame xx p) (growBuf (writeBuf s) (nat (framedLen (length p))))"
  obtain v w1 where t: "os_tick (os s) = (v, w1)" by force
  have w1: "inode w1 = inode (os s)" "linked w1 = linked (os s)" "stable w1 = stable (os s)" "fault_free s \<Longrightarrow> script w1 = []"
    using t by (auto simp: os_tick_def fault_free_def split: list.splits)
  show ?thesis
  proof (cases v)
    case VOk
    let ?w = "w1\<lparr>inode := (inode w1)(df := overwrite (headerSize + nat off) (frame xx p) (inode w1 df))\<rparr>"
    have "r = Inr ()" "s' = mark_dirty df (s\<lparr>writeBuf := ?b, os := ?w\<rparr>)"
      using assms False VOk t unfolding writeRecord_def Let_def take_put_frame
      by (auto simp: os_run_def os_pwrite_def)
    then show ?thesis by (rule that(3)) (simp_all add: w1)
  next
    case (VFail x k)
    let ?w = "w1\<lparr>inode := (inode w1)(df := overwrite (headerSize + nat off) (take k (frame xx p)) (inode w1 df))\<rparr>"
    have r: "r = Inl (Errno x)" and s': "s' = s\<lparr>writeBuf := ?b, os := ?w\<rparr>"
      using assms False VFail t unfolding writeRecord_def Let_def take_put_frame
      by (auto simp: os_run_def os_pwrite_def)
    have "\<not> fault_free s" using t VFail by (auto simp: os_tick_def fault_free_def)
    then show ?thesis by (rule that(2) [OF r _ s']) (simp_all add: w1)
  qed
qed

text \<open>
  The cache stays a true copy across a write that does not reach below the published extent of
  its file: this is why an append needs no invalidation.
\<close>

definition same_upto :: "nat \<Rightarrow> bytes \<Rightarrow> bytes \<Rightarrow> bool" where
  "same_upto k xs ys \<longleftrightarrow> take k ys = take k xs \<and> length xs \<le> length ys"

lemma same_upto_overwrite: "k \<le> off \<Longrightarrow> k \<le> length xs \<Longrightarrow> same_upto k xs (overwrite off ys xs)"
  by (auto simp: same_upto_def length_overwrite overwrite_def)

lemma same_upto_mono: "same_upto k xs ys \<Longrightarrow> j \<le> k \<Longrightarrow> same_upto j xs ys"
  by (metis min.absorb1 same_upto_def take_take)

lemma same_upto_refl [simp]: "same_upto k xs xs"
  by (simp add: same_upto_def)

lemma slice_same_upto: "same_upto k xs ys \<Longrightarrow> j \<le> k \<Longrightarrow> slice i j ys = slice i j xs"
  by (metis same_upto_def same_upto_mono slice_def take_drop_eq)

lemma block_ok_write:
  assumes b: "block_ok s" and f: "readBuf s' = readBuf s" "blockFile s' = blockFile s"
    "blockOff s' = blockOff s" "blockLen s' = blockLen s"
    and sz: "\<And>n. df_size (heap s n) \<le> df_size (heap s' n)"
    and i: "\<And>n. same_upto (headerSize + nat (df_size (heap s n))) (inode (os s) n) (inode (os s') n)"
  shows "block_ok s'"
proof (cases "blockFile s")
  case (Some n)
  let ?e = "headerSize + nat (blockOff s) + nat (blockLen s)"
  have bb: "0 \<le> blockOff s" "0 < blockLen s" "blockOff s + blockLen s \<le> df_size (heap s n)"
    "nat (blockLen s) \<le> length (readBuf s)" "?e \<le> length (inode (os s) n)"
    "take (nat (blockLen s)) (readBuf s) = slice (headerSize + nat (blockOff s)) ?e (inode (os s) n)"
    using b Some by (auto simp: block_ok_def)
  have e: "?e \<le> headerSize + nat (df_size (heap s n))" using bb by linarith
  have "slice (headerSize + nat (blockOff s)) ?e (inode (os s') n) = slice (headerSize + nat (blockOff s)) ?e (inode (os s) n)"
    by (rule slice_same_upto [OF i e])
  moreover have "?e \<le> length (inode (os s') n)" using i [of n] bb by (simp add: same_upto_def)
  moreover have "blockOff s + blockLen s \<le> df_size (heap s' n)" using bb sz [of n] by linarith
  ultimately show ?thesis using bb f Some by (simp add: block_ok_def)
qed (simp add: block_ok_def f)

end
