(* ===== verification/Append.thy ===== *)
theory Append
  imports Block_Cache
begin

text \<open>
  The write side of store.go: publishing a header and repairing a failed publication, flushing,
  creating and cycling segments, reclaiming committed ones, appending a record, staging and
  publishing a span of records, and closing the store.  \<open>xx\<close> is the checksum function.
\<close>

section \<open>Publishing a header\<close>

primrec changed_len :: "nat \<Rightarrow> bytes \<Rightarrow> bytes \<Rightarrow> nat" where
  "changed_len 0 xs ys = 0"
| "changed_len (Suc k) xs ys = (if xs ! k = ys ! k then changed_len k xs ys else Suc k)"

definition restoreHeader :: "nat \<Rightarrow> unit op" where
  "restoreHeader n s =
     (case os_run (os_pread n 0 headerSize) s of
        ((current, Some e), s1) \<Rightarrow> (Inl e, s1)
      | ((current, None), s1) \<Rightarrow>
          let disk = df_diskHeader (heap s1 n); k = changed_len headerSize current disk
          in if k = 0 then (Inr (), s1)
             else case os_run (os_pwrite n 0 (take k disk)) (mark_dirty n s1) of
                    (Inl e, s2) \<Rightarrow> (Inl e, s2)
                  | (Inr _, s2) \<Rightarrow> os_run (datasync n) s2)"

definition writeHeader :: "nat \<Rightarrow> unit op" where
  "writeHeader n s =
     (case (if df_open (heap s n) then (Inr (), s) else ensureOpen n s) of
        (Inl e, s1) \<Rightarrow> (Inl e, s1)
      | (Inr _, s1) \<Rightarrow>
          case ioErr s1 of
            Some e \<Rightarrow> (Inl e, s1)
          | None \<Rightarrow>
              (case os_run (os_pwrite n 0 (df_hdr (heap s1 n))) s1 of
                 (Inl e, s2) \<Rightarrow>
                   if err_is e ErrFileClosed then (Inl e, s2)
                   else (case restoreHeader n s2 of
                           (Inl re, s3) \<Rightarrow>
                             (case failIO re s3 of (fr :: unit result, s4) \<Rightarrow>
                                (as_result (err_join (Some e) (err_of fr)), s4))
                         | (Inr _, s3) \<Rightarrow> (Inl e, s3))
               | (Inr _, s2) \<Rightarrow>
                   let s3 = upd_df n (\<lambda>d. d\<lparr>df_diskHeader := df_hdr d\<rparr>) s2
                   in (Inr (), mark_dirty n (s3\<lparr>nHeaderWrites := nHeaderWrites s3 + 1\<rparr>))))"

section \<open>Flushing\<close>

definition syncDir :: "unit op" where
  "syncDir s =
     (if \<not> dirOpen s then (Inr (), s)
      else case os_run fsyncDir s of
             (Inr _, s1) \<Rightarrow> (Inr (), s1)
           | (Inl e, s1) \<Rightarrow> if dirSyncUnsupported e then (Inr (), s1) else failIO e s1)"

fun flush_all :: "nat list \<Rightarrow> err option \<Rightarrow> store \<Rightarrow> err option \<times> store" where
  "flush_all [] errs s = (errs, s)"
| "flush_all (n # ns) errs s =
     (case flushFile n s of (r, s1) \<Rightarrow> flush_all ns (err_join errs (err_of r)) s1)"

definition flushBatch :: "unit op" where
  "flushBatch s =
     (case flush_all (files s) None s of
        (Some e, s1) \<Rightarrow> (Inl e, s1)
      | (None, s1) \<Rightarrow>
          case ioErr s1 of
            Some e \<Rightarrow> (Inl e, s1)
          | None \<Rightarrow>
              (case syncDir s1 of
                 (Inl e, s2) \<Rightarrow> (Inl e, s2)
               | (Inr _, s2) \<Rightarrow>
                   (Inr (), s2\<lparr>unsynced := 0, unsyncedBytes := 0, flushEpoch := Suc (flushEpoch s2)\<rparr>)))"

definition recordOps :: "int \<Rightarrow> unit op" where
  "recordOps n s =
     (let s1 = s\<lparr>unsynced := unsynced s + n\<rparr>
      in if unsynced s1 \<ge> syncEvery s1 then flushBatch s1 else (Inr (), s1))"

definition recordOp :: "unit op" where
  "recordOp = recordOps 1"

definition store_sync :: "unit op" where
  "store_sync s = (case ioErr s of Some e \<Rightarrow> (Inl e, s) | None \<Rightarrow> flushBatch s)"

section \<open>Segments\<close>

definition create_fail :: "nat \<Rightarrow> err \<Rightarrow> nat op" where
  "create_fail num e s =
     (let s1 = snd (os_run os_close s); s2 = snd (os_run (os_remove num) s1)
      in (Inl e, upd_df num (\<lambda>d. d\<lparr>df_open := False\<rparr>) s2))"

definition create_mods :: "int \<Rightarrow> int \<Rightarrow> (bytes \<Rightarrow> bytes) list" where
  "create_mods capacity segSize =
     [initHeader, setCommitCursor (int headerSize), setWriteCursor (int headerSize),
      setHdrCapacity capacity, setHdrSegSize segSize] @
     (if capacity > segSize then [setOversized] else [])"

definition createFile :: "hash \<Rightarrow> nat \<Rightarrow> int \<Rightarrow> int \<Rightarrow> nat op" where
  "createFile xx num base capacity s =
     (if num = 0 then (Inl ErrNumSpace, s)
      else case os_run (os_create num) s of
        (Inl e, s1) \<Rightarrow> (Inl e, s1)
      | (Inr _, s1) \<Rightarrow>
          (case os_run (preallocate num (int headerSize + capacity)) s1 of
             (Inl e, s2) \<Rightarrow> create_fail num e s2
           | (Inr _, s2) \<Rightarrow>
               let df = header xx (create_mods capacity (segmentSize s2))
                          ((zero_dataFile num)\<lparr>df_open := True, df_base := base, df_capacity := capacity\<rparr>);
                   s3 = upd_df num (\<lambda>_. df) s2
               in case writeHeader num s3 of
                    (Inl e, s4) \<Rightarrow> create_fail num e s4
                  | (Inr _, s4) \<Rightarrow>
                      if \<not> noSync s4 then
                        (case os_run (os_fsync num) s4 of
                           (Inl e, s5) \<Rightarrow> create_fail num e s5
                         | (Inr _, s5) \<Rightarrow> (Inr num, upd_df num (\<lambda>d. d\<lparr>df_dirty := False\<rparr>) s5))
                      else (Inr num, s4)))"

text \<open>The scan of \<open>dropCommitted\<close>: the survivors among the files scanned, and the files after the scan.\<close>

fun drop_loop :: "nat option \<Rightarrow> nat list \<Rightarrow> store \<Rightarrow> nat list \<times> nat list \<times> store" where
  "drop_loop keep [] s = ([], [], s)"
| "drop_loop keep (n # ns) s =
     (if Some n = keep \<or> df_end (heap s n) > commitOff s then ([], n # ns, s)
      else if df_pins (heap s n) > 0 then
        (case drop_loop keep ns s of (sv, rest, s') \<Rightarrow> (n # sv, rest, s'))
      else
        let s1 = (if df_open (heap s n)
                  then untrackOpen n (upd_df n (\<lambda>d. d\<lparr>df_open := False\<rparr>) (snd (os_run os_close s)))
                  else s)
        in case os_run (os_remove n) s1 of
             (r, s2) \<Rightarrow>
               if (case r of Inl e \<Rightarrow> \<not> err_is e ErrNotExist | Inr _ \<Rightarrow> False) then
                 (case drop_loop keep ns (s2\<lparr>unreclaimed := unreclaimed s2 + 1\<rparr>) of
                    (sv, rest, s') \<Rightarrow> (n # sv, rest, s'))
               else
                 let d = heap s2 n
                 in drop_loop keep ns
                      (s2\<lparr>nWritten := nWritten s2 - df_written d, nCommitted := nCommitted s2 - df_committed d,
                          diskBytes := diskBytes s2 - (int headerSize + df_capacity d)\<rparr>))"

definition dropCommitted :: "nat option \<Rightarrow> store \<Rightarrow> store" where
  "dropCommitted keep s =
     (if files s = [] \<or> Some (hd (files s)) = keep \<or> df_end (heap s (hd (files s))) > commitOff s then s
      else
        let s1 = dropBlock (s\<lparr>lastFrameAt := 0, lastFrameEnd := 0\<rparr>)
        in case drop_loop keep (files s1) s1 of (sv, rest, s2) \<Rightarrow> s2\<lparr>files := sv @ rest\<rparr>)"

definition cycle :: "hash \<Rightarrow> int \<Rightarrow> bool \<Rightarrow> unit op" where
  "cycle xx need force s =
     (let s1 = dropCommitted None s
      in if \<not> force \<and> maxSegments s1 > 0 \<and> int (length (files s1)) \<ge> maxSegments s1 then (Inl ErrFull, s1)
         else case createFile xx (nextNum s1) (writeOff s1) (max (segmentSize s1) need) s1 of
           (Inl e, s2) \<Rightarrow> (Inl e, s2)
         | (Inr n, s2) \<Rightarrow>
             let s3 = s2\<lparr>nextNum := (nextNum s2 + 1) mod 2 ^ 64, files := files s2 @ [n],
                         diskBytes := diskBytes s2 + (int headerSize + df_capacity (heap s2 n))\<rparr>;
                 s4 = trackOpen n s3
             in case ioErr s4 of
                  Some e \<Rightarrow> (Inl e, s4)
                | None \<Rightarrow> if \<not> noSync s4 then syncDir s4 else (Inr (), s4))"

section \<open>Appending one record\<close>

definition admitRecord :: "int \<Rightarrow> bool \<Rightarrow> unit op" where
  "admitRecord recLen force s =
     (if framedTooLarge recLen maxFramedLen then (Inl ErrRecordTooLarge, s)
      else if \<not> force \<and> maxBytes s > 0 then
        (if recLen > maxBytes s then (Inl ErrRecordTooLarge, s)
         else if store_size s + stagedBytes s + recLen > maxBytes s
              then (Inl ErrFull, s\<lparr>nFull := nFull s + 1\<rparr>)
              else (Inr (), s))
      else (Inr (), s))"

definition advanceAppend :: "hash \<Rightarrow> nat \<Rightarrow> int \<Rightarrow> int \<Rightarrow> store \<Rightarrow> store" where
  "advanceAppend xx af bytes recs s =
     (let s1 = upd_df af (\<lambda>d. d\<lparr>df_size := df_size d + bytes, df_written := df_written d + recs\<rparr>) s;
          s2 = s1\<lparr>writeOff := writeOff s1 + bytes, nWritten := nWritten s1 + recs, nAdded := nAdded s1 + recs\<rparr>
      in upd_df af (\<lambda>d. header xx [setWriteCursor (int headerSize + df_size d), setWrittenCount (df_written d)] d) s2)"

definition rollbackAppend :: "hash \<Rightarrow> nat \<Rightarrow> int \<Rightarrow> store \<Rightarrow> store" where
  "rollbackAppend xx af recLen = advanceAppend xx af (- recLen) (- 1)"

definition publishAppend :: "hash \<Rightarrow> nat \<Rightarrow> int \<Rightarrow> unit op" where
  "publishAppend xx af recLen s =
     (case writeHeader af (advanceAppend xx af recLen 1 s) of
        (Inl e, s1) \<Rightarrow> (Inl e, rollbackAppend xx af recLen s1)
      | (Inr _, s1) \<Rightarrow>
          if noSync s1 then (Inr (), s1\<lparr>unsyncedBytes := unsyncedBytes s1 + recLen\<rparr>)
          else if batched s1 then recordOp (s1\<lparr>unsyncedBytes := unsyncedBytes s1 + recLen\<rparr>)
          else (case os_run (datasync af) s1 of
                  (Inl e, s2) \<Rightarrow> failIO e s2
                | (Inr _, s2) \<Rightarrow> (Inr (), upd_df af (\<lambda>d. d\<lparr>df_dirty := False\<rparr>) s2)))"

definition appendRecord :: "hash \<Rightarrow> bytes \<Rightarrow> bool \<Rightarrow> unit op" where
  "appendRecord xx payload force s =
     (case ioErr s of
        Some e \<Rightarrow> (Inl e, s)
      | None \<Rightarrow>
        let recLen = framedLen (length payload)
        in case admitRecord recLen force s of
          (Inl e, s1) \<Rightarrow> (Inl e, s1)
        | (Inr _, s1) \<Rightarrow>
          (case (if needsCycle recLen s1 then cycle xx recLen force s1 else (Inr (), s1)) of
             (Inl e, s2) \<Rightarrow> (Inl e, if err_is e ErrFull then s2\<lparr>nFull := nFull s2 + 1\<rparr> else s2)
           | (Inr _, s2) \<Rightarrow>
             let af = the (active s2)
             in case ensureOpen af s2 of
                  (Inl e, s3) \<Rightarrow> (Inl e, s3)
                | (Inr _, s3) \<Rightarrow>
                  (case ioErr s3 of
                     Some e \<Rightarrow> (Inl e, s3)
                   | None \<Rightarrow>
                     (case writeRecord xx af (df_size (heap s3 af)) payload s3 of
                        (r, s4) \<Rightarrow>
                          let s5 = s4\<lparr>writeBuf := trimOver (writeBuf s4) (segmentSize s4)\<rparr>
                          in case r of
                               Inl e \<Rightarrow> (Inl e, s5)
                             | Inr _ \<Rightarrow>
                               if perOp s5 then
                                 (case os_run (datasync af) s5 of
                                    (Inl e, s6) \<Rightarrow> failIO e s6
                                  | (Inr _, s6) \<Rightarrow> publishAppend xx af recLen s6)
                               else publishAppend xx af recLen s5))))"

definition append_store :: "hash \<Rightarrow> bytes \<Rightarrow> unit op" where
  "append_store xx payload = appendRecord xx payload False"

section \<open>Staged spans\<close>

definition stagePending :: "hash \<Rightarrow> bytes \<Rightarrow> unit op" where
  "stagePending xx payload s =
     (let af = the (active s)
      in case ensureOpen af s of
           (Inl e, s1) \<Rightarrow> (Inl e, s1)
         | (Inr _, s1) \<Rightarrow>
             case ioErr s1 of
               Some e \<Rightarrow> (Inl e, s1)
             | None \<Rightarrow>
                 (case writeRecord xx af (df_size (heap s1 af) + stagedBytes s1) payload s1 of
                    (r, s2) \<Rightarrow>
                      let s3 = s2\<lparr>writeBuf := trimOver (writeBuf s2) (segmentSize s2)\<rparr>
                      in case r of
                           Inl e \<Rightarrow> (Inl e, s3)
                         | Inr _ \<Rightarrow> (Inr (), s3\<lparr>pendingBytes := pendingBytes s3 + framedLen (length payload),
                                                 pendingRecs := pendingRecs s3 + 1\<rparr>)))"

definition takeSpan :: "store \<Rightarrow> store" where
  "takeSpan s = s\<lparr>inFlight := pendingBytes s, inFlightRecs := pendingRecs s, pendingBytes := 0, pendingRecs := 0\<rparr>"

definition discardStaged :: "store \<Rightarrow> store" where
  "discardStaged s = s\<lparr>inFlight := 0, inFlightRecs := 0, pendingBytes := 0, pendingRecs := 0\<rparr>"

definition unpublishSpan :: "hash \<Rightarrow> nat \<Rightarrow> store \<Rightarrow> store" where
  "unpublishSpan xx af s = discardStaged (advanceAppend xx af (- inFlight s) (- inFlightRecs s) s)"

definition publishSpan :: "hash \<Rightarrow> unit op" where
  "publishSpan xx s =
     (let af = the (active s)
      in case writeHeader af (advanceAppend xx af (inFlight s) (inFlightRecs s) s) of
           (Inl e, s1) \<Rightarrow> (Inl e, unpublishSpan xx af s1)
         | (Inr _, s1) \<Rightarrow> (Inr (), s1\<lparr>inFlight := 0, inFlightRecs := 0\<rparr>))"

section \<open>Closing\<close>

fun close_files :: "nat list \<Rightarrow> err option \<Rightarrow> store \<Rightarrow> err option \<times> store" where
  "close_files [] first s = (first, s)"
| "close_files (n # ns) first s =
     (let (first1, s1) = (if ioErr s = None
                          then (case flushFile n s of
                                  (Inl e, t) \<Rightarrow> (if first = None then Some e else first, t)
                                | (Inr _, t) \<Rightarrow> (first, t))
                          else (first, s));
          s2 = upd_df n (\<lambda>d. d\<lparr>df_dirty := False\<rparr>) s1
      in if \<not> df_open (heap s2 n) then close_files ns first1 s2
         else case os_run os_close s2 of
                (r, s3) \<Rightarrow>
                  close_files ns (if first1 = None then err_of r else first1)
                    (upd_df n (\<lambda>d. d\<lparr>df_open := False\<rparr>) (untrackOpen n s3)))"

definition close_store :: "unit op" where
  "close_store s =
     (let (first1, s1) = close_files (files s) (ioErr s) s;
          (first2, s2) = (if first1 = None then (case syncDir s1 of (r, t) \<Rightarrow> (err_of r, t)) else (first1, s1));
          s3 = (if first2 = None then s2\<lparr>unsynced := 0, unsyncedBytes := 0\<rparr> else s2);
          s4 = s3\<lparr>lruMRU := None, lruLRU := None, nOpen := 0\<rparr>
      in if \<not> dirOpen s4 then (as_result first2, s4)
         else case os_run os_close s4 of
                (r, s5) \<Rightarrow> (as_result (if first2 = None then err_of r else first2), s5\<lparr>dirOpen := False\<rparr>))"

end
