(* ===== verification/Ledger.thy ===== *)
theory Ledger
  imports Store_State
begin

text \<open>
  The reservation ledger of reserve.go, the part that does not commit: recording a reservation,
  dropping the ones the commit cursor has passed, finding one by its end, and the run of
  acknowledged reservations at the cursor.  \<open>dropRetired\<close> also releases an empty ledger whose
  backing array has grown past \<open>maxIdleReservations\<close>; a nil and an empty slice are the same list.
\<close>

section \<open>Operations\<close>

definition dropRetired :: "store \<Rightarrow> store" where
  "dropRetired s = s\<lparr>reserved := dropWhile (\<lambda>r. r_end r \<le> commitOff s) (reserved s)\<rparr>"

definition new_reservation :: "int \<Rightarrow> int \<Rightarrow> reservation" where
  "new_reservation a b = \<lparr>r_start = a, r_end = b, r_acked = False, r_corrupt = False, r_written = 0\<rparr>"

definition trackReserve :: "store \<Rightarrow> store" where
  "trackReserve s =
     (let s1 = dropRetired s
      in s1\<lparr>reserved := reserved s1 @ [new_reservation (lastFrameAt s1) (lastFrameEnd s1)]\<rparr>)"

text \<open>The loop of \<open>findReserved\<close> is the one of \<open>sort.Search\<close>: it halves \<open>[lo, hi)\<close> on \<open>end < target\<close>.\<close>

definition findReserved :: "int \<Rightarrow> store \<Rightarrow> nat option" where
  "findReserved e s =
     (let rs = reserved s; lo = search_loop (\<lambda>mid. \<not> r_end (rs ! mid) < e) 0 (length rs)
      in if lo < length rs \<and> r_end (rs ! lo) = e then Some lo else None)"

fun run_end :: "int \<Rightarrow> reservation list \<Rightarrow> int" where
  "run_end at [] = at"
| "run_end at (r # rs) = (if \<not> r_acked r \<or> r_start r \<noteq> at then at else run_end (r_end r) rs)"

definition ackedRunEnd :: "store \<Rightarrow> int" where
  "ackedRunEnd s = run_end (commitOff s) (reserved s)"

definition mark_acked :: "nat \<Rightarrow> store \<Rightarrow> store" where
  "mark_acked i s = s\<lparr>reserved := (reserved s)[i := (reserved s ! i)\<lparr>r_acked := True\<rparr>]\<rparr>"

section \<open>The invariant of the ledger\<close>

text \<open>Every entry is a nonempty extent, and the entries are in order and do not overlap.\<close>

fun ledger_chain :: "int \<Rightarrow> reservation list \<Rightarrow> bool" where
  "ledger_chain at [] \<longleftrightarrow> True"
| "ledger_chain at (r # rs) \<longleftrightarrow> at \<le> r_start r \<and> r_start r < r_end r \<and> ledger_chain (r_end r) rs"

definition ledger_ok :: "reservation list \<Rightarrow> bool" where
  "ledger_ok rs \<longleftrightarrow> (\<exists>at. ledger_chain at rs)"

lemma ledger_chain_mono: "ledger_chain a rs \<Longrightarrow> b \<le> a \<Longrightarrow> ledger_chain b rs"
  by (cases rs) auto

lemma ledger_chain_append:
  "ledger_chain a (xs @ ys) \<longleftrightarrow> ledger_chain a xs \<and> ledger_chain (if xs = [] then a else r_end (last xs)) ys"
  by (induction xs arbitrary: a) auto

lemma ledger_chain_bounds:
  "ledger_chain a rs \<Longrightarrow> r \<in> set rs \<Longrightarrow> a \<le> r_start r \<and> r_start r < r_end r"
  by (induction rs arbitrary: a) fastforce+

lemma ledger_chain_nth:
  assumes "ledger_chain a rs" "i < j" "j < length rs"
  shows "r_end (rs ! i) \<le> r_start (rs ! j)"
  using assms
proof (induction rs arbitrary: a i j)
  case (Cons r rs)
  then obtain j' where j: "j = Suc j'" by (cases j) auto
  show ?case
  proof (cases i)
    case 0
    have "rs ! j' \<in> set rs" using Cons.prems j by simp
    then have "r_end r \<le> r_start (rs ! j')" using Cons.prems ledger_chain_bounds by auto
    then show ?thesis using 0 j by simp
  next
    case (Suc i')
    then show ?thesis using Cons.IH [of "r_end r" i' j'] Cons.prems j by simp
  qed
qed simp

lemma ledger_ends_less:
  "ledger_chain a rs \<Longrightarrow> i < j \<Longrightarrow> j < length rs \<Longrightarrow> r_end (rs ! i) < r_end (rs ! j)"
  using ledger_chain_nth [of a rs i j] ledger_chain_bounds [of a rs "rs ! j"] by fastforce

lemma ledger_ok_drop: "ledger_ok (xs @ ys) \<Longrightarrow> ledger_ok ys"
  by (auto simp: ledger_ok_def ledger_chain_append)

lemma ledger_ok_dropRetired: "ledger_ok (reserved s) \<Longrightarrow> ledger_ok (reserved (dropRetired s))"
  unfolding dropRetired_def using ledger_ok_drop [of "takeWhile P (reserved s)" "dropWhile P (reserved s)" for P]
  by simp

text \<open>After \<open>dropRetired\<close> every entry still ends past the commit cursor, and none that did was dropped.\<close>

lemma dropRetired_live:
  assumes "ledger_ok (reserved s)"
  shows "set (reserved (dropRetired s)) = {r \<in> set (reserved s). commitOff s < r_end r}"
proof -
  obtain a where "ledger_chain a (reserved s)" using assms by (auto simp: ledger_ok_def)
  then have "set (dropWhile (\<lambda>r. r_end r \<le> commitOff s) (reserved s)) = {r \<in> set (reserved s). commitOff s < r_end r}"
  proof (induction "reserved s" arbitrary: a s)
    case (Cons r rs)
    have c: "ledger_chain (r_end r) rs" using Cons.prems Cons.hyps(2) by (metis ledger_chain.simps(2))
    show ?case
    proof (cases "r_end r \<le> commitOff s")
      case True
      have "set (dropWhile (\<lambda>r. r_end r \<le> commitOff s) rs) = {r \<in> set rs. commitOff s < r_end r}"
        using Cons.hyps(1) [of "s\<lparr>reserved := rs\<rparr>"] c by simp
      then show ?thesis using True Cons.hyps(2) [symmetric] by auto
    next
      case False
      have "r_end r < r_end x" if "x \<in> set rs" for x using ledger_chain_bounds [OF c that] by linarith
      then show ?thesis using False Cons.hyps(2) [symmetric] by (auto, meson le_less_trans not_le order.trans less_imp_le)
    qed
  qed simp
  then show ?thesis by (simp add: dropRetired_def)
qed

lemma dropRetired_frame [simp]:
  "commitOff (dropRetired s) = commitOff s" "headOff (dropRetired s) = headOff s"
  "writeOff (dropRetired s) = writeOff s" "files (dropRetired s) = files s" "heap (dropRetired s) = heap s"
  "os (dropRetired s) = os s" "ioErr (dropRetired s) = ioErr s"
  by (simp_all add: dropRetired_def)

section \<open>The acknowledged run\<close>

lemma run_end_split:
  "\<exists>xs ys. rs = xs @ ys \<and> (\<forall>r \<in> set xs. r_acked r) \<and>
     run_end at rs = (if xs = [] then at else r_end (last xs)) \<and>
     (xs \<noteq> [] \<longrightarrow> r_start (hd xs) = at) \<and>
     (\<forall>i. Suc i < length xs \<longrightarrow> r_end (xs ! i) = r_start (xs ! Suc i)) \<and>
     (ys \<noteq> [] \<longrightarrow> \<not> r_acked (hd ys) \<or> r_start (hd ys) \<noteq> run_end at rs)"
proof (induction rs arbitrary: at)
  case (Cons r rs)
  show ?case
  proof (cases "\<not> r_acked r \<or> r_start r \<noteq> at")
    case True
    then show ?thesis by (intro exI [of _ "[]"] exI [of _ "r # rs"]) auto
  next
    case False
    obtain xs ys where xy: "rs = xs @ ys" "\<forall>r \<in> set xs. r_acked r"
      "run_end (r_end r) rs = (if xs = [] then r_end r else r_end (last xs))"
      "xs \<noteq> [] \<longrightarrow> r_start (hd xs) = r_end r"
      "\<forall>i. Suc i < length xs \<longrightarrow> r_end (xs ! i) = r_start (xs ! Suc i)"
      "ys \<noteq> [] \<longrightarrow> \<not> r_acked (hd ys) \<or> r_start (hd ys) \<noteq> run_end (r_end r) rs"
      using Cons.IH [of "r_end r"] by blast
    have "r_end ((r # xs) ! i) = r_start ((r # xs) ! Suc i)" if "Suc i < length (r # xs)" for i
      using that xy(4,5) by (cases i) (auto simp: hd_conv_nth)
    with xy False show ?thesis by (intro exI [of _ "r # xs"] exI [of _ ys]) auto
  qed
qed simp

text \<open>
  C23: the acknowledged run is the longest one.  It is a prefix of the ledger whose entries are all
  acknowledged and follow each other without a gap from the commit cursor, and the entry after it,
  if any, is unacknowledged or leaves a gap; so no unacknowledged reservation is ever inside
  the extent an acknowledgement commits.
\<close>

theorem ackedRunEnd_longest:
  "\<exists>xs ys. reserved s = xs @ ys \<and> (\<forall>r \<in> set xs. r_acked r) \<and>
     ackedRunEnd s = (if xs = [] then commitOff s else r_end (last xs)) \<and>
     (xs \<noteq> [] \<longrightarrow> r_start (hd xs) = commitOff s) \<and>
     (\<forall>i. Suc i < length xs \<longrightarrow> r_end (xs ! i) = r_start (xs ! Suc i)) \<and>
     (ys \<noteq> [] \<longrightarrow> \<not> r_acked (hd ys) \<or> r_start (hd ys) \<noteq> ackedRunEnd s) \<and>
     (ledger_ok (reserved s) \<longrightarrow>
        (\<forall>r \<in> set (reserved s). \<not> r_acked r \<longrightarrow> ackedRunEnd s \<le> max (commitOff s) (r_start r)))"
proof -
  obtain xs ys where xy: "reserved s = xs @ ys" "\<forall>r \<in> set xs. r_acked r"
    "ackedRunEnd s = (if xs = [] then commitOff s else r_end (last xs))"
    "xs \<noteq> [] \<longrightarrow> r_start (hd xs) = commitOff s"
    "\<forall>i. Suc i < length xs \<longrightarrow> r_end (xs ! i) = r_start (xs ! Suc i)"
    "ys \<noteq> [] \<longrightarrow> \<not> r_acked (hd ys) \<or> r_start (hd ys) \<noteq> ackedRunEnd s"
    using run_end_split [of "reserved s" "commitOff s"] unfolding ackedRunEnd_def by blast
  have "ackedRunEnd s \<le> max (commitOff s) (r_start r)"
    if ok: "ledger_ok (reserved s)" and r: "r \<in> set (reserved s)" "\<not> r_acked r" for r
  proof (cases "xs = []")
    case False
    obtain a where "ledger_chain a (xs @ ys)" using ok xy(1) by (auto simp: ledger_ok_def)
    then have "ledger_chain (r_end (last xs)) ys" using False by (simp add: ledger_chain_append)
    moreover have "r \<in> set ys" using r xy(1,2) by auto
    ultimately have "r_end (last xs) \<le> r_start r" using ledger_chain_bounds by blast
    then show ?thesis using False xy(3) by simp
  qed (use xy(3) in simp)
  with xy show ?thesis by (intro exI [of _ xs] exI [of _ ys]) simp
qed

definition acked_then_open :: store where
  "acked_then_open = (new_store 4096 0 False 1 3 os_empty)
     \<lparr>reserved := [(new_reservation 0 10)\<lparr>r_acked := True\<rparr>, new_reservation 10 25,
                   (new_reservation 25 40)\<lparr>r_acked := True\<rparr>]\<rparr>"

theorem ackedRunEnd_longest_witness:
  "ledger_ok (reserved acked_then_open) \<and> new_reservation 10 25 \<in> set (reserved acked_then_open) \<and>
   ackedRunEnd acked_then_open \<le> 10"
proof -
  have ok: "ledger_ok (reserved acked_then_open)"
    unfolding ledger_ok_def by (intro exI [of _ 0]) (simp add: acked_then_open_def new_reservation_def)
  have r: "new_reservation 10 25 \<in> set (reserved acked_then_open)" "\<not> r_acked (new_reservation 10 25)"
    "commitOff acked_then_open = 0" "r_start (new_reservation 10 25) = 10"
    by (simp_all add: acked_then_open_def new_reservation_def new_store_def)
  from ackedRunEnd_longest [of acked_then_open] ok r show ?thesis by fastforce
qed

section \<open>Finding a reservation\<close>

text \<open>
  C28: bisecting the ledger finds the reservation that ends at the given offset exactly when there
  is one, and it is the only one.
\<close>

theorem findReserved_correct:
  assumes "ledger_ok (reserved s)"
  shows "findReserved e s = Some i \<longleftrightarrow> i < length (reserved s) \<and> r_end (reserved s ! i) = e"
proof -
  let ?rs = "reserved s" and ?f = "\<lambda>mid. \<not> r_end (reserved s ! mid) < e"
  obtain a where c: "ledger_chain a ?rs" using assms by (auto simp: ledger_ok_def)
  have up: "upward (length ?rs) ?f"
    unfolding upward_def using ledger_ends_less [OF c] by (metis le_neq_implies_less less_trans)
  have eq: "findReserved e s = (let lo = sort_Search (length ?rs) ?f in
      if lo < length ?rs \<and> r_end (?rs ! lo) = e then Some lo else None)"
    by (simp add: findReserved_def sort_Search_def Let_def)
  have "sort_Search (length ?rs) ?f = i" if "i < length ?rs" "r_end (?rs ! i) = e"
    by (rule sort_Search_eqI [OF up that(1)]) (use that ledger_ends_less [OF c] in auto)
  then show ?thesis unfolding eq Let_def by (auto split: if_splits)
qed

theorem findReserved_correct_witness:
  "ledger_ok (reserved acked_then_open) \<and> findReserved 25 acked_then_open = Some 1 \<and>
   findReserved 30 acked_then_open \<noteq> Some 2"
proof -
  have ok: "ledger_ok (reserved acked_then_open)"
    unfolding ledger_ok_def by (intro exI [of _ 0]) (simp add: acked_then_open_def new_reservation_def)
  show ?thesis
    using findReserved_correct [OF ok, of 25 1] findReserved_correct [OF ok, of 30 2] ok
    by (simp add: acked_then_open_def new_reservation_def)
qed

end
