(* ===== verification/Commit.thy ===== *)
theory Commit
  imports Append Ledger
begin

text \<open>
  The commit side of store.go and the rest of reserve.go: force-committing a segment, abandoning
  a damaged one, the commit walk, and the acknowledgement operations that drive it.
\<close>

section \<open>Force-committing\<close>

definition publishFullCommit :: "hash \<Rightarrow> nat \<Rightarrow> unit op" where
  "publishFullCommit xx n s =
     (case ensureOpen n s of
        (Inr _, s1) \<Rightarrow>
          let prevCursor = commitCursor (df_hdr (heap s1 n)); prevCount = committedCount (df_hdr (heap s1 n));
              s2 = upd_df n (\<lambda>d. header xx [setCommitCursor (int headerSize + df_size d),
                                            setCommittedCount (df_written d)] d) s1
          in (case writeHeader n s2 of
                (Inl e, s3) \<Rightarrow>
                  (Inl e, upd_df n (header xx [setCommitCursor prevCursor, setCommittedCount prevCount]) s3)
              | (Inr _, s3) \<Rightarrow> if \<not> noSync s3 then flushFile n s3 else (Inr (), s3))
      | (Inl e, s1) \<Rightarrow> if err_is e ErrNotExist then (Inr (), s1) else (Inl e, s1))"

text \<open>Squaring one file's counters with its header, after the header was published.\<close>

definition abandon_rest :: "nat \<Rightarrow> store \<Rightarrow> store" where
  "abandon_rest n s =
     (let abandoned = df_written (heap s n) - df_committed (heap s n)
      in if abandoned > 0
         then s\<lparr>nCommitted := nCommitted s + abandoned, nCommittedTotal := nCommittedTotal s + abandoned\<rparr>
         else s)"

fun force_loop :: "hash \<Rightarrow> nat list \<Rightarrow> unit op" where
  "force_loop xx [] s = (Inr (), s)"
| "force_loop xx (n # ns) s =
     (if df_committed (heap s n) \<ge> df_written (heap s n) \<and>
         commitCursor (df_hdr (heap s n)) \<ge> int headerSize + df_size (heap s n)
      then force_loop xx ns s
      else case publishFullCommit xx n s of
             (Inl e, s1) \<Rightarrow> (Inl e, s1)
           | (Inr _, s1) \<Rightarrow>
               let s2 = upd_df n (\<lambda>d. d\<lparr>df_committed := df_written d\<rparr>) (abandon_rest n s1);
                   s3 = s2\<lparr>commitOff := max (commitOff s2) (df_end (heap s2 n))\<rparr>
               in force_loop xx ns (s3\<lparr>headOff := max (headOff s3) (commitOff s3)\<rparr>))"

definition forceCommitAll :: "hash \<Rightarrow> unit op" where
  "forceCommitAll xx s =
     (case force_loop xx (files s) s of
        (Inl e, s1) \<Rightarrow> (Inl e, s1)
      | (Inr _, s1) \<Rightarrow> (Inr (), s1\<lparr>nCommitted := nWritten s1\<rparr>))"

definition corrupt_span :: "int \<Rightarrow> int \<Rightarrow> int \<Rightarrow> reservation" where
  "corrupt_span a b written = \<lparr>r_start = a, r_end = b, r_acked = True, r_corrupt = True, r_written = written\<rparr>"

text \<open>The tail of \<open>skipCorruptSegment\<close>: the losses, the read cursor, and a deferred retirement.\<close>

definition book_lost :: "nat \<Rightarrow> int \<Rightarrow> store \<Rightarrow> store" where
  "book_lost n off s =
     (let fin = df_end (heap s n);
          s1 = (if fin - headOff s > 0
                then s\<lparr>lostBytes := lostBytes s + (fin - headOff s), lostSegments := lostSegments s + 1\<rparr> else s);
          s2 = (if headOff s1 < fin then s1\<lparr>headOff := fin\<rparr> else s1);
          s3 = (if commitOff s2 < fin
                then let t = dropRetired s2
                     in t\<lparr>reserved := reserved t @ [corrupt_span off fin (df_written (heap s n))]\<rparr>
                else s2)
      in s3\<lparr>corruptions := corruptions s3 + 1\<rparr>)"

definition skip_uncharted :: "hash \<Rightarrow> unit op" where
  "skip_uncharted xx s =
     (case forceCommitAll xx s of
        (Inl e, s1) \<Rightarrow> (Inl e, s1)
      | (Inr _, s1) \<Rightarrow>
          let s2 = s1\<lparr>corruptions := corruptions s1 + 1, lostSegments := lostSegments s1 + 1\<rparr>;
              lost = writeOff s2 - headOff s;
              s3 = (if lost > 0 then s2\<lparr>lostBytes := lostBytes s2 + lost\<rparr> else s2);
              s4 = s3\<lparr>headOff := writeOff s3\<rparr>
          in (Inr (), if commitOff s4 < writeOff s4 then s4\<lparr>commitOff := writeOff s4\<rparr> else s4))"

definition skipCorruptSegment :: "hash \<Rightarrow> int \<Rightarrow> unit op" where
  "skipCorruptSegment xx off s =
     (case fileForOffset off s of
        None \<Rightarrow> skip_uncharted xx s
      | Some n \<Rightarrow>
          if commitOff s = off then
            (case publishFullCommit xx n s of
               (Inl e, s1) \<Rightarrow> (Inl e, s1)
             | (Inr _, s1) \<Rightarrow>
                 let s2 = (if df_written (heap s1 n) - df_committed (heap s1 n) > 0
                           then upd_df n (\<lambda>d. d\<lparr>df_committed := df_written d\<rparr>) (abandon_rest n s1) else s1);
                     s3 = (if commitOff s2 < df_end (heap s2 n) then s2\<lparr>commitOff := df_end (heap s2 n)\<rparr> else s2)
                 in (Inr (), book_lost n off s3))
          else (Inr (), book_lost n off s))"

section \<open>The commit walk\<close>

definition persistCommit :: "hash \<Rightarrow> nat \<Rightarrow> bool \<Rightarrow> unit op" where
  "persistCommit xx n perop s =
     (let prevCursor = commitCursor (df_hdr (heap s n)); prevCount = committedCount (df_hdr (heap s n));
          s1 = upd_df n (\<lambda>d. header xx
                 [setCommitCursor (int headerSize + min (commitOff s - df_base d) (df_size d)),
                  setCommittedCount (df_committed d)] d) s
      in case writeHeader n s1 of
           (Inl e, s2) \<Rightarrow>
             if err_is e ErrNotExist then (Inr (), s2)
             else
               let rolledBack = df_committed (heap s2 n) - prevCount;
                   s3 = s2\<lparr>commitOff := df_base (heap s2 n) + prevCursor - int headerSize,
                           nCommitted := nCommitted s2 - rolledBack,
                           nCommittedTotal := nCommittedTotal s2 - rolledBack\<rparr>
               in (Inl e, upd_df n (\<lambda>d. header xx [setCommitCursor prevCursor, setCommittedCount prevCount]
                                          (d\<lparr>df_committed := prevCount\<rparr>)) s3)
         | (Inr _, s2) \<Rightarrow> if perop then flushFile n s2 else (Inr (), s2))"

text \<open>
  The variables the walk carries: the file under the cursor, the file whose header is not yet
  written out, the position in the ledger.  One iteration either continues or leaves the loop
  with the value of \<open>stop\<close>.
\<close>

record walk =
  w_df :: "nat option"
  w_cur :: "nat option"
  w_idx :: nat

datatype flow = Continue walk | Break walk "err option"

function skip_retired :: "int \<Rightarrow> reservation list \<Rightarrow> nat \<Rightarrow> nat" where
  "skip_retired at rs i =
     (if i < length rs \<and> r_end (rs ! i) \<le> at then skip_retired at rs (Suc i) else i)"
  by pat_completeness auto
termination
  by (relation "measure (\<lambda>(at, rs, i). length rs - i)") auto

declare skip_retired.simps [simp del]

text \<open>What the record at the cursor is: its end, or the error that says it cannot be read.\<close>

definition walk_next :: "nat \<Rightarrow> reservation option \<Rightarrow> err option \<Rightarrow> int option op" where
  "walk_next n resv openErr s =
     (case openErr of
        None \<Rightarrow> frameEnd n (commitOff s) s
      | Some e \<Rightarrow> (case resv of Some r \<Rightarrow> (Inr (Some (r_end r)), s) | None \<Rightarrow> (Inl (Wrap ErrCorrupt e), s)))"

definition walk_sane :: "int option \<Rightarrow> store \<Rightarrow> int option" where
  "walk_sane next s =
     (case next of None \<Rightarrow> None | Some x \<Rightarrow> if x \<le> commitOff s \<or> x > writeOff s then None else Some x)"

definition walk_corrupt :: "hash \<Rightarrow> int \<Rightarrow> nat \<Rightarrow> walk \<Rightarrow> err \<Rightarrow> store \<Rightarrow> flow \<times> store" where
  "walk_corrupt xx off n w e s =
     (if err_is e ErrCorrupt then
        (if off < df_end (heap s n) then (Break w (Some e), s)
         else case skipCorruptSegment xx (commitOff s) s of
                (Inl se, s1) \<Rightarrow> (Break w (Some se), s1)
              | (Inr _, s1) \<Rightarrow> (Continue (w\<lparr>w_cur := None\<rparr>), s1\<lparr>pendingCorrupt := pendingCorrupt s1 + 1\<rparr>))
      else (Break w (Some e), s))"

definition walk_record :: "hash \<Rightarrow> int \<Rightarrow> nat \<Rightarrow> reservation option \<Rightarrow> walk \<Rightarrow> store \<Rightarrow> flow \<times> store" where
  "walk_record xx off n resv w s =
     (case ensureOpen n s of
        (r, s1) \<Rightarrow>
          case ioErr s1 of
            Some e \<Rightarrow> (Break w (Some e), s1)
          | None \<Rightarrow>
              if (case r of Inl e \<Rightarrow> \<not> err_is e ErrNotExist | Inr _ \<Rightarrow> False)
              then (Break w (err_of r), s1)
              else case walk_next n resv (err_of r) s1 of
                     (Inl e, s2) \<Rightarrow> walk_corrupt xx off n w e s2
                   | (Inr nx, s2) \<Rightarrow>
                       (case walk_sane nx s2 of
                          None \<Rightarrow> walk_corrupt xx off n w ErrCorrupt s2
                        | Some next \<Rightarrow>
                            if next > off then (Break w None, s2)
                            else (Continue (w\<lparr>w_cur := Some n\<rparr>),
                                  upd_df n (\<lambda>d. d\<lparr>df_committed := df_committed d + 1\<rparr>)
                                    (s2\<lparr>commitOff := next, nCommitted := nCommitted s2 + 1,
                                        nCommittedTotal := nCommittedTotal s2 + 1\<rparr>))))"

text \<open>
  One iteration: the file under the cursor, writing out the header of the file before it, the
  ledger entry that starts at the cursor, and the record or the abandoned span there.
\<close>

definition walk_file :: "walk \<Rightarrow> store \<Rightarrow> nat option" where
  "walk_file w s =
     (let at = commitOff s
      in case w_df w of
           None \<Rightarrow> fileForOffset at s
         | Some n \<Rightarrow> if at < df_base (heap s n) \<or> at \<ge> df_end (heap s n) then fileForOffset at s else Some n)"

definition walk_turn :: "hash \<Rightarrow> nat \<Rightarrow> bool \<Rightarrow> nat option \<Rightarrow> unit op" where
  "walk_turn xx n perop cur s =
     (case cur of
        Some c \<Rightarrow> if c \<noteq> n then persistCommit xx c perop s else (Inr (), s)
      | None \<Rightarrow> (Inr (), s))"

definition walk_resv :: "nat \<Rightarrow> store \<Rightarrow> reservation option" where
  "walk_resv i s =
     (if i < length (reserved s) \<and> r_start (reserved s ! i) = commitOff s then Some (reserved s ! i) else None)"

definition walk_abandon :: "int \<Rightarrow> nat \<Rightarrow> reservation \<Rightarrow> walk \<Rightarrow> store \<Rightarrow> flow \<times> store" where
  "walk_abandon off n r w s =
     (if r_end r > off then (Break w None, s)
      else
        let abandoned = max (r_written r - df_committed (heap s n)) 0
        in (Continue (w\<lparr>w_cur := Some n\<rparr>),
            upd_df n (\<lambda>d. d\<lparr>df_committed := df_committed d + abandoned\<rparr>)
              (s\<lparr>commitOff := r_end r, nCommitted := nCommitted s + abandoned,
                 nCommittedTotal := nCommittedTotal s + abandoned\<rparr>)))"

definition walk_at :: "hash \<Rightarrow> int \<Rightarrow> nat \<Rightarrow> walk \<Rightarrow> store \<Rightarrow> flow \<times> store" where
  "walk_at xx off n w s =
     (let i = skip_retired (commitOff s) (reserved s) (w_idx w); w1 = w\<lparr>w_idx := i\<rparr>
      in case walk_resv i s of
           None \<Rightarrow> walk_record xx off n None w1 s
         | Some r \<Rightarrow> if r_corrupt r then walk_abandon off n r w1 s else walk_record xx off n (Some r) w1 s)"

definition commit_step :: "hash \<Rightarrow> int \<Rightarrow> bool \<Rightarrow> walk \<Rightarrow> store \<Rightarrow> flow \<times> store" where
  "commit_step xx off perop w s =
     (let w1 = w\<lparr>w_df := walk_file w s\<rparr>
      in case walk_file w s of
           None \<Rightarrow> (Break w1 (Some ErrCorrupt), s)
         | Some n \<Rightarrow>
             (case walk_turn xx n perop (w_cur w1) s of
                (Inl e, s1) \<Rightarrow> (Break (w1\<lparr>w_cur := None\<rparr>) (Some e), s1)
              | (Inr _, s1) \<Rightarrow>
                  walk_at xx off n (if w_cur w1 \<noteq> Some n then w1\<lparr>w_cur := None\<rparr> else w1) s1))"

text \<open>
  The loop.  Every iteration that continues moves the cursor forward, so \<open>off - commitOff\<close>
  iterations are enough; the fuel is that number.
\<close>

fun commit_walk :: "nat \<Rightarrow> hash \<Rightarrow> int \<Rightarrow> bool \<Rightarrow> walk \<Rightarrow> store \<Rightarrow> (walk \<times> err option) \<times> store" where
  "commit_walk 0 xx off perop w s = ((w, None), s)"
| "commit_walk (Suc k) xx off perop w s =
     (if commitOff s < off then
        (case commit_step xx off perop w s of
           (Continue w1, s1) \<Rightarrow> commit_walk k xx off perop w1 s1
         | (Break w1 stop, s1) \<Rightarrow> ((w1, stop), s1))
      else ((w, None), s))"

definition commitDurable :: "hash \<Rightarrow> int \<Rightarrow> bool \<Rightarrow> unit op" where
  "commitDurable xx off0 durable s =
     (case ioErr s of
        Some e \<Rightarrow> (Inl e, s)
      | None \<Rightarrow>
          if off0 \<le> commitOff s then (Inr (), s)
          else
            let off = min off0 (writeOff s); perop = (durable \<and> perOp s); before = commitOff s
            in case commit_walk (nat (off - before)) xx off perop \<lparr>w_df = None, w_cur = None, w_idx = 0\<rparr> s of
                 ((w, stop), s1) \<Rightarrow>
                   (case (case w_cur w of
                            Some c \<Rightarrow> (case persistCommit xx c perop s1 of
                                        (r, t) \<Rightarrow> (if stop = None then err_of r else stop, t))
                          | None \<Rightarrow> (stop, s1)) of
                      (stop2, s2) \<Rightarrow>
                        if commitOff s2 = before then (as_result stop2, s2)
                        else
                          (case (if durable \<and> batched s2
                                 then (case recordOp s2 of (r, t) \<Rightarrow> (if stop2 = None then err_of r else stop2, t))
                                 else (stop2, s2)) of
                             (stop3, s3) \<Rightarrow>
                               let s4 = (if headOff s3 < commitOff s3 then s3\<lparr>headOff := commitOff s3\<rparr> else s3)
                               in (as_result stop3, dropCommitted (active s4) s4))))"

definition commitTo :: "hash \<Rightarrow> int \<Rightarrow> unit op" where
  "commitTo xx off = commitDurable xx off True"

section \<open>Acknowledging\<close>

definition commitAckedRunDurable :: "hash \<Rightarrow> bool \<Rightarrow> unit op" where
  "commitAckedRunDurable xx durable s =
     (case ioErr s of
        Some e \<Rightarrow> (Inl e, s)
      | None \<Rightarrow>
          let target = ackedRunEnd s
          in if target \<le> commitOff s then (Inr (), s)
             else case commitDurable xx target durable s of (r, s1) \<Rightarrow> (r, dropRetired s1))"

definition commitAckedRun :: "hash \<Rightarrow> unit op" where
  "commitAckedRun xx = commitAckedRunDurable xx True"

text \<open>\<open>ackTo\<close>: whether the offset named a reservation, and the outcome.\<close>

definition ackTo :: "hash \<Rightarrow> int \<Rightarrow> store \<Rightarrow> (bool \<times> unit result) \<times> store" where
  "ackTo xx fin s =
     (case ioErr s of
        Some e \<Rightarrow> ((True, Inl e), s)
      | None \<Rightarrow>
          let s1 = dropRetired s
          in if fin \<le> commitOff s1 then ((True, Inr ()), s1)
             else case findReserved fin s1 of
                    None \<Rightarrow> ((False, Inr ()), s1)
                  | Some i \<Rightarrow> (case commitAckedRun xx (mark_acked i s1) of (r, s2) \<Rightarrow> ((True, r), s2)))"

definition retireFrameDurable :: "hash \<Rightarrow> int \<Rightarrow> int \<Rightarrow> bool \<Rightarrow> unit op" where
  "retireFrameDurable xx start fin durable s =
     (let s1 = dropRetired s
      in commitAckedRunDurable xx durable
           (s1\<lparr>reserved := reserved s1 @ [(new_reservation start fin)\<lparr>r_acked := True\<rparr>]\<rparr>))"

definition retireFrame :: "hash \<Rightarrow> int \<Rightarrow> int \<Rightarrow> unit op" where
  "retireFrame xx start fin = retireFrameDurable xx start fin True"

end
