(* ===== verification/Read.thy ===== *)
theory Read
  imports Commit
begin

text \<open>
  The read side of store.go: locating and decoding the record at an offset, taking the head
  record off the queue with every corruption branch, peeking, and the two rewinds.
\<close>

definition read :: "int \<Rightarrow> (bytes \<times> nat \<times> int) option op" where
  "read off s =
     (if off \<ge> writeOff s then (Inr None, s)
      else case fileForOffset off s of
             None \<Rightarrow> (Inl ErrCorrupt, s)
           | Some n \<Rightarrow>
               (case ensureOpen n s of
                  (Inl e, s1) \<Rightarrow>
                    if err_is e ErrNotExist then (Inl (Wrap ErrCorrupt e), s1) else (Inl e, s1)
                | (Inr _, s1) \<Rightarrow>
                    (case recordAt n off s1 of
                       (Inl e, s2) \<Rightarrow> (Inl e, s2)
                     | (Inr None, s2) \<Rightarrow> (Inl ErrCorrupt, s2)
                     | (Inr (Some x), s2) \<Rightarrow> (Inr (Some x), s2))))"

definition peekHead :: "hash \<Rightarrow> bytes option op" where
  "peekHead xx s =
     (case read (headOff s) s of
        (Inl e, s1) \<Rightarrow> (Inl e, s1)
      | (Inr None, s1) \<Rightarrow> (Inr None, s1)
      | (Inr (Some (payload, chk, next)), s1) \<Rightarrow>
          if unat (xx payload) \<noteq> chk then (Inl ErrCorrupt, s1) else (Inr (Some payload), s1))"

text \<open>\<open>takeHead\<close>: the payload and the offset past it, \<open>None\<close> when the queue is empty.\<close>

definition take_unreadable :: "hash \<Rightarrow> err \<Rightarrow> (bytes \<times> int) option op" where
  "take_unreadable xx e s =
     (if \<not> err_is e ErrCorrupt then (Inl e, s)
      else
        let head = headOff s
        in case skipCorruptSegment xx head s of
             (Inl se, s1) \<Rightarrow> if headOff s1 = head then (Inl se, s1) else (Inl (Wrap e se), s1)
           | (Inr _, s1) \<Rightarrow> (Inl e, s1))"

definition take_bad_sum :: "hash \<Rightarrow> int \<Rightarrow> (bytes \<times> int) option op" where
  "take_bad_sum xx next s =
     (let head = headOff s;
          s1 = s\<lparr>lostBytes := lostBytes s + (next - head), lostRecords := lostRecords s + 1,
                 corruptions := corruptions s + 1, headOff := next\<rparr>
      in case retireFrameDurable xx head next False s1 of
           (Inl e, s2) \<Rightarrow> (Inl (Wrap ErrCorrupt e), s2)
         | (Inr _, s2) \<Rightarrow> (Inl ErrCorrupt, s2))"

definition takeHead :: "hash \<Rightarrow> (bytes \<times> int) option op" where
  "takeHead xx s =
     (if pendingCorrupt s > 0 then (Inl ErrCorrupt, s\<lparr>pendingCorrupt := pendingCorrupt s - 1\<rparr>)
      else case read (headOff s) s of
             (Inl e, s1) \<Rightarrow> take_unreadable xx e s1
           | (Inr None, s1) \<Rightarrow> (Inr None, s1)
           | (Inr (Some (payload, chk, next)), s1) \<Rightarrow>
               if unat (xx payload) \<noteq> chk then take_bad_sum xx next s1
               else (Inr (Some (payload, next)),
                     s1\<lparr>lastFrameAt := headOff s1, lastFrameEnd := next, headOff := next,
                        nDelivered := nDelivered s1 + 1\<rparr>))"

definition rewindHead :: "int \<Rightarrow> store \<Rightarrow> store" where
  "rewindHead off s =
     (if off < headOff s
      then s\<lparr>headOff := off, nDelivered := (if nDelivered s > 0 then nDelivered s - 1 else nDelivered s)\<rparr>
      else s)"

definition rewindToCommit :: "store \<Rightarrow> int \<times> store" where
  "rewindToCommit s = (headOff s - commitOff s, s\<lparr>headOff := commitOff s, reserved := []\<rparr>)"

end
