(* ===== verification/Shape.thy ===== *)
theory Shape
  imports Read
begin

text \<open>
  What the queue is, as opposed to how it is held: \<open>shape\<close> erases from a store the handles, the
  caches and buffers, the flush bookkeeping, the header bytes on disk and every byte of a file
  outside its published extent.  Opening, evicting, flushing, reading and publishing a header
  leave the shape alone whatever fails; \<open>quiet\<close> is that relation together with the validity of
  the read block.
\<close>

section \<open>Shapes\<close>

definition shape_df :: "dataFile \<Rightarrow> dataFile" where
  "shape_df d = (core_df d)\<lparr>df_diskHeader := [], df_writeSeq := 0\<rparr>"

definition shape :: "store \<Rightarrow> store" where
  "shape s = s\<lparr>heap := (\<lambda>n. shape_df (heap s n)), lruMRU := None, lruLRU := None, nOpen := 0, ioErr := None,
     readBuf := [], blockFile := None, blockOff := 0, blockLen := 0, writeBuf := [],
     nHeaderWrites := 0, unsynced := 0, unsyncedBytes := 0, flushEpoch := 0,
     os := \<lparr>inode = (\<lambda>n. region (heap s n) (inode (os s) n) 0), linked = linked (os s),
            stable = (\<lambda>_. []), stable_dir = (\<lambda>_. False), script = []\<rparr>\<rparr>"

lemma shape_eq_df_fields:
  assumes "shape s' = shape s"
  shows "df_num (heap s' n) = df_num (heap s n)" "df_hdr (heap s' n) = df_hdr (heap s n)"
    "df_base (heap s' n) = df_base (heap s n)"
    "df_size (heap s' n) = df_size (heap s n)" "df_capacity (heap s' n) = df_capacity (heap s n)"
    "df_written (heap s' n) = df_written (heap s n)" "df_committed (heap s' n) = df_committed (heap s n)"
    "df_pins (heap s' n) = df_pins (heap s n)"
    "df_end (heap s' n) = df_end (heap s n)"
    "region (heap s' n) (inode (os s') n) 0 = region (heap s n) (inode (os s) n) 0"
proof -
  have "heap (shape s') n = heap (shape s) n" using assms by simp
  then have "shape_df (heap s' n) = shape_df (heap s n)" by (simp add: shape_def)
  then show "df_num (heap s' n) = df_num (heap s n)" "df_hdr (heap s' n) = df_hdr (heap s n)"
    "df_base (heap s' n) = df_base (heap s n)"
    "df_size (heap s' n) = df_size (heap s n)" "df_capacity (heap s' n) = df_capacity (heap s n)"
    "df_written (heap s' n) = df_written (heap s n)" "df_committed (heap s' n) = df_committed (heap s n)"
    "df_pins (heap s' n) = df_pins (heap s n)"
    "df_end (heap s' n) = df_end (heap s n)"
    by (cases "heap s' n"; cases "heap s n"; simp add: shape_df_def core_df_def df_end_def)+
  have "inode (os (shape s')) n = inode (os (shape s)) n" using assms by simp
  then show "region (heap s' n) (inode (os s') n) 0 = region (heap s n) (inode (os s) n) 0"
    by (simp add: shape_def)
qed

lemma shape_eq_fields:
  assumes "shape s' = shape s"
  shows "dirOpen s' = dirOpen s" "segmentSize s' = segmentSize s" "maxSegments s' = maxSegments s"
    "maxBytes s' = maxBytes s" "noSync s' = noSync s" "syncEvery s' = syncEvery s"
    "maxOpenFiles s' = maxOpenFiles s" "files s' = files s" "nextNum s' = nextNum s"
    "diskBytes s' = diskBytes s" "pendingBytes s' = pendingBytes s" "pendingRecs s' = pendingRecs s"
    "inFlight s' = inFlight s" "inFlightRecs s' = inFlightRecs s" "lastFrameAt s' = lastFrameAt s"
    "lastFrameEnd s' = lastFrameEnd s"
    "writeOff s' = writeOff s" "headOff s' = headOff s" "commitOff s' = commitOff s"
    "reserved s' = reserved s" "nWritten s' = nWritten s" "nCommitted s' = nCommitted s"
    "unreclaimed s' = unreclaimed s" "pendingCorrupt s' = pendingCorrupt s" "corruptions s' = corruptions s"
    "lostBytes s' = lostBytes s" "lostRecords s' = lostRecords s" "lostSegments s' = lostSegments s"
    "foreignSegments s' = foreignSegments s" "foreignBytes s' = foreignBytes s"
    "discardedBytes s' = discardedBytes s" "nAdded s' = nAdded s"
    "nDelivered s' = nDelivered s" "nFull s' = nFull s" "nCommittedTotal s' = nCommittedTotal s"
    "linked (os s') = linked (os s)"
  using assms
  by (cases s'; cases s; simp add: shape_def)+

lemma region_cong: "df_size d' = df_size d \<Longrightarrow> region d' ino q = region d ino q"
  by (simp add: region_def)

lemma view_imp_shape: "view s' = view s \<Longrightarrow> shape s' = shape s"
proof -
  assume v: "view s' = view s"
  note f = view_eq_fields [OF v] view_eq_df_fields [OF v]
  have d: "shape_df (heap s' n) = shape_df (heap s n)" for n
  proof -
    have "heap (view s') n = heap (view s) n" using v by simp
    then have "core_df (heap s' n) = core_df (heap s n)" by (simp add: view_def core_def)
    then show ?thesis by (simp add: shape_df_def)
  qed
  have r: "region (heap s' n) (inode (os s') n) 0 = region (heap s n) (inode (os s) n) 0" for n
    using f region_cong [of "heap s' n" "heap s n"] by simp
  show ?thesis using f d r unfolding shape_def by (cases s'; cases s) simp
qed

lemma core_imp_shape: "core s' = core s \<Longrightarrow> shape s' = shape s"
  by (rule view_imp_shape [OF core_imp_view])

section \<open>The block in terms of the published extent\<close>

definition data_of :: "store \<Rightarrow> nat \<Rightarrow> bytes" where
  "data_of s n = region (heap s n) (inode (os s) n) 0"

lemma data_of_alt: "data_of s n = take (nat (df_size (heap s n))) (drop headerSize (inode (os s) n))"
  by (simp add: data_of_def region_def slice_def)

lemma block_ok_data:
  "block_ok s \<longleftrightarrow>
     (case blockFile s of
        None \<Rightarrow> True
      | Some f \<Rightarrow>
          0 \<le> blockOff s \<and> 0 < blockLen s \<and> blockOff s + blockLen s \<le> df_size (heap s f) \<and>
          nat (blockLen s) \<le> length (readBuf s) \<and>
          nat (blockOff s) + nat (blockLen s) \<le> length (data_of s f) \<and>
          take (nat (blockLen s)) (readBuf s) =
            slice (nat (blockOff s)) (nat (blockOff s) + nat (blockLen s)) (data_of s f))"
proof (cases "blockFile s")
  case (Some f)
  let ?ino = "inode (os s) f" and ?z = "nat (df_size (heap s f))"
  let ?a = "nat (blockOff s)" and ?l = "nat (blockLen s)"
  have "?a + ?l \<le> length (data_of s f) \<longleftrightarrow> headerSize + ?a + ?l \<le> length ?ino"
    "slice ?a (?a + ?l) (data_of s f) = slice (headerSize + ?a) (headerSize + ?a + ?l) ?ino"
    if "0 \<le> blockOff s" "0 < blockLen s" "blockOff s + blockLen s \<le> df_size (heap s f)"
  proof -
    have z: "?a + ?l \<le> ?z" "0 < ?l" using that by auto
    then show "?a + ?l \<le> length (data_of s f) \<longleftrightarrow> headerSize + ?a + ?l \<le> length ?ino"
      by (auto simp: data_of_alt)
    show "slice ?a (?a + ?l) (data_of s f) = slice (headerSize + ?a) (headerSize + ?a + ?l) ?ino"
      using z by (simp add: data_of_def region_def slice_slice min_def add.assoc)
  qed
  then show ?thesis using Some by (auto simp: block_ok_def)
qed (simp add: block_ok_def)

text \<open>The block stays valid while the extents only grow.\<close>

lemma block_ok_grow:
  assumes b: "block_ok s" and f: "readBuf s' = readBuf s" "blockFile s' = blockFile s"
    "blockOff s' = blockOff s" "blockLen s' = blockLen s"
    and g: "\<And>n. df_size (heap s n) \<le> df_size (heap s' n) \<and> (\<exists>ys. data_of s' n = data_of s n @ ys)"
  shows "block_ok s'"
proof (cases "blockFile s")
  case (Some n)
  obtain ys where ys: "data_of s' n = data_of s n @ ys" using g by blast
  have "df_size (heap s n) \<le> df_size (heap s' n)" using g by blast
  then show ?thesis using b Some unfolding block_ok_data f by (auto simp: ys slice_append1)
qed (simp add: block_ok_def f)

lemma block_ok_same:
  assumes "block_ok s" "readBuf s' = readBuf s" "blockFile s' = blockFile s"
    "blockOff s' = blockOff s" "blockLen s' = blockLen s" "shape s' = shape s"
  shows "block_ok s'"
  by (rule block_ok_grow [OF assms(1-5)])
    (simp add: data_of_def shape_eq_df_fields [OF assms(6)])

section \<open>Quiet steps\<close>

definition quiet :: "store \<Rightarrow> store \<Rightarrow> bool" where
  "quiet s s' \<longleftrightarrow> shape s' = shape s \<and> (block_ok s \<longrightarrow> block_ok s')"

named_theorems quiet_rules \<open>operations that leave the shape of the queue alone\<close>

lemma quiet_refl [simp]: "quiet s s"
  by (simp add: quiet_def)

lemma quiet_trans: "quiet a b \<Longrightarrow> quiet b c \<Longrightarrow> quiet a c"
  by (auto simp: quiet_def)

lemma quiet_core: "core s' = core s \<Longrightarrow> quiet s s'"
  unfolding quiet_def by (intro conjI impI, erule core_imp_shape, erule (1) block_ok_core)

lemma quiet_read_step: "read_step s s' \<Longrightarrow> quiet s s'"
  unfolding quiet_def read_step_def by (intro conjI impI, rule view_imp_shape) blast+

lemma quiet_ensureOpen [quiet_rules]: "ensureOpen n s = (r, s') \<Longrightarrow> quiet s s'"
  by (rule quiet_core, rule core_ensureOpen)

lemma quiet_flushFile [quiet_rules]: "flushFile n s = (r, s') \<Longrightarrow> quiet s s'"
  by (rule quiet_core, rule core_flushFile)

lemma quiet_datasync [quiet_rules]: "os_run (datasync n) s = (r, s') \<Longrightarrow> quiet s s'"
  by (rule quiet_core, rule core_datasync)

lemma quiet_os_close [quiet_rules]: "os_run os_close s = (r, s') \<Longrightarrow> quiet s s'"
  by (rule quiet_core, rule core_os_close)

lemma quiet_failIO [quiet_rules]: "failIO e s = (r, s') \<Longrightarrow> quiet s s'"
  by (rule quiet_core, rule core_failIO)

lemma quiet_trackOpen [quiet_rules]: "quiet s (trackOpen n s)"
  by (rule quiet_core) simp

lemma quiet_fsyncDir [quiet_rules]: "os_run fsyncDir s = (r, s') \<Longrightarrow> quiet s s'"
  by (rule quiet_core, rule core_fsyncDir)

lemma quiet_syncDir [quiet_rules]: "syncDir s = (r, s') \<Longrightarrow> quiet s s'"
  unfolding syncDir_def
  by (auto split: if_splits prod.splits sum.splits dest!: quiet_fsyncDir quiet_failIO intro: quiet_trans)

lemma quiet_fields [simp]:
  "quiet s (s\<lparr>ioErr := e\<rparr>)" "quiet s (s\<lparr>unsynced := a\<rparr>)" "quiet s (s\<lparr>unsyncedBytes := b\<rparr>)"
  "quiet s (s\<lparr>flushEpoch := c\<rparr>)" "quiet s (s\<lparr>nHeaderWrites := d\<rparr>)" "quiet s (s\<lparr>writeBuf := wb\<rparr>)"
  by (simp_all add: quiet_def shape_def block_ok_def cong: option.case_cong)

lemma quiet_upd_df:
  assumes "\<And>d. shape_df (f d) = shape_df d"
  shows "quiet s (upd_df n f s)"
proof -
  have size: "df_size (f d) = df_size d" for d
    using assms [of d] by (cases "f d"; cases d) (simp add: shape_df_def core_df_def)
  have "shape (upd_df n f s) = shape s"
    using assms by (simp add: shape_def upd_df_def fun_eq_iff region_def size)
  then show ?thesis
    unfolding quiet_def using block_ok_same [of s "upd_df n f s"] by (simp add: upd_df_def)
qed

lemma shape_df_fields [simp]:
  "shape_df (d\<lparr>df_open := a\<rparr>) = shape_df d" "shape_df (d\<lparr>df_dirty := b\<rparr>) = shape_df d"
  "shape_df (d\<lparr>df_diskHeader := c\<rparr>) = shape_df d" "shape_df (d\<lparr>df_writeSeq := w\<rparr>) = shape_df d"
  by (simp_all add: shape_df_def core_df_def)

lemma quiet_mark_dirty [quiet_rules]: "quiet s (mark_dirty n s)"
  unfolding mark_dirty_def by (rule quiet_upd_df) simp

section \<open>Header writes\<close>

lemma drop_overwrite_head: "length bs \<le> headerSize \<Longrightarrow> drop headerSize (overwrite 0 bs xs) = drop headerSize xs"
  by (simp add: overwrite_def)

text \<open>A write to a file's header page, complete or not, leaves every published extent alone.\<close>

lemma pwrite_cases:
  assumes "os_run (os_pwrite n off bs) s = (r, s')"
  obtains w k where "s' = s\<lparr>os := w\<rparr>"
    "inode w = (inode (os s))(n := overwrite off (take k bs) (inode (os s) n))"
    "linked w = linked (os s)" "stable w = stable (os s)"
    "r = Inr () \<Longrightarrow> take k bs = bs" "\<And>e. r = Inl e \<Longrightarrow> \<not> fault_free s \<and> (\<exists>x. e = Errno x)"
    "fault_free s \<Longrightarrow> script w = []"
proof -
  obtain v w1 where t: "os_tick (os s) = (v, w1)" by force
  have w1: "inode w1 = inode (os s)" "linked w1 = linked (os s)" "stable w1 = stable (os s)"
      "fault_free s \<Longrightarrow> script w1 = [] \<and> v = VOk"
    using t by (auto simp: os_tick_def fault_free_def split: list.splits)
  show ?thesis
  proof (cases v)
    case VOk
    have r: "r = Inr ()" and s': "s' = s\<lparr>os := w1\<lparr>inode := (inode w1)(n := overwrite off bs (inode w1 n))\<rparr>\<rparr>"
      using assms t VOk by (auto simp: os_run_def os_pwrite_def)
    show ?thesis by (rule that [OF s', of "length bs"]) (use w1 r in simp_all)
  next
    case (VFail e k)
    have r: "r = Inl (Errno e)"
      and s': "s' = s\<lparr>os := w1\<lparr>inode := (inode w1)(n := overwrite off (take k bs) (inode w1 n))\<rparr>\<rparr>"
      using assms t VFail by (auto simp: os_run_def os_pwrite_def)
    show ?thesis by (rule that [OF s', of k]) (use w1 r VFail in auto)
  qed
qed

lemma quiet_os:
  assumes "\<And>n. data_of (s\<lparr>os := w\<rparr>) n = data_of s n" "linked w = linked (os s)"
  shows "quiet s (s\<lparr>os := w\<rparr>)"
proof -
  have "shape (s\<lparr>os := w\<rparr>) = shape s" using assms by (simp add: shape_def data_of_def fun_eq_iff)
  then show ?thesis unfolding quiet_def using block_ok_same [of s "s\<lparr>os := w\<rparr>"] by simp
qed

lemma quiet_header_pwrite [quiet_rules]:
  assumes "os_run (os_pwrite n 0 bs) s = (r, s')" "length bs \<le> headerSize"
  shows "quiet s s'"
  using assms(1)
proof (cases rule: pwrite_cases)
  case (1 w k)
  show ?thesis unfolding 1(1)
    by (rule quiet_os) (use 1 assms(2) in \<open>simp_all add: data_of_alt drop_overwrite_head\<close>)
qed

lemma quiet_pread [quiet_rules]:
  assumes "os_run (os_pread n off len) s = (r, s')"
  shows "quiet s s'"
  by (rule quiet_core, rule core_os_run [OF assms]) (metis os_pread_same prod.collapse)

lemma changed_len_le: "changed_len k xs ys \<le> k"
  by (induction k) auto

lemma quiet_restoreHeader [quiet_rules]:
  assumes "restoreHeader n s = (r, s')"
  shows "quiet s s'"
proof -
  obtain cur e s1 where p: "os_run (os_pread n 0 headerSize) s = ((cur, e), s1)" by (metis surj_pair)
  let ?disk = "df_diskHeader (heap s1 n)" and ?k = "changed_len headerSize cur (df_diskHeader (heap s1 n))"
  have q1: "quiet s s1" by (rule quiet_pread [OF p])
  have len: "length (take ?k ?disk) \<le> headerSize" using changed_len_le [of headerSize cur ?disk] by simp
  obtain r2 s2 where w: "os_run (os_pwrite n 0 (take ?k ?disk)) (mark_dirty n s1) = (r2, s2)" by force
  have q2: "quiet s s2"
    by (rule quiet_trans [OF quiet_trans [OF q1 quiet_mark_dirty] quiet_header_pwrite [OF w len]])
  show ?thesis
    using assms p w q1 q2 unfolding restoreHeader_def
    by (auto simp: Let_def split: option.splits if_splits sum.splits dest!: quiet_datasync intro: quiet_trans)
qed

lemma quiet_writeHeader [quiet_rules]:
  assumes w: "writeHeader n s = (r, s')" and len: "length (df_hdr (heap s n)) \<le> headerSize"
  shows "quiet s s'"
proof -
  obtain r1 s1 where 1: "(if df_open (heap s n) then (Inr (), s) else ensureOpen n s) = (r1, s1)" by force
  have c1: "core s1 = core s" using 1 by (auto split: if_splits dest: core_ensureOpen)
  have q1: "quiet s s1" using c1 by (rule quiet_core)
  show ?thesis
  proof (cases "\<exists>u. r1 = Inr u \<and> ioErr s1 = None")
    case False
    then have "s' = s1" using w 1 by (auto simp: writeHeader_def split: sum.splits option.splits)
    then show ?thesis using q1 by simp
  next
    case True
    have len1: "length (df_hdr (heap s1 n)) \<le> headerSize" using len by (simp add: core_eq_df_fields [OF c1])
    obtain r2 s2 where 2: "os_run (os_pwrite n 0 (df_hdr (heap s1 n))) s1 = (r2, s2)" by force
    have q2: "quiet s s2" by (rule quiet_trans [OF q1 quiet_header_pwrite [OF 2 len1]])
    show ?thesis
    proof (cases r2)
      case (Inl e)
      obtain r3 s3 where 3: "restoreHeader n s2 = (r3, s3)" by force
      have q3: "quiet s s3" by (rule quiet_trans [OF q2 quiet_restoreHeader [OF 3]])
      show ?thesis using w 1 2 3 True Inl q2 q3
        by (auto simp: writeHeader_def split: if_splits sum.splits prod.splits dest!: quiet_failIO intro: quiet_trans)
    next
      case (Inr u)
      let ?s3 = "upd_df n (\<lambda>d. d\<lparr>df_diskHeader := df_hdr d\<rparr>) s2"
      have q3: "quiet s2 ?s3" by (rule quiet_upd_df) simp
      have "s' = mark_dirty n (?s3\<lparr>nHeaderWrites := nHeaderWrites ?s3 + 1\<rparr>)"
        using w 1 2 True Inr by (auto simp: writeHeader_def Let_def)
      then show ?thesis
        by (simp only:) (rule quiet_trans [OF quiet_trans [OF quiet_trans [OF q2 q3] quiet_fields(5)] quiet_mark_dirty])
    qed
  qed
qed

section \<open>Flushing everything\<close>

lemma quiet_flush_all: "flush_all ns e s = (r, s') \<Longrightarrow> quiet s s'"
proof (induction ns e s rule: flush_all.induct)
  case (2 n ns errs s)
  obtain r1 s1 where f: "flushFile n s = (r1, s1)" by force
  then have "quiet s s1" by (rule quiet_flushFile)
  moreover have "quiet s1 s'" using 2 f by auto
  ultimately show ?case by (rule quiet_trans)
qed simp

lemma quiet_flushBatch [quiet_rules]:
  assumes "flushBatch s = (r, s')"
  shows "quiet s s'"
proof -
  obtain e s1 where 1: "flush_all (files s) None s = (e, s1)" by force
  obtain r2 s2 where 2: "syncDir s1 = (r2, s2)" by force
  have q: "quiet s s1" "quiet s1 s2" using quiet_flush_all [OF 1] quiet_syncDir [OF 2] .
  have q3: "quiet s (s2\<lparr>unsynced := 0, unsyncedBytes := 0, flushEpoch := Suc (flushEpoch s2)\<rparr>)"
    by (rule quiet_trans [OF quiet_trans [OF q]], rule quiet_trans [OF quiet_fields(2)],
        rule quiet_trans [OF quiet_fields(3)], rule quiet_fields(4))
  show ?thesis using assms 1 2 q q3 unfolding flushBatch_def
    by (auto split: option.splits sum.splits intro: quiet_trans)
qed

lemma quiet_recordOps [quiet_rules]: "recordOps n s = (r, s') \<Longrightarrow> quiet s s'"
  unfolding recordOps_def Let_def
  by (auto split: if_splits dest!: quiet_flushBatch intro: quiet_trans [OF quiet_fields(2)])

lemma quiet_recordOp [quiet_rules]: "recordOp s = (r, s') \<Longrightarrow> quiet s s'"
  unfolding recordOp_def by (rule quiet_recordOps)

section \<open>Reads\<close>

lemma quiet_frameEnd [quiet_rules]:
  "frameEnd n off s = (r, s') \<Longrightarrow> block_ok s \<Longrightarrow> quiet s s'"
  unfolding frameEnd_def using recordLen_spec by (auto split: if_splits intro: quiet_read_step)

end
