(* ===== verification/Publish.thy ===== *)
theory Publish
  imports Shape
begin

text \<open>
  Publishing a header is all or nothing: after \<open>writeHeader\<close>, whatever the disk did, the header
  page of the file is the new header, or it is the old one, or the store has latched a failure
  and refuses further work.
\<close>

text \<open>The header page of the file is the one the store remembers having published.\<close>

definition in_sync :: "store \<Rightarrow> nat \<Rightarrow> bool" where
  "in_sync s n \<longleftrightarrow> take headerSize (inode (os s) n) = df_diskHeader (heap s n) \<and>
     length (df_diskHeader (heap s n)) = headerSize"

lemma in_sync_core: "core s' = core s \<Longrightarrow> in_sync s' n = in_sync s n"
  unfolding in_sync_def using core_eq_fields [of s' s] core_eq_df_fields [of s' s n] by simp

lemma changed_len_agree: "changed_len k xs ys \<le> i \<Longrightarrow> i < k \<Longrightarrow> xs ! i = ys ! i"
  by (induction k) (auto split: if_splits simp: less_Suc_eq)

lemma changed_len_patch:
  assumes "length xs = k" "length ys = k" "j = changed_len k xs ys"
  shows "take j ys @ drop j xs = ys"
proof -
  have j: "j \<le> k" using assms changed_len_le by simp
  have "drop j xs = drop j ys"
  proof (rule nth_equalityI)
    fix i assume "i < length (drop j xs)"
    then show "drop j xs ! i = drop j ys ! i"
      using assms changed_len_agree [of k xs ys "j + i"] j by simp
  qed (use assms in simp)
  then show ?thesis by simp
qed

lemma take_overwrite_head:
  "length bs \<le> k \<Longrightarrow> take k (overwrite 0 bs xs) = bs @ drop (length bs) (take k xs)"
  by (simp add: overwrite_def drop_take)

text \<open>A successful repair puts the published header back.\<close>

lemma restoreHeader_restores:
  assumes r: "restoreHeader n s = (Inr u, s')" and len: "length (df_diskHeader (heap s n)) = headerSize"
    and room: "headerSize \<le> length (inode (os s) n)"
  shows "take headerSize (inode (os s') n) = df_diskHeader (heap s n) \<and>
    df_diskHeader (heap s' n) = df_diskHeader (heap s n)"
proof -
  let ?disk = "df_diskHeader (heap s n)"
  obtain cur e s1 where p: "os_run (os_pread n 0 headerSize) s = ((cur, e), s1)" by (metis surj_pair)
  note f1 = pread_frame [OF p]
  have e: "e = None" using r p by (auto simp: restoreHeader_def split: option.splits)
  have cur: "cur = take headerSize (inode (os s) n)"
    using p by (cases rule: pread_cases) (use e in \<open>auto simp: slice_def\<close>)
  define k where "k = changed_len headerSize cur ?disk"
  have lc: "length cur = headerSize" using room cur by simp
  have patch: "take k ?disk @ drop k cur = ?disk" using changed_len_patch [OF lc len k_def] .
  show ?thesis
  proof (cases "k = 0")
    case True
    then have "s' = s1" using r p e f1 by (simp add: restoreHeader_def k_def Let_def)
    then show ?thesis using True patch cur f1 by simp
  next
    case False
    obtain r2 s2 where w: "os_run (os_pwrite n 0 (take k ?disk)) (mark_dirty n s1) = (r2, s2)" by force
    have r2: "r2 = Inr ()" and ds: "os_run (datasync n) s2 = (Inr u, s')"
      using r p e f1 w False by (auto simp: restoreHeader_def k_def Let_def split: sum.splits)
    have c: "core s' = core s2" by (rule core_datasync [OF ds])
    from w show ?thesis
    proof (cases rule: pwrite_cases)
      case (1 w' j)
      have "take j (take k ?disk) = take k ?disk" using 1 r2 by simp
      then have "inode (os s2) n = overwrite 0 (take k ?disk) (inode (os s) n)"
        using 1 f1 by (simp add: mark_dirty_def)
      then have "take headerSize (inode (os s2) n) = take k ?disk @ drop k cur"
        using len cur by (simp add: take_overwrite_head k_def changed_len_le min_absorb2)
      then have "take headerSize (inode (os s') n) = ?disk" using patch core_eq_fields [OF c] by simp
      moreover have "df_diskHeader (heap s' n) = ?disk"
        using 1 f1 by (simp add: core_eq_df_fields [OF c] mark_dirty_def)
      ultimately show ?thesis by simp
    qed
  qed
qed

lemma writeHeader_sync:
  assumes s: "in_sync s n" and len: "length (df_hdr (heap s n)) = headerSize" and w: "writeHeader n s = (r, s')"
  shows "case r of
      Inr _ \<Rightarrow> in_sync s' n \<and> take headerSize (inode (os s') n) = df_hdr (heap s n)
    | Inl _ \<Rightarrow> ioErr s' \<noteq> None \<or>
        in_sync s' n \<and> take headerSize (inode (os s') n) = take headerSize (inode (os s) n)"
proof -
  obtain r1 s1 where 1: "(if df_open (heap s n) then (Inr (), s) else ensureOpen n s) = (r1, s1)" by force
  have c1: "core s1 = core s" using 1 by (auto split: if_splits dest: core_ensureOpen)
  have sy1: "in_sync s1 n" using s in_sync_core [OF c1] by simp
  note f1 = core_eq_fields [OF c1] core_eq_df_fields [OF c1]
  have room: "headerSize \<le> length (inode (os s) n)" using s by (auto simp: in_sync_def dest: arg_cong [where f = length])
  show ?thesis
  proof (cases "\<exists>u. r1 = Inr u \<and> ioErr s1 = None")
    case False
    then have "s' = s1" "\<exists>e. r = Inl e" using w 1 by (auto simp: writeHeader_def split: sum.splits option.splits)
    then show ?thesis using sy1 f1 by auto
  next
    case True
    obtain r2 s2 where 2: "os_run (os_pwrite n 0 (df_hdr (heap s1 n))) s1 = (r2, s2)" by force
    from 2 show ?thesis
    proof (cases rule: pwrite_cases)
      case (1 w' k)
      let ?bs = "take k (df_hdr (heap s1 n))"
      have ino2: "inode (os s2) n = overwrite 0 ?bs (inode (os s) n)" and h2: "heap s2 = heap s1"
        using 1 f1 by simp_all
      show ?thesis
      proof (cases r2)
        case (Inr u)
        have "?bs = df_hdr (heap s n)" using 1 Inr f1 by simp
        then have t: "take headerSize (inode (os s2) n) = df_hdr (heap s n)"
          unfolding ino2 using len by (simp add: take_overwrite_head)
        have "r = Inr ()" "os s' = os s2" "df_diskHeader (heap s' n) = df_hdr (heap s n)"
          using w \<open>(if df_open (heap s n) then (Inr (), s) else ensureOpen n s) = (r1, s1)\<close> True 2 Inr h2 f1
          by (auto simp: writeHeader_def Let_def mark_dirty_def)
        then show ?thesis using t len by (simp add: in_sync_def)
      next
        case (Inl e)
        obtain x where e: "e = Errno x" using 1 Inl by blast
        obtain r3 s3 where 3: "restoreHeader n s2 = (r3, s3)" by force
        have out: "(r, s') = (case r3 of
            Inl re \<Rightarrow> (case failIO re s3 of (fr :: unit result, s4) \<Rightarrow> (as_result (err_join (Some e) (err_of fr)), s4))
          | Inr _ \<Rightarrow> (Inl e, s3))"
          using w \<open>(if df_open (heap s n) then (Inr (), s) else ensureOpen n s) = (r1, s1)\<close> True 2 3 Inl e
          by (auto simp: writeHeader_def split: sum.splits)
        show ?thesis
        proof (cases r3)
          case i: (Inl re)
          obtain fr s4 where "(failIO re s3 :: unit result \<times> store) = (fr, s4)" by force
          then have "ioErr s' \<noteq> None" "\<exists>y. r = Inl y"
            using out i by (auto dest!: failIO_result simp: as_result_def err_join_def split: option.splits)
          then show ?thesis by auto
        next
          case i: (Inr u)
          have len2: "length (df_diskHeader (heap s2 n)) = headerSize" using s h2 f1 by (simp add: in_sync_def)
          have "headerSize \<le> length (inode (os s2) n)" unfolding ino2 using room by (simp add: length_overwrite)
          with restoreHeader_restores [OF 3 [unfolded i] len2] show ?thesis
            using out i s h2 f1 by (auto simp: in_sync_def)
        qed
      qed
    qed
  qed
qed

text \<open>
  C18: publishing a header is atomic under every pattern of I/O failures, short writes
  included.  When it reports success the file's header page is exactly the new header; when it
  reports a failure the page still holds the header published before, unless the failure was
  latched; and the record data of no file is touched either way.
\<close>

theorem writeHeader_atomic:
  assumes "in_sync s n" "length (df_hdr (heap s n)) = headerSize" "writeHeader n s = (r, s')"
  shows "(\<forall>u. r = Inr u \<longrightarrow> in_sync s' n \<and> take headerSize (inode (os s') n) = df_hdr (heap s n)) \<and>
    (\<forall>e. r = Inl e \<longrightarrow> ioErr s' \<noteq> None \<or>
       in_sync s' n \<and> take headerSize (inode (os s') n) = take headerSize (inode (os s) n)) \<and>
    (\<forall>m. data_of s' m = data_of s m)"
proof -
  have "quiet s s'" by (rule quiet_writeHeader [OF assms(3)]) (simp add: assms(2))
  then have "\<forall>m. data_of s' m = data_of s m"
    unfolding quiet_def data_of_def by (blast intro: shape_eq_df_fields(10))
  then show ?thesis using writeHeader_sync [OF assms] by (auto split: sum.splits)
qed

text \<open>A header write of which the disk took ten bytes and then failed.\<close>

definition torn_once :: store where
  "torn_once = (new_store 4096 0 False 1 3
      (os_empty\<lparr>inode := (\<lambda>_. replicate 64 0 @ [7]), linked := (\<lambda>_. True), script := [VFail EIO 10]\<rparr>))
     \<lparr>heap := (\<lambda>n. (zero_dataFile n)\<lparr>df_hdr := replicate 64 1, df_open := True\<rparr>)\<rparr>"

theorem writeHeader_atomic_witness:
  "in_sync torn_once 1 \<and> length (df_hdr (heap torn_once 1)) = headerSize \<and>
   fst (writeHeader 1 torn_once) = Inl (Errno EIO) \<and>
   take headerSize (inode (os (snd (writeHeader 1 torn_once))) 1) = replicate 64 0"
proof -
  have pre: "in_sync torn_once 1" "length (df_hdr (heap torn_once 1)) = headerSize"
    by (simp_all add: in_sync_def torn_once_def new_store_def os_empty_def zero_dataFile_def headerSize_def)
  have old: "take headerSize (inode (os torn_once) 1) = replicate 64 0"
    by (simp add: torn_once_def new_store_def headerSize_def)
  obtain r s' where w: "writeHeader 1 torn_once = (r, s')" by force
  have fail: "os_run (os_pwrite 1 0 (replicate 64 1)) torn_once =
      (Inl (Errno EIO), torn_once\<lparr>os := (os torn_once)\<lparr>script := [],
         inode := (inode (os torn_once))(1 := overwrite 0 (replicate 10 1) (replicate 64 0 @ [7]))\<rparr>\<rparr>)"
    by (simp add: torn_once_def new_store_def os_empty_def os_run_def os_pwrite_def os_tick_def)
  have "r = Inl (Errno EIO) \<and> ioErr s' = None"
  proof -
    let ?s2 = "snd (os_run (os_pwrite 1 0 (replicate 64 1)) torn_once)"
    have "fault_free ?s2" using fail by (simp add: fault_free_def)
    moreover have "length (df_diskHeader (heap ?s2 1)) = headerSize" "headerSize \<le> length (inode (os ?s2) 1)"
      using fail by (simp_all add: torn_once_def zero_dataFile_def length_overwrite headerSize_def)
    moreover have "ioErr ?s2 = None" using fail by (simp add: torn_once_def new_store_def)
    ultimately have "\<exists>s3. restoreHeader 1 ?s2 = (Inr (), s3) \<and> ioErr s3 = None"
      by (auto simp: restoreHeader_def os_run_def os_op_defs fault_free_def Let_def slice_def mark_dirty_def
          length_overwrite split: prod.splits)
    then show ?thesis
      using w fail by (auto simp: writeHeader_def torn_once_def new_store_def)
  qed
  then show ?thesis using writeHeader_atomic [OF pre w] pre old w by auto
qed

end
