(* ===== verification/Queue_Inv.thy ===== *)
theory Queue_Inv
  imports Publish
begin

text \<open>
  The abstract queue behind a store and the invariant that ties them together: every live segment
  holds a sequence of intact frames, the segments cover the offsets from the commit cursor to
  the write cursor without a gap, and the cursors stand on record boundaries.  \<open>unread\<close> and
  \<open>backlog\<close> are the payloads from the read cursor and from the commit cursor to the end.
\<close>

section \<open>Records with their offsets\<close>

fun offs :: "int \<Rightarrow> bytes list \<Rightarrow> (int \<times> bytes) list" where
  "offs b [] = []"
| "offs b (p # ps) = (b, p) # offs (b + framedLen (length p)) ps"

definition recs_of :: "hash \<Rightarrow> store \<Rightarrow> nat \<Rightarrow> bytes list" where
  "recs_of xx s n = the (records xx (data_of s n))"

definition seg_flat :: "hash \<Rightarrow> store \<Rightarrow> nat \<Rightarrow> (int \<times> bytes) list" where
  "seg_flat xx s n = offs (df_base (heap s n)) (recs_of xx s n)"

definition flat :: "hash \<Rightarrow> store \<Rightarrow> (int \<times> bytes) list" where
  "flat xx s = concat (map (seg_flat xx s) (files s))"

definition from_off :: "int \<Rightarrow> (int \<times> bytes) list \<Rightarrow> bytes list" where
  "from_off at fl = map snd (filter (\<lambda>(q, p). at \<le> q) fl)"

definition unread :: "hash \<Rightarrow> store \<Rightarrow> bytes list" where
  "unread xx s = from_off (headOff s) (flat xx s)"

definition backlog :: "hash \<Rightarrow> store \<Rightarrow> bytes list" where
  "backlog xx s = from_off (commitOff s) (flat xx s)"

section \<open>The invariant\<close>

definition file_ok :: "hash \<Rightarrow> store \<Rightarrow> nat \<Rightarrow> bool" where
  "file_ok xx s n \<longleftrightarrow>
     data_of s n = frames xx (recs_of xx s n) \<and> int (length (data_of s n)) = df_size (heap s n) \<and>
     df_size (heap s n) < 2 ^ 63 \<and> df_capacity (heap s n) < 2 ^ 63 \<and>
     df_written (heap s n) = int (length (recs_of xx s n)) \<and>
     linked (os s) n \<and> length (df_hdr (heap s n)) = headerSize"

text \<open>The segments in order: each starts where the one before ended, except for gaps below \<open>c\<close>.\<close>

fun lay :: "(nat \<Rightarrow> dataFile) \<Rightarrow> int \<Rightarrow> int \<Rightarrow> nat list \<Rightarrow> int \<Rightarrow> bool" where
  "lay h c at [] w \<longleftrightarrow> at = w"
| "lay h c at (n # ns) w \<longleftrightarrow>
     at \<le> df_base (h n) \<and> (at = df_base (h n) \<or> df_base (h n) \<le> c) \<and> lay h c (df_end (h n)) ns w"

definition covered :: "store \<Rightarrow> bool" where
  "covered s \<longleftrightarrow>
     (case files s of
        [] \<Rightarrow> commitOff s = writeOff s
      | n # ns \<Rightarrow> df_base (heap s n) \<le> commitOff s \<and>
                 lay (heap s) (commitOff s) (df_base (heap s n)) (files s) (writeOff s))"

definition boundary :: "hash \<Rightarrow> store \<Rightarrow> int \<Rightarrow> bool" where
  "boundary xx s at \<longleftrightarrow> at = writeOff s \<or> at \<in> fst ` set (flat xx s)"

definition cache_ok :: "hash \<Rightarrow> store \<Rightarrow> bool" where
  "cache_ok xx s \<longleftrightarrow>
     (lastFrameEnd s \<noteq> 0 \<longrightarrow> lastFrameAt s < writeOff s \<and>
        (\<forall>(q, p) \<in> set (flat xx s). q = lastFrameAt s \<longrightarrow> lastFrameEnd s = q + framedLen (length p)))"

text \<open>Segment numbers are used once: those from \<open>nextNum\<close> on name nothing yet.\<close>

definition nums_ok :: "store \<Rightarrow> bool" where
  "nums_ok s \<longleftrightarrow> distinct (files s) \<and> nextNum s < 2 ^ 64 \<and>
     (nextNum s = 0 \<or> (\<forall>n \<in> set (files s). n < nextNum s) \<and> (\<forall>m \<ge> nextNum s. df_size (heap s m) = 0))"

definition queue_ok :: "hash \<Rightarrow> store \<Rightarrow> bool" where
  "queue_ok xx s \<longleftrightarrow>
     (\<forall>n \<in> set (files s). file_ok xx s n) \<and> covered s \<and> nums_ok s \<and>
     0 \<le> commitOff s \<and> commitOff s \<le> headOff s \<and> headOff s \<le> writeOff s \<and>
     boundary xx s (commitOff s) \<and> boundary xx s (headOff s) \<and> block_ok s \<and> cache_ok xx s"

lemma queue_okD:
  assumes "queue_ok xx s"
  shows "n \<in> set (files s) \<Longrightarrow> file_ok xx s n" "covered s" "nums_ok s" "0 \<le> commitOff s"
    "commitOff s \<le> headOff s" "headOff s \<le> writeOff s" "boundary xx s (commitOff s)"
    "boundary xx s (headOff s)" "block_ok s" "cache_ok xx s"
  using assms by (simp_all add: queue_ok_def)

section \<open>Quiet steps keep it\<close>

lemma quiet_data: "quiet s s' \<Longrightarrow> data_of s' n = data_of s n"
  unfolding quiet_def data_of_def by (blast intro: shape_eq_df_fields(10))

lemma quiet_flat:
  assumes q: "quiet s s'"
  shows "flat xx s' = flat xx s" "recs_of xx s' n = recs_of xx s n" "unread xx s' = unread xx s" "backlog xx s' = backlog xx s"
proof -
  have sh: "shape s' = shape s" using q by (simp add: quiet_def)
  note f = shape_eq_fields [OF sh] shape_eq_df_fields [OF sh]
  show r: "recs_of xx s' n = recs_of xx s n" for n by (simp add: recs_of_def quiet_data [OF q])
  show fl: "flat xx s' = flat xx s" by (simp add: flat_def seg_flat_def [abs_def] r f)
  show "unread xx s' = unread xx s" "backlog xx s' = backlog xx s"
    by (simp_all add: unread_def backlog_def fl f)
qed

lemma lay_cong:
  assumes "\<And>n. n \<in> set ns \<Longrightarrow> df_base (h' n) = df_base (h n) \<and> df_end (h' n) = df_end (h n)"
  shows "lay h' c at ns w = lay h c at ns w"
  using assms by (induction ns arbitrary: at) auto

lemma quiet_file_ok: "quiet s s' \<Longrightarrow> file_ok xx s' n = file_ok xx s n"
  using quiet_data [of s s' n] quiet_flat(2) [of s s' xx n] shape_eq_df_fields [of s' s n] shape_eq_fields [of s' s]
  by (simp add: quiet_def file_ok_def)

lemma quiet_covered:
  assumes "quiet s s'"
  shows "covered s' = covered s"
proof -
  have sh: "shape s' = shape s" using assms by (simp add: quiet_def)
  note f = shape_eq_fields [OF sh] shape_eq_df_fields [OF sh]
  have "lay (heap s') c at ns w = lay (heap s) c at ns w" for c at ns w by (rule lay_cong) (simp add: f)
  then show ?thesis unfolding covered_def by (simp add: f split: list.split)
qed

lemma quiet_queue_ok:
  assumes q: "quiet s s'" and ok: "queue_ok xx s"
  shows "queue_ok xx s'"
proof -
  have sh: "shape s' = shape s" and b: "block_ok s'" using q ok by (auto simp: quiet_def queue_ok_def)
  note f = shape_eq_fields [OF sh] shape_eq_df_fields(4) [OF sh] quiet_flat [OF q] quiet_file_ok [OF q]
    quiet_covered [OF q]
  show ?thesis using ok b
    unfolding queue_ok_def nums_ok_def boundary_def cache_ok_def f by simp
qed

section \<open>The chain of records\<close>

lemma framedLen_gt0 [simp]: "0 < framedLen L"
  using framedLen_pos(2) [of L] by simp

fun chain :: "int \<Rightarrow> int \<Rightarrow> (int \<times> bytes) list \<Rightarrow> int \<Rightarrow> bool" where
  "chain c at [] w \<longleftrightarrow> at \<le> w \<and> (at = w \<or> w \<le> c)"
| "chain c at ((q, p) # fl) w \<longleftrightarrow>
     at \<le> q \<and> (at = q \<or> q \<le> c) \<and> chain c (q + framedLen (length p)) fl w"

lemma chain_weaken: "chain c b fl w \<Longrightarrow> at \<le> b \<Longrightarrow> at = b \<or> b \<le> c \<Longrightarrow> chain c at fl w"
  by (cases fl) auto

lemma chain_offs:
  "chain c b (offs b ps @ fl) w \<longleftrightarrow> chain c (b + int (length (frames xx ps))) fl w"
proof (induction ps arbitrary: b)
  case (Cons p ps)
  have "int (length (frames xx (p # ps))) = framedLen (length p) + int (length (frames xx ps))"
    by (simp add: length_frame)
  then show ?case using Cons.IH [of "b + framedLen (length p)"] by (simp add: algebra_simps)
qed simp

lemma lay_chain:
  assumes "lay (heap s) c at ns w" "\<And>n. n \<in> set ns \<Longrightarrow> file_ok xx s n"
  shows "chain c at (concat (map (seg_flat xx s) ns)) w"
  using assms
proof (induction ns arbitrary: at)
  case (Cons n ns)
  let ?d = "heap s n"
  have "df_end ?d = df_base ?d + int (length (frames xx (recs_of xx s n)))"
    using Cons.prems(2) [of n] unfolding file_ok_def df_end_def by (metis list.set_intros(1))
  moreover have "chain c (df_end ?d) (concat (map (seg_flat xx s) ns)) w"
    using Cons by simp
  ultimately have "chain c (df_base ?d) (seg_flat xx s n @ concat (map (seg_flat xx s) ns)) w"
    by (simp add: seg_flat_def chain_offs [where xx = xx])
  then show ?case using Cons.prems(1) chain_weaken by auto
qed simp

lemma chain_le: "chain c at fl w \<Longrightarrow> at \<le> w"
proof (induction fl arbitrary: at)
  case (Cons x fl)
  obtain q p where x: "x = (q, p)" by force
  then have "q + framedLen (length p) \<le> w" using Cons by auto
  moreover have "at \<le> q" using Cons.prems x by simp
  ultimately show ?case using framedLen_gt0 [of "length p"] by linarith
qed simp

lemma chain_bounds: "chain c at fl w \<Longrightarrow> (q, p) \<in> set fl \<Longrightarrow> at \<le> q \<and> q + framedLen (length p) \<le> w"
proof (induction fl arbitrary: at)
  case (Cons x fl)
  obtain q' p' where x: "x = (q', p')" by force
  have c: "at \<le> q'" "chain c (q' + framedLen (length p')) fl w" using Cons.prems x by auto
  have w: "q' + framedLen (length p') \<le> w" using chain_le [OF c(2)] .
  show ?case
  proof (cases "(q, p) \<in> set fl")
    case True
    from Cons.IH [OF c(2) this] show ?thesis using c(1) framedLen_gt0 [of "length p'"] by linarith
  next
    case False
    then show ?thesis using Cons.prems(2) x c(1) w by simp
  qed
qed simp

text \<open>At or past \<open>c\<close> the records follow each other without a gap.\<close>

lemma chain_split:
  assumes "chain c at fl w" "q \<in> fst ` set fl" "c \<le> q"
  obtains p xs ys where "fl = xs @ (q, p) # ys" "\<forall>x \<in> set xs. fst x < q"
    "chain c (q + framedLen (length p)) ys w"
    "ys = [] \<longrightarrow> w = q + framedLen (length p)" "ys \<noteq> [] \<longrightarrow> fst (hd ys) = q + framedLen (length p)"
  using assms
proof (induction fl arbitrary: at thesis)
  case (Cons x fl)
  obtain q' p' where x: "x = (q', p')" by force
  have c: "at \<le> q'" "chain c (q' + framedLen (length p')) fl w" using Cons.prems x by auto
  show ?case
  proof (cases "q' = q")
    case True
    have pos: "c < q + framedLen (length p')" using Cons.prems(4) framedLen_gt0 [of "length p'"] by linarith
    have t: "chain c (q + framedLen (length p')) fl w" using c(2) True by simp
    show ?thesis
    proof (rule Cons.prems(1) [of "[]" p' fl])
      show "fl = [] \<longrightarrow> w = q + framedLen (length p')" using t pos by auto
      show "fl \<noteq> [] \<longrightarrow> fst (hd fl) = q + framedLen (length p')" using t pos by (cases fl) auto
    qed (use x True t in auto)
  next
    case False
    then have "q \<in> fst ` set fl" using Cons.prems(3) x by auto
    then obtain p xs ys where h: "fl = xs @ (q, p) # ys" "\<forall>y \<in> set xs. fst y < q"
      "chain c (q + framedLen (length p)) ys w"
      "ys = [] \<longrightarrow> w = q + framedLen (length p)" "ys \<noteq> [] \<longrightarrow> fst (hd ys) = q + framedLen (length p)"
      using Cons.IH [OF _ c(2)] Cons.prems(4) by blast
    have "(q, p) \<in> set fl" using h(1) by simp
    then have "q' + framedLen (length p') \<le> q" using chain_bounds [OF c(2)] by blast
    then have "q' < q" using framedLen_gt0 [of "length p'"] by linarith
    then show ?thesis using h x by (intro Cons.prems(1) [of "x # xs" p ys]) auto
  qed
qed simp

section \<open>Finding the segment of an offset\<close>

lemma lay_append:
  "lay h c at (xs @ ys) w \<longleftrightarrow> (\<exists>b. lay h c at xs b \<and> lay h c b ys w)"
  by (induction xs arbitrary: at) auto

lemma lay_mono_all:
  "lay h c at ns w \<Longrightarrow> \<forall>n \<in> set ns. 0 \<le> df_size (h n) \<Longrightarrow>
   at \<le> w \<and> (\<forall>n \<in> set ns. at \<le> df_base (h n) \<and> df_end (h n) \<le> w)"
proof (induction ns arbitrary: at)
  case (Cons m ns)
  have l: "at \<le> df_base (h m)" "lay h c (df_end (h m)) ns w" "df_base (h m) \<le> df_end (h m)"
    using Cons.prems by (auto simp: df_end_def)
  have IH: "df_end (h m) \<le> w" "\<forall>n \<in> set ns. df_end (h m) \<le> df_base (h n) \<and> df_end (h n) \<le> w"
    using Cons.IH [OF l(2)] Cons.prems(2) by auto
  have "at \<le> df_base (h n)" if "n \<in> set ns" for n using IH(2) that l by force
  then show ?case using IH l by auto
qed simp

lemma lay_mono:
  assumes "lay h c at ns w" "\<And>n. n \<in> set ns \<Longrightarrow> 0 \<le> df_size (h n)"
  shows "at \<le> w" "n \<in> set ns \<Longrightarrow> at \<le> df_base (h n) \<and> df_end (h n) \<le> w"
  using lay_mono_all [OF assms(1)] assms(2) by auto

lemma lay_ends_sorted:
  assumes "lay h c at ns w" "\<And>n. n \<in> set ns \<Longrightarrow> 0 \<le> df_size (h n)" "i < j" "j < length ns"
  shows "df_end (h (ns ! i)) \<le> df_base (h (ns ! j))"
proof -
  have ns: "ns = take j ns @ ns ! j # drop (Suc j) ns" using assms(4) by (simp add: id_take_nth_drop)
  obtain b where b: "lay h c at (take j ns) b" "lay h c b (ns ! j # drop (Suc j) ns) w"
    using assms(1) ns by (metis lay_append)
  have "ns ! i \<in> set (take j ns)" using assms(3,4) by (auto simp: in_set_conv_nth)
  then have "df_end (h (ns ! i)) \<le> b"
    by (intro lay_mono(2) [OF b(1), THEN conjunct2]) (auto intro: assms(2) dest: in_set_takeD)
  then show ?thesis using b(2) by simp
qed

lemma covered_lay: "covered s \<Longrightarrow> files s \<noteq> [] \<Longrightarrow> \<exists>at \<le> commitOff s. lay (heap s) (commitOff s) at (files s) (writeOff s)"
  by (auto simp: covered_def split: list.splits)

lemma fileForOffset_eq:
  assumes cov: "covered s" and sz: "\<And>n. n \<in> set (files s) \<Longrightarrow> 0 \<le> df_size (heap s n)"
    and n: "n \<in> set (files s)" "df_base (heap s n) \<le> q" "q < df_end (heap s n)"
  shows "fileForOffset q s = Some n"
proof -
  let ?fs = "files s" and ?f = "\<lambda>i. df_end (heap s (files s ! i)) > q"
  obtain at where lay: "lay (heap s) (commitOff s) at ?fs (writeOff s)" using covered_lay [OF cov] n(1) by fastforce
  obtain i where i: "i < length ?fs" "?fs ! i = n" using n(1) by (auto simp: in_set_conv_nth)
  have ord: "df_end (heap s (?fs ! a)) \<le> df_base (heap s (?fs ! b))" if "a < b" "b < length ?fs" for a b
    by (rule lay_ends_sorted [OF lay sz that])
  have "df_end (heap s (?fs ! a)) \<le> df_end (heap s (?fs ! b))" if "a \<le> b" "b < length ?fs" for a b
    using ord [of a b] sz [of "?fs ! b"] that by (cases "a = b") (auto simp: df_end_def)
  then have up: "upward (length ?fs) ?f" unfolding upward_def using less_le_trans by blast
  have "sort_Search (length ?fs) ?f = i"
  proof (rule sort_Search_eqI [OF up i(1)])
    fix k assume "k < i"
    then show "\<not> ?f k" using ord [of k i] i n by simp
  qed (use i n in simp)
  then show ?thesis using i n by (simp add: fileForOffset_def Let_def)
qed

lemma file_ok_data:
  assumes "file_ok xx s n"
  shows "data_of s n = frames xx (recs_of xx s n)" "df_size (heap s n) = int (length (data_of s n))"
  using assms unfolding file_ok_def by (blast, elim conjE) (erule sym)

lemma file_okD:
  assumes "file_ok xx s n"
  shows "df_size (heap s n) < 2 ^ 63" "df_capacity (heap s n) < 2 ^ 63"
    "df_written (heap s n) = int (length (recs_of xx s n))" "linked (os s) n"
    "length (df_hdr (heap s n)) = headerSize"
  using assms unfolding file_ok_def by blast+

lemma file_ok_size: "file_ok xx s n \<Longrightarrow> 0 \<le> df_size (heap s n)"
  unfolding file_ok_def by (metis of_nat_0_le_iff)

lemma queue_size: "queue_ok xx s \<Longrightarrow> n \<in> set (files s) \<Longrightarrow> 0 \<le> df_size (heap s n)"
  by (rule file_ok_size, rule queue_okD(1))

section \<open>Finding the record at a boundary\<close>

lemma offs_mem:
  "(q, p) \<in> set (offs b ps) \<Longrightarrow>
   \<exists>as bs. ps = as @ p # bs \<and> q = b + int (length (frames xx as))"
proof (induction ps arbitrary: b)
  case (Cons x ps)
  show ?case
  proof (cases "(q, p) = (b, x)")
    case True
    then show ?thesis by (intro exI [of _ "[]"] exI [of _ ps]) simp
  next
    case False
    then have "(q, p) \<in> set (offs (b + framedLen (length x)) ps)" using Cons.prems by auto
    from Cons.IH [OF this] obtain as bs where
      "ps = as @ p # bs" "q = b + framedLen (length x) + int (length (frames xx as))" by blast
    then show ?thesis by (intro exI [of _ "x # as"] exI [of _ bs]) (simp add: length_frame)
  qed
qed simp

lemma region_drop: "0 \<le> q \<Longrightarrow> region d ino q = drop (nat q) (region d ino 0)"
  by (simp add: region_def slice_def drop_take add.commute)

lemma flat_locate:
  assumes ok: "queue_ok xx s" and m: "(q, p) \<in> set (flat xx s)"
  obtains n rest where "n \<in> set (files s)" "fileForOffset q s = Some n"
    "df_base (heap s n) \<le> q" "q < df_end (heap s n)" "q + framedLen (length p) \<le> df_end (heap s n)"
    "region (heap s n) (inode (os s) n) (q - df_base (heap s n)) = frame xx p @ rest"
proof -
  obtain n where n: "n \<in> set (files s)" "(q, p) \<in> set (seg_flat xx s n)" using m by (auto simp: flat_def)
  have f: "file_ok xx s n" by (rule queue_okD(1) [OF ok n(1)])
  obtain as bs where ab: "recs_of xx s n = as @ p # bs" "q = df_base (heap s n) + int (length (frames xx as))"
    using n(2) offs_mem unfolding seg_flat_def by blast
  have d: "data_of s n = frames xx as @ frame xx p @ frames xx bs"
    using file_ok_data(1) [OF f] ab(1) by simp
  have sz: "df_size (heap s n) = int (length (data_of s n))" by (rule file_ok_data(2) [OF f])
  have le: "q + framedLen (length p) \<le> df_end (heap s n)"
    unfolding df_end_def sz d ab(2) by (simp add: length_frame)
  then have lt: "q < df_end (heap s n)" using framedLen_gt0 [of "length p"] by linarith
  have "region (heap s n) (inode (os s) n) (q - df_base (heap s n)) = drop (length (frames xx as)) (data_of s n)"
    using region_drop [of "q - df_base (heap s n)"] ab(2) by (simp add: data_of_def)
  then have r: "region (heap s n) (inode (os s) n) (q - df_base (heap s n)) = frame xx p @ frames xx bs"
    unfolding d by simp
  have "fileForOffset q s = Some n"
    by (rule fileForOffset_eq [OF queue_okD(2) [OF ok] queue_size [OF ok] n(1)]) (use ab lt in simp_all)
  then show ?thesis using that [OF n(1) _ _ lt le r] ab(2) by simp
qed

lemma flat_chain:
  assumes ok: "queue_ok xx s"
  obtains at where "chain (commitOff s) at (flat xx s) (writeOff s)"
proof (cases "files s")
  case Nil
  then show ?thesis using that [of "writeOff s"] by (simp add: flat_def)
next
  case (Cons n ns)
  then obtain at where "lay (heap s) (commitOff s) at (files s) (writeOff s)"
    using covered_lay [OF queue_okD(2) [OF ok]] by auto
  then have "chain (commitOff s) at (flat xx s) (writeOff s)"
    unfolding flat_def by (rule lay_chain) (rule queue_okD(1) [OF ok])
  then show ?thesis by (rule that)
qed

section \<open>Two stores that satisfy it\<close>

lemma queue_ok_new: "queue_ok xx (new_store a b c d e w)"
  by (simp add: queue_ok_def covered_def nums_ok_def boundary_def cache_ok_def block_ok_def new_store_def
      zero_dataFile_def)

text \<open>One segment holding two records, the first one taken and not yet committed.\<close>

definition sample :: store where
  "sample = (new_store 4096 0 False 1 3
      (os_empty\<lparr>inode := (\<lambda>_. replicate 64 0 @ frames (\<lambda>_. 5) [[1, 2], [3]]), linked := (\<lambda>_. True)\<rparr>))
     \<lparr>files := [1], nextNum := 2, writeOff := 21, headOff := 11, nWritten := 2,
      heap := zero_dataFile(1 := (zero_dataFile 1)\<lparr>df_size := 21, df_capacity := 4096, df_written := 2\<rparr>)\<rparr>"

lemma sample_fields:
  "files sample = [1]" "nextNum sample = 2" "commitOff sample = 0" "headOff sample = 11" "writeOff sample = 21"
  "lastFrameEnd sample = 0" "df_base (heap sample 1) = 0" "df_end (heap sample 1) = 21" "pendingCorrupt sample = 0"
  "ioErr sample = None" "script (os sample) = []" "blockFile sample = None"
  "m \<ge> 2 \<Longrightarrow> df_size (heap sample m) = 0"
  by (simp_all add: sample_def new_store_def zero_dataFile_def df_end_def os_empty_def)

lemma sample_data: "data_of sample 1 = frames (\<lambda>_. 5) [[1, 2], [3]]"
  by (simp add: data_of_alt sample_def new_store_def headerSize_def frame_def uvarintLen.simps)

lemma sample_recs: "recs_of (\<lambda>_. 5) sample 1 = [[1, 2], [3]]"
  using records_frames [of "\<lambda>_. 5" "[[1, 2], [3]]"] unfolding recs_of_def sample_data
  by (simp add: frame_def)

lemma sample_flat: "flat (\<lambda>_. 5) sample = [(0, [1, 2]), (11, [3])]"
proof -
  have "files sample = [1]" "df_base (heap sample 1) = 0" by (simp_all add: sample_def zero_dataFile_def)
  then show ?thesis by (simp add: flat_def seg_flat_def sample_recs [simplified] framedLen_def checksumSize_def)
qed

lemma sample_ok: "queue_ok (\<lambda>_. 5) sample"
proof -
  have f: "file_ok (\<lambda>_. 5) sample 1"
    unfolding file_ok_def sample_recs sample_data
    by (simp add: sample_def new_store_def zero_dataFile_def frame_def)
  have "lay (heap sample) 0 0 [1] 21" "covered sample"
    by (simp_all add: covered_def sample_def new_store_def zero_dataFile_def df_end_def)
  moreover have "block_ok sample" by (simp add: block_ok_def sample_def new_store_def)
  moreover have "files sample = [1]" "nextNum sample = 2" "commitOff sample = 0" "headOff sample = 11"
    "writeOff sample = 21" "lastFrameEnd sample = 0" by (simp_all add: sample_def new_store_def)
  moreover have "df_size (heap sample m) = 0" if "m \<ge> 2" for m
    using that by (simp add: sample_def zero_dataFile_def)
  ultimately show ?thesis
    using f by (simp add: queue_ok_def nums_ok_def boundary_def cache_ok_def sample_flat)
qed

end
