(* ===== verification/Read_Refine.thy ===== *)
theory Read_Refine
  imports Queue_Inv
begin

text \<open>
  Taking the head of a well-formed store is taking the head of the abstract queue, whatever the
  disk does: either the first unread payload comes out, or an error of the device comes out and
  nothing moved.
\<close>

section \<open>Fault-free steps\<close>

lemma ff_simps [simp]:
  "fault_free (upd_df n f s) = fault_free s" "fault_free (lruUnlink n s) = fault_free s"
  "fault_free (lruPushMRU n s) = fault_free s" "fault_free (touchOpen n s) = fault_free s"
  "fault_free (mark_dirty n s) = fault_free s" "fault_free (s\<lparr>ioErr := e\<rparr>) = fault_free s"
  by (simp_all add: fault_free_def touchOpen_def mark_dirty_def)

lemma ff_failIO: "failIO e s = (r, s') \<Longrightarrow> fault_free s' = fault_free s"
  by (auto simp: failIO_def Let_def fault_free_def split: if_splits)

lemma ff_datasync: "fault_free s \<Longrightarrow> os_run (datasync n) s = (r, s') \<Longrightarrow> fault_free s' \<and> r = Inr ()"
  by (auto simp: fault_free_def os_run_def os_healthy)

lemma ff_os_close: "fault_free s \<Longrightarrow> os_run os_close s = (Inr (), s)"
  by (simp add: fault_free_def os_run_def os_healthy)

lemma ff_flushSync: "fault_free s \<Longrightarrow> flushSync n s = (r, s') \<Longrightarrow> fault_free s'"
  by (auto simp: flushSync_def split: option.splits prod.splits sum.splits dest: ff_datasync)

lemma ff_flushVictim: "fault_free s \<Longrightarrow> fault_free (snd (flushVictim n s))"
  using ff_flushSync [of s n] by (auto simp: flushVictim_def) (metis prod.collapse)

lemma ff_evict_one: "fault_free s \<Longrightarrow> fault_free (evict_one n s)"
  using ff_flushVictim [of s n] by (simp add: evict_one_def Let_def ff_os_close)

lemma ff_evict_loop: "fault_free s \<Longrightarrow> fault_free (evict_loop act keep s)"
proof (induction act keep s rule: evict_loop.induct)
  case (1 act keep s)
  then show ?case
    by (cases "evict_victim act keep s") (simp_all add: evict_loop.simps [of act keep s] ff_evict_one)
qed

lemma ff_trackOpen: "fault_free s \<Longrightarrow> fault_free (trackOpen n s)"
  by (simp add: trackOpen_def evictOpen_def ff_evict_loop)

lemma ff_os_open: "fault_free s \<Longrightarrow> os_run (os_open n) s = (r, s') \<Longrightarrow> s' = s"
  by (auto simp: fault_free_def os_run_def os_open_def split: if_splits)

lemma ff_ensureOpen:
  assumes "fault_free s" "ensureOpen n s = (r, s')"
  shows "fault_free s'"
  using assms ff_trackOpen [of "upd_df n (\<lambda>d. d\<lparr>df_open := True\<rparr>) s" n] ff_os_open [OF assms(1), of n]
  by (auto simp: ensureOpen_def split: if_splits prod.splits sum.splits)

text \<open>Opening a file the directory names fails only with an error of the device.\<close>

lemma ensureOpen_error:
  assumes "ensureOpen n s = (Inl e, s')" "linked (os s) n"
  shows "\<exists>x. e = Errno x \<and> \<not> fault_free s"
  using assms
  by (auto simp: ensureOpen_def os_run_def os_open_def os_tick_def fault_free_def
      split: if_splits prod.splits sum.splits list.splits verdict.splits)

section \<open>Advancing over one record\<close>

lemma chain_unique: "chain c at fl w \<Longrightarrow> (q, p) \<in> set fl \<Longrightarrow> (q, p') \<in> set fl \<Longrightarrow> p' = p"
proof (induction fl arbitrary: at)
  case (Cons x fl)
  obtain q0 p0 where x: "x = (q0, p0)" by force
  have t: "chain c (q0 + framedLen (length p0)) fl w" using Cons.prems x by simp
  have "q0 < q" if "(q, y) \<in> set fl" for y
    using chain_bounds [OF t that] framedLen_gt0 [of "length p0"] by linarith
  then show ?case using Cons.IH [OF t] Cons.prems(2,3) x by fastforce
qed simp

lemma from_off_all: "(\<And>x. x \<in> set fl \<Longrightarrow> at \<le> fst x) \<Longrightarrow> from_off at fl = map snd fl"
  by (auto simp: from_off_def split_beta intro: arg_cong [where f = "map snd"] filter_True)

lemma from_off_none: "(\<And>x. x \<in> set fl \<Longrightarrow> fst x < at) \<Longrightarrow> from_off at fl = []"
  by (force simp: from_off_def filter_empty_conv)

lemma from_off_append: "from_off at (xs @ ys) = from_off at xs @ from_off at ys"
  by (simp add: from_off_def)

lemma queue_advance:
  assumes ok: "queue_ok xx s" and q: "q \<in> fst ` set (flat xx s)" "commitOff s \<le> q"
  obtains p where "(q, p) \<in> set (flat xx s)" "\<And>p'. (q, p') \<in> set (flat xx s) \<Longrightarrow> p' = p"
    "from_off q (flat xx s) = p # from_off (q + framedLen (length p)) (flat xx s)"
    "boundary xx s (q + framedLen (length p))" "q + framedLen (length p) \<le> writeOff s"
proof -
  obtain at where c: "chain (commitOff s) at (flat xx s) (writeOff s)" using flat_chain [OF ok] .
  obtain p xs ys where h: "flat xx s = xs @ (q, p) # ys" "\<forall>x \<in> set xs. fst x < q"
    "chain (commitOff s) (q + framedLen (length p)) ys (writeOff s)"
    "ys = [] \<longrightarrow> writeOff s = q + framedLen (length p)" "ys \<noteq> [] \<longrightarrow> fst (hd ys) = q + framedLen (length p)"
    by (rule chain_split [OF c q])
  let ?n = "q + framedLen (length p)"
  have pos: "q < ?n" by simp
  have ys: "?n \<le> fst x" if "x \<in> set ys" for x using chain_bounds [OF h(3), of "fst x" "snd x"] that by simp
  have m: "(q, p) \<in> set (flat xx s)" using h(1) by simp
  have "fst x < ?n" if "x \<in> set xs" for x using bspec [OF h(2) that] pos by (rule order.strict_trans)
  then have "from_off q xs = []" "from_off ?n xs = []" using h(2) by (blast intro: from_off_none)+
  moreover have "q \<le> fst x" if "x \<in> set ys" for x using ys [OF that] pos by linarith
  then have "from_off q ys = map snd ys" "from_off ?n ys = map snd ys"
    using ys by (blast intro: from_off_all)+
  ultimately have f: "from_off q (flat xx s) = p # from_off ?n (flat xx s)"
    unfolding h(1) from_off_append by (simp add: from_off_def not_le)
  have "ys \<noteq> [] \<Longrightarrow> ?n \<in> fst ` set ys" using h(5) hd_in_set by (metis image_eqI)
  then have "boundary xx s ?n" using h(1,4) by (cases "ys = []") (auto simp: boundary_def)
  moreover have "?n \<le> writeOff s" using chain_le [OF h(3)] .
  ultimately show ?thesis using that [OF m chain_unique [OF c m] f] by blast
qed

lemma from_off_end: 
  assumes "queue_ok xx s"
  shows "from_off (writeOff s) (flat xx s) = []"
proof -
  obtain at where c: "chain (commitOff s) at (flat xx s) (writeOff s)" using flat_chain [OF assms] .
  have "fst x < writeOff s" if "x \<in> set (flat xx s)" for x
    using chain_bounds [OF c, of "fst x" "snd x"] that framedLen_gt0 [of "length (snd x)"]
    by (simp del: framedLen_gt0)
  then show ?thesis by (rule from_off_none)
qed

section \<open>Reading at a boundary\<close>

lemma read_spec:
  assumes ok: "queue_ok xx s" and q: "(q, p) \<in> set (flat xx s)" and r: "read q s = (r, s')"
  shows "quiet s s' \<and> (fault_free s \<longrightarrow> fault_free s') \<and>
    (r = Inr (Some (p, unat (xx p), q + framedLen (length p))) \<or> (\<exists>x. r = Inl (Errno x)) \<and> \<not> fault_free s)"
proof -
  obtain n rest where n: "n \<in> set (files s)" "fileForOffset q s = Some n"
    "df_base (heap s n) \<le> q" "q < df_end (heap s n)"
    "region (heap s n) (inode (os s) n) (q - df_base (heap s n)) = frame xx p @ rest"
    using flat_locate [OF ok q] by blast
  have f: "file_ok xx s n" by (rule queue_okD(1) [OF ok n(1)])
  obtain at where c: "chain (commitOff s) at (flat xx s) (writeOff s)" using flat_chain [OF ok] .
  have w: "\<not> writeOff s \<le> q" using chain_bounds [OF c q] framedLen_gt0 [of "length p"] by linarith
  obtain r1 s1 where 1: "ensureOpen n s = (r1, s1)" by force
  have q1: "quiet s s1" by (rule quiet_ensureOpen [OF 1])
  have ff1: "fault_free s \<Longrightarrow> fault_free s1" using ff_ensureOpen [OF _ 1] .
  show ?thesis
  proof (cases r1)
    case (Inl e)
    then obtain x where x: "e = Errno x" "\<not> fault_free s"
      using ensureOpen_error [of n s e s1] 1 file_okD(4) [OF f] by blast
    then have "r = Inl e" "s' = s1" using r w n 1 Inl by (simp_all add: read_def)
    then show ?thesis using q1 x by simp
  next
    case (Inr u)
    have c1: "core s1 = core s" by (rule core_ensureOpen [OF 1])
    note f1 = core_eq_df_fields [OF c1] core_eq_fields [OF c1]
    have b1: "block_ok s1" using q1 queue_okD(9) [OF ok] by (simp add: quiet_def)
    obtain r2 s2 where 2: "recordAt n q s1 = (r2, s2)" by force
    have big: "df_size (heap s1 n) < 2 ^ 63" using file_okD(1) [OF f] f1 by simp
    have spec: "read_step s1 s2" "r2 = ref_record (heap s1 n) (inode (os s1) n) q \<or> (\<exists>x. r2 = Inl (Errno x)) \<and> \<not> fault_free s1"
      using recordAt_spec [OF b1 big 2] by simp_all
    have wh: "whole (heap s n) (inode (os s) n)"
    proof -
      have "df_size (heap s n) = int (length (data_of s n))" by (rule file_ok_data(2) [OF f])
      then have "nat (df_size (heap s n)) \<le> length (inode (os s) n) - headerSize" by (simp add: data_of_alt)
      moreover have "0 < df_size (heap s n)" using n(3,4) by (simp add: df_end_def)
      ultimately show ?thesis by (simp add: whole_def)
    qed
    have "ref_record (heap s1 n) (inode (os s1) n) q = ref_record (heap s n) (inode (os s) n) q"
      using f1 by (simp add: ref_record_def ref_hdr_def Let_def)
    also have "\<dots> = Inr (Some (p, unat (xx p), q + framedLen (length p)))"
      by (rule ref_record_frame [OF wh _ n(4) _ n(5)]) (use n file_okD(1) [OF f] in simp_all)
    finally have ref: "ref_record (heap s1 n) (inode (os s1) n) q = Inr (Some (p, unat (xx p), q + framedLen (length p)))" .
    have s': "s' = s2" "r = (case r2 of Inr None \<Rightarrow> Inl ErrCorrupt | _ \<Rightarrow> r2)"
      using r w n 1 Inr 2 by (auto simp: read_def split: sum.splits option.splits)
    have "quiet s s2" by (rule quiet_trans [OF q1 quiet_read_step [OF spec(1)]])
    then show ?thesis using s' spec ref ff1 by (auto simp: read_step_def)
  qed
qed

section \<open>Moving the read cursor\<close>

lemma cursor_frame [simp]:
  "data_of (s\<lparr>headOff := a\<rparr>) n = data_of s n" "data_of (s\<lparr>lastFrameAt := b\<rparr>) n = data_of s n"
  "data_of (s\<lparr>lastFrameEnd := c\<rparr>) n = data_of s n" "data_of (s\<lparr>nDelivered := d\<rparr>) n = data_of s n"
  "data_of (s\<lparr>pendingCorrupt := e\<rparr>) n = data_of s n" "data_of (s\<lparr>reserved := f\<rparr>) n = data_of s n"
  "data_of (s\<lparr>commitOff := g\<rparr>) n = data_of s n"
  by (simp_all add: data_of_def)

lemma flat_cursor_frame [simp]:
  "flat xx (s\<lparr>headOff := a\<rparr>) = flat xx s" "flat xx (s\<lparr>lastFrameAt := b\<rparr>) = flat xx s"
  "flat xx (s\<lparr>lastFrameEnd := c\<rparr>) = flat xx s" "flat xx (s\<lparr>nDelivered := d\<rparr>) = flat xx s"
  "flat xx (s\<lparr>pendingCorrupt := e\<rparr>) = flat xx s" "flat xx (s\<lparr>reserved := f\<rparr>) = flat xx s"
  "flat xx (s\<lparr>commitOff := g\<rparr>) = flat xx s"
  by (simp_all add: flat_def seg_flat_def [abs_def] recs_of_def)

lemma file_ok_cursor_frame [simp]:
  "file_ok xx (s\<lparr>headOff := a\<rparr>) n = file_ok xx s n" "file_ok xx (s\<lparr>lastFrameAt := b\<rparr>) n = file_ok xx s n"
  "file_ok xx (s\<lparr>lastFrameEnd := c\<rparr>) n = file_ok xx s n" "file_ok xx (s\<lparr>nDelivered := d\<rparr>) n = file_ok xx s n"
  "file_ok xx (s\<lparr>pendingCorrupt := e\<rparr>) n = file_ok xx s n" "file_ok xx (s\<lparr>reserved := f\<rparr>) n = file_ok xx s n"
  "file_ok xx (s\<lparr>commitOff := g\<rparr>) n = file_ok xx s n"
  by (simp_all add: file_ok_def recs_of_def)

lemma covered_cursor_frame [simp]:
  "covered (s\<lparr>headOff := a\<rparr>) = covered s" "covered (s\<lparr>lastFrameAt := b\<rparr>) = covered s"
  "covered (s\<lparr>lastFrameEnd := c\<rparr>) = covered s" "covered (s\<lparr>nDelivered := d\<rparr>) = covered s"
  "covered (s\<lparr>pendingCorrupt := e\<rparr>) = covered s" "covered (s\<lparr>reserved := f\<rparr>) = covered s"
  by (simp_all add: covered_def cong: list.case_cong)

lemma block_cursor_frame [simp]:
  "block_ok (s\<lparr>headOff := a\<rparr>) = block_ok s" "block_ok (s\<lparr>lastFrameAt := b\<rparr>) = block_ok s"
  "block_ok (s\<lparr>lastFrameEnd := c\<rparr>) = block_ok s" "block_ok (s\<lparr>nDelivered := d\<rparr>) = block_ok s"
  "block_ok (s\<lparr>pendingCorrupt := e\<rparr>) = block_ok s" "block_ok (s\<lparr>reserved := f\<rparr>) = block_ok s"
  "block_ok (s\<lparr>commitOff := g\<rparr>) = block_ok s"
  by (simp_all add: block_ok_def cong: option.case_cong)

lemmas queue_ok_parts = queue_ok_def nums_ok_def boundary_def cache_ok_def

lemma queue_ok_rewind:
  "queue_ok xx s \<Longrightarrow> boundary xx s at \<Longrightarrow> commitOff s \<le> at \<Longrightarrow> at \<le> writeOff s \<Longrightarrow>
   queue_ok xx (s\<lparr>headOff := at\<rparr>)"
  by (simp add: queue_ok_parts)

lemma queue_ok_deliver:
  assumes ok: "queue_ok xx s" and m: "(headOff s, p) \<in> set (flat xx s)"
    and u: "\<And>p'. (headOff s, p') \<in> set (flat xx s) \<Longrightarrow> p' = p"
    and b: "boundary xx s (headOff s + framedLen (length p))" "headOff s + framedLen (length p) \<le> writeOff s"
  shows "queue_ok xx (s\<lparr>lastFrameAt := headOff s, lastFrameEnd := headOff s + framedLen (length p),
    headOff := headOff s + framedLen (length p), nDelivered := k\<rparr>)"
proof -
  have "headOff s < headOff s + framedLen (length p)" by simp
  then have "headOff s < writeOff s" "commitOff s \<le> headOff s + framedLen (length p)" "commitOff s \<noteq> writeOff s"
    using b(2) queue_okD(5) [OF ok] by linarith+
  moreover have "\<forall>(q, y) \<in> set (flat xx s). q = headOff s \<longrightarrow> headOff s + framedLen (length p) = q + framedLen (length y)"
    using u by blast
  ultimately show ?thesis using ok b by (simp add: queue_ok_parts)
qed

lemma takeHead_outcome:
  assumes ok: "queue_ok xx s" and pc: "pendingCorrupt s = 0" and t: "takeHead xx s = (r, s')"
  shows "queue_ok xx s' \<and> backlog xx s' = backlog xx s \<and>
    (case unread xx s of
       [] \<Rightarrow> r = Inr None \<and> unread xx s' = []
     | p # ps \<Rightarrow>
         r = Inr (Some (p, headOff s + framedLen (length p))) \<and> unread xx s' = ps \<and>
           headOff s' = headOff s + framedLen (length p) \<or>
         (\<exists>x. r = Inl (Errno x)) \<and> \<not> fault_free s \<and> unread xx s' = unread xx s \<and> headOff s' = headOff s)"
proof (cases "headOff s = writeOff s")
  case True
  then have "read (headOff s) s = (Inr None, s)" by (simp add: read_def)
  then have "r = Inr None" "s' = s" using t pc by (simp_all add: takeHead_def)
  moreover have "unread xx s = []" using from_off_end [OF ok] True by (simp add: unread_def)
  ultimately show ?thesis using ok by simp
next
  case False
  then have "headOff s \<in> fst ` set (flat xx s)" using queue_okD(8) [OF ok] by (simp add: boundary_def)
  then obtain p where p: "(headOff s, p) \<in> set (flat xx s)"
    "\<And>p'. (headOff s, p') \<in> set (flat xx s) \<Longrightarrow> p' = p"
    "from_off (headOff s) (flat xx s) = p # from_off (headOff s + framedLen (length p)) (flat xx s)"
    "boundary xx s (headOff s + framedLen (length p))" "headOff s + framedLen (length p) \<le> writeOff s"
    using queue_advance [OF ok _ queue_okD(5) [OF ok]] by blast
  obtain r1 s1 where 1: "read (headOff s) s = (r1, s1)" by force
  note spec = read_spec [OF ok p(1) 1]
  then have q1: "quiet s s1" by simp
  note fl = quiet_flat [OF q1]
  have ok1: "queue_ok xx s1" by (rule quiet_queue_ok [OF q1 ok])
  have sh: "shape s1 = shape s" using q1 by (simp add: quiet_def)
  note f = shape_eq_fields [OF sh]
  have un: "unread xx s = p # from_off (headOff s + framedLen (length p)) (flat xx s)"
    using p(3) by (simp add: unread_def)
  show ?thesis
  proof (cases "r1 = Inr (Some (p, unat (xx p), headOff s + framedLen (length p)))")
    case True
    let ?n = "headOff s + framedLen (length p)"
    have s': "s' = s1\<lparr>lastFrameAt := headOff s1, lastFrameEnd := ?n, headOff := ?n, nDelivered := nDelivered s1 + 1\<rparr>"
      and r: "r = Inr (Some (p, ?n))"
      using t pc 1 True by (simp_all add: takeHead_def)
    have hs: "headOff s1 = headOff s" "writeOff s1 = writeOff s" by (simp_all add: f)
    have "queue_ok xx s'"
      unfolding s' hs(1) [symmetric]
    proof (rule queue_ok_deliver [OF ok1])
      show "(headOff s1, p) \<in> set (flat xx s1)" using p(1) by (simp add: fl(1) hs)
      show "p' = p" if "(headOff s1, p') \<in> set (flat xx s1)" for p' using p(2) that by (simp add: fl(1) hs)
      show "boundary xx s1 (headOff s1 + framedLen (length p))"
        "headOff s1 + framedLen (length p) \<le> writeOff s1" using p(4,5) by (simp_all add: boundary_def fl(1) hs)
    qed
    moreover have "unread xx s' = from_off ?n (flat xx s)" "backlog xx s' = backlog xx s" "headOff s' = ?n"
      using fl f by (simp_all add: s' unread_def backlog_def)
    ultimately show ?thesis unfolding un using r by simp
  next
    case False
    then obtain x where x: "r1 = Inl (Errno x)" "\<not> fault_free s" using spec by blast
    then have "r = Inl (Errno x)" "s' = s1" using t pc 1 by (simp_all add: takeHead_def take_unreadable_def)
    then show ?thesis using x ok1 fl un f by simp
  qed
qed

text \<open>
  C11: on a well-formed store with no corruption report owed, taking the head hands out the
  first unread payload and moves past exactly that record, reports empty exactly when nothing is
  unread, and otherwise returns an error of the device with the queue where it was; damage is
  never reported, and the invariant is kept in every case.
\<close>

theorem takeHead_refines:
  assumes ok: "queue_ok xx s" and pc: "pendingCorrupt s = 0" and t: "takeHead xx s = (r, s')"
  shows "queue_ok xx s' \<and> backlog xx s' = backlog xx s \<and>
    (case unread xx s of
       [] \<Rightarrow> r = Inr None \<and> unread xx s' = []
     | p # ps \<Rightarrow>
         r = Inr (Some (p, headOff s + framedLen (length p))) \<and> unread xx s' = ps \<and>
           headOff s' = headOff s + framedLen (length p) \<or>
         (\<exists>x. r = Inl (Errno x)) \<and> \<not> fault_free s \<and> unread xx s' = unread xx s \<and> headOff s' = headOff s)"
  using assms by (rule takeHead_outcome)

theorem takeHead_refines_witness:
  "queue_ok (\<lambda>_. 5) sample \<and> pendingCorrupt sample = 0 \<and>
   fst (takeHead (\<lambda>_. 5) sample) = Inr (Some ([3], 21)) \<and>
   unread (\<lambda>_. 5) (snd (takeHead (\<lambda>_. 5) sample)) = []"
proof -
  have pc: "pendingCorrupt sample = 0" "fault_free sample" "headOff sample = 11"
    by (simp_all add: sample_def new_store_def fault_free_def os_empty_def)
  have un: "unread (\<lambda>_. 5) sample = [[3]]"
    using pc by (simp add: unread_def from_off_def sample_flat)
  obtain r s' where t: "takeHead (\<lambda>_. 5) sample = (r, s')" by force
  show ?thesis
    using takeHead_refines [OF sample_ok pc(1) t] sample_ok pc t un
    by (simp add: framedLen_def checksumSize_def)
qed

end
