(* ===== verification/Reclaim.thy ===== *)
theory Reclaim
  imports Read_Refine
begin

text \<open>
  Reclaiming committed segments: what the scan of \<open>dropCommitted\<close> removes, and that the queue
  behind the store is the same afterwards.
\<close>

section \<open>Segments that did not change\<close>

definition same_seg :: "store \<Rightarrow> store \<Rightarrow> nat \<Rightarrow> bool" where
  "same_seg s s' n \<longleftrightarrow>
     data_of s' n = data_of s n \<and> df_base (heap s' n) = df_base (heap s n) \<and>
     df_size (heap s' n) = df_size (heap s n) \<and> df_capacity (heap s' n) = df_capacity (heap s n) \<and>
     df_written (heap s' n) = df_written (heap s n) \<and> (linked (os s') n \<longleftrightarrow> linked (os s) n) \<and>
     length (df_hdr (heap s' n)) = length (df_hdr (heap s n))"

lemma same_seg_flat:
  assumes "same_seg s s' n"
  shows "seg_flat xx s' n = seg_flat xx s n" "file_ok xx s' n = file_ok xx s n"
    "df_end (heap s' n) = df_end (heap s n)"
  using assms by (simp_all add: same_seg_def seg_flat_def recs_of_def file_ok_def df_end_def)

lemma same_seg_quiet: "quiet s s' \<Longrightarrow> same_seg s s' n"
  using quiet_data [of s s' n] shape_eq_df_fields [of s' s n] shape_eq_fields [of s' s]
  by (simp add: same_seg_def quiet_def)

lemma same_seg_refl [simp]: "same_seg s s n"
  by (simp add: same_seg_def)

lemma same_seg_trans: "same_seg a b n \<Longrightarrow> same_seg b c n \<Longrightarrow> same_seg a c n"
  by (simp add: same_seg_def)

lemma flat_same:
  assumes "files s' = files s" "\<And>n. n \<in> set (files s) \<Longrightarrow> same_seg s s' n"
  shows "flat xx s' = flat xx s"
  unfolding flat_def assms(1) using same_seg_flat(1) [OF assms(2)] by (intro arg_cong [where f = concat] map_cong) auto

lemma lay_same:
  assumes "\<And>n. n \<in> set ns \<Longrightarrow> same_seg s s' n"
  shows "lay (heap s') c at ns w = lay (heap s) c at ns w"
proof (rule lay_cong)
  fix n assume "n \<in> set ns"
  then have n: "same_seg s s' n" by (rule assms)
  then show "df_base (heap s' n) = df_base (heap s n) \<and> df_end (heap s' n) = df_end (heap s n)"
    using same_seg_flat(3) [OF n] by (simp add: same_seg_def)
qed

lemma queue_ok_same:
  assumes ok: "queue_ok xx s" and f: "files s' = files s" "writeOff s' = writeOff s" "headOff s' = headOff s"
    "commitOff s' = commitOff s" "nextNum s' = nextNum s" "lastFrameAt s' = lastFrameAt s"
    "lastFrameEnd s' = lastFrameEnd s"
    and seg: "\<And>n. n \<in> set (files s) \<Longrightarrow> same_seg s s' n"
    and fresh: "\<And>m. nextNum s \<le> m \<Longrightarrow> df_size (heap s' m) = df_size (heap s m)" and b: "block_ok s'"
  shows "queue_ok xx s' \<and> unread xx s' = unread xx s \<and> backlog xx s' = backlog xx s"
proof -
  have fl: "flat xx s' = flat xx s" using f(1) seg by (rule flat_same)
  have base: "df_base (heap s' n) = df_base (heap s n)" if "n \<in> set (files s)" for n
    using seg [OF that] by (simp add: same_seg_def)
  have lay: "lay (heap s') c at (files s) w = lay (heap s) c at (files s) w" for c at w
    by (rule lay_same) (rule seg)
  have "covered s' = covered s"
  proof (cases "files s")
    case (Cons n ns)
    then show ?thesis using lay base [of n] f by (simp add: covered_def del: lay.simps)
  qed (simp add: covered_def f)
  moreover have "nums_ok s' = nums_ok s" using fresh f by (simp add: nums_ok_def)
  moreover have "file_ok xx s' n = file_ok xx s n" if "n \<in> set (files s)" for n
    by (rule same_seg_flat(2) [OF seg [OF that]])
  ultimately have "queue_ok xx s'"
    using ok b fl f by (simp add: queue_ok_def boundary_def cache_ok_def)
  then show ?thesis using fl f by (simp add: unread_def backlog_def)
qed

section \<open>The scan\<close>

text \<open>What the scan may change: handles, directory entries, and the counters of removed segments.\<close>

definition scan_core :: "store \<Rightarrow> store" where
  "scan_core s = (core s)\<lparr>unreclaimed := 0, nWritten := 0, nCommitted := 0, diskBytes := 0,
     os := (core_os (os s))\<lparr>linked := (\<lambda>_. False)\<rparr>\<rparr>"

lemma scan_core_core: "core s' = core s \<Longrightarrow> scan_core s' = scan_core s"
proof -
  assume c: "core s' = core s"
  then have "os (core s') = os (core s)" by simp
  then have "core_os (os s') = core_os (os s)" by (simp add: core_def)
  then show ?thesis using c by (simp add: scan_core_def)
qed

lemma scan_core_fields:
  assumes "scan_core s' = scan_core s"
  shows "files s' = files s" "nextNum s' = nextNum s" "writeOff s' = writeOff s" "headOff s' = headOff s"
    "commitOff s' = commitOff s" "lastFrameAt s' = lastFrameAt s" "lastFrameEnd s' = lastFrameEnd s"
    "readBuf s' = readBuf s" "blockFile s' = blockFile s" "blockOff s' = blockOff s" "blockLen s' = blockLen s"
    "reserved s' = reserved s" "pendingCorrupt s' = pendingCorrupt s" "segmentSize s' = segmentSize s"
    "noSync s' = noSync s" "syncEvery s' = syncEvery s" "maxSegments s' = maxSegments s"
    "pendingBytes s' = pendingBytes s" "inFlight s' = inFlight s" "maxBytes s' = maxBytes s"
    "inode (os s') = inode (os s)" "pendingRecs s' = pendingRecs s" "inFlightRecs s' = inFlightRecs s"
    "dirOpen s' = dirOpen s"
  using assms by (cases s'; cases s; cases "os s'"; cases "os s"; simp add: scan_core_def core_def core_os_def)+

lemma scan_core_df:
  assumes "scan_core s' = scan_core s"
  shows "core_df (heap s' n) = core_df (heap s n)"
proof -
  have "heap (scan_core s') n = heap (scan_core s) n" using assms by simp
  then show ?thesis by (simp add: scan_core_def core_def)
qed

lemma core_df_fields:
  assumes "core_df d' = core_df d"
  shows "df_base d' = df_base d" "df_size d' = df_size d" "df_capacity d' = df_capacity d"
    "df_written d' = df_written d" "df_hdr d' = df_hdr d" "df_end d' = df_end d" "df_pins d' = df_pins d"
    "df_committed d' = df_committed d"
  using assms by (cases d'; cases d; simp add: core_df_def df_end_def)+

lemma scan_same_seg:
  assumes "scan_core s' = scan_core s" "linked (os s') n = linked (os s) n"
  shows "same_seg s s' n"
  using core_df_fields [OF scan_core_df [OF assms(1)]] scan_core_fields(21) [OF assms(1)] assms(2)
  by (simp add: same_seg_def data_of_alt)

text \<open>Closing one file and unlinking it.\<close>

definition drop_handle :: "nat \<Rightarrow> store \<Rightarrow> store" where
  "drop_handle n s =
     (if df_open (heap s n)
      then untrackOpen n (upd_df n (\<lambda>d. d\<lparr>df_open := False\<rparr>) (snd (os_run os_close s)))
      else s)"

lemma core_drop_handle: "core (drop_handle n s) = core s"
proof -
  have "core (snd (os_run os_close s)) = core s" using core_os_close by (metis prod.collapse)
  then show ?thesis by (simp add: drop_handle_def core_upd_df)
qed

lemma os_remove_frame:
  assumes "os_run (os_remove n) s = (r, s')"
  shows "scan_core s' = scan_core s" "m \<noteq> n \<Longrightarrow> linked (os s') m = linked (os s) m"
    "r = Inl e \<Longrightarrow> linked (os s') = linked (os s)" "fault_free s \<Longrightarrow> linked (os s) n \<Longrightarrow> r = Inr ()"
    "fault_free s \<Longrightarrow> fault_free s'"
  using assms
  by (auto simp: os_run_def os_remove_def os_tick_def scan_core_def core_def core_os_def fault_free_def
      split: list.splits verdict.splits if_splits)

text \<open>
  The scan removes a prefix of the list except for the survivors in it; every file it passed is
  fully committed, and it stopped at a file that is not or that must be kept.
\<close>

definition scanned :: "nat option \<Rightarrow> store \<Rightarrow> nat list \<Rightarrow> nat list \<times> nat list \<times> store \<Rightarrow> nat list \<Rightarrow> bool" where
  "scanned keep s ns out pre \<longleftrightarrow>
     (case out of (sv, rest, s') \<Rightarrow>
        ns = pre @ rest \<and> set sv \<subseteq> set pre \<and> sv = filter (\<lambda>n. n \<in> set sv) pre \<and>
        (\<forall>n \<in> set pre. df_end (heap s n) \<le> commitOff s \<and> Some n \<noteq> keep) \<and>
        (rest \<noteq> [] \<longrightarrow> Some (hd rest) = keep \<or> commitOff s < df_end (heap s (hd rest))) \<and>
        scan_core s' = scan_core s \<and>
        (\<forall>n. n \<notin> set pre - set sv \<longrightarrow> linked (os s') n = linked (os s) n))"

lemma scanned_cong:
  assumes "scan_core t = scan_core s" "scanned keep t ns (sv, rest, s') pre"
  shows "ns = pre @ rest" "set sv \<subseteq> set pre" "sv = filter (\<lambda>n. n \<in> set sv) pre"
    "\<forall>n \<in> set pre. df_end (heap s n) \<le> commitOff s \<and> Some n \<noteq> keep"
    "rest \<noteq> [] \<longrightarrow> Some (hd rest) = keep \<or> commitOff s < df_end (heap s (hd rest))"
    "scan_core s' = scan_core s" "n \<notin> set pre - set sv \<Longrightarrow> linked (os s') n = linked (os t) n"
  using assms(2) core_df_fields(6) [OF scan_core_df [OF assms(1)]] scan_core_fields(5) [OF assms(1)] assms(1)
  by (simp_all add: scanned_def)

lemma scanned_skip:
  assumes t: "scan_core t = scan_core s" "\<And>m. linked (os t) m = linked (os s) m"
    and n: "df_end (heap s n) \<le> commitOff s" "Some n \<noteq> keep" "n \<notin> set ns"
    and r: "scanned keep t ns (sv, rest, s') pre"
  shows "scanned keep s (n # ns) (n # sv, rest, s') (n # pre)"
proof -
  note c = scanned_cong [OF t(1) r]
  have "n \<notin> set pre" using n(3) c(1) by auto
  then have "filter (\<lambda>m. m = n \<or> m \<in> set sv) pre = sv" using c(3) by (metis (mono_tags, lifting) filter_cong)
  then show ?thesis
    using c n t(2) by (auto simp: scanned_def)
qed

lemma scanned_drop:
  assumes t: "scan_core t = scan_core s" "\<And>m. m \<noteq> n \<Longrightarrow> linked (os t) m = linked (os s) m"
    and n: "df_end (heap s n) \<le> commitOff s" "Some n \<noteq> keep" "n \<notin> set ns"
    and r: "scanned keep t ns (sv, rest, s') pre"
  shows "scanned keep s (n # ns) (sv, rest, s') (n # pre)"
proof -
  note c = scanned_cong [OF t(1) r]
  have np: "n \<notin> set pre" "n \<notin> set sv" using n(3) c(1,2) by auto
  then have "filter (\<lambda>m. m \<in> set sv) (n # pre) = sv" using c(3) by simp
  moreover have "linked (os s') m = linked (os s) m" if "m \<notin> set (n # pre) - set sv" for m
    using c(7) [of m] t(2) [of m] that np by auto
  ultimately show ?thesis using c np n by (auto simp: scanned_def)
qed

lemma drop_loop_scanned:
  "distinct ns \<Longrightarrow> \<exists>pre. scanned keep s ns (drop_loop keep ns s) pre"
proof (induction keep ns s rule: drop_loop.induct)
  case (1 keep s)
  show ?case by (intro exI [of _ "[]"]) (simp add: scanned_def)
next
  case (2 keep n ns s)
  have d: "n \<notin> set ns" "distinct ns" using "2.prems" by auto
  show ?case
  proof (cases "Some n = keep \<or> df_end (heap s n) > commitOff s")
    case True
    then show ?thesis by (intro exI [of _ "[]"]) (auto simp: scanned_def)
  next
    case go: False
    then have n: "df_end (heap s n) \<le> commitOff s" "Some n \<noteq> keep" by auto
    show ?thesis
    proof (cases "df_pins (heap s n) > 0")
      case True
      obtain sv rest s' where o: "drop_loop keep ns s = (sv, rest, s')" by (metis prod_cases3)
      then obtain pre where "scanned keep s ns (sv, rest, s') pre"
        using "2.IH"(1) [OF go True d(2)] by auto
      from scanned_skip [OF refl refl n d(1) this] show ?thesis using go True o by auto
    next
      case False
      define s1 where "s1 = drop_handle n s"
      obtain r s2 where r: "os_run (os_remove n) s1 = (r, s2)" by force
      have c1: "core s1 = core s" unfolding s1_def by (rule core_drop_handle)
      have l1: "linked (os s1) = linked (os s)" by (rule core_eq_fields(46) [OF c1])
      note rf = os_remove_frame [OF r]
      have sc2: "scan_core s2 = scan_core s" using rf(1) scan_core_core [OF c1] by simp
      let ?bad = "case r of Inl e \<Rightarrow> \<not> err_is e ErrNotExist | Inr _ \<Rightarrow> False"
      show ?thesis
      proof (cases ?bad)
        case True
        let ?t = "s2\<lparr>unreclaimed := unreclaimed s2 + 1\<rparr>"
        obtain sv rest s' where o: "drop_loop keep ns ?t = (sv, rest, s')" by (metis prod_cases3)
        then obtain pre where p: "scanned keep ?t ns (sv, rest, s') pre"
          using "2.IH"(2) [OF go False s1_def [unfolded drop_handle_def] r [symmetric] True d(2)] by auto
        have "scan_core ?t = scan_core s" using sc2 by (simp add: scan_core_def core_def)
        moreover have "linked (os ?t) m = linked (os s) m" for m
          using True rf(3) l1 by (auto split: sum.splits)
        ultimately have "scanned keep s (n # ns) (n # sv, rest, s') (n # pre)"
          using n d(1) p by (intro scanned_skip) auto
        moreover have "drop_loop keep (n # ns) s = (n # sv, rest, s')"
          using go False True o r by (simp add: s1_def [unfolded drop_handle_def, symmetric] Let_def)
        ultimately show ?thesis by auto
      next
        case ok: False
        let ?t = "s2\<lparr>nWritten := nWritten s2 - df_written (heap s2 n), nCommitted := nCommitted s2 - df_committed (heap s2 n),
                     diskBytes := diskBytes s2 - (int headerSize + df_capacity (heap s2 n))\<rparr>"
        obtain sv rest s' where o: "drop_loop keep ns ?t = (sv, rest, s')" by (metis prod_cases3)
        then obtain pre where p: "scanned keep ?t ns (sv, rest, s') pre"
          using "2.IH"(3) [OF go False s1_def [unfolded drop_handle_def] r [symmetric] ok refl d(2)] by auto
        have "scan_core ?t = scan_core s" using sc2 by (simp add: scan_core_def core_def)
        moreover have "linked (os ?t) m = linked (os s) m" if "m \<noteq> n" for m
          using rf(2) [OF that] l1 by simp
        ultimately have "scanned keep s (n # ns) (sv, rest, s') (n # pre)"
          using n d(1) p by (intro scanned_drop) auto
        moreover have "drop_loop keep (n # ns) s = (sv, rest, s')"
          using go False ok o r by (simp add: s1_def [unfolded drop_handle_def, symmetric] Let_def)
        ultimately show ?thesis by auto
      qed
    qed
  qed
qed

section \<open>The layout after a scan\<close>

lemma lay_weaken: "lay h c b ns w \<Longrightarrow> at \<le> b \<Longrightarrow> b \<le> c \<Longrightarrow> ns \<noteq> [] \<Longrightarrow> lay h c at ns w"
  by (cases ns) auto

lemma lay_last: "lay h c at ns w \<Longrightarrow> ns \<noteq> [] \<Longrightarrow> df_end (h (last ns)) = w"
  by (induction ns arbitrary: at) (auto split: if_splits)

lemma lay_scan:
  assumes "lay h c at (pre @ rest) w" "at \<le> c" "at' \<le> at" "\<forall>n \<in> set pre. df_base (h n) \<le> df_end (h n) \<and> df_end (h n) \<le> c"
    "filter P pre @ rest \<noteq> []"
  shows "lay h c at' (filter P pre @ rest) (df_end (h (last (filter P pre @ rest))))"
  using assms
proof (induction pre arbitrary: at at')
  case Nil
  then show ?case using lay_weaken [of h c at rest w at'] lay_last [of h c at rest w] by simp
next
  case (Cons n pre)
  have l: "at \<le> df_base (h n)" "at = df_base (h n) \<or> df_base (h n) \<le> c" "lay h c (df_end (h n)) (pre @ rest) w"
    and e: "df_base (h n) \<le> df_end (h n)" "df_end (h n) \<le> c" using Cons.prems by auto
  let ?fs = "filter P pre @ rest"
  have IH: "lay h c b ?fs (df_end (h (last ?fs)))" if "b \<le> df_end (h n)" "?fs \<noteq> []" for b
    using Cons.IH [OF l(3) e(2) that(1)] Cons.prems(4) that(2) by auto
  show ?case
  proof (cases "P n")
    case False
    have "at' \<le> df_end (h n)" using Cons.prems(3) l(1) e by linarith
    then show ?thesis using IH [of at'] False Cons.prems(5) by simp
  next
    case True
    have "lay h c (df_end (h n)) ?fs (df_end (h (last (n # ?fs))))"
      using IH [of "df_end (h n)"] by (cases "?fs = []") auto
    then show ?thesis using True l Cons.prems(2,3) by auto
  qed
qed

section \<open>A queue whose active segment was reclaimed\<close>

text \<open>
  Reclaiming may remove the segment that ends at the write cursor and leave an older one that is
  pinned or would not unlink.  Everything is committed then, and the queue is well formed but
  for its last segment, which ends before the write cursor: it is \<open>stranded\<close> until a new segment
  follows.
\<close>

definition stranded :: "store \<Rightarrow> bool" where
  "stranded s \<longleftrightarrow> files s \<noteq> [] \<and> df_end (heap s (last (files s))) \<noteq> writeOff s"

definition loose :: "store \<Rightarrow> bool" where
  "loose s \<longleftrightarrow>
     (case files s of
        [] \<Rightarrow> commitOff s = writeOff s
      | n # ns \<Rightarrow> df_base (heap s n) \<le> commitOff s \<and>
          (\<exists>e. lay (heap s) (commitOff s) (df_base (heap s n)) (files s) e \<and> (e = writeOff s \<or> e \<le> writeOff s \<and> commitOff s = writeOff s)))"

definition loose_ok :: "hash \<Rightarrow> store \<Rightarrow> bool" where
  "loose_ok xx s \<longleftrightarrow>
     (\<forall>n \<in> set (files s). file_ok xx s n) \<and> loose s \<and> nums_ok s \<and>
     0 \<le> commitOff s \<and> commitOff s \<le> headOff s \<and> headOff s \<le> writeOff s \<and>
     boundary xx s (commitOff s) \<and> boundary xx s (headOff s) \<and> block_ok s \<and> cache_ok xx s"

lemma loose_okD:
  assumes "loose_ok xx s"
  shows "n \<in> set (files s) \<Longrightarrow> file_ok xx s n" "loose s" "nums_ok s" "0 \<le> commitOff s"
    "commitOff s \<le> headOff s" "headOff s \<le> writeOff s" "boundary xx s (commitOff s)"
    "boundary xx s (headOff s)" "block_ok s" "cache_ok xx s"
  using assms by (simp_all add: loose_ok_def)

lemma queue_loose: "queue_ok xx s \<Longrightarrow> loose_ok xx s"
  by (auto simp: queue_ok_def loose_ok_def covered_def loose_def split: list.splits)

lemma loose_queue:
  assumes l: "loose_ok xx s" and n: "\<not> stranded s"
  shows "queue_ok xx s"
proof -
  have "covered s"
  proof (cases "files s")
    case Nil
    then show ?thesis using loose_okD(2) [OF l] by (simp add: loose_def covered_def)
  next
    case (Cons m ms)
    then obtain e where "df_base (heap s m) \<le> commitOff s" "lay (heap s) (commitOff s) (df_base (heap s m)) (files s) e"
      using loose_okD(2) [OF l] by (auto simp: loose_def)
    moreover from this have "e = writeOff s" using n Cons lay_last [of "heap s" "commitOff s" _ "files s" e] by (auto simp: stranded_def)
    ultimately show ?thesis using Cons by (simp add: covered_def)
  qed
  then show ?thesis using l by (simp add: queue_ok_def loose_ok_def)
qed

lemma queue_not_stranded:
  assumes "queue_ok xx s"
  shows "\<not> stranded s"
proof (cases "files s")
  case (Cons n ns)
  then have "lay (heap s) (commitOff s) (df_base (heap s n)) (files s) (writeOff s)"
    using queue_okD(2) [OF assms] by (simp add: covered_def)
  from lay_last [OF this] show ?thesis by (auto simp: stranded_def)
qed (simp add: stranded_def)

lemma loose_ok_same:
  assumes ok: "loose_ok xx s" and f: "files s' = files s" "writeOff s' = writeOff s" "headOff s' = headOff s"
    "commitOff s' = commitOff s" "nextNum s' = nextNum s" "lastFrameAt s' = lastFrameAt s"
    "lastFrameEnd s' = lastFrameEnd s"
    and seg: "\<And>n. n \<in> set (files s) \<Longrightarrow> same_seg s s' n"
    and fresh: "\<And>m. nextNum s \<le> m \<Longrightarrow> df_size (heap s' m) = df_size (heap s m)" and b: "block_ok s'"
  shows "loose_ok xx s' \<and> unread xx s' = unread xx s \<and> backlog xx s' = backlog xx s"
proof -
  have fl: "flat xx s' = flat xx s" using f(1) seg by (rule flat_same)
  have base: "df_base (heap s' n) = df_base (heap s n)" if "n \<in> set (files s)" for n
    using seg [OF that] by (simp add: same_seg_def)
  have lay: "lay (heap s') c at (files s) w = lay (heap s) c at (files s) w" for c at w
    by (rule lay_same) (rule seg)
  have "loose s' = loose s"
  proof (cases "files s")
    case (Cons n ns)
    then show ?thesis using lay base [of n] f by (simp add: loose_def del: lay.simps)
  qed (simp add: loose_def f)
  moreover have "nums_ok s' = nums_ok s" using fresh f by (simp add: nums_ok_def)
  moreover have "file_ok xx s' n = file_ok xx s n" if "n \<in> set (files s)" for n
    by (rule same_seg_flat(2) [OF seg [OF that]])
  ultimately have "loose_ok xx s'"
    using ok b fl f by (simp add: loose_ok_def boundary_def cache_ok_def)
  then show ?thesis using fl f by (simp add: unread_def backlog_def)
qed

section \<open>The records after a scan\<close>

lemma seg_flat_bounds:
  assumes "file_ok xx s n" "(q, p) \<in> set (seg_flat xx s n)"
  shows "df_base (heap s n) \<le> q" "q + framedLen (length p) \<le> df_end (heap s n)"
proof -
  obtain as bs where ab: "recs_of xx s n = as @ p # bs" "q = df_base (heap s n) + int (length (frames xx as))"
    using assms(2) offs_mem unfolding seg_flat_def by blast
  have "data_of s n = frames xx as @ frame xx p @ frames xx bs" using file_ok_data(1) [OF assms(1)] ab(1) by simp
  then show "q + framedLen (length p) \<le> df_end (heap s n)"
    unfolding df_end_def file_ok_data(2) [OF assms(1)] ab(2) by (simp add: length_frame)
  show "df_base (heap s n) \<le> q" using ab(2) by simp
qed

lemma from_off_committed:
  assumes "\<And>n. n \<in> set ns \<Longrightarrow> file_ok xx s n \<and> df_end (heap s n) \<le> at"
  shows "from_off at (concat (map (seg_flat xx s) ns)) = []"
proof (rule from_off_none)
  fix x assume "x \<in> set (concat (map (seg_flat xx s) ns))"
  then obtain n where n: "n \<in> set ns" "(fst x, snd x) \<in> set (seg_flat xx s n)" by auto
  then have "fst x + framedLen (length (snd x)) \<le> at"
    using seg_flat_bounds(2) assms [OF n(1)] by fastforce
  then show "fst x < at" using framedLen_gt0 [of "length (snd x)"] by linarith
qed

lemma stranded_empty:
  assumes l: "loose_ok xx s" and n: "stranded s"
  shows "commitOff s = writeOff s" "unread xx s = []" "backlog xx s = []"
proof -
  have ne: "files s \<noteq> []" using n by (simp add: stranded_def)
  then obtain at e where e: "lay (heap s) (commitOff s) at (files s) e"
      "e = writeOff s \<or> e \<le> writeOff s \<and> commitOff s = writeOff s"
    using loose_okD(2) [OF l] by (auto simp: loose_def split: list.splits simp del: lay.simps)
  show c: "commitOff s = writeOff s" using e(2) lay_last [OF e(1) ne] n by (auto simp: stranded_def)
  have "df_end (heap s m) \<le> writeOff s" if "m \<in> set (files s)" for m
  proof -
    have "0 \<le> df_size (heap s k)" if "k \<in> set (files s)" for k by (rule file_ok_size [OF loose_okD(1) [OF l that]])
    then have "df_end (heap s m) \<le> e" using lay_mono(2) [OF e(1) _ that] by blast
    then show ?thesis using e(2) by auto
  qed
  then have "from_off (writeOff s) (flat xx s) = []"
    unfolding flat_def using loose_okD(1) [OF l] by (intro from_off_committed) blast
  moreover have "headOff s = writeOff s" using loose_okD(5,6) [OF l] c by simp
  ultimately show "unread xx s = []" "backlog xx s = []" using c by (simp_all add: unread_def backlog_def)
qed

lemma uncommitted_not_stranded: "loose_ok xx s \<Longrightarrow> commitOff s < writeOff s \<Longrightarrow> \<not> stranded s"
  using stranded_empty(1) [of xx s] by auto

lemma in_from_off: "q \<in> fst ` set fl \<Longrightarrow> at \<le> q \<Longrightarrow> from_off at fl \<noteq> []"
  by (force simp: from_off_def filter_empty_conv)

section \<open>Reclaiming\<close>

lemma queue_ok_forget:
  assumes "queue_ok xx s"
  shows "queue_ok xx (dropBlock (s\<lparr>lastFrameAt := 0, lastFrameEnd := 0\<rparr>))"
    "flat xx (dropBlock (s\<lparr>lastFrameAt := 0, lastFrameEnd := 0\<rparr>)) = flat xx s"
proof -
  let ?t = "dropBlock (s\<lparr>lastFrameAt := 0, lastFrameEnd := 0\<rparr>)"
  have sh: "shape (s\<lparr>lastFrameAt := 0, lastFrameEnd := 0\<rparr>) = shape ?t" by (simp add: shape_def dropBlock_def)
  have "queue_ok xx (s\<lparr>lastFrameAt := 0, lastFrameEnd := 0\<rparr>)"
    using assms by (simp add: queue_ok_def boundary_def cache_ok_def nums_ok_def)
  moreover have q: "quiet (s\<lparr>lastFrameAt := 0, lastFrameEnd := 0\<rparr>) ?t" using sh by (simp add: quiet_def)
  ultimately show "queue_ok xx ?t" by (rule quiet_queue_ok [rotated])
  show "flat xx ?t = flat xx s" using quiet_flat(1) [OF q] by simp
qed

lemma dropCommitted_loose:
  fixes keep :: "nat option"
  assumes ok: "queue_ok xx s"
  defines "s' \<equiv> dropCommitted keep s"
  shows "loose_ok xx s'" "unread xx s' = unread xx s" "backlog xx s' = backlog xx s"
    "set (files s') \<subseteq> set (files s)" "\<forall>n \<in> set (files s) - set (files s'). df_end (heap s n) \<le> commitOff s"
    "\<forall>n \<in> set (files s'). same_seg s s' n" "\<forall>n. core_df (heap s' n) = core_df (heap s n)"
    "headOff s' = headOff s" "commitOff s' = commitOff s" "writeOff s' = writeOff s"
proof -
  have "loose_ok xx s' \<and> unread xx s' = unread xx s \<and> backlog xx s' = backlog xx s \<and>
    set (files s') \<subseteq> set (files s) \<and> (\<forall>n \<in> set (files s) - set (files s'). df_end (heap s n) \<le> commitOff s) \<and>
    (\<forall>n \<in> set (files s'). same_seg s s' n) \<and> (\<forall>n. core_df (heap s' n) = core_df (heap s n)) \<and>
    headOff s' = headOff s \<and> commitOff s' = commitOff s \<and> writeOff s' = writeOff s"
  proof (cases "files s = [] \<or> Some (hd (files s)) = keep \<or> df_end (heap s (hd (files s))) > commitOff s")
    case True
    then have "s' = s" by (simp add: s'_def dropCommitted_def)
    then show ?thesis using ok queue_loose [OF ok] by auto
  next
    case go: False
    define t where "t = dropBlock (s\<lparr>lastFrameAt := 0, lastFrameEnd := 0\<rparr>)"
    have okt: "queue_ok xx t" and fl: "flat xx t = flat xx s" unfolding t_def using queue_ok_forget [OF ok] by simp_all
    have tf: "files t = files s" "heap t = heap s" "commitOff t = commitOff s" "headOff t = headOff s"
      "writeOff t = writeOff s" "os t = os s" "lastFrameEnd t = 0" "blockFile t = None" "nextNum t = nextNum s"
      by (simp_all add: t_def dropBlock_def)
    have dist: "distinct (files s)" using queue_okD(3) [OF ok] by (simp add: nums_ok_def)
    obtain sv rest u where u: "drop_loop keep (files t) t = (sv, rest, u)" by (metis prod_cases3)
    have s': "s' = u\<lparr>files := sv @ rest\<rparr>"
      using go u unfolding s'_def dropCommitted_def t_def [symmetric] by (simp add: Let_def)
    obtain pre where sc: "scanned keep t (files s) (sv, rest, u) pre"
      using drop_loop_scanned [of "files t" keep t] u dist tf by auto
    note c = scanned_cong [OF refl sc]
    have fs: "files s' = sv @ rest" by (simp add: s')
    note uf = scan_core_fields [OF c(6)] scan_core_df [OF c(6)]
    have seg: "same_seg s s' n" if "n \<in> set (sv @ rest)" for n
    proof -
      have "n \<notin> set pre - set sv" using that dist c(1) by auto
      then have "linked (os u) n = linked (os t) n" by (rule c(7))
      then have "same_seg t u n" by (rule scan_same_seg [OF c(6)])
      then show ?thesis by (auto simp: same_seg_def s' tf data_of_alt)
    qed
    have pre_ok: "file_ok xx s n \<and> df_end (heap s n) \<le> commitOff s \<and> df_base (heap s n) \<le> df_end (heap s n)"
      if "n \<in> set pre" for n
      using queue_okD(1) [OF ok, of n] queue_size [OF ok, of n] c(1,4) that tf by (auto simp: df_end_def)
    have subset: "set (sv @ rest) \<subseteq> set (files s)" using c(1,2) by auto
    have fok: "file_ok xx s' n" if "n \<in> set (files s')" for n
      using same_seg_flat(2) [OF seg] that fs queue_okD(1) [OF ok] subset by auto
    have flat': "flat xx s' = concat (map (seg_flat xx s) sv) @ concat (map (seg_flat xx s) rest)"
    proof -
      have "map (seg_flat xx s') (sv @ rest) = map (seg_flat xx s) (sv @ rest)"
        using same_seg_flat(1) [OF seg] by (intro map_cong) auto
      then have "flat xx s' = concat (map (seg_flat xx s) (sv @ rest))" by (simp only: flat_def fs)
      then show ?thesis by simp
    qed
    have flat0: "flat xx s = concat (map (seg_flat xx s) pre) @ concat (map (seg_flat xx s) rest)"
      by (simp add: flat_def c(1))
    have off: "from_off at (flat xx s') = from_off at (flat xx s)" if "commitOff s \<le> at" for at
    proof -
      have "from_off at (concat (map (seg_flat xx s) pre)) = []"
        using pre_ok that by (intro from_off_committed) fastforce
      moreover have "from_off at (concat (map (seg_flat xx s) sv)) = []"
        using pre_ok that c(2) by (intro from_off_committed) fastforce
      ultimately show ?thesis by (simp add: flat' flat0 from_off_append)
    qed
    have bnd: "boundary xx s' at" if b: "boundary xx s at" "commitOff s \<le> at" for at
    proof (cases "at = writeOff s")
      case False
      then have "at \<in> fst ` set (flat xx s)" using b by (simp add: boundary_def)
      then obtain p where p: "(at, p) \<in> set (flat xx s)" by auto
      have "(at, p) \<notin> set (concat (map (seg_flat xx s) pre))"
      proof
        assume "(at, p) \<in> set (concat (map (seg_flat xx s) pre))"
        then have "from_off (commitOff s) (concat (map (seg_flat xx s) pre)) \<noteq> []"
          using b(2) by (intro in_from_off [of at]) force+
        moreover have "from_off (commitOff s) (concat (map (seg_flat xx s) pre)) = []"
          using pre_ok by (intro from_off_committed) blast
        ultimately show False by simp
      qed
      then have "(at, p) \<in> set (flat xx s')" using p by (simp add: flat0 flat')
      then show ?thesis by (force simp: boundary_def)
    qed (use uf tf in \<open>simp add: boundary_def s'\<close>)
    have cov: "loose s'"
    proof -
      have cs: "covered s" "files s \<noteq> []" using queue_okD(2) [OF ok] go by auto
      then obtain at where at: "at \<le> commitOff s" "lay (heap s) (commitOff s) at (pre @ rest) (writeOff s)"
        using covered_lay c(1) by metis
      have hs: "commitOff s' = commitOff s" "writeOff s' = writeOff s" using uf tf by (simp_all add: s')
      have all: "commitOff s = writeOff s" if "rest = []" "pre \<noteq> []"
      proof -
        have "df_end (heap s (last pre)) = writeOff s" using lay_last [OF at(2)] that by simp
        then show ?thesis using pre_ok [of "last pre"] that(2) queue_okD(5,6) [OF ok] by simp
      qed
      show ?thesis
      proof (cases "sv @ rest = []")
        case True
        then have "pre \<noteq> []" using cs(2) c(1) by auto
        then show ?thesis using True fs hs all by (simp add: loose_def)
      next
        case False
        let ?e = "df_end (heap s (last (sv @ rest)))"
        have "\<forall>n \<in> set pre. df_base (heap s n) \<le> df_end (heap s n) \<and> df_end (heap s n) \<le> commitOff s"
          using pre_ok by blast
        then have l: "lay (heap s) (commitOff s) at (sv @ rest) ?e"
          using lay_scan [OF at(2,1) order_refl, of "\<lambda>n. n \<in> set sv"] False unfolding c(3) [symmetric] by blast
        have e: "?e = writeOff s \<or> ?e \<le> writeOff s \<and> commitOff s = writeOff s"
        proof (cases "rest = []")
          case True
          then have sv: "sv \<noteq> []" using False by simp
          then have "last sv \<in> set pre" using c(2) last_in_set by blast
          moreover from this have "pre \<noteq> []" by auto
          ultimately show ?thesis using True all pre_ok [of "last sv"] by simp
        next
          case r: False
          then show ?thesis using lay_last [OF at(2)] by simp
        qed
        obtain n ns where nn: "sv @ rest = n # ns" using False by (cases "sv @ rest") auto
        have "df_base (heap s' n) = df_base (heap s n)" using seg [of n] nn by (simp add: same_seg_def)
        moreover have "lay (heap s') (commitOff s) b (sv @ rest) ?e = lay (heap s) (commitOff s) b (sv @ rest) ?e" for b
          by (rule lay_same) (rule seg)
        ultimately show ?thesis using l e at(1) nn fs hs by (auto simp: loose_def)
      qed
    qed
    have nums: "nums_ok s'"
    proof -
      have "sv = filter (\<lambda>n. n \<in> set sv) pre" by (rule c(3))
      then have "distinct sv" using dist c(1) by (metis distinct_append distinct_filter)
      then have "distinct (sv @ rest)" using dist c(1,2) by auto
      moreover have "df_size (heap s' m) = df_size (heap s m)" for m
        using core_df_fields(2) [OF uf(25)] tf by (simp add: s')
      ultimately show ?thesis using queue_okD(3) [OF ok] subset uf tf by (auto simp: nums_ok_def s')
    qed
    have "loose_ok xx s'"
      unfolding loose_ok_def
      using fok cov nums bnd [OF queue_okD(7) [OF ok]] bnd [OF queue_okD(8) [OF ok] queue_okD(5) [OF ok]] queue_okD(4-6) [OF ok] uf tf
      by (simp add: s' cache_ok_def block_ok_None)
    moreover have "unread xx s' = unread xx s" "backlog xx s' = backlog xx s"
      using off queue_okD(5) [OF ok] uf tf by (simp_all add: unread_def backlog_def s')
    moreover have "\<forall>n \<in> set (files s) - set (files s'). df_end (heap s n) \<le> commitOff s"
      using pre_ok c(1) fs by auto
    ultimately show ?thesis using seg subset fs uf tf by (auto simp: s')
  qed
  then show "loose_ok xx s'" "unread xx s' = unread xx s" "backlog xx s' = backlog xx s"
    "set (files s') \<subseteq> set (files s)" "\<forall>n \<in> set (files s) - set (files s'). df_end (heap s n) \<le> commitOff s"
    "\<forall>n \<in> set (files s'). same_seg s s' n" "\<forall>n. core_df (heap s' n) = core_df (heap s n)"
    "headOff s' = headOff s" "commitOff s' = commitOff s" "writeOff s' = writeOff s" by blast+
qed

lemma drop_end:
  assumes ok: "queue_ok xx s" and fs: "files (dropCommitted keep s) = [] \<or> last (files (dropCommitted keep s)) = last (files s)"
  shows "\<not> stranded (dropCommitted keep s)"
proof (cases "files (dropCommitted keep s) = []")
  case False
  let ?s' = "dropCommitted keep s" and ?n = "last (files (dropCommitted keep s))"
  note d = dropCommitted_loose [OF ok, of keep]
  have n: "?n \<in> set (files ?s')" using False by simp
  then have "files s \<noteq> []" using d(4) by auto
  moreover have "df_end (heap ?s' ?n) = df_end (heap s ?n)" using d(6) n same_seg_flat(3) by blast
  ultimately show ?thesis using queue_not_stranded [OF ok] fs False d(10) by (simp add: stranded_def)
qed (simp add: stranded_def)

lemma dropCommitted_spec:
  assumes ok: "queue_ok xx s" and safe: "files (dropCommitted keep s) = [] \<or> last (files (dropCommitted keep s)) = last (files s)"
  defines "s' \<equiv> dropCommitted keep s"
  shows "queue_ok xx s'" "unread xx s' = unread xx s" "backlog xx s' = backlog xx s"
    "set (files s') \<subseteq> set (files s)" "\<forall>n \<in> set (files s) - set (files s'). df_end (heap s n) \<le> commitOff s"
    "\<forall>n \<in> set (files s'). same_seg s s' n" "\<forall>n. core_df (heap s' n) = core_df (heap s n)"
    "headOff s' = headOff s" "commitOff s' = commitOff s" "writeOff s' = writeOff s"
proof -
  note d = dropCommitted_loose [OF ok, of keep, folded s'_def]
  show "queue_ok xx s'" using loose_queue [OF d(1)] drop_end [OF ok safe] by (simp add: s'_def)
qed (use dropCommitted_loose [OF ok, of keep, folded s'_def] in blast)+

section \<open>Properties\<close>

text \<open>
  C19: reclaiming never loses anything that was not committed: the segments it removes end at or
  before the commit cursor, the unread payloads and the backlog are the same before and after,
  and the invariant holds, provided the write position is not removed from behind a segment that
  stayed (a pinned one, or one that would not unlink).
\<close>

theorem dropCommitted_refines:
  assumes "queue_ok xx s"
    "files (dropCommitted keep s) = [] \<or> last (files (dropCommitted keep s)) = last (files s)"
  shows "queue_ok xx (dropCommitted keep s) \<and> unread xx (dropCommitted keep s) = unread xx s \<and>
    backlog xx (dropCommitted keep s) = backlog xx s \<and> set (files (dropCommitted keep s)) \<subseteq> set (files s) \<and>
    (\<forall>n \<in> set (files s) - set (files (dropCommitted keep s)). df_end (heap s n) \<le> commitOff s)"
  using dropCommitted_spec [OF assms] by blast

text \<open>The sample store with both records committed.\<close>

definition sample_done :: store where
  "sample_done = sample\<lparr>headOff := 21, commitOff := 21\<rparr>"

lemma sample_done_ok: "queue_ok (\<lambda>_. 5) sample_done"
proof -
  have "covered sample_done"
    using sample_fields by (simp add: covered_def sample_done_def)
  moreover have "block_ok sample_done" by (simp add: block_ok_None sample_done_def sample_fields(12))
  ultimately show ?thesis
    using queue_okD(1,3) [OF sample_ok] sample_fields
    by (simp add: queue_ok_def boundary_def cache_ok_def nums_ok_def sample_done_def)
qed

lemma sample_done_dropped: "files (dropCommitted None sample_done) = []"
  by (simp add: sample_done_def sample_def new_store_def zero_dataFile_def dropCommitted_def dropBlock_def
      df_end_def os_run_def os_healthy os_empty_def os_remove_def)

theorem dropCommitted_refines_witness:
  "queue_ok (\<lambda>_. 5) sample_done \<and> files (dropCommitted None sample_done) = [] \<and>
   backlog (\<lambda>_. 5) (dropCommitted None sample_done) = backlog (\<lambda>_. 5) sample_done"
  using dropCommitted_refines [OF sample_done_ok, of None] sample_done_ok sample_done_dropped by blast

text \<open>A commit keeps the active segment, so the proviso is met.\<close>

lemma drop_loop_keeps:
  assumes "keep = Some (last ns)" "ns \<noteq> []" "drop_loop keep ns s = (sv, rest, s')"
  shows "rest \<noteq> [] \<and> last rest = last ns"
proof -
  have "rest \<noteq> [] \<and> last rest = last ns"
    if "ns \<noteq> []" "keep = Some (last ns)" "drop_loop keep ns s = (sv, rest, s')" for sv rest s'
    using that
  proof (induction keep ns s arbitrary: sv rest s' rule: drop_loop.induct)
    case (2 keep n ns s)
    show ?case
    proof (cases "Some n = keep \<or> df_end (heap s n) > commitOff s")
      case True
      then show ?thesis using "2.prems" by auto
    next
      case False
      then have ne: "ns \<noteq> []" "keep = Some (last ns)" using "2.prems" by (auto split: if_splits)
      note IH = "2.IH"(1) [OF False _ ne] "2.IH"(2) [OF False _ _ _ _ ne] "2.IH"(3) [OF False _ _ _ _ _ ne]
      show ?thesis
        using "2.prems"(3) False IH ne(1)
        by (auto simp: Let_def split: if_splits prod.splits sum.splits)
    qed
  qed simp
  then show ?thesis using assms by blast
qed

lemma dropCommitted_active:
  "files (dropCommitted (active s) s) = [] \<or> last (files (dropCommitted (active s) s)) = last (files s)"
proof (cases "files s = []")
  case False
  let ?t = "dropBlock (s\<lparr>lastFrameAt := 0, lastFrameEnd := 0\<rparr>)"
  have f: "files ?t = files s" by (simp add: dropBlock_def)
  obtain sv rest u where u: "drop_loop (active s) (files s) ?t = (sv, rest, u)" by (metis prod_cases3)
  have "rest \<noteq> [] \<and> last rest = last (files s)"
    using drop_loop_keeps [OF _ False u] False by (simp add: active_def)
  then show ?thesis using u f by (auto simp: dropCommitted_def Let_def)
qed (simp add: dropCommitted_def)

end
