(* ===== verification/Append_Refine.thy ===== *)
theory Append_Refine
  imports Reclaim
begin

text \<open>
  Appending to the store is appending to the abstract queue.  Creating a segment only touches
  the number it creates; writing a record past the published extent is quiet; advancing the
  cursor over a record that was written adds exactly that payload; and a failure that is not
  latched undoes all of it.
\<close>

section \<open>Steps that only touch a fresh segment\<close>

definition erase_seg :: "nat \<Rightarrow> store \<Rightarrow> store" where
  "erase_seg n s = s\<lparr>heap := (heap s)(n := zero_dataFile n),
     os := (os s)\<lparr>inode := (inode (os s))(n := []), linked := (linked (os s))(n := False)\<rparr>\<rparr>"

definition only_fresh :: "nat \<Rightarrow> store \<Rightarrow> store \<Rightarrow> bool" where
  "only_fresh n s s' \<longleftrightarrow> df_size (heap s n) = 0 \<longrightarrow>
     shape (erase_seg n s') = shape (erase_seg n s) \<and> df_size (heap s' n) = 0 \<and> (block_ok s \<longrightarrow> block_ok s')"

lemma only_fresh_refl [simp]: "only_fresh n s s"
  by (simp add: only_fresh_def)

lemma only_fresh_trans: "only_fresh n a b \<Longrightarrow> only_fresh n b c \<Longrightarrow> only_fresh n a c"
  by (auto simp: only_fresh_def)

lemma shape_erase:
  "shape (erase_seg n s) = (shape s)\<lparr>heap := (heap (shape s))(n := shape_df (zero_dataFile n)),
     os := (os (shape s))\<lparr>inode := (inode (os (shape s)))(n := []), linked := (linked (os s))(n := False)\<rparr>\<rparr>"
  by (auto simp: shape_def erase_seg_def fun_eq_iff region_def slice_def)

lemma quiet_only_fresh: "quiet s s' \<Longrightarrow> only_fresh n s s'"
  unfolding only_fresh_def shape_erase quiet_def
  using shape_eq_df_fields(4) [of s' s n] shape_eq_fields(36) [of s' s] by simp

lemma erase_seg_data: "m \<noteq> n \<Longrightarrow> data_of (erase_seg n s) m = data_of s m"
  by (simp add: data_of_def erase_seg_def)

lemma only_fresh_seg:
  assumes o: "only_fresh n s s'" and z: "df_size (heap s n) = 0" and m: "m \<noteq> n"
  shows "same_seg s s' m" "core_df (heap s' m) = core_df (heap s m) \<or> df_pins (heap s' m) = df_pins (heap s m)"
proof -
  have sh: "shape (erase_seg n s') = shape (erase_seg n s)" using o z by (simp add: only_fresh_def)
  note f = shape_eq_df_fields [OF sh, of m] shape_eq_fields [OF sh]
  have "data_of s' m = data_of s m" using f(10) m by (simp add: erase_seg_data flip: data_of_def)
  moreover have "linked (os s') m = linked (os s) m" using fun_cong [OF f(46), of m] m by (simp add: erase_seg_def)
  ultimately show "same_seg s s' m" using f m by (simp add: same_seg_def erase_seg_def)
  show "core_df (heap s' m) = core_df (heap s m) \<or> df_pins (heap s' m) = df_pins (heap s m)"
    using f m by (simp add: erase_seg_def)
qed

lemma only_fresh_fields:
  assumes o: "only_fresh n s s'" and z: "df_size (heap s n) = 0"
  shows "files s' = files s" "writeOff s' = writeOff s" "headOff s' = headOff s" "commitOff s' = commitOff s"
    "nextNum s' = nextNum s" "lastFrameAt s' = lastFrameAt s" "lastFrameEnd s' = lastFrameEnd s"
    "reserved s' = reserved s" "pendingBytes s' = pendingBytes s" "inFlight s' = inFlight s"
    "pendingCorrupt s' = pendingCorrupt s" "segmentSize s' = segmentSize s" "noSync s' = noSync s"
    "syncEvery s' = syncEvery s" "maxBytes s' = maxBytes s" "maxSegments s' = maxSegments s"
    "df_size (heap s' m) = df_size (heap s m)" "block_ok s \<Longrightarrow> block_ok s'" "dirOpen s' = dirOpen s"
    "pendingRecs s' = pendingRecs s" "inFlightRecs s' = inFlightRecs s"
proof -
  have sh: "shape (erase_seg n s') = shape (erase_seg n s)" using o z by (simp add: only_fresh_def)
  note f = shape_eq_fields [OF sh]
  show "files s' = files s" "writeOff s' = writeOff s" "headOff s' = headOff s" "commitOff s' = commitOff s"
    "nextNum s' = nextNum s" "lastFrameAt s' = lastFrameAt s" "lastFrameEnd s' = lastFrameEnd s"
    "reserved s' = reserved s" "pendingBytes s' = pendingBytes s" "inFlight s' = inFlight s"
    "pendingCorrupt s' = pendingCorrupt s" "segmentSize s' = segmentSize s" "noSync s' = noSync s"
    "syncEvery s' = syncEvery s" "maxBytes s' = maxBytes s" "maxSegments s' = maxSegments s" "dirOpen s' = dirOpen s"
    "pendingRecs s' = pendingRecs s" "inFlightRecs s' = inFlightRecs s"
    using f by (simp_all add: erase_seg_def)
  show "df_size (heap s' m) = df_size (heap s m)"
    using only_fresh_seg(1) [OF o z, of m] o z by (cases "m = n") (auto simp: same_seg_def only_fresh_def)
  show "block_ok s \<Longrightarrow> block_ok s'" using o z by (simp add: only_fresh_def)
qed

lemma block_ok_fresh:
  assumes "block_ok s" "readBuf s' = readBuf s" "blockFile s' = blockFile s" "blockOff s' = blockOff s"
    "blockLen s' = blockLen s" "df_size (heap s n) = 0"
    "\<And>m. m \<noteq> n \<Longrightarrow> data_of s' m = data_of s m \<and> df_size (heap s' m) = df_size (heap s m)"
  shows "block_ok s'"
proof (cases "blockFile s")
  case (Some f)
  then have "f \<noteq> n" using assms(1,6) by (auto simp: block_ok_def)
  then show ?thesis using assms Some unfolding block_ok_data by simp
qed (simp add: block_ok_None assms)

lemma only_fresh_os:
  assumes "s' = s\<lparr>os := w\<rparr>" "\<And>m. m \<noteq> n \<Longrightarrow> inode w m = inode (os s) m \<and> linked w m = linked (os s) m"
  shows "only_fresh n s s'"
proof -
  have "shape (erase_seg n s') = shape (erase_seg n s)"
    using assms by (auto simp: shape_def erase_seg_def fun_eq_iff region_def slice_def)
  moreover have "block_ok s \<Longrightarrow> df_size (heap s n) = 0 \<Longrightarrow> block_ok s'"
    using assms by (intro block_ok_fresh [of s s' n]) (auto simp: data_of_alt)
  ultimately show ?thesis using assms(1) by (simp add: only_fresh_def)
qed

lemma only_fresh_upd:
  assumes "\<And>d. df_size d = 0 \<Longrightarrow> df_size (f d) = 0"
  shows "only_fresh n s (upd_df n f s)"
proof -
  have "shape (erase_seg n (upd_df n f s)) = shape (erase_seg n s)" by (simp add: erase_seg_def upd_df_def)
  moreover have "block_ok s \<Longrightarrow> df_size (heap s n) = 0 \<Longrightarrow> block_ok (upd_df n f s)"
    by (rule block_ok_fresh [of s _ n]) (auto simp: upd_df_def data_of_alt)
  ultimately show ?thesis using assms by (simp add: only_fresh_def)
qed

section \<open>Creating a segment\<close>

lemma os_run_files:
  assumes "os_run f s = (r, s')"
    "\<And>w m. m \<noteq> n \<Longrightarrow> inode (snd (f w)) m = inode w m \<and> linked (snd (f w)) m = linked w m"
  shows "only_fresh n s s'"
proof -
  obtain w where w: "f (os s) = (r, w)" "s' = s\<lparr>os := w\<rparr>" using assms(1) by (rule os_runE)
  show ?thesis using assms(2) [of _ "os s"] w by (intro only_fresh_os [OF w(2)]) simp
qed

lemma only_fresh_create: "os_run (os_create n) s = (r, s') \<Longrightarrow> only_fresh n s s'"
  by (erule os_run_files) (auto simp: os_create_def os_tick_def split: list.splits verdict.splits)

lemma only_fresh_remove: "os_run (os_remove n) s = (r, s') \<Longrightarrow> only_fresh n s s'"
  by (erule os_run_files) (auto simp: os_remove_def os_tick_def split: list.splits verdict.splits)

lemma only_fresh_preallocate: "os_run (preallocate n k) s = (r, s') \<Longrightarrow> only_fresh n s s'"
  by (erule os_run_files)
    (auto simp: preallocate_def os_fallocate_def os_truncate_def os_tick_def
      split: list.splits verdict.splits prod.splits sum.splits if_splits)

lemma quiet_os_fsync: "os_run (os_fsync n) s = (r, s') \<Longrightarrow> quiet s s'"
  by (rule quiet_core, erule core_os_run) (metis os_fsync_same prod.collapse)

lemma only_fresh_fail: "create_fail n e s = (r, s') \<Longrightarrow> only_fresh n s s' \<and> r = Inl e"
proof -
  assume c: "create_fail n e s = (r, s')"
  obtain r1 s1 where 1: "os_run os_close s = (r1, s1)" by force
  obtain r2 s2 where 2: "os_run (os_remove n) s1 = (r2, s2)" by force
  have "s' = upd_df n (\<lambda>d. d\<lparr>df_open := False\<rparr>) s2" "r = Inl e" using c 1 2 by (auto simp: create_fail_def Let_def)
  moreover have "only_fresh n s2 (upd_df n (\<lambda>d. d\<lparr>df_open := False\<rparr>) s2)" by (rule only_fresh_upd) simp
  ultimately show ?thesis
    using only_fresh_trans [OF only_fresh_trans [OF quiet_only_fresh [OF quiet_os_close [OF 1]] only_fresh_remove [OF 2]]] by simp
qed

lemma length_header_apply: "length (fold (\<lambda>f h. f h) mods hdr) = headerSize \<Longrightarrow> length (header_mods xx mods hdr) = headerSize"
  by (simp add: header_mods_def)

lemma length_create_hdr: "length (df_hdr (header xx (create_mods c z) ((zero_dataFile n)\<lparr>df_open := a, df_base := b, df_capacity := k\<rparr>))) = headerSize"
  by (simp add: header_def length_header_apply create_mods_def zero_dataFile_def)

definition new_seg :: "nat \<Rightarrow> int \<Rightarrow> int \<Rightarrow> store \<Rightarrow> bool" where
  "new_seg n base cap s \<longleftrightarrow>
     df_base (heap s n) = base \<and> df_size (heap s n) = 0 \<and> df_capacity (heap s n) = cap \<and>
     df_written (heap s n) = 0 \<and> df_committed (heap s n) = 0 \<and> df_pins (heap s n) = 0 \<and> linked (os s) n \<and>
     length (df_hdr (heap s n)) = headerSize \<and>
     commitCursor (df_hdr (heap s n)) = int headerSize \<and> committedCount (df_hdr (heap s n)) = 0"

lemma new_seg_quiet: "quiet s s' \<Longrightarrow> new_seg n base cap s \<Longrightarrow> new_seg n base cap s'"
  using shape_eq_df_fields [of s' s n] shape_eq_fields(36) [of s' s] by (simp add: quiet_def new_seg_def)

lemma new_seg_file_ok: "new_seg n base cap s \<Longrightarrow> cap < 2 ^ 63 \<Longrightarrow> file_ok xx s n \<and> seg_flat xx s n = []"
  by (simp add: new_seg_def file_ok_def data_of_alt recs_of_def seg_flat_def records.simps)

lemma create_hdr_marks:
  assumes "d = header xx (create_mods c z) ((zero_dataFile n)\<lparr>df_open := a, df_base := b, df_capacity := k\<rparr>)"
  shows "commitCursor (df_hdr d) = int headerSize" "committedCount (df_hdr d) = 0"
proof -
  have "slice 32 40 (replicate headerSize (0 :: byte)) = replicate 8 0" by (simp add: slice_def headerSize_def)
  moreover have "le_nat (replicate k 0) = 0" for k by (induction k) simp_all
  ultimately have "committedCount (replicate headerSize 0) = 0" by (simp add: committedCount_def to_i64_def)
  moreover have "is_i64 (int headerSize)" by (simp add: is_i64_def headerSize_def)
  ultimately show "commitCursor (df_hdr d) = int headerSize" "committedCount (df_hdr d) = 0"
    using assms by (simp_all add: header_def header_mods_def create_mods_def zero_dataFile_def hdr_laws)
qed

lemma os_create_linked: "os_run (os_create n) s = (Inr u, s') \<Longrightarrow> linked (os s') n"
  by (auto simp: os_run_def os_create_def os_tick_def split: list.splits verdict.splits if_splits)

lemma preallocate_linked: "os_run (preallocate n k) s = (r, s') \<Longrightarrow> linked (os s') = linked (os s)"
  by (auto simp: os_run_def preallocate_def os_fallocate_def os_truncate_def os_tick_def
      split: list.splits verdict.splits prod.splits sum.splits if_splits)

lemma createFile_spec:
  assumes c: "createFile xx n base cap s = (r, s')"
  shows "only_fresh n s s' \<and> (\<forall>k. r = Inr k \<longrightarrow> k = n \<and> n \<noteq> 0 \<and> new_seg n base cap s')"
proof (cases "n = 0")
  case True
  then show ?thesis using c by (auto simp: createFile_def)
next
  case False
  obtain r1 s1 where 1: "os_run (os_create n) s = (r1, s1)" by force
  note o1 = only_fresh_create [OF 1]
  show ?thesis
  proof (cases r1)
    case (Inl e)
    then show ?thesis using c False 1 o1 by (auto simp: createFile_def)
  next
    case i1: (Inr u1)
    obtain r2 s2 where 2: "os_run (preallocate n (int headerSize + cap)) s1 = (r2, s2)" by force
    note o2 = only_fresh_trans [OF o1 only_fresh_preallocate [OF 2]]
    show ?thesis
    proof (cases r2)
      case (Inl e)
      then have "create_fail n e s2 = (r, s')" using c False 1 i1 2 by (simp add: createFile_def)
      then show ?thesis using only_fresh_fail only_fresh_trans [OF o2] by blast
    next
      case i2: (Inr u2)
      define s3 where "s3 = upd_df n (\<lambda>_. header xx (create_mods cap (segmentSize s2))
          ((zero_dataFile n)\<lparr>df_open := True, df_base := base, df_capacity := cap\<rparr>)) s2"
      have o3: "only_fresh n s s3"
        unfolding s3_def by (rule only_fresh_trans [OF o2 only_fresh_upd]) (simp add: header_def zero_dataFile_def)
      have n3: "new_seg n base cap s3"
        using os_create_linked [of n s u1 s1] preallocate_linked [OF 2] 1 i1 length_create_hdr create_hdr_marks [OF refl]
        by (simp add: new_seg_def s3_def header_def zero_dataFile_def)
      obtain r4 s4 where 4: "writeHeader n s3 = (r4, s4)" by force
      have q4: "quiet s3 s4" using quiet_writeHeader [OF 4] n3 by (simp add: new_seg_def)
      note o4 = only_fresh_trans [OF o3 quiet_only_fresh [OF q4]] and n4 = new_seg_quiet [OF q4 n3]
      have out: "(r, s') = (case r4 of Inl e \<Rightarrow> create_fail n e s4 | Inr _ \<Rightarrow>
          if \<not> noSync s4 then (case os_run (os_fsync n) s4 of
             (Inl e, s5) \<Rightarrow> create_fail n e s5
           | (Inr _, s5) \<Rightarrow> (Inr n, upd_df n (\<lambda>d. d\<lparr>df_dirty := False\<rparr>) s5))
          else (Inr n, s4))"
        using c False 1 i1 2 i2 4 by (simp add: createFile_def s3_def Let_def split: sum.splits)
      show ?thesis
      proof (cases r4)
        case (Inl e)
        then have "create_fail n e s4 = (r, s')" using out by simp
        then show ?thesis using only_fresh_fail only_fresh_trans [OF o4] by blast
      next
        case i4: (Inr u4)
        show ?thesis
        proof (cases "noSync s4")
          case True
          then show ?thesis using out i4 o4 n4 False by auto
        next
          case ns: False
          obtain r5 s5 where 5: "os_run (os_fsync n) s4 = (r5, s5)" by force
          note q5 = quiet_os_fsync [OF 5]
          note o5 = only_fresh_trans [OF o4 quiet_only_fresh [OF q5]]
          show ?thesis
          proof (cases r5)
            case (Inl e)
            then have "create_fail n e s5 = (r, s')" using out i4 ns 5 by simp
            then show ?thesis using only_fresh_fail only_fresh_trans [OF o5] by blast
          next
            case (Inr u)
            have q6: "quiet s5 (upd_df n (\<lambda>d. d\<lparr>df_dirty := False\<rparr>) s5)" by (rule quiet_upd_df) simp
            have "r = Inr n" "s' = upd_df n (\<lambda>d. d\<lparr>df_dirty := False\<rparr>) s5" using out i4 ns 5 Inr by auto
            then show ?thesis
              using only_fresh_trans [OF o5 quiet_only_fresh [OF q6]] new_seg_quiet [OF quiet_trans [OF q5 q6] n4] False by simp
          qed
        qed
      qed
    qed
  qed
qed

section \<open>Starting a new segment\<close>

lemma loose_only_fresh:
  assumes ok: "loose_ok xx s" and o: "only_fresh (nextNum s) s s'" and z: "nextNum s \<noteq> 0"
  shows "loose_ok xx s' \<and> unread xx s' = unread xx s \<and> backlog xx s' = backlog xx s"
    "n \<in> set (files s) \<Longrightarrow> same_seg s s' n"
proof -
  have nums: "df_size (heap s (nextNum s)) = 0" "\<And>n. n \<in> set (files s) \<Longrightarrow> n \<noteq> nextNum s"
    using loose_okD(3) [OF ok] z by (auto simp: nums_ok_def)
  note f = only_fresh_fields [OF o nums(1)]
  have seg: "same_seg s s' m" if "m \<in> set (files s)" for m
    using only_fresh_seg(1) [OF o nums(1)] nums(2) [OF that] by simp
  show "loose_ok xx s' \<and> unread xx s' = unread xx s \<and> backlog xx s' = backlog xx s"
    by (rule loose_ok_same [OF ok f(1-7) seg]) (use f loose_okD(9) [OF ok] in \<open>simp_all\<close>)
  show "n \<in> set (files s) \<Longrightarrow> same_seg s s' n" by (rule seg)
qed

lemma loose_add_seg:
  assumes ok: "loose_ok xx s" and n: "n = nextNum s" "n \<noteq> 0" "new_seg n (writeOff s) cap s" "cap < 2 ^ 63"
    and k: "k = (nextNum s + 1) mod 2 ^ 64"
  shows "queue_ok xx (s\<lparr>nextNum := k, files := files s @ [n], diskBytes := d\<rparr>) \<and>
    flat xx (s\<lparr>nextNum := k, files := files s @ [n], diskBytes := d\<rparr>) = flat xx s"
proof -
  let ?t = "s\<lparr>nextNum := k, files := files s @ [n], diskBytes := d\<rparr>"
  have fr: "data_of ?t = data_of s" "seg_flat xx ?t = seg_flat xx s" "file_ok xx ?t = file_ok xx s"
    by (simp_all add: data_of_def seg_flat_def recs_of_def file_ok_def fun_eq_iff)
  note nf = new_seg_file_ok [OF n(3,4), of xx]
  have fl: "flat xx ?t = flat xx s" using nf by (simp add: flat_def fr)
  have base: "df_base (heap s n) = writeOff s" "df_end (heap s n) = writeOff s"
    using n(3) by (auto simp: new_seg_def df_end_def)
  have cov: "covered ?t"
  proof (cases "files s")
    case Nil
    then show ?thesis using loose_okD(2) [OF ok] base by (simp add: covered_def loose_def)
  next
    case (Cons m ms)
    then obtain e where e: "df_base (heap s m) \<le> commitOff s" "lay (heap s) (commitOff s) (df_base (heap s m)) (files s) e"
        "e = writeOff s \<or> e \<le> writeOff s \<and> commitOff s = writeOff s"
      using loose_okD(2) [OF ok] by (auto simp: loose_def)
    then have "lay (heap s) (commitOff s) (df_base (heap s m)) (files s @ [n]) (writeOff s)"
      using base unfolding lay_append by auto
    then show ?thesis using e(1) Cons by (simp add: covered_def)
  qed
  have "nums_ok ?t"
  proof (cases "nextNum s + 1 < 2 ^ 64")
    case True
    then have "k = nextNum s + 1" unfolding k by (rule mod_less)
    then show ?thesis using loose_okD(3) [OF ok] n(1,2) True
      unfolding nums_ok_def by (fastforce simp del: power_numeral)
  next
    case False
    then have "nextNum s + 1 = 2 ^ 64" using loose_okD(3) [OF ok] unfolding nums_ok_def by linarith
    then have "k = 0" unfolding k by simp
    then show ?thesis using loose_okD(3) [OF ok] n(1,2) by (auto simp: nums_ok_def)
  qed
  moreover have "block_ok ?t" using loose_okD(9) [OF ok] by (simp add: block_ok_def cong: option.case_cong)
  ultimately show ?thesis
    using ok nf cov fl by (simp add: queue_ok_def loose_ok_def boundary_def cache_ok_def fr)
qed

lemmas queue_ok_add_seg = loose_add_seg [OF queue_loose]

text \<open>
  What no step of an append changes: the options, the span staged by group commit and the reports
  owed, the commit and read cursors and the ledger.
\<close>

definition options :: "store \<Rightarrow> int \<times> bool \<times> int \<times> int \<times> int \<times> int \<times> int \<times> int \<times> int \<times> int" where
  "options s = (segmentSize s, noSync s, syncEvery s, maxSegments s, maxBytes s,
     pendingBytes s, pendingRecs s, inFlight s, inFlightRecs s, pendingCorrupt s)"

definition settings where
  "settings s = (options s, commitOff s, headOff s, reserved s)"

lemmas settings_defs = settings_def options_def

lemma settings_quiet: "quiet s s' \<Longrightarrow> settings s' = settings s"
  using shape_eq_fields [of s' s] by (simp add: settings_defs quiet_def)

lemma settings_fresh: "only_fresh n s s' \<Longrightarrow> df_size (heap s n) = 0 \<Longrightarrow> settings s' = settings s"
  using only_fresh_fields(3,4,8-16,20,21) [of n s s'] by (simp add: settings_defs)

lemma settings_dropCommitted:
  assumes "distinct (files s)"
  shows "settings (dropCommitted keep s) = settings s" "nextNum (dropCommitted keep s) = nextNum s"
proof -
  let ?s1 = "dropBlock (s\<lparr>lastFrameAt := 0, lastFrameEnd := 0\<rparr>)"
  obtain sv rest u where u: "drop_loop keep (files s) ?s1 = (sv, rest, u)" by (metis prod_cases3)
  then obtain pre where "scanned keep ?s1 (files s) (sv, rest, u) pre" using drop_loop_scanned assms by metis
  then have "settings u = settings s" "nextNum u = nextNum s"
    using scan_core_fields(2,4,5,12-20,22,23) [of u ?s1] by (simp_all add: scanned_def dropBlock_def settings_defs)
  then show "settings (dropCommitted keep s) = settings s" "nextNum (dropCommitted keep s) = nextNum s"
    using u unfolding dropCommitted_def by (simp_all add: Let_def dropBlock_def settings_defs)
qed

definition cycled :: "int \<Rightarrow> store \<Rightarrow> bool" where
  "cycled need s \<longleftrightarrow> (\<exists>n. active s = Some n \<and> new_seg n (writeOff s) (max (segmentSize s) need) s)"

text \<open>
  Cycling: the segment that ends at the write cursor may be reclaimed first, so a cycle that fails
  may leave the queue stranded; one that succeeds never does.
\<close>

lemma cycle_spec:
  assumes ok: "queue_ok xx s" and big: "segmentSize s < 2 ^ 63" "need < 2 ^ 63"
    and c: "cycle xx need force s = (r, s')"
  shows "loose_ok xx s' \<and> unread xx s' = unread xx s \<and> backlog xx s' = backlog xx s \<and>
    writeOff s' = writeOff s \<and> commitOff s' = commitOff s \<and> settings s' = settings s \<and>
    (\<forall>u. r = Inr u \<longrightarrow> queue_ok xx s' \<and> cycled need s') \<and>
    (\<forall>n \<in> set (files s'). df_end (heap s' n) = writeOff s \<or> n \<in> set (files s) \<and> df_end (heap s' n) = df_end (heap s n))"
proof -
  define s1 where "s1 = dropCommitted None s"
  note d = dropCommitted_loose [OF ok, of None, folded s1_def]
  have e1: "n \<in> set (files s) \<and> df_end (heap s1 n) = df_end (heap s n)" if "n \<in> set (files s1)" for n
    using d(4) same_seg_flat(3) [OF d(6) [rule_format, OF that]] that by blast
  have seg1: "settings s1 = settings s"
    using settings_dropCommitted(1) queue_okD(3) [OF ok] by (simp add: s1_def nums_ok_def)
  have sz1: "segmentSize s1 = segmentSize s" using seg1 by (simp add: settings_defs)
  show ?thesis
  proof (cases "\<not> force \<and> maxSegments s1 > 0 \<and> int (length (files s1)) \<ge> maxSegments s1")
    case True
    then have "r = Inl ErrFull" "s' = s1" using c by (simp_all add: cycle_def s1_def Let_def)
    then show ?thesis using d seg1 e1 by simp
  next
    case go: False
    let ?cap = "max (segmentSize s1) need"
    obtain r2 s2 where 2: "createFile xx (nextNum s1) (writeOff s1) ?cap s1 = (r2, s2)" by force
    note cf = createFile_spec [OF 2]
    have z: "nextNum s1 = 0 \<Longrightarrow> s2 = s1" "nextNum s1 = 0 \<Longrightarrow> \<exists>e. r2 = Inl e" using 2 by (auto simp: createFile_def)
    have q2: "loose_ok xx s2 \<and> unread xx s2 = unread xx s1 \<and> backlog xx s2 = backlog xx s1"
      using loose_only_fresh(1) [OF d(1)] cf z d by (cases "nextNum s1 = 0") auto
    have e2: "df_end (heap s2 n) = df_end (heap s1 n)" if "n \<in> set (files s1)" for n
      using same_seg_flat(3) [OF loose_only_fresh(2) [OF d(1) conjunct1 [OF cf] _ that]] z by (cases "nextNum s1 = 0") auto
    have "nextNum s1 \<noteq> 0 \<Longrightarrow> df_size (heap s1 (nextNum s1)) = 0" using loose_okD(3) [OF d(1)] by (simp add: nums_ok_def)
    then have fr: "s2 = s1 \<or> only_fresh (nextNum s1) s1 s2 \<and> df_size (heap s1 (nextNum s1)) = 0" using cf z by blast
    then have f2: "files s2 = files s1" "writeOff s2 = writeOff s1" "nextNum s2 = nextNum s1" "headOff s2 = headOff s1"
      "commitOff s2 = commitOff s1" "settings s2 = settings s1"
      using only_fresh_fields(1-5) settings_fresh by auto
    show ?thesis
    proof (cases r2)
      case (Inl e)
      then have "r = Inl e" "s' = s2" using c go 2 by (simp_all add: cycle_def s1_def [symmetric] Let_def)
      then show ?thesis using q2 d f2 seg1 e1 e2 by simp
    next
      case (Inr n)
      then have n: "n = nextNum s1" "n \<noteq> 0" "new_seg n (writeOff s1) ?cap s2" using cf by auto
      define s3 where "s3 = s2\<lparr>nextNum := (nextNum s2 + 1) mod 2 ^ 64, files := files s2 @ [n],
                         diskBytes := diskBytes s2 + (int headerSize + df_capacity (heap s2 n))\<rparr>"
      have cap: "?cap < 2 ^ 63" using big sz1 by simp
      have q3: "queue_ok xx s3" "flat xx s3 = flat xx s2"
        using loose_add_seg [OF conjunct1 [OF q2], of n ?cap "(nextNum s2 + 1) mod 2 ^ 64"] n cap f2
        unfolding s3_def by simp_all
      have cy3: "active s3 = Some n" "new_seg n (writeOff s3) ?cap s3"
        using n(3) f2 by (simp_all add: active_def s3_def new_seg_def)
      have qt: "quiet s3 (trackOpen n s3)" by (rule quiet_trackOpen)
      have "quiet s3 s'"
      proof (cases "ioErr (trackOpen n s3) = None \<and> \<not> noSync (trackOpen n s3)")
        case True
        then have "syncDir (trackOpen n s3) = (r, s')"
          using c go 2 Inr by (simp add: cycle_def s1_def [symmetric] Let_def s3_def)
        then show ?thesis using quiet_trans [OF qt] quiet_syncDir by blast
      next
        case False
        then have "s' = trackOpen n s3"
          using c go 2 Inr by (auto simp: cycle_def s1_def [symmetric] Let_def s3_def split: option.splits if_splits)
        then show ?thesis using qt by simp
      qed
      note q = this
      have sh: "shape s' = shape s3" using q by (simp add: quiet_def)
      note f = shape_eq_fields [OF sh]
      have s3f: "writeOff s3 = writeOff s" "settings s3 = settings s" "headOff s3 = headOff s" "commitOff s3 = commitOff s"
        using f2 d seg1 by (simp_all add: s3_def settings_defs)
      have st: "settings s' = settings s" using settings_quiet [OF q] s3f by simp
      then have sz: "segmentSize s' = segmentSize s1" using sz1 by (simp add: settings_defs)
      have "active s' = active s3" by (simp add: active_def f)
      then have "cycled need s'"
        unfolding cycled_def using cy3 new_seg_quiet [OF q cy3(2)] f(17) sz s3f by (intro exI [of _ n]) simp
      moreover have "unread xx s3 = unread xx s" "backlog xx s3 = backlog xx s"
        using q2 q3(2) d s3f f2 by (simp_all add: unread_def backlog_def)
      moreover have "df_end (heap s' m) = writeOff s \<or> m \<in> set (files s) \<and> df_end (heap s' m) = df_end (heap s m)"
        if "m \<in> set (files s')" for m
      proof (cases "m = n")
        case True
        then show ?thesis using n(3) d f2 by (simp add: df_end_def new_seg_def s3_def shape_eq_df_fields [OF sh])
      next
        case False
        then have m: "m \<in> set (files s1)" using that f f2 by (simp add: s3_def)
        have "df_end (heap s' m) = df_end (heap s2 m)" by (simp add: df_end_def shape_eq_df_fields [OF sh] s3_def)
        then show ?thesis using e1 [OF m] e2 [OF m] by simp
      qed
      ultimately show ?thesis
        using queue_loose quiet_queue_ok [OF q q3(1)] quiet_flat(3,4) [OF q] f(17,19) st s3f by simp
    qed
  qed
qed

section \<open>Writing the record\<close>

definition written_at :: "store \<Rightarrow> nat \<Rightarrow> int \<Rightarrow> bytes \<Rightarrow> bool" where
  "written_at s n off bs \<longleftrightarrow>
     slice (headerSize + nat off) (headerSize + nat off + length bs) (inode (os s) n) = bs"

lemma data_of_overwrite:
  assumes "int (length (data_of s n)) = df_size (heap s n)" "df_size (heap s n) \<le> off"
    "inode w = (inode (os s))(n := overwrite (headerSize + nat off) bs (inode (os s) n))"
  shows "data_of (s\<lparr>os := w\<rparr>) m = data_of s m"
proof (cases "m = n")
  case True
  let ?z = "nat (df_size (heap s n))" and ?ino = "inode (os s) n"
  show ?thesis
  proof (cases "?z = 0")
    case False
    have "?z \<le> length ?ino - headerSize" using assms(1) by (simp add: data_of_alt)
    then have "headerSize + ?z \<le> length ?ino" using False by simp
    moreover have "headerSize + ?z \<le> headerSize + nat off" using assms(2) by simp
    ultimately have "slice headerSize (headerSize + ?z) (overwrite (headerSize + nat off) bs ?ino) =
        slice headerSize (headerSize + ?z) ?ino"
      by (intro slice_overwrite_before) auto
    then show ?thesis using True assms(3) by (simp add: data_of_def region_def)
  qed (use True in \<open>simp add: data_of_alt\<close>)
qed (simp add: data_of_alt assms(3))

lemma writeRecord_spec:
  assumes f: "file_ok xx s n" and off: "df_size (heap s n) \<le> off" and w: "writeRecord xx n off p s = (r, s')"
  shows "quiet s s'" "r = Inr u \<Longrightarrow> written_at s' n off (frame xx p)" "r = Inr u \<Longrightarrow> framedLen (length p) \<le> maxFramedLen"
    "ioErr s' = ioErr s"
proof -
  have len: "int (length (data_of s n)) = df_size (heap s n)" using file_ok_data(2) [OF f] by simp
  have big: "r = Inr u \<Longrightarrow> framedLen (length p) \<le> maxFramedLen" for u
    using w by (auto simp: writeRecord_def Let_def framedTooLarge_def split: if_splits)
  have pw: "quiet (s\<lparr>writeBuf := b\<rparr>) (s\<lparr>writeBuf := b, os := w\<rparr>)"
    if "inode w = (inode (os s))(n := overwrite (headerSize + nat off) bs (inode (os s) n))" "linked w = linked (os s)" for w b bs
  proof (rule quiet_os)
    show "data_of (s\<lparr>writeBuf := b, os := w\<rparr>) m = data_of (s\<lparr>writeBuf := b\<rparr>) m" for m
      using data_of_overwrite [OF len off that(1), of m] by (simp add: data_of_def)
  qed (use that in simp)
  have "quiet s s' \<and> (r = Inr u \<longrightarrow> written_at s' n off (frame xx p)) \<and> ioErr s' = ioErr s"
    using w
  proof (cases rule: writeRecord_cases)
    case big
    then show ?thesis by simp
  next
    case (fail x k w' b)
    have "quiet s s'" unfolding fail(3) using quiet_fields(6) pw [OF fail(4,5)] by (rule quiet_trans)
    then show ?thesis using fail by simp
  next
    case (ok w' b)
    have "quiet s s'" unfolding ok(2)
      using quiet_trans [OF quiet_fields(6) pw [OF ok(3,4)]] quiet_mark_dirty by (rule quiet_trans)
    then show ?thesis
      using ok by (simp add: written_at_def mark_dirty_def slice_overwrite_same)
  qed
  then show "quiet s s'" "r = Inr u \<Longrightarrow> written_at s' n off (frame xx p)" "ioErr s' = ioErr s" by simp_all
  show "r = Inr u \<Longrightarrow> framedLen (length p) \<le> maxFramedLen" by (rule big)
qed

section \<open>Advancing over the record\<close>

lemma advance_fields:
  "files (advanceAppend xx n b k s) = files s" "headOff (advanceAppend xx n b k s) = headOff s"
  "commitOff (advanceAppend xx n b k s) = commitOff s" "writeOff (advanceAppend xx n b k s) = writeOff s + b"
  "nextNum (advanceAppend xx n b k s) = nextNum s" "lastFrameAt (advanceAppend xx n b k s) = lastFrameAt s"
  "lastFrameEnd (advanceAppend xx n b k s) = lastFrameEnd s" "os (advanceAppend xx n b k s) = os s"
  "ioErr (advanceAppend xx n b k s) = ioErr s" "noSync (advanceAppend xx n b k s) = noSync s"
  "syncEvery (advanceAppend xx n b k s) = syncEvery s"
  "readBuf (advanceAppend xx n b k s) = readBuf s" "blockFile (advanceAppend xx n b k s) = blockFile s"
  "blockOff (advanceAppend xx n b k s) = blockOff s" "blockLen (advanceAppend xx n b k s) = blockLen s"
  "m \<noteq> n \<Longrightarrow> heap (advanceAppend xx n b k s) m = heap s m"
  "df_base (heap (advanceAppend xx n b k s) n) = df_base (heap s n)"
  "df_size (heap (advanceAppend xx n b k s) n) = df_size (heap s n) + b"
  "df_capacity (heap (advanceAppend xx n b k s) n) = df_capacity (heap s n)"
  "df_written (heap (advanceAppend xx n b k s) n) = df_written (heap s n) + k"
  "length (df_hdr (heap s n)) = headerSize \<Longrightarrow> length (df_hdr (heap (advanceAppend xx n b k s) n)) = headerSize"
  by (simp_all add: advanceAppend_def Let_def header_def upd_df_def length_header_apply)

lemma advance_data:
  assumes "written_at s n (df_size (heap s n)) bs" "0 \<le> df_size (heap s n)" "b = int (length bs)"
  shows "data_of (advanceAppend xx n b k s) n = data_of s n @ bs"
proof -
  let ?z = "nat (df_size (heap s n))" and ?ino = "inode (os s) n"
  have "nat (df_size (heap s n) + b) = ?z + length bs" using assms(2,3) by simp
  then have "data_of (advanceAppend xx n b k s) n = slice headerSize (headerSize + ?z + length bs) ?ino"
    by (simp add: data_of_def region_def advance_fields add.assoc)
  also have "\<dots> = slice headerSize (headerSize + ?z) ?ino @ slice (headerSize + ?z) (headerSize + ?z + length bs) ?ino"
    by (rule slice_split) auto
  finally show ?thesis using assms(1) by (simp add: data_of_def region_def written_at_def)
qed

lemma offs_append: "offs b (ps @ qs) = offs b ps @ offs (b + int (length (frames xx ps))) qs"
  by (induction ps arbitrary: b) (simp_all add: length_frame add.assoc)

lemma offs_from: "(q, p) \<in> set (offs b ps) \<Longrightarrow> b \<le> q"
proof (induction ps arbitrary: b)
  case (Cons a ps)
  have "b \<le> q" if "b + framedLen (length a) \<le> q" using that framedLen_gt0 [of "length a"] by linarith
  then show ?case using Cons.IH [of "b + framedLen (length a)"] Cons.prems by auto
qed simp

lemma map_snd_offs [simp]: "map snd (offs b ps) = ps"
  by (induction ps arbitrary: b) simp_all

lemma lay_advance:
  assumes "lay h c at (ns @ [n]) w" "\<And>m. m \<in> set ns \<Longrightarrow> h' m = h m" "df_base (h' n) = df_base (h n)"
    "df_end (h' n) = df_end (h n) + b"
  shows "lay h' c at (ns @ [n]) (w + b)"
proof -
  have "lay h' c at ns x = lay h c at ns x" for x by (rule lay_cong) (simp add: assms(2))
  then show ?thesis using assms by (auto simp: lay_append)
qed

lemma queue_ok_advance_all:
  assumes ok: "queue_ok xx s" and act: "active s = Some n"
    and wr: "written_at s n (df_size (heap s n)) (frames xx ps)"
    and cap: "df_size (heap s n) + int (length (frames xx ps)) < 2 ^ 63"
  defines "t \<equiv> advanceAppend xx n (int (length (frames xx ps))) (int (length ps)) s"
  shows "queue_ok xx t" "flat xx t = flat xx s @ offs (writeOff s) ps"
proof -
  obtain ns where fs: "files s = ns @ [n]"
    using act by (auto simp: active_def split: if_splits) (metis append_butlast_last_id)
  have dist: "n \<notin> set ns" using queue_okD(3) [OF ok] fs by (auto simp: nums_ok_def)
  have f: "file_ok xx s n" using queue_okD(1) [OF ok] fs by simp
  have z: "0 \<le> df_size (heap s n)" by (rule file_ok_size [OF f])
  note tf = advance_fields [where xx = xx and n = n and b = "int (length (frames xx ps))" and k = "int (length ps)" and s = s, folded t_def]
  have hm: "heap t m = heap s m" if "m \<in> set ns" for m by (rule tf(16)) (use that dist in auto)
  have d: "data_of t n = frames xx (recs_of xx s n @ ps)"
    using advance_data [OF wr z] file_ok_data(1) [OF f] by (simp add: t_def length_frame)
  have lt: "int (length (data_of t n)) = df_size (heap s n) + int (length (frames xx ps))"
    unfolding d using file_ok_data [OF f] by (simp add: length_frame)
  have r: "recs_of xx t n = recs_of xx s n @ ps"
    unfolding recs_of_def [of xx t] d using records_frames [of xx "recs_of xx s n @ ps"] lt cap d by simp
  have seg: "same_seg s t m" if "m \<in> set ns" for m
    using hm [OF that] tf(8) by (simp add: same_seg_def data_of_def)
  have fokn: "file_ok xx t n"
    unfolding file_ok_def r
    using d lt cap file_okD [OF f] tf by (simp add: length_frame)
  have fok: "file_ok xx t m" if "m \<in> set (files t)" for m
    using that fs tf(1) fokn same_seg_flat(2) [OF seg, of m xx] queue_okD(1) [OF ok] by auto
  obtain at where lay: "at \<le> commitOff s" "lay (heap s) (commitOff s) at (ns @ [n]) (writeOff s)"
    using covered_lay [OF queue_okD(2) [OF ok]] fs by auto
  have w: "df_end (heap s n) = writeOff s" using lay_last [OF lay(2)] by simp
  have fl: "flat xx t = flat xx s @ offs (writeOff s) ps"
  proof -
    have "map (seg_flat xx t) ns = map (seg_flat xx s) ns" using same_seg_flat(1) [OF seg] by simp
    moreover have "seg_flat xx t n = seg_flat xx s n @ offs (writeOff s) ps"
      using w file_ok_data [OF f] by (simp add: seg_flat_def r tf offs_append [where xx = xx] df_end_def)
    ultimately show ?thesis by (simp add: flat_def tf(1) fs del: map_eq_conv)
  qed
  then show "flat xx t = flat xx s @ offs (writeOff s) ps" .
  have lw: "writeOff s \<le> writeOff t" using tf(4) by simp
  have cov: "covered t"
  proof -
    have b: "df_base (heap t m) = df_base (heap s m)" for m using tf(16,17) by (cases "m = n") auto
    have "df_end (heap t n) = df_end (heap s n) + int (length (frames xx ps))" by (simp add: df_end_def tf)
    then have "lay (heap t) (commitOff s) x (ns @ [n]) (writeOff s + int (length (frames xx ps)))"
      if "lay (heap s) (commitOff s) x (ns @ [n]) (writeOff s)" for x
      using lay_advance [OF that hm b] by blast
    then show ?thesis
      using queue_okD(2) [OF ok] b fs tf by (cases ns) (auto simp: covered_def simp del: lay.simps)
  qed
  have "nums_ok t"
    using queue_okD(3) [OF ok] tf fs unfolding nums_ok_def
    by (metis in_set_conv_decomp less_le_not_le)
  moreover have "block_ok t"
  proof (rule block_ok_grow [OF queue_okD(9) [OF ok]])
    fix m show "df_size (heap s m) \<le> df_size (heap t m) \<and> (\<exists>ys. data_of t m = data_of s m @ ys)"
    proof (cases "m = n")
      case True
      then show ?thesis using tf(18) advance_data [OF wr z] by (auto simp: t_def)
    next
      case False
      then show ?thesis using tf(16) tf(8) by (simp add: data_of_def)
    qed
  qed (simp_all add: tf)
  moreover have "boundary xx t x" if "boundary xx s x" for x
    using that fl tf(4) by (cases ps) (auto simp: boundary_def image_Un)
  moreover have "cache_ok xx t"
    using queue_okD(10) [OF ok] fl tf(6,7) lw by (fastforce simp: cache_ok_def dest: offs_from)
  moreover have "writeOff s \<le> writeOff t" using lw by simp
  ultimately show "queue_ok xx t"
    using fok cov queue_okD(4-8) [OF ok] tf unfolding queue_ok_def by auto
qed

lemma queue_ok_advance:
  assumes ok: "queue_ok xx s" and act: "active s = Some n"
    and wr: "written_at s n (df_size (heap s n)) (frame xx p)"
    and cap: "df_size (heap s n) + framedLen (length p) < 2 ^ 63"
  defines "t \<equiv> advanceAppend xx n (framedLen (length p)) 1 s"
  shows "queue_ok xx t" "flat xx t = flat xx s @ [(writeOff s, p)]"
  using queue_ok_advance_all [OF ok act, of "[p]"] wr cap by (simp_all add: t_def length_frame)

section \<open>Publishing the record\<close>

definition same_block :: "store \<Rightarrow> store \<Rightarrow> bool" where
  "same_block s s' \<longleftrightarrow> readBuf s' = readBuf s \<and> blockFile s' = blockFile s \<and> blockOff s' = blockOff s \<and> blockLen s' = blockLen s"

lemma same_block_refl [simp]: "same_block s s"
  by (simp add: same_block_def)

lemma same_block_trans: "same_block a b \<Longrightarrow> same_block b c \<Longrightarrow> same_block a c"
  by (simp add: same_block_def)

lemma same_block_core: "core s' = core s \<Longrightarrow> same_block s s'"
  unfolding same_block_def using core_eq_fields [of s' s] by blast

lemma same_block_os_run: "os_run f s = (r, s') \<Longrightarrow> same_block s s'"
  by (auto simp: same_block_def os_run_def split: prod.splits)

lemma same_block_mark_dirty: "same_block s (mark_dirty n s)"
  by (simp add: same_block_def mark_dirty_def upd_df_def)

lemma same_block_dirty [simp]: "same_block (mark_dirty n s) s' = same_block s s'"
  by (simp add: same_block_def mark_dirty_def upd_df_def)

lemma same_block_restoreHeader: "restoreHeader n s = (r, s') \<Longrightarrow> same_block s s'"
  unfolding restoreHeader_def
  by (auto simp: Let_def split: prod.splits option.splits if_splits sum.splits
      dest!: same_block_os_run intro: same_block_trans) (metis same_block_trans)

lemma same_block_writeHeader:
  assumes w: "writeHeader n s = (r, s')"
  shows "same_block s s'"
proof -
  obtain r1 s1 where 1: "(if df_open (heap s n) then (Inr (), s) else ensureOpen n s) = (r1, s1)" by force
  have b1: "same_block s s1" using 1 by (auto split: if_splits dest: core_ensureOpen same_block_core)
  obtain r2 s2 where 2: "os_run (os_pwrite n 0 (df_hdr (heap s1 n))) s1 = (r2, s2)" by force
  have b2: "same_block s s2" by (rule same_block_trans [OF b1 same_block_os_run [OF 2]])
  obtain r3 s3 where 3: "restoreHeader n s2 = (r3, s3)" by force
  have b3: "same_block s s3" by (rule same_block_trans [OF b2 same_block_restoreHeader [OF 3]])
  have b4: "same_block s s4" if "(failIO e s3 :: unit result \<times> store) = (q, s4)" for e q s4
    using same_block_trans [OF b3] same_block_core [OF core_failIO [OF that]] by blast
  have b5: "same_block s (mark_dirty n ((upd_df n f s2)\<lparr>nHeaderWrites := k\<rparr>))" for f k
    using b2 by (simp add: same_block_def mark_dirty_def upd_df_def)
  show ?thesis
    using w b1 b2 b3 b4 unfolding writeHeader_def 1
    by (auto simp: 2 3 b5 Let_def split: sum.splits option.splits if_splits prod.splits)
qed

text \<open>A publication that failed is undone: the cursors and the segment are as they were.\<close>

lemma rollback_spec:
  assumes ok: "queue_ok xx s" and n: "n \<in> set (files s)" and b: "0 \<le> b"
    and w: "writeHeader n (advanceAppend xx n b k s) = (r, s1)"
  defines "t \<equiv> advanceAppend xx n (- b) (- k) s1"
  shows "queue_ok xx t \<and> unread xx t = unread xx s \<and> backlog xx t = backlog xx s" "m \<in> set (files s) \<Longrightarrow> same_seg s t m"
proof -
  let ?a = "advanceAppend xx n b k s"
  have fok: "file_ok xx s n" by (rule queue_okD(1) [OF ok n])
  have len: "length (df_hdr (heap s n)) = headerSize" by (rule file_okD(5) [OF fok])
  have z: "0 \<le> df_size (heap s n)" by (rule file_ok_size [OF fok])
  note af = advance_fields [where xx = xx and n = n and b = b and k = k and s = s]
  note tf = advance_fields [where xx = xx and n = n and b = "- b" and k = "- k" and s = s1, folded t_def]
  have q: "quiet ?a s1" by (rule quiet_writeHeader [OF w]) (simp add: af len)
  then have sh: "shape s1 = shape ?a" by (simp add: quiet_def)
  note f1 = shape_eq_fields [OF sh] shape_eq_df_fields [OF sh]
  have sz: "df_size (heap t m) = df_size (heap s m)" for m by (cases "m = n") (simp_all add: tf f1 af)
  have dat: "data_of t m = data_of s m" for m
  proof (cases "m = n")
    case True
    let ?k = "nat (df_size (heap s n))" and ?j = "nat (df_size (heap s n) + b)"
    have "data_of s1 n = data_of ?a n" by (rule quiet_data [OF q])
    then have "take ?j (drop headerSize (inode (os s1) n)) = take ?j (drop headerSize (inode (os s) n))"
      by (simp add: data_of_alt f1 af)
    then have "take ?k (take ?j (drop headerSize (inode (os s1) n))) = take ?k (take ?j (drop headerSize (inode (os s) n)))"
      by (rule arg_cong)
    moreover have "?k \<le> ?j" using b z by simp
    ultimately show ?thesis using True sz [of n] tf(8) by (simp add: data_of_alt min_absorb1)
  next
    case False
    then show ?thesis using quiet_data [OF q, of m] by (simp add: data_of_def tf af f1)
  qed
  have hdr: "length (df_hdr (heap t n)) = headerSize" by (rule tf(21)) (simp add: f1 af len)
  have seg: "same_seg s t m" if "m \<in> set (files s)" for m
    using dat [of m] sz [of m] hdr len by (cases "m = n") (simp_all add: same_seg_def tf f1 af)
  have "block_ok t"
    by (rule block_ok_grow [OF queue_okD(9) [OF ok]])
      (use same_block_writeHeader [OF w] in \<open>simp_all add: same_block_def tf af dat sz\<close>)
  then show "queue_ok xx t \<and> unread xx t = unread xx s \<and> backlog xx t = backlog xx s"
    by (intro queue_ok_same [OF ok] seg) (simp_all add: tf f1 af sz)
  show "m \<in> set (files s) \<Longrightarrow> same_seg s t m" by (rule seg)
qed

definition appended :: "hash \<Rightarrow> bytes list \<Rightarrow> store \<Rightarrow> store \<Rightarrow> bool" where
  "appended xx ps s s' \<longleftrightarrow> unread xx s' = unread xx s @ ps \<and> backlog xx s' = backlog xx s @ ps"

lemma appended_quiet: "appended xx ps a b \<Longrightarrow> quiet b c \<Longrightarrow> appended xx ps a c"
  using quiet_flat(3,4) [of b c xx] by (simp add: appended_def)

lemma appended_flat:
  assumes "queue_ok xx s" "flat xx t = flat xx s @ [(writeOff s, p)]" "headOff t = headOff s" "commitOff t = commitOff s"
  shows "appended xx [p] s t"
  using queue_okD(5,6) [OF assms(1)] assms by (simp add: appended_def unread_def backlog_def from_off_def)

lemma publishAppend_spec:
  assumes ok: "queue_ok xx s" and act: "active s = Some n"
    and wr: "written_at s n (df_size (heap s n)) (frame xx p)"
    and cap: "df_size (heap s n) + framedLen (length p) < 2 ^ 63"
    and pub: "publishAppend xx n (framedLen (length p)) s = (r, s')"
  shows "queue_ok xx s' \<and> (\<forall>u. r = Inr u \<longrightarrow> appended xx [p] s s') \<and>
    (\<forall>e. r = Inl e \<longrightarrow> appended xx [] s s' \<or> appended xx [p] s s' \<and> (ioErr s' \<noteq> None \<or> batched s))"
proof -
  define t where "t = advanceAppend xx n (framedLen (length p)) 1 s"
  note q = queue_ok_advance [OF ok act wr cap, folded t_def]
  note tf = advance_fields [where xx = xx and n = n and b = "framedLen (length p)" and k = 1 and s = s, folded t_def]
  have n: "n \<in> set (files s)" using act by (auto simp: active_def split: if_splits)
  obtain r1 s1 where w: "writeHeader n t = (r1, s1)" by force
  have ap: "appended xx [p] s t" by (rule appended_flat [OF ok q(2)]) (simp_all add: tf)
  have q1: "quiet t s1"
    by (rule quiet_writeHeader [OF w]) (simp add: tf file_okD(5) [OF queue_okD(1) [OF ok n]])
  have fin: "queue_ok xx x \<and> appended xx [p] s x" if "quiet s1 x" for x
    using quiet_trans [OF q1 that] quiet_queue_ok [OF _ q(1)] appended_quiet [OF ap] by blast
  show ?thesis
  proof (cases r1)
    case (Inl e)
    then have "r = Inl e" "s' = advanceAppend xx n (- framedLen (length p)) (- 1) s1"
      using pub w by (simp_all add: publishAppend_def rollbackAppend_def t_def)
    moreover have "0 \<le> framedLen (length p)" using framedLen_gt0 [of "length p"] by linarith
    ultimately show ?thesis using rollback_spec(1) [OF ok n _ w [unfolded t_def]] by (simp add: appended_def)
  next
    case (Inr u)
    have mode: "noSync s1 = noSync s" "batched s1 = batched s"
      using q1 shape_eq_fields(5,6) [of s1 t] tf by (simp_all add: quiet_def batched_def)
    obtain r2 s2 where ds: "os_run (datasync n) s1 = (r2, s2)" by force
    have qd: "quiet s1 s2" "quiet s1 (upd_df n (\<lambda>d. d\<lparr>df_dirty := False\<rparr>) s2)"
      using quiet_datasync [OF ds] quiet_upd_df [of "\<lambda>d. d\<lparr>df_dirty := False\<rparr>" s2 n] by (auto intro: quiet_trans)
    show ?thesis
    proof (cases "noSync s \<or> batched s")
      case True
      then have "quiet s1 s' \<and> (noSync s \<longrightarrow> r = Inr ())"
        using pub w Inr mode quiet_trans [OF quiet_fields(3) quiet_recordOp]
        unfolding publishAppend_def t_def [symmetric] by (auto simp: batched_def split: if_splits)
      then show ?thesis using fin True by blast
    next
      case False
      have "quiet s1 s' \<and> (\<forall>e. r = Inl e \<longrightarrow> ioErr s' \<noteq> None)"
      proof (cases r2)
        case i: (Inl e)
        then have "failIO e s2 = (r, s')" using pub w Inr mode False ds by (simp add: publishAppend_def t_def)
        then show ?thesis using quiet_trans [OF qd(1) quiet_failIO] failIO_result by fastforce
      next
        case i: (Inr x)
        then show ?thesis using pub w Inr mode False ds qd by (auto simp: publishAppend_def t_def)
      qed
      then show ?thesis using fin by blast
    qed
  qed
qed

section \<open>Appending\<close>

lemma admit_small: "admitRecord recLen force s = (Inr u, s1) \<Longrightarrow> recLen \<le> maxFramedLen \<and> s1 = s"
  by (auto simp: admitRecord_def framedTooLarge_def split: if_splits)

lemma queue_ok_counters [simp]:
  "queue_ok xx (s\<lparr>nFull := k\<rparr>) = queue_ok xx s" "unread xx (s\<lparr>nFull := k\<rparr>) = unread xx s"
  "backlog xx (s\<lparr>nFull := k\<rparr>) = backlog xx s" "loose_ok xx (s\<lparr>nFull := k\<rparr>) = loose_ok xx s"
  "stranded (s\<lparr>nFull := k\<rparr>) = stranded s"
proof -
  have "recs_of xx (s\<lparr>nFull := k\<rparr>) = recs_of xx s" "data_of (s\<lparr>nFull := k\<rparr>) = data_of s"
    by (auto simp: recs_of_def data_of_def)
  moreover from this have "flat xx (s\<lparr>nFull := k\<rparr>) = flat xx s" "file_ok xx (s\<lparr>nFull := k\<rparr>) = file_ok xx s"
    by (auto simp: flat_def seg_flat_def [abs_def] file_ok_def fun_eq_iff)
  ultimately show "queue_ok xx (s\<lparr>nFull := k\<rparr>) = queue_ok xx s" "unread xx (s\<lparr>nFull := k\<rparr>) = unread xx s"
    "backlog xx (s\<lparr>nFull := k\<rparr>) = backlog xx s" "loose_ok xx (s\<lparr>nFull := k\<rparr>) = loose_ok xx s"
    "stranded (s\<lparr>nFull := k\<rparr>) = stranded s"
    by (simp_all add: queue_ok_def loose_ok_def loose_def stranded_def covered_def nums_ok_def boundary_def cache_ok_def block_ok_def unread_def
        backlog_def cong: option.case_cong list.case_cong)
qed

lemma admit_queue: "admitRecord recLen force s = (r, s1) \<Longrightarrow> queue_ok xx s \<Longrightarrow> queue_ok xx s1 \<and> appended xx [] s s1"
  by (auto simp: admitRecord_def appended_def split: if_splits)

text \<open>The writing half of an append, once the active segment has room.\<close>

definition has_room :: "int \<Rightarrow> store \<Rightarrow> nat \<Rightarrow> bool" where
  "has_room need s n \<longleftrightarrow> active s = Some n \<and> df_size (heap s n) + need \<le> df_capacity (heap s n)"

lemma has_room_quiet: "quiet s s' \<Longrightarrow> has_room need s n \<Longrightarrow> has_room need s' n"
  using shape_eq_fields(8) [of s' s] shape_eq_df_fields(4,5) [of s' s n] by (auto simp: has_room_def quiet_def active_def)

definition append_outcome :: "hash \<Rightarrow> bytes \<Rightarrow> store \<Rightarrow> unit result \<Rightarrow> store \<Rightarrow> bool" where
  "append_outcome xx p s r s' \<longleftrightarrow> queue_ok xx s' \<and> (\<forall>u. r = Inr u \<longrightarrow> appended xx [p] s s') \<and>
    (\<forall>e. r = Inl e \<longrightarrow> appended xx [] s s' \<or> appended xx [p] s s' \<and> (ioErr s' \<noteq> None \<or> batched s))"

lemma append_outcome_trans:
  "append_outcome xx p b r c \<Longrightarrow> appended xx [] a b \<Longrightarrow> batched b = batched a \<Longrightarrow> append_outcome xx p a r c"
  by (auto simp: append_outcome_def appended_def)

lemma append_outcome_fail: "queue_ok xx s' \<Longrightarrow> appended xx [] s s' \<Longrightarrow> append_outcome xx p s (Inl e) s'"
  by (simp add: append_outcome_def)

lemma settings_batched: "settings s' = settings s \<Longrightarrow> batched s' = batched s"
  by (simp add: settings_defs batched_def)

lemma appended_quiet_nil: "quiet s s' \<Longrightarrow> appended xx [] s s'"
  using appended_quiet [of xx "[]" s s s'] by (simp add: appended_def)

lemma written_at_quiet:
  assumes "core s' = core s" "written_at s n off bs"
  shows "written_at s' n off bs"
  using assms core_eq_fields [OF assms(1)] by (simp add: written_at_def)

definition append_write :: "hash \<Rightarrow> bytes \<Rightarrow> nat \<Rightarrow> unit op" where
  "append_write xx payload af s =
     (case ensureOpen af s of
        (Inl e, s3) \<Rightarrow> (Inl e, s3)
      | (Inr _, s3) \<Rightarrow>
        (case ioErr s3 of
           Some e \<Rightarrow> (Inl e, s3)
         | None \<Rightarrow>
           (case writeRecord xx af (df_size (heap s3 af)) payload s3 of
              (r, s4) \<Rightarrow>
                let s5 = s4\<lparr>writeBuf := trimOver (writeBuf s4) (segmentSize s4)\<rparr>
                in case r of
                     Inl e \<Rightarrow> (Inl e, s5)
                   | Inr _ \<Rightarrow>
                     if perOp s5 then
                       (case os_run (datasync af) s5 of
                          (Inl e, s6) \<Rightarrow> failIO e s6
                        | (Inr _, s6) \<Rightarrow> publishAppend xx af (framedLen (length payload)) s6)
                     else publishAppend xx af (framedLen (length payload)) s5)))"

lemma appendRecord_alt:
  "appendRecord xx payload force s =
     (case ioErr s of
        Some e \<Rightarrow> (Inl e, s)
      | None \<Rightarrow>
        let recLen = framedLen (length payload)
        in case admitRecord recLen force s of
          (Inl e, s1) \<Rightarrow> (Inl e, s1)
        | (Inr _, s1) \<Rightarrow>
          (case (if needsCycle recLen s1 then cycle xx recLen force s1 else (Inr (), s1)) of
             (Inl e, s2) \<Rightarrow> (Inl e, if err_is e ErrFull then s2\<lparr>nFull := nFull s2 + 1\<rparr> else s2)
           | (Inr _, s2) \<Rightarrow> append_write xx payload (the (active s2)) s2))"
  unfolding appendRecord_def append_write_def Let_def ..

lemma append_write_spec:
  assumes ok: "queue_ok xx s" and room: "has_room (framedLen (length p)) s n"
    and a: "append_write xx p n s = (r, s')"
  shows "append_outcome xx p s r s'"
proof -
  have n: "n \<in> set (files s)" using room by (auto simp: has_room_def active_def split: if_splits)
  obtain r3 s3 where 3: "ensureOpen n s = (r3, s3)" by force
  have q3: "quiet s s3" by (rule quiet_ensureOpen [OF 3])
  have fail: "append_outcome xx p s (Inl e) x" if "quiet s x" for x e
    using quiet_queue_ok [OF that ok] appended_quiet_nil [OF that] by (rule append_outcome_fail)
  show ?thesis
  proof (cases "\<exists>u. r3 = Inr u \<and> ioErr s3 = None")
    case False
    then have "s' = s3 \<and> (\<exists>e. r = Inl e)" using a 3 by (auto simp: append_write_def split: sum.splits option.splits)
    then show ?thesis using fail [OF q3] by blast
  next
    case True
    obtain r4 s4 where 4: "writeRecord xx n (df_size (heap s3 n)) p s3 = (r4, s4)" by force
    have ok3: "queue_ok xx s3" by (rule quiet_queue_ok [OF q3 ok])
    have f3: "file_ok xx s3 n" using quiet_file_ok [OF q3] queue_okD(1) [OF ok n] by simp
    note w4 = writeRecord_spec [OF f3 order_refl 4]
    define s5 where "s5 = s4\<lparr>writeBuf := trimOver (writeBuf s4) (segmentSize s4)\<rparr>"
    have q5: "quiet s s5" unfolding s5_def by (rule quiet_trans [OF quiet_trans [OF q3 w4(1)] quiet_fields(6)])
    obtain r6 s6 where 6: "os_run (datasync n) s5 = (r6, s6)" by force
    have q6: "quiet s s6" by (rule quiet_trans [OF q5 quiet_datasync [OF 6]])
    have out: "(r, s') = (case r4 of Inl e \<Rightarrow> (Inl e, s5) | Inr _ \<Rightarrow>
        if perOp s5 then (case r6 of Inl e \<Rightarrow> failIO e s6 | Inr _ \<Rightarrow> publishAppend xx n (framedLen (length p)) s6)
        else publishAppend xx n (framedLen (length p)) s5)"
      using a 3 True 4 6 by (auto simp: append_write_def s5_def [symmetric] split: sum.splits)
    have pub: "append_outcome xx p s r s'"
      if q: "quiet s x" and w: "written_at x n (df_size (heap s3 n)) (frame xx p)"
        and pb: "publishAppend xx n (framedLen (length p)) x = (r, s')" for x
    proof -
      have sh: "shape x = shape s" "shape s3 = shape s" using q q3 by (simp_all add: quiet_def)
      note fx = shape_eq_df_fields [OF sh(1)] shape_eq_df_fields [OF sh(2)]
      have rx: "active x = Some n" "df_size (heap x n) + framedLen (length p) \<le> df_capacity (heap x n)"
        using has_room_quiet [OF q room] by (simp_all add: has_room_def)
      have "df_capacity (heap x n) < 2 ^ 63" using file_okD(2) [OF queue_okD(1) [OF ok n]] fx by simp
      then have "append_outcome xx p x r s'"
        using publishAppend_spec [OF quiet_queue_ok [OF q ok] rx(1) _ _ pb] w rx(2) fx
        by (simp add: append_outcome_def)
      then show ?thesis
        using append_outcome_trans appended_quiet_nil [OF q] settings_batched [OF settings_quiet [OF q]] by blast
    qed
    show ?thesis
    proof (cases r4)
      case (Inl e)
      then show ?thesis using out fail [OF q5] by simp
    next
      case (Inr u)
      have w5: "written_at s5 n (df_size (heap s3 n)) (frame xx p)"
        using w4(2) [OF Inr] by (simp add: s5_def written_at_def)
      have w6: "written_at s6 n (df_size (heap s3 n)) (frame xx p)"
        by (rule written_at_quiet [OF core_datasync [OF 6] w5])
      show ?thesis
      proof (cases "perOp s5 \<and> (\<exists>e. r6 = Inl e)")
        case True
        then obtain e where "failIO e s6 = (r, s')" using out Inr by auto
        then show ?thesis
          using fail [OF quiet_trans [OF q6 quiet_failIO]] failIO_result by blast
      next
        case False
        then show ?thesis using out Inr pub [OF q5 w5] pub [OF q6 w6] by (cases r6) (auto split: if_splits)
      qed
    qed
  qed
qed

lemma maxFramedLen_small: "maxFramedLen < 2 ^ 63"
  by (simp add: maxFramedLen_def maxInt64_def)

text \<open>
  An append that failed to cycle may leave the queue stranded: nothing is lost then, and everything
  was committed.
\<close>

definition append_stranded :: "hash \<Rightarrow> store \<Rightarrow> unit result \<Rightarrow> store \<Rightarrow> bool" where
  "append_stranded xx s r s' \<longleftrightarrow> loose_ok xx s' \<and> stranded s' \<and> appended xx [] s s' \<and> (\<exists>e. r = Inl e)"

lemma appendRecord_outcome:
  assumes ok: "queue_ok xx s" and staged: "stagedBytes s = 0"
    and seg: "segmentSize s < 2 ^ 63" and a: "appendRecord xx p force s = (r, s')"
  shows "append_outcome xx p s r s' \<or> append_stranded xx s r s'"
proof -
  let ?L = "framedLen (length p)"
  show ?thesis
  proof (cases "ioErr s = None \<and> admitRecord ?L force s = (Inr (), s)")
    case False
    obtain r1 s1 where 1: "admitRecord ?L force s = (r1, s1)" by force
    have "append_outcome xx p s (Inl e) s" "append_outcome xx p s (Inl e) s1" for e
      using append_outcome_fail [OF ok] append_outcome_fail admit_queue [OF 1 ok] by (auto simp: appended_def)
    moreover have "\<exists>e. (r, s') = (Inl e, s) \<or> (r, s') = (Inl e, s1)"
      using a False 1 admit_small [of ?L force s "()" s1]
      by (auto simp: appendRecord_def Let_def split: option.splits sum.splits)
    ultimately show ?thesis by auto
  next
    case True
    have L: "?L < 2 ^ 63" using admit_small [of ?L force s "()" s] True maxFramedLen_small by simp
    obtain r2 s2 where 2: "(if needsCycle ?L s then cycle xx ?L force s else (Inr (), s)) = (r2, s2)" by force
    have c: "loose_ok xx s2 \<and> appended xx [] s s2 \<and> settings s2 = settings s" "r2 = Inr u \<Longrightarrow> queue_ok xx s2" for u
      using 2 cycle_spec [OF ok seg L] ok queue_loose [OF ok] by (auto simp: appended_def split: if_splits)
    note out = a [unfolded appendRecord_alt Let_def]
    show ?thesis
    proof (cases r2)
      case (Inl e)
      then have "r = Inl e" "s' = s2 \<or> s' = s2\<lparr>nFull := nFull s2 + 1\<rparr>" using out True 2 by (auto split: if_splits)
      then show ?thesis using c(1) loose_queue [of xx s2] by (cases "stranded s2") (auto simp: appended_def append_outcome_def append_stranded_def)
    next
      case (Inr u)
      obtain n where room: "has_room ?L s2 n"
      proof (cases "needsCycle ?L s")
        case True
        then have "cycled ?L s2" using cycle_spec [OF ok seg L] 2 Inr by simp
        then show ?thesis using that by (auto simp: cycled_def new_seg_def has_room_def)
      next
        case False
        then show ?thesis using that 2 staged by (auto simp: needsCycle_def has_room_def split: option.splits)
      qed
      then have "append_write xx p n s2 = (r, s')" using out True 2 Inr by (simp add: has_room_def)
      then have "append_outcome xx p s2 r s'" by (rule append_write_spec [OF c(2) [OF Inr] room])
      then show ?thesis using append_outcome_trans c(1) settings_batched by blast
    qed
  qed
qed

lemma appendRecord_kept:
  assumes "queue_ok xx s" "stagedBytes s = 0" "segmentSize s < 2 ^ 63" "appendRecord xx p force s = (r, s')"
    and n: "\<not> stranded s'"
  shows "append_outcome xx p s r s'"
  using appendRecord_outcome [OF assms(1-4)] n by (simp add: append_stranded_def)

text \<open>While anything is uncommitted, no append strands the queue.\<close>

lemma appendRecord_uncommitted:
  assumes ok: "queue_ok xx s" and w: "commitOff s < writeOff s"
    and a: "stagedBytes s = 0" "segmentSize s < 2 ^ 63" "appendRecord xx p force s = (r, s')"
  shows "append_outcome xx p s r s'"
proof -
  have "commitOff s \<in> fst ` set (flat xx s)" using queue_okD(7) [OF ok] w by (simp add: boundary_def)
  then have "backlog xx s \<noteq> []" unfolding backlog_def by (rule in_from_off) simp
  then show ?thesis
    using appendRecord_outcome [OF ok a] stranded_empty(3) by (auto simp: append_stranded_def appended_def)
qed

section \<open>What an append leaves alone\<close>

lemma settings_advance [simp]: "settings (advanceAppend xx n b k s) = settings s"
  by (simp add: settings_defs advanceAppend_def Let_def upd_df_def)

lemma settings_publishAppend:
  assumes len: "length (df_hdr (heap s n)) = headerSize" and p: "publishAppend xx n L s = (r, s')"
  shows "settings s' = settings s"
proof -
  let ?t = "advanceAppend xx n L 1 s"
  obtain r1 s1 where w: "writeHeader n ?t = (r1, s1)" by force
  have "quiet ?t s1" by (rule quiet_writeHeader [OF w]) (simp add: advance_fields len)
  then have st1: "settings s1 = settings s" using settings_quiet by fastforce
  have q: "settings x = settings s1" if "quiet s1 x" for x by (rule settings_quiet [OF that])
  show ?thesis
  proof (cases "\<exists>e. r1 = Inl e")
    case True
    then show ?thesis using p w st1 by (auto simp: publishAppend_def rollbackAppend_def)
  next
    case False
    obtain r2 s2 where ds: "os_run (datasync n) s1 = (r2, s2)" by force
    have qd: "quiet s1 s2" "quiet s1 (upd_df n (\<lambda>d. d\<lparr>df_dirty := False\<rparr>) s2)"
      using quiet_datasync [OF ds] quiet_upd_df [of "\<lambda>d. d\<lparr>df_dirty := False\<rparr>" s2 n] by (auto intro: quiet_trans)
    have "quiet s1 s'"
      using p w False ds qd quiet_trans [OF quiet_fields(3) quiet_recordOp] quiet_trans [OF qd(1) quiet_failIO]
      by (auto simp: publishAppend_def split: if_splits sum.splits)
    then show ?thesis using q st1 by simp
  qed
qed

lemma settings_append_write:
  assumes f: "file_ok xx s n" and a: "append_write xx p n s = (r, s')"
  shows "settings s' = settings s"
proof -
  obtain r3 s3 where 3: "ensureOpen n s = (r3, s3)" by force
  have q3: "quiet s s3" by (rule quiet_ensureOpen [OF 3])
  have f3: "file_ok xx s3 n" using quiet_file_ok [OF q3] f by simp
  obtain r4 s4 where 4: "writeRecord xx n (df_size (heap s3 n)) p s3 = (r4, s4)" by force
  define s5 where "s5 = s4\<lparr>writeBuf := trimOver (writeBuf s4) (segmentSize s4)\<rparr>"
  have q5: "quiet s s5" unfolding s5_def
    by (rule quiet_trans [OF quiet_trans [OF q3 writeRecord_spec(1) [OF f3 order_refl 4]] quiet_fields(6)])
  obtain r6 s6 where 6: "os_run (datasync n) s5 = (r6, s6)" by force
  have q6: "quiet s s6" by (rule quiet_trans [OF q5 quiet_datasync [OF 6]])
  have pub: "settings s' = settings s" if "quiet s x" "publishAppend xx n L x = (r, s')" for x L
    using settings_publishAppend [OF _ that(2)] settings_quiet [OF that(1)] file_okD(5) [of xx x n] quiet_file_ok [OF that(1)] f by simp
  show ?thesis
    using a 3 4 6 settings_quiet [OF q3] settings_quiet [OF q5] settings_quiet [OF quiet_trans [OF q6 quiet_failIO]] pub [OF q5] pub [OF q6]
    by (auto simp: append_write_def s5_def [symmetric] Let_def split: sum.splits option.splits if_splits)
qed

lemma appendRecord_settings:
  assumes ok: "queue_ok xx s" and staged: "stagedBytes s = 0"
    and seg: "segmentSize s < 2 ^ 63" and a: "appendRecord xx p force s = (r, s')"
  shows "settings s' = settings s"
proof (cases "ioErr s = None \<and> admitRecord (framedLen (length p)) force s = (Inr (), s)")
  case False
  obtain r1 s1 where 1: "admitRecord (framedLen (length p)) force s = (r1, s1)" by force
  have "settings s1 = settings s" using 1 by (auto simp: admitRecord_def settings_defs split: if_splits)
  moreover have "s' = s \<or> s' = s1"
    using a False 1 admit_small [of "framedLen (length p)" force s "()" s1] by (auto simp: appendRecord_def Let_def split: option.splits sum.splits)
  ultimately show ?thesis by auto
next
  case True
  let ?L = "framedLen (length p)"
  have L: "?L < 2 ^ 63" using admit_small [of ?L force s "()" s] True maxFramedLen_small by simp
  obtain r2 s2 where 2: "(if needsCycle ?L s then cycle xx ?L force s else (Inr (), s)) = (r2, s2)" by force
  have c: "loose_ok xx s2 \<and> settings s2 = settings s"
    using 2 cycle_spec [OF ok seg L] queue_loose [OF ok] by (auto split: if_splits)
  have act: "\<exists>n. active s2 = Some n" if "r2 = Inr ()"
  proof (cases "needsCycle ?L s")
    case True
    then have "cycled ?L s2" using cycle_spec [OF ok seg L] 2 that by simp
    then show ?thesis by (auto simp: cycled_def)
  next
    case False
    then show ?thesis using 2 by (auto simp: needsCycle_def split: option.splits)
  qed
  note out = a [unfolded appendRecord_alt Let_def]
  show ?thesis
  proof (cases r2)
    case (Inl e)
    then have "s' = s2 \<or> s' = s2\<lparr>nFull := nFull s2 + 1\<rparr>" using out True 2 by (auto split: if_splits)
    then show ?thesis using c by (auto simp: settings_defs)
  next
    case (Inr u)
    then obtain n where n: "active s2 = Some n" using act by auto
    then have "n \<in> set (files s2)" by (auto simp: active_def split: if_splits)
    then have "file_ok xx s2 n" using loose_okD(1) c by blast
    moreover have "append_write xx p n s2 = (r, s')" using out True 2 Inr n by simp
    ultimately show ?thesis using settings_append_write c by metis
  qed
qed

end
