(* ===== verification/Append_Live.thy ===== *)
theory Append_Live
  imports Append_Refine
begin

text \<open>
  On a healthy disk nothing on the append path fails: every header publication, flush, segment
  creation and record write succeeds, so an append that is admitted and finds or can create room
  succeeds.
\<close>

section \<open>Operations that cannot fail on a healthy disk\<close>

definition smooth :: "store \<Rightarrow> unit result \<Rightarrow> store \<Rightarrow> bool" where
  "smooth s r s' \<longleftrightarrow> r = Inr () \<and> healthy s' \<and> linked (os s') = linked (os s)"

lemma smooth_trans: "smooth a r b \<Longrightarrow> smooth b r' c \<Longrightarrow> smooth a r' c"
  by (simp add: smooth_def)

lemma smooth_ensureOpen:
  assumes "healthy s" "linked (os s) n" "ensureOpen n s = (r, s')"
  shows "smooth s r s'"
  using healthy_ensureOpen [OF assms(1,2)] core_eq_fields [OF core_ensureOpen [OF assms(3)]] assms(3)
  by (metis smooth_def prod.inject)

lemma smooth_datasync: "healthy s \<Longrightarrow> os_run (datasync n) s = (r, s') \<Longrightarrow> smooth s r s'"
  by (auto simp: smooth_def healthy_def os_run_def os_healthy)

lemma smooth_fsync: "healthy s \<Longrightarrow> os_run (os_fsync n) s = (r, s') \<Longrightarrow> smooth s r s'"
  by (auto simp: smooth_def healthy_def os_run_def os_healthy)

lemma smooth_pwrite: "healthy s \<Longrightarrow> os_run (os_pwrite n off bs) s = (r, s') \<Longrightarrow> smooth s r s'"
  by (auto simp: smooth_def healthy_def os_run_def os_healthy)

lemma smooth_preallocate: "healthy s \<Longrightarrow> os_run (preallocate n k) s = (r, s') \<Longrightarrow> smooth s r s'"
  by (auto simp: smooth_def healthy_def os_run_def preallocate_def os_fallocate_def)

lemma smooth_syncDir: "healthy s \<Longrightarrow> syncDir s = (r, s') \<Longrightarrow> smooth s r s'"
  by (auto simp: smooth_def healthy_def syncDir_def os_run_def os_healthy split: if_splits)

lemma smooth_writeHeader:
  assumes h: "healthy s" "linked (os s) n" and w: "writeHeader n s = (r, s')"
  shows "smooth s r s'"
proof -
  obtain r1 s1 where 1: "(if df_open (heap s n) then (Inr (), s) else ensureOpen n s) = (r1, s1)" by force
  have s1: "smooth s r1 s1" using 1 smooth_ensureOpen [OF h] h by (auto simp: smooth_def split: if_splits)
  obtain r2 s2 where 2: "os_run (os_pwrite n 0 (df_hdr (heap s1 n))) s1 = (r2, s2)" by force
  have s2: "smooth s1 r2 s2" using smooth_pwrite [OF _ 2] s1 by (simp add: smooth_def)
  have "ioErr s1 = None" using s1 by (simp add: smooth_def healthy_def)
  then show ?thesis
    using w 1 2 s1 s2 by (auto simp: writeHeader_def smooth_def Let_def mark_dirty_def healthy_def)
qed

lemma smooth_flushFile: "healthy s \<Longrightarrow> linked (os s) n \<Longrightarrow> flushFile n s = (r, s') \<Longrightarrow> smooth s r s'"
proof -
  assume h: "healthy s" "linked (os s) n" and f: "flushFile n s = (r, s')"
  obtain r1 s1 where 1: "(if df_open (heap s n) then (Inr (), s) else ensureOpen n s) = (r1, s1)" by force
  have s1: "smooth s r1 s1" using 1 smooth_ensureOpen [OF h] h by (auto simp: smooth_def split: if_splits)
  obtain r2 s2 where 2: "flushSync n s1 = (r2, s2)" by force
  have "smooth s1 r2 s2"
    using 2 healthy_flushSync [of s1 n] s1 by (auto simp: smooth_def healthy_def)
  then have "smooth s r2 s2" by (rule smooth_trans [OF s1])
  moreover have "(r, s') = (if df_dirty (heap s n) then (r2, s2) else (Inr (), s))"
    using f 2 s1 unfolding flushFile_def 1 by (auto simp: smooth_def)
  ultimately show ?thesis using h by (auto simp: smooth_def split: if_splits)
qed

lemma smooth_flush_all:
  "healthy s \<Longrightarrow> \<forall>n \<in> set ns. linked (os s) n \<Longrightarrow> flush_all ns None s = (e, s') \<Longrightarrow>
   e = None \<and> healthy s' \<and> linked (os s') = linked (os s)"
proof (induction ns arbitrary: s)
  case (Cons n ns)
  obtain r1 s1 where 1: "flushFile n s = (r1, s1)" by force
  have "smooth s r1 s1" using smooth_flushFile [OF _ _ 1] Cons.prems by simp
  then show ?case using Cons.IH [of s1] Cons.prems 1 by (simp add: smooth_def err_join_def)
qed simp

lemma smooth_recordOp:
  assumes "healthy s" "\<forall>n \<in> set (files s). linked (os s) n" "recordOp s = (r, s')"
  shows "smooth s r s'"
proof -
  let ?s = "s\<lparr>unsynced := unsynced s + 1\<rparr>"
  obtain e s1 where 1: "flush_all (files ?s) None ?s = (e, s1)" by force
  have s1: "e = None \<and> healthy s1 \<and> linked (os s1) = linked (os s)"
    using smooth_flush_all [OF _ _ 1] assms by (simp add: healthy_def)
  obtain r2 s2 where 2: "syncDir s1 = (r2, s2)" by force
  have "smooth s1 r2 s2" using smooth_syncDir [OF _ 2] s1 by blast
  then show ?thesis
    using assms 1 2 s1 by (auto simp: recordOp_def recordOps_def flushBatch_def Let_def smooth_def healthy_def split: if_splits)
qed

section \<open>Making room\<close>

lemma smooth_createFile:
  assumes h: "healthy s" and n: "n \<noteq> 0" "\<not> linked (os s) n" and c: "createFile xx n base cap s = (r, s')"
  shows "r = Inr n \<and> healthy s' \<and> linked (os s') = (linked (os s))(n := True)"
proof -
  let ?s1 = "s\<lparr>os := (os s)\<lparr>inode := (inode (os s))(n := []), linked := (linked (os s))(n := True), stable := (stable (os s))(n := []),
      stable_dir := (stable_dir (os s))(n := False)\<rparr>\<rparr>"
  have 1: "os_run (os_create n) s = (Inr (), ?s1)"
    using h n by (simp add: os_run_def os_create_def healthy_def)
  have h1: "healthy ?s1" using h by (simp add: healthy_def)
  obtain r2 s2 where 2: "os_run (preallocate n (int headerSize + cap)) ?s1 = (r2, s2)" by force
  note s2 = smooth_preallocate [OF h1 2]
  define s3 where "s3 = upd_df n (\<lambda>_. header xx (create_mods cap (segmentSize s2))
      ((zero_dataFile n)\<lparr>df_open := True, df_base := base, df_capacity := cap\<rparr>)) s2"
  have h3: "healthy s3" "linked (os s3) = (linked (os s))(n := True)" using s2 by (simp_all add: s3_def smooth_def)
  obtain r4 s4 where 4: "writeHeader n s3 = (r4, s4)" by force
  have s4: "smooth s3 r4 s4" using smooth_writeHeader [OF h3(1) _ 4] h3(2) by simp
  obtain r5 s5 where 5: "os_run (os_fsync n) s4 = (r5, s5)" by force
  have s5: "smooth s4 r5 s5" using smooth_fsync [OF _ 5] s4 by (simp add: smooth_def)
  show ?thesis
    using c n(1) 1 2 4 5 s2 s4 s5 h3 by (auto simp: createFile_def s3_def [symmetric] smooth_def Let_def split: if_splits)
qed

lemma healthy_drop_loop: "healthy s \<Longrightarrow> drop_loop keep ns s = (sv, rest, s') \<Longrightarrow> healthy s'"
proof (induction keep ns s arbitrary: sv rest s' rule: drop_loop.induct)
  case (2 keep n ns s)
  let ?s1 = "if df_open (heap s n) then untrackOpen n (upd_df n (\<lambda>d. d\<lparr>df_open := False\<rparr>) (snd (os_run os_close s))) else s"
  have h1: "healthy ?s1" using 2(4) by (simp add: healthy_os_close untrackOpen_def)
  obtain r2 s2 where r: "os_run (os_remove n) ?s1 = (r2, s2)" by force
  then have h2: "healthy s2" using h1 by (auto simp: healthy_def os_run_def os_remove_def split: if_splits)
  have f: "healthy (s2\<lparr>unreclaimed := a\<rparr>)" "healthy (s2\<lparr>nWritten := a, nCommitted := b, diskBytes := c\<rparr>)" for a b c
    using h2 by (simp_all add: healthy_def)
  show ?case
    using 2 r f by (auto simp: Let_def split: if_splits prod.splits sum.splits)
qed simp

lemma dropCommitted_healthy: "healthy s \<Longrightarrow> healthy (dropCommitted keep s)"
proof -
  assume h: "healthy s"
  let ?s1 = "dropBlock (s\<lparr>lastFrameAt := 0, lastFrameEnd := 0\<rparr>)"
  obtain sv rest u where u: "drop_loop keep (files s) ?s1 = (sv, rest, u)" by (metis prod_cases3)
  have "healthy ?s1" using h by (simp add: healthy_def dropBlock_def)
  then have "healthy u" using healthy_drop_loop u by blast
  then show ?thesis using u h unfolding dropCommitted_def by (simp add: Let_def dropBlock_def healthy_def)
qed

lemma drop_loop_linked: "drop_loop keep ns s = (sv, rest, s') \<Longrightarrow> linked (os s') m \<Longrightarrow> linked (os s) m"
proof (induction keep ns s arbitrary: sv rest s' rule: drop_loop.induct)
  case (2 keep n ns s)
  let ?s1 = "if df_open (heap s n) then untrackOpen n (upd_df n (\<lambda>d. d\<lparr>df_open := False\<rparr>) (snd (os_run os_close s))) else s"
  obtain r0 s0 where 0: "os_run os_close s = (r0, s0)" by force
  have l1: "linked (os ?s1) = linked (os s)"
    using core_eq_fields [OF core_os_close [OF 0]] 0 by (simp add: untrackOpen_def)
  obtain r2 s2 where r: "os_run (os_remove n) ?s1 = (r2, s2)" by force
  then have l2: "linked (os s2) m \<Longrightarrow> linked (os s) m"
    using l1 by (auto simp: os_run_def os_remove_def os_tick_def split: if_splits list.splits verdict.splits)
  show ?case using 2 r l2 by (auto simp: Let_def split: if_splits prod.splits sum.splits)
qed simp

lemma dropCommitted_linked: "linked (os (dropCommitted keep s)) m \<Longrightarrow> linked (os s) m"
proof -
  assume l: "linked (os (dropCommitted keep s)) m"
  let ?s1 = "dropBlock (s\<lparr>lastFrameAt := 0, lastFrameEnd := 0\<rparr>)"
  obtain sv rest u where u: "drop_loop keep (files s) ?s1 = (sv, rest, u)" by (metis prod_cases3)
  show ?thesis
    using l u drop_loop_linked [OF u, of m] unfolding dropCommitted_def
    by (auto simp: Let_def dropBlock_def split: if_splits)
qed

text \<open>Whether the store can start another segment.\<close>

definition can_cycle :: "bool \<Rightarrow> store \<Rightarrow> bool" where
  "can_cycle force s \<longleftrightarrow> nextNum s \<noteq> 0 \<and> \<not> linked (os s) (nextNum s) \<and>
     (force \<or> maxSegments s \<le> 0 \<or> int (length (files (dropCommitted None s))) < maxSegments s)"

lemma smooth_cycle:
  assumes h: "healthy s" and d: "distinct (files s)"
    and can: "can_cycle force s" and c: "cycle xx need force s = (r, s')"
  shows "r = Inr () \<and> healthy s'"
proof -
  define s1 where "s1 = dropCommitted None s"
  have h1: "healthy s1" unfolding s1_def by (rule dropCommitted_healthy [OF h])
  have ms: "maxSegments s1 = maxSegments s" using settings_dropCommitted [OF d] by (simp add: s1_def settings_defs)
  have l1: "\<not> linked (os s1) (nextNum s1)" "nextNum s1 \<noteq> 0"
    using can dropCommitted_linked settings_dropCommitted(2) [OF d] by (auto simp: can_cycle_def s1_def)
  obtain r2 s2 where 2: "createFile xx (nextNum s1) (writeOff s1) (max (segmentSize s1) need) s1 = (r2, s2)" by force
  have s2: "r2 = Inr (nextNum s1) \<and> healthy s2" using smooth_createFile [OF h1 l1(2,1) 2] by blast
  define s4 where "s4 = trackOpen (nextNum s1) (s2\<lparr>nextNum := (nextNum s2 + 1) mod 2 ^ 64, files := files s2 @ [nextNum s1],
      diskBytes := diskBytes s2 + (int headerSize + df_capacity (heap s2 (nextNum s1)))\<rparr>)"
  have h4: "healthy s4" unfolding s4_def by (rule healthy_trackOpen) (use s2 in \<open>simp add: healthy_def\<close>)
  have "\<not> (\<not> force \<and> maxSegments s1 > 0 \<and> int (length (files s1)) \<ge> maxSegments s1)"
    using can ms by (auto simp: can_cycle_def s1_def)
  moreover have "ioErr s4 = None" using h4 by (simp add: healthy_def)
  ultimately have out: "(r, s') = (if \<not> noSync s4 then syncDir s4 else (Inr (), s4))"
    using c 2 s2 unfolding cycle_def s1_def [symmetric] Let_def by (auto simp: s4_def split: if_splits)
  obtain r5 s5 where 5: "syncDir s4 = (r5, s5)" by force
  show ?thesis using out 5 smooth_syncDir [OF h4 5] h4 by (auto simp: smooth_def split: if_splits)
qed

section \<open>Appending\<close>

lemma smooth_publishAppend:
  assumes ok: "queue_ok xx s" and h: "healthy s" and n: "n \<in> set (files s)" and p: "publishAppend xx n b s = (r, s')"
  shows "r = Inr () \<and> healthy s'"
proof -
  let ?t = "advanceAppend xx n b 1 s"
  note tf = advance_fields [where xx = xx and n = n and b = b and k = 1 and s = s]
  have l: "\<forall>m \<in> set (files s). linked (os s) m" using queue_okD(1) [OF ok] file_okD(4) by blast
  obtain r1 s1 where 1: "writeHeader n ?t = (r1, s1)" by force
  have "healthy ?t" using h by (simp add: healthy_def tf)
  then have s1: "smooth ?t r1 s1" using smooth_writeHeader [OF _ _ 1] l n tf by simp
  have "quiet ?t s1" by (rule quiet_writeHeader [OF 1]) (simp add: tf file_okD(5) [OF queue_okD(1) [OF ok n]])
  then have fs: "files s1 = files s" using shape_eq_fields(8) [of s1 ?t] by (simp add: quiet_def tf)
  let ?u = "s1\<lparr>unsyncedBytes := unsyncedBytes s1 + b\<rparr>"
  have hu: "healthy ?u" "\<forall>m \<in> set (files ?u). linked (os ?u) m"
    using s1 l fs by (simp_all add: smooth_def healthy_def tf)
  obtain r2 s2 where 2: "recordOp ?u = (r2, s2)" by force
  obtain r3 s3 where 3: "os_run (datasync n) s1 = (r3, s3)" by force
  have "smooth s1 r3 s3" using smooth_datasync [OF _ 3] s1 by (simp add: smooth_def)
  then show ?thesis
    using p 1 2 3 s1 hu(1) smooth_recordOp [OF hu 2]
    by (auto simp: publishAppend_def smooth_def split: if_splits)
qed

lemma smooth_append_write:
  assumes ok: "queue_ok xx s" and h: "healthy s" and n: "n \<in> set (files s)"
    and len: "framedLen (length p) \<le> maxFramedLen" and a: "append_write xx p n s = (r, s')"
  shows "r = Inr () \<and> healthy s'"
proof -
  obtain r3 s3 where 3: "ensureOpen n s = (r3, s3)" by force
  have s3: "smooth s r3 s3" by (rule smooth_ensureOpen [OF h file_okD(4) [OF queue_okD(1) [OF ok n]] 3])
  have q3: "quiet s s3" by (rule quiet_ensureOpen [OF 3])
  obtain r4 s4 where 4: "writeRecord xx n (df_size (heap s3 n)) p s3 = (r4, s4)" by force
  have f3: "file_ok xx s3 n" using quiet_file_ok [OF q3] queue_okD(1) [OF ok n] by simp
  note w4 = writeRecord_spec [OF f3 order_refl 4]
  have h4: "r4 = Inr () \<and> healthy s4"
    using 4 by (cases rule: writeRecord_cases) (use s3 len in \<open>auto simp: smooth_def healthy_def fault_free_def mark_dirty_def\<close>)
  define s5 where "s5 = s4\<lparr>writeBuf := trimOver (writeBuf s4) (segmentSize s4)\<rparr>"
  have h5: "healthy s5" using h4 by (simp add: s5_def healthy_def)
  have q5: "quiet s s5" unfolding s5_def by (rule quiet_trans [OF quiet_trans [OF q3 w4(1)] quiet_fields(6)])
  obtain r6 s6 where 6: "os_run (datasync n) s5 = (r6, s6)" by force
  have h6: "r6 = Inr () \<and> healthy s6" using smooth_datasync [OF h5 6] by (simp add: smooth_def)
  have q6: "quiet s s6" by (rule quiet_trans [OF q5 quiet_datasync [OF 6]])
  have "(r, s') = publishAppend xx n (framedLen (length p)) s6 \<or> (r, s') = publishAppend xx n (framedLen (length p)) s5"
    using a 3 4 6 s3 h4 h6
    by (auto simp: append_write_def s5_def [symmetric] smooth_def healthy_def split: if_splits)
  moreover have "r = Inr () \<and> healthy s'"
    if "(r, s') = publishAppend xx n (framedLen (length p)) x" "quiet s x" "healthy x" for x
    using smooth_publishAppend [OF quiet_queue_ok [OF that(2) ok] that(3) _ that(1) [symmetric]] n
      shape_eq_fields(8) [of x s] that(2) by (simp add: quiet_def)
  ultimately show ?thesis using q5 q6 h5 h6 by blast
qed

lemma append_live:
  assumes ok: "queue_ok xx s" and staged: "stagedBytes s = 0"
    and seg: "segmentSize s < 2 ^ 63" and h: "healthy s"
    and len: "framedLen (length p) \<le> maxFramedLen"
    and quota: "force \<or> maxBytes s \<le> 0 \<or> store_size s + framedLen (length p) \<le> maxBytes s"
    and room: "needsCycle (framedLen (length p)) s \<longrightarrow> can_cycle force s"
  shows "\<exists>s'. appendRecord xx p force s = (Inr (), s') \<and> healthy s' \<and> queue_ok xx s' \<and>
    unread xx s' = unread xx s @ [p] \<and> backlog xx s' = backlog xx s @ [p]"
proof -
  let ?L = "framedLen (length p)"
  obtain r s' where a: "appendRecord xx p force s = (r, s')" by force
  have adm: "admitRecord ?L force s = (Inr (), s)"
    using len quota staged queue_okD(5,6) [OF ok] by (auto simp: admitRecord_def framedTooLarge_def store_size_def)
  have L: "?L < 2 ^ 63" using len maxFramedLen_small by simp
  obtain r2 s2 where 2: "(if needsCycle ?L s then cycle xx ?L force s else (Inr (), s)) = (r2, s2)" by force
  have d: "distinct (files s)" using queue_okD(3) [OF ok] by (simp add: nums_ok_def)
  have h2: "r2 = Inr () \<and> healthy s2"
    using 2 room smooth_cycle [OF h d] h by (auto split: if_splits)
  have ok2: "queue_ok xx s2" using 2 ok cycle_spec [OF ok seg L] h2 by (auto split: if_splits)
  obtain n where n: "active s2 = Some n"
  proof (cases "needsCycle ?L s")
    case True
    then have "cycled ?L s2" using cycle_spec [OF ok seg L] 2 h2 by simp
    then show ?thesis using that by (auto simp: cycled_def)
  next
    case False
    then show ?thesis using that 2 by (auto simp: needsCycle_def split: option.splits)
  qed
  have "append_write xx p n s2 = (r, s')"
    using a [unfolded appendRecord_alt Let_def] h adm 2 h2 n by (simp add: healthy_def)
  moreover have "n \<in> set (files s2)" using n by (auto simp: active_def split: if_splits)
  ultimately have "r = Inr () \<and> healthy s'" using smooth_append_write [OF ok2 _ _ len] h2 by blast
  then show ?thesis using a appendRecord_outcome [OF ok staged seg a] by (auto simp: append_outcome_def append_stranded_def appended_def)
qed

text \<open>
  C10: appending to a well formed queue with nothing staged refines appending to the abstract
  queue, under every pattern of I/O failures.  Success puts exactly the payload at the end of what
  is unread and of what is uncommitted, and keeps the invariant.  An error leaves what is unread
  and what is uncommitted as they were, except that the record may stand appended when the store
  has latched a durability failure or flushes in batches.  After an error the invariant holds, or
  everything was committed and the queue is stranded: the cycle reclaimed the segment that ended
  at the write cursor, left an older one, and failed to start a new one (the state the first
  finding starts from).
\<close>

theorem appendRecord_refines:
  assumes "queue_ok xx s" "stagedBytes s = 0"
    "segmentSize s < 2 ^ 63" "appendRecord xx p force s = (r, s')"
  shows "(\<forall>u. r = Inr u \<longrightarrow>
       queue_ok xx s' \<and> unread xx s' = unread xx s @ [p] \<and> backlog xx s' = backlog xx s @ [p]) \<and>
    (\<forall>e. r = Inl e \<longrightarrow>
       (queue_ok xx s' \<or> stranded s' \<and> commitOff s' = writeOff s' \<and> unread xx s' = [] \<and> backlog xx s' = []) \<and>
       (unread xx s' = unread xx s \<and> backlog xx s' = backlog xx s \<or>
        unread xx s' = unread xx s @ [p] \<and> backlog xx s' = backlog xx s @ [p] \<and> (ioErr s' \<noteq> None \<or> batched s)))"
  using appendRecord_outcome [OF assms]
proof
  assume "append_outcome xx p s r s'"
  then show ?thesis by (simp add: append_outcome_def appended_def)
next
  assume "append_stranded xx s r s'"
  then show ?thesis using stranded_empty [of xx s'] by (auto simp: append_stranded_def appended_def)
qed

lemma sample_append:
  "stagedBytes sample = 0" "segmentSize sample < 2 ^ 63" "healthy sample"
  "framedLen (length [9, 9 :: byte]) \<le> maxFramedLen" "maxBytes sample = 0"
  "\<not> needsCycle (framedLen (length [9, 9 :: byte])) sample"
  "unread (\<lambda>_. 5) sample = [[3]]" "backlog (\<lambda>_. 5) sample = [[1, 2], [3]]"
  by (code_simp, code_simp, code_simp, code_simp, code_simp, code_simp)
    (simp_all add: unread_def backlog_def from_off_def sample_flat sample_fields)

theorem appendRecord_refines_witness:
  "queue_ok (\<lambda>_. 5) sample \<and> stagedBytes sample = 0 \<and> segmentSize sample < 2 ^ 63 \<and>
   fst (appendRecord (\<lambda>_. 5) [9, 9] False sample) = Inr () \<and>
   unread (\<lambda>_. 5) (snd (appendRecord (\<lambda>_. 5) [9, 9] False sample)) = [[3], [9, 9]]"
proof -
  obtain s' where a: "appendRecord (\<lambda>_. 5) [9, 9] False sample = (Inr (), s')"
    using append_live [OF sample_ok sample_append(1-4)] sample_append(5,6) by auto
  show ?thesis
    using appendRecord_refines [OF sample_ok sample_append(1,2) a] a sample_ok sample_append by simp
qed

text \<open>
  C20: on a healthy disk an append to a well formed queue with nothing staged is never refused for
  any reason but room: a record of legal size that the byte quota admits, and for which the active
  segment has space or a segment can be started, is appended, and the store stays healthy.
\<close>

theorem appendRecord_succeeds:
  assumes "queue_ok xx s" "stagedBytes s = 0"
    "segmentSize s < 2 ^ 63" "healthy s"
    "framedLen (length p) \<le> maxFramedLen"
    "force \<or> maxBytes s \<le> 0 \<or> store_size s + framedLen (length p) \<le> maxBytes s"
    "needsCycle (framedLen (length p)) s \<longrightarrow> can_cycle force s"
  shows "\<exists>s'. appendRecord xx p force s = (Inr (), s') \<and> healthy s' \<and> queue_ok xx s' \<and>
    unread xx s' = unread xx s @ [p] \<and> backlog xx s' = backlog xx s @ [p]"
  by (rule append_live [OF assms])

theorem appendRecord_succeeds_witness:
  "\<exists>s'. appendRecord (\<lambda>_. 5) [9, 9] False sample = (Inr (), s') \<and> healthy s' \<and>
     backlog (\<lambda>_. 5) s' = [[1, 2], [3], [9, 9]]"
  using appendRecord_succeeds [OF sample_ok sample_append(1-4)] sample_append(5-8) by auto

end
