(* ===== verification/Geometry.thy ===== *)
theory Geometry
  imports Append_Live
begin

text \<open>
  A coarser erasure than \<open>shape\<close>: \<open>geom\<close> forgets every byte, on disk and in the headers, and keeps
  the cursors, the segments with their extents and counts, the ledger, the staged span and the
  statistics.  Reading, opening, flushing and publishing a header keep it in every state, with no
  invariant assumed, which is what the termination and accounting arguments need.
\<close>

definition geom_df :: "dataFile \<Rightarrow> dataFile" where
  "geom_df d = (shape_df d)\<lparr>df_hdr := []\<rparr>"

definition geom :: "store \<Rightarrow> store" where
  "geom s = (shape s)\<lparr>heap := (\<lambda>n. geom_df (heap s n)), os := os_empty\<rparr>"

named_theorems geom_rules \<open>operations that keep the geometry\<close>

lemma geom_eq_df_fields:
  assumes "geom s' = geom s"
  shows "df_base (heap s' n) = df_base (heap s n)" "df_size (heap s' n) = df_size (heap s n)"
    "df_capacity (heap s' n) = df_capacity (heap s n)" "df_written (heap s' n) = df_written (heap s n)"
    "df_committed (heap s' n) = df_committed (heap s n)" "df_pins (heap s' n) = df_pins (heap s n)"
    "df_num (heap s' n) = df_num (heap s n)" "df_end (heap s' n) = df_end (heap s n)"
proof -
  have "heap (geom s') n = heap (geom s) n" using assms by simp
  then have "geom_df (heap s' n) = geom_df (heap s n)" by (simp add: geom_def)
  then show "df_base (heap s' n) = df_base (heap s n)" "df_size (heap s' n) = df_size (heap s n)"
    "df_capacity (heap s' n) = df_capacity (heap s n)" "df_written (heap s' n) = df_written (heap s n)"
    "df_committed (heap s' n) = df_committed (heap s n)" "df_pins (heap s' n) = df_pins (heap s n)"
    "df_num (heap s' n) = df_num (heap s n)" "df_end (heap s' n) = df_end (heap s n)"
    by (cases "heap s' n"; cases "heap s n"; simp add: geom_df_def shape_df_def core_df_def df_end_def)+
qed

lemma geom_eq_fields:
  assumes "geom s' = geom s"
  shows "dirOpen s' = dirOpen s" "segmentSize s' = segmentSize s" "maxSegments s' = maxSegments s"
    "maxBytes s' = maxBytes s" "noSync s' = noSync s" "syncEvery s' = syncEvery s"
    "maxOpenFiles s' = maxOpenFiles s" "files s' = files s" "nextNum s' = nextNum s"
    "diskBytes s' = diskBytes s" "pendingBytes s' = pendingBytes s" "pendingRecs s' = pendingRecs s"
    "inFlight s' = inFlight s" "inFlightRecs s' = inFlightRecs s" "lastFrameAt s' = lastFrameAt s"
    "lastFrameEnd s' = lastFrameEnd s"
    "writeOff s' = writeOff s" "headOff s' = headOff s" "commitOff s' = commitOff s"
    "reserved s' = reserved s" "nWritten s' = nWritten s" "nCommitted s' = nCommitted s"
    "unreclaimed s' = unreclaimed s" "pendingCorrupt s' = pendingCorrupt s" "corruptions s' = corruptions s"
    "lostBytes s' = lostBytes s" "lostRecords s' = lostRecords s" "lostSegments s' = lostSegments s"
    "nAdded s' = nAdded s" "nDelivered s' = nDelivered s" "nFull s' = nFull s"
    "nCommittedTotal s' = nCommittedTotal s"
  using assms by (cases s'; cases s; simp add: geom_def shape_def)+

lemma geom_shape: "shape s' = shape s \<Longrightarrow> geom s' = geom s"
proof -
  assume sh: "shape s' = shape s"
  have "geom_df (heap s' n) = geom_df (heap s n)" for n
  proof -
    have "heap (shape s') n = heap (shape s) n" using sh by simp
    then have "shape_df (heap s' n) = shape_df (heap s n)" by (simp add: shape_def)
    then show ?thesis by (simp add: geom_df_def)
  qed
  then show ?thesis unfolding geom_def sh by simp
qed

lemma geom_core: "core s' = core s \<Longrightarrow> geom s' = geom s"
  by (rule geom_shape [OF core_imp_shape])

lemma geom_view: "view s' = view s \<Longrightarrow> geom s' = geom s"
  by (rule geom_shape [OF view_imp_shape])

lemma geom_os [simp]: "geom (s\<lparr>os := w\<rparr>) = geom s"
  by (simp add: geom_def shape_def)

lemma geom_fields [simp]:
  "geom (s\<lparr>readBuf := a\<rparr>) = geom s" "geom (s\<lparr>blockFile := b, blockOff := c, blockLen := d\<rparr>) = geom s"
  "geom (s\<lparr>nHeaderWrites := e\<rparr>) = geom s" "geom (s\<lparr>ioErr := f\<rparr>) = geom s" "geom (s\<lparr>writeBuf := a\<rparr>) = geom s"
  "geom (s\<lparr>unsynced := i\<rparr>) = geom s" "geom (s\<lparr>unsyncedBytes := i\<rparr>) = geom s"
  "geom (s\<lparr>unsynced := i, unsyncedBytes := j, flushEpoch := k\<rparr>) = geom s"
  by (simp_all add: geom_def shape_def)

lemma geom_upd_df: "(\<And>d. geom_df (f d) = geom_df d) \<Longrightarrow> geom (upd_df n f s) = geom s"
  by (simp add: geom_def shape_def upd_df_def fun_eq_iff)

lemma geom_df_fields [simp]:
  "geom_df (d\<lparr>df_open := a\<rparr>) = geom_df d" "geom_df (d\<lparr>df_dirty := a\<rparr>) = geom_df d"
  "geom_df (d\<lparr>df_hdr := b\<rparr>) = geom_df d" "geom_df (d\<lparr>df_diskHeader := b\<rparr>) = geom_df d"
  "geom_df (d\<lparr>df_dirty := a, df_writeSeq := k\<rparr>) = geom_df d" "geom_df (header xx mods d) = geom_df d"
  by (simp_all add: geom_df_def shape_df_def core_df_def header_def)

lemma geom_mark_dirty [simp]: "geom (mark_dirty n s) = geom s"
  unfolding mark_dirty_def by (rule geom_upd_df) simp

lemma geom_dropBlock [simp]: "geom (dropBlock s) = geom s"
  by (simp add: geom_def shape_def dropBlock_def)

lemma geom_os_run [geom_rules]: "os_run f s = (r, s') \<Longrightarrow> geom s' = geom s"
  by (auto simp: os_run_def split: prod.splits)

lemma geom_ensureOpen [geom_rules]: "ensureOpen n s = (r, s') \<Longrightarrow> geom s' = geom s"
  by (rule geom_core [OF core_ensureOpen])

lemma geom_flushFile [geom_rules]: "flushFile n s = (r, s') \<Longrightarrow> geom s' = geom s"
  by (rule geom_core [OF core_flushFile])

lemma geom_failIO [geom_rules]: "failIO e s = (r, s') \<Longrightarrow> geom s' = geom s"
  by (rule geom_core [OF core_failIO])

lemma geom_syncDir [geom_rules]: "syncDir s = (r, s') \<Longrightarrow> geom s' = geom s"
  by (rule geom_shape) (use quiet_syncDir in \<open>auto simp: quiet_def\<close>)

lemma geom_flushBatch [geom_rules]: "flushBatch s = (r, s') \<Longrightarrow> geom s' = geom s"
  by (rule geom_shape) (use quiet_flushBatch in \<open>auto simp: quiet_def\<close>)

lemma geom_recordOps [geom_rules]: "recordOps k s = (r, s') \<Longrightarrow> geom s' = geom s"
  by (rule geom_shape) (use quiet_recordOps in \<open>auto simp: quiet_def\<close>)

lemma geom_recordOp [geom_rules]: "recordOp s = (r, s') \<Longrightarrow> geom s' = geom s"
  unfolding recordOp_def by (rule geom_recordOps)

lemma geom_restoreHeader [geom_rules]: "restoreHeader n s = (r, s') \<Longrightarrow> geom s' = geom s"
  unfolding restoreHeader_def
  by (auto simp: Let_def split: prod.splits option.splits if_splits sum.splits dest!: geom_os_run)

lemma geom_writeHeader [geom_rules]:
  assumes w: "writeHeader n s = (r, s')"
  shows "geom s' = geom s"
proof -
  obtain r1 s1 where 1: "(if df_open (heap s n) then (Inr (), s) else ensureOpen n s) = (r1, s1)" by force
  have g1: "geom s1 = geom s" using 1 by (auto split: if_splits dest: geom_ensureOpen)
  have g2: "geom (upd_df n (\<lambda>d. d\<lparr>df_diskHeader := df_hdr d\<rparr>) t) = geom t" for t
    by (rule geom_upd_df) simp
  show ?thesis
    using w g1 unfolding writeHeader_def 1
    by (auto simp: Let_def g2 split: sum.splits option.splits prod.splits if_splits
        dest!: geom_os_run geom_restoreHeader geom_failIO)
qed

section \<open>Reads\<close>

lemma geom_readBlock [geom_rules]: "readBlock n off len s = (r, s') \<Longrightarrow> geom s' = geom s"
  unfolding readBlock_def Let_def
  by (auto split: if_splits prod.splits option.splits dest!: geom_os_run)

lemma geom_fillBlock [geom_rules]: "fillBlock n off avail need s = (r, s') \<Longrightarrow> geom s' = geom s"
  unfolding fillBlock_def Let_def
  by (auto split: if_splits prod.splits sum.splits dest!: geom_readBlock)

lemma geom_frameHeader [geom_rules]: "frameHeader n off avail s = (r, s') \<Longrightarrow> geom s' = geom s"
  unfolding frameHeader_def Let_def
  by (auto split: if_splits prod.splits sum.splits dest!: geom_fillBlock)

lemma geom_recordLen [geom_rules]: "recordLen n off s = (r, s') \<Longrightarrow> geom s' = geom s"
  unfolding recordLen_def Let_def
  by (auto split: if_splits prod.splits sum.splits option.splits dest!: geom_frameHeader)

lemma geom_frameEnd [geom_rules]: "frameEnd n off s = (r, s') \<Longrightarrow> geom s' = geom s"
  unfolding frameEnd_def by (auto split: if_splits dest!: geom_recordLen)

lemma geom_recordAt [geom_rules]: "recordAt n off s = (r, s') \<Longrightarrow> geom s' = geom s"
  unfolding recordAt_def Let_def
  by (auto split: if_splits prod.splits sum.splits option.splits dest!: geom_frameHeader geom_fillBlock)

lemma geom_read [geom_rules]: "read off s = (r, s') \<Longrightarrow> geom s' = geom s"
  unfolding read_def
  by (auto split: if_splits prod.splits sum.splits option.splits dest!: geom_ensureOpen geom_recordAt)

lemma geom_publishFullCommit [geom_rules]:
  assumes p: "publishFullCommit xx n s = (r, s')"
  shows "geom s' = geom s"
proof -
  have g: "geom (upd_df n (\<lambda>d. header xx (m d) d) t) = geom t" "geom (upd_df n (header xx l) t) = geom t" for m l t
    by (rule geom_upd_df, simp)+
  show ?thesis
    using p unfolding publishFullCommit_def Let_def
    by (auto simp: g split: prod.splits sum.splits if_splits dest!: geom_ensureOpen geom_writeHeader geom_flushFile)
qed

end
