(* ===== verification/Commit_Walk.thy ===== *)
theory Commit_Walk
  imports Geometry
begin

text \<open>
  The commit walk ends: every iteration that goes on moves the commit cursor forward, so the
  loop as the source writes it, with no bound, ends with the result the bounded loop computes.
\<close>

section \<open>An iteration that goes on moves the cursor forward\<close>

lemma skip_retired_live:
  "skip_retired at rs i < length rs \<Longrightarrow> at < r_end (rs ! skip_retired at rs i)"
proof (induction at rs i rule: skip_retired.induct)
  case (1 at rs i)
  then show ?case by (cases "i < length rs \<and> r_end (rs ! i) \<le> at") (auto simp: skip_retired.simps [of at rs i])
qed

lemma search_loop_hit: "i \<le> j \<Longrightarrow> (j < n \<longrightarrow> f j) \<Longrightarrow> search_loop f i j < n \<longrightarrow> f (search_loop f i j)"
proof (induction f i j rule: search_loop.induct)
  case (1 f i j)
  show ?case
  proof (cases "i < j")
    case True
    let ?h = "(i + j) div 2"
    have h: "i \<le> ?h" "Suc ?h \<le> j" using True by auto
    show ?thesis
      using 1 True h by (cases "f ?h") (simp_all add: search_loop.simps [of f i j] Let_def)
  qed (use 1 in \<open>simp add: search_loop.simps\<close>)
qed

lemma fileForOffset_covers: "fileForOffset off s = Some n \<Longrightarrow> df_base (heap s n) \<le> off \<and> off < df_end (heap s n)"
  using search_loop_hit [of 0 "length (files s)" "length (files s)" "\<lambda>i. df_end (heap s (files s ! i)) > off"]
  by (auto simp: fileForOffset_def sort_Search_def Let_def split: if_splits)

lemma persistCommit_ok: "persistCommit xx n p s = (Inr u, s') \<Longrightarrow> geom s' = geom s"
proof -
  assume p: "persistCommit xx n p s = (Inr u, s')"
  have g: "geom (upd_df n (\<lambda>d. header xx (m d) d) t) = geom t" for m t by (rule geom_upd_df) simp
  show ?thesis
    using p unfolding persistCommit_def Let_def
    by (auto simp: g split: prod.splits sum.splits if_splits dest!: geom_writeHeader geom_flushFile)
qed

definition cursors_up :: "store \<Rightarrow> store \<Rightarrow> bool" where
  "cursors_up s s' \<longleftrightarrow> commitOff s \<le> commitOff s' \<and> writeOff s' = writeOff s"

lemma cursors_up_refl [simp]: "cursors_up s s"
  by (simp add: cursors_up_def)

lemma cursors_up_trans: "cursors_up a b \<Longrightarrow> cursors_up b c \<Longrightarrow> cursors_up a c"
  by (simp add: cursors_up_def)

lemma cursors_up_geom: "geom s' = geom s \<Longrightarrow> cursors_up s s'"
  using geom_eq_fields(17,19) [of s' s] by (simp add: cursors_up_def)

lemma abandon_rest_fields [simp]:
  "commitOff (abandon_rest n s) = commitOff s" "writeOff (abandon_rest n s) = writeOff s"
  "headOff (abandon_rest n s) = headOff s" "heap (abandon_rest n s) = heap s" "reserved (abandon_rest n s) = reserved s"
  by (simp_all add: abandon_rest_def Let_def)

lemma force_loop_up: "force_loop xx ns s = (r, s') \<Longrightarrow> cursors_up s s'"
proof (induction xx ns s rule: force_loop.induct)
  case (2 xx n ns s)
  show ?case
  proof (cases "df_committed (heap s n) \<ge> df_written (heap s n) \<and>
         commitCursor (df_hdr (heap s n)) \<ge> int headerSize + df_size (heap s n)")
    case False
    obtain r1 s1 where 1: "publishFullCommit xx n s = (r1, s1)" by force
    have u1: "cursors_up s s1" by (rule cursors_up_geom [OF geom_publishFullCommit [OF 1]])
    let ?s2 = "upd_df n (\<lambda>d. d\<lparr>df_committed := df_written d\<rparr>) (abandon_rest n s1)"
    let ?s3 = "?s2\<lparr>commitOff := max (commitOff ?s2) (df_end (heap ?s2 n))\<rparr>"
    let ?s4 = "?s3\<lparr>headOff := max (headOff ?s3) (commitOff ?s3)\<rparr>"
    have u4: "cursors_up s1 ?s4" by (simp add: cursors_up_def upd_df_def)
    show ?thesis
    proof (cases r1)
      case (Inl e)
      then show ?thesis using 2 False 1 u1 by simp
    next
      case (Inr u)
      have "force_loop xx ns ?s4 = (r, s')" using "2.prems" False 1 Inr by (simp add: Let_def)
      then have "cursors_up ?s4 s'" using "2.IH"(2) [OF False 1 [symmetric] Inr refl refl] by simp
      then show ?thesis using cursors_up_trans [OF cursors_up_trans [OF u1 u4]] by blast
    qed
  qed (use 2 in simp)
qed simp

lemma skipCorruptSegment_forward:
  assumes sk: "skipCorruptSegment xx (commitOff s) s = (Inr u, s')" and lt: "commitOff s < writeOff s"
  shows "commitOff s < commitOff s' \<and> writeOff s' = writeOff s"
proof (cases "fileForOffset (commitOff s) s")
  case None
  then have sk': "skip_uncharted xx s = (Inr u, s')" using sk by (simp add: skipCorruptSegment_def)
  obtain r1 s1 where 1: "force_loop xx (files s) s = (r1, s1)" by force
  have "cursors_up s s1" by (rule force_loop_up [OF 1])
  then show ?thesis
    using sk' 1 lt unfolding skip_uncharted_def forceCommitAll_def cursors_up_def
    by (cases r1) (auto simp: Let_def split: if_splits)
next
  case (Some n)
  note cov = fileForOffset_covers [OF Some]
  obtain r1 s1 where 1: "publishFullCommit xx n s = (r1, s1)" by force
  note g1 = geom_publishFullCommit [OF 1]
  note f1 = geom_eq_fields(17,19) [OF g1] geom_eq_df_fields(8) [OF g1, of n]
  obtain u1 where r1: "r1 = Inr u1" using sk Some 1 by (cases r1) (auto simp: skipCorruptSegment_def)
  have book: "commitOff (book_lost n off t) = commitOff t" "writeOff (book_lost n off t) = writeOff t" for off t
    by (simp_all add: book_lost_def Let_def dropRetired_def)
  show ?thesis
    using sk Some 1 r1 f1 cov
    by (auto simp: skipCorruptSegment_def Let_def book upd_df_def df_end_def)
qed

lemma walk_corrupt_forward:
  assumes "walk_corrupt xx off n w e s = (Continue w', s')" "commitOff s < writeOff s"
  shows "commitOff s < commitOff s' \<and> writeOff s' = writeOff s"
  using assms skipCorruptSegment_forward [of xx s]
  by (auto simp: walk_corrupt_def split: if_splits prod.splits sum.splits)

lemma geom_walk_next [geom_rules]: "walk_next n resv oe s = (r, s') \<Longrightarrow> geom s' = geom s"
  by (auto simp: walk_next_def split: option.splits dest!: geom_frameEnd)

lemma walk_record_forward:
  assumes c: "walk_record xx off n resv w s = (Continue w', s')" and lt: "commitOff s < writeOff s"
  shows "commitOff s < commitOff s' \<and> writeOff s' = writeOff s"
proof -
  obtain r1 s1 where 1: "ensureOpen n s = (r1, s1)" by force
  obtain r2 s2 where 2: "walk_next n resv (err_of r1) s1 = (r2, s2)" by force
  have g: "geom s2 = geom s" using geom_walk_next [OF 2] geom_ensureOpen [OF 1] by simp
  note f = geom_eq_fields(17,19) [OF g]
  show ?thesis
    using c 1 2 f lt walk_corrupt_forward [of xx off n w _ s2]
    by (auto simp: walk_record_def walk_sane_def upd_df_def split: option.splits if_splits sum.splits)
qed

lemma walk_resv_end: "walk_resv (skip_retired (commitOff s) (reserved s) i) s = Some r \<Longrightarrow> commitOff s < r_end r"
  using skip_retired_live [of "commitOff s" "reserved s" i] by (auto simp: walk_resv_def split: if_splits)

lemma walk_at_forward:
  assumes "walk_at xx off n w s = (Continue w', s')" "commitOff s < writeOff s"
  shows "commitOff s < commitOff s' \<and> writeOff s' = writeOff s"
  using assms walk_resv_end [of s "w_idx w"] walk_record_forward [of xx off n]
  by (auto simp: walk_at_def walk_abandon_def Let_def upd_df_def split: option.splits if_splits)

lemma commit_step_forward:
  assumes c: "commit_step xx off p w s = (Continue w', s')" and lt: "commitOff s < off" "off \<le> writeOff s"
  shows "commitOff s < commitOff s' \<and> writeOff s' = writeOff s"
proof -
  obtain n where n: "walk_file w s = Some n" using c by (cases "walk_file w s") (auto simp: commit_step_def Let_def)
  obtain r1 s1 where 1: "walk_turn xx n p (w_cur w) s = (r1, s1)" by force
  obtain w2 u where r1: "r1 = Inr u" and a: "walk_at xx off n w2 s1 = (Continue w', s')"
    using c n 1 by (cases r1) (auto simp: commit_step_def Let_def)
  have g1: "geom s1 = geom s"
    using 1 r1 persistCommit_ok by (auto simp: walk_turn_def split: option.splits if_splits)
  note f1 = geom_eq_fields(17,19) [OF g1]
  show ?thesis using walk_at_forward [OF a] f1 lt by simp
qed

section \<open>The loop ends\<close>

text \<open>The loop as it is written: no bound on the iterations.\<close>

inductive walk_run :: "hash \<Rightarrow> int \<Rightarrow> bool \<Rightarrow> walk \<Rightarrow> store \<Rightarrow> (walk \<times> err option) \<times> store \<Rightarrow> bool"
  for xx off p where
  walk_exit: "\<not> commitOff s < off \<Longrightarrow> walk_run xx off p w s ((w, None), s)"
| walk_break: "commitOff s < off \<Longrightarrow> commit_step xx off p w s = (Break w1 stop, s1) \<Longrightarrow>
    walk_run xx off p w s ((w1, stop), s1)"
| walk_go: "commitOff s < off \<Longrightarrow> commit_step xx off p w s = (Continue w1, s1) \<Longrightarrow>
    walk_run xx off p w1 s1 x \<Longrightarrow> walk_run xx off p w s x"

inductive_cases walk_runE: "walk_run xx off p w s x"

lemma walk_run_unique: "walk_run xx off p w s x \<Longrightarrow> walk_run xx off p w s y \<Longrightarrow> y = x"
proof (induction arbitrary: y rule: walk_run.induct)
  case (walk_exit s w)
  from walk_exit.prems show ?case by (rule walk_runE) (use walk_exit.hyps in simp_all)
next
  case (walk_break s w w1 stop s1)
  from walk_break.prems show ?case by (rule walk_runE) (use walk_break.hyps in simp_all)
next
  case (walk_go s w w1 s1 x)
  from walk_go.prems show ?case by (rule walk_runE) (use walk_go.hyps(1,2) in \<open>auto intro: walk_go.IH\<close>)
qed

lemma commit_walk_run:
  "off \<le> writeOff s \<Longrightarrow> nat (off - commitOff s) \<le> k \<Longrightarrow> walk_run xx off p w s (commit_walk k xx off p w s)"
proof (induction k arbitrary: w s)
  case 0
  then show ?case by (auto intro: walk_exit)
next
  case (Suc k)
  show ?case
  proof (cases "commitOff s < off")
    case True
    obtain fl s1 where c: "commit_step xx off p w s = (fl, s1)" by force
    show ?thesis
    proof (cases fl)
      case (Continue w1)
      note fw = commit_step_forward [OF c [unfolded Continue] True Suc.prems(1)]
      have "walk_run xx off p w1 s1 (commit_walk k xx off p w1 s1)"
        by (rule Suc.IH) (use fw Suc.prems True in \<open>simp, linarith\<close>)
      then show ?thesis using c Continue True by (simp add: walk_go)
    next
      case (Break w1 stop)
      then show ?thesis using c True by (simp add: walk_break)
    qed
  qed (simp add: walk_exit)
qed

text \<open>
  C32: the commit walk ends.  Run without any bound, the loop of a commit to an offset not past
  the write cursor ends, in exactly the state and with exactly the outcome that the walk bounded
  by the distance to that offset computes; and it has no other outcome.
\<close>

theorem commit_walk_terminates:
  assumes "off \<le> writeOff s"
  shows "walk_run xx off p w s x \<longleftrightarrow> x = commit_walk (nat (off - commitOff s)) xx off p w s"
  using commit_walk_run [OF assms order_refl, of xx p w] walk_run_unique by blast

theorem commit_walk_terminates_witness:
  "(11 :: int) \<le> writeOff sample \<and> (\<exists>x. walk_run (\<lambda>_. 5) 11 True \<lparr>w_df = None, w_cur = None, w_idx = 0\<rparr> sample x)"
  using commit_walk_terminates [of 11 sample "\<lambda>_. 5" True "\<lparr>w_df = None, w_cur = None, w_idx = 0\<rparr>"] sample_fields(5)
  by auto

end
