(* ===== verification/Recovery.thy ===== *)
theory Recovery
  imports Append
begin

text \<open>
  The open path, recovery.go and \<open>openStore\<close> of store.go: which directory entries are segments,
  reading one segment's header and deciding whether it can be believed, the two record walks
  that run for a damaged segment, the recovered cursors and counts, and the repair pass that
  makes them durable.  \<open>os.ReadDir\<close> answers \<open>ents\<close>, the names in the directory with the
  directories among them marked.  A header that passed its checksum may still hold any value, so
  \<open>headerSize + capacity\<close> wraps as it does in 64 bits.
\<close>

section \<open>Segment names\<close>

definition filePrefix :: string where
  "filePrefix = ''data.''"

definition dec_digit :: "nat \<Rightarrow> char" where
  "dec_digit d = char_of (48 + d)"

text \<open>The verb \<open>%08d\<close> of package fmt, and \<open>strconv.ParseUint(s, 10, 64)\<close>.\<close>

function dec_string :: "nat \<Rightarrow> string" where
  "dec_string n = (if n < 10 then [dec_digit n] else dec_string (n div 10) @ [dec_digit (n mod 10)])"
  by pat_completeness auto
termination
  by (relation "measure id") auto

declare dec_string.simps [simp del]

definition pad08 :: "nat \<Rightarrow> string" where
  "pad08 n = replicate (8 - length (dec_string n)) (CHR ''0'') @ dec_string n"

definition filePath :: "nat \<Rightarrow> string" where
  "filePath num = filePrefix @ pad08 num"

fun parse_dec :: "nat \<Rightarrow> string \<Rightarrow> nat option" where
  "parse_dec acc [] = Some acc"
| "parse_dec acc (c # cs) =
     (let d = of_char c :: nat in if 48 \<le> d \<and> d \<le> 57 then parse_dec (10 * acc + (d - 48)) cs else None)"

definition ParseUint :: "string \<Rightarrow> nat option" where
  "ParseUint cs =
     (if cs = [] then None
      else case parse_dec 0 cs of None \<Rightarrow> None | Some v \<Rightarrow> if v < 2 ^ 64 then Some v else None)"

text \<open>The scan of the directory: the numbers of the entries that are segments, in entry order.\<close>

fun scan_dir :: "(string \<times> bool) list \<Rightarrow> store \<Rightarrow> nat list \<times> store" where
  "scan_dir [] s = ([], s)"
| "scan_dir ((name, isDir) # es) s =
     (if isDir \<or> take (length filePrefix) name \<noteq> filePrefix then scan_dir es s
      else case ParseUint (drop (length filePrefix) name) of
             None \<Rightarrow> scan_dir es s
           | Some num \<Rightarrow>
               if name \<noteq> filePath num then
                 (case os_run (os_stat num) s of
                    (Inl e, s1) \<Rightarrow> scan_dir es s1
                  | (Inr _, s1) \<Rightarrow> (case scan_dir es s1 of (ns, s2) \<Rightarrow> (num # ns, s2)))
               else (case scan_dir es s of (ns, s1) \<Rightarrow> (num # ns, s1)))"

section \<open>Dropping a segment\<close>

definition removeFile :: "nat \<Rightarrow> unit op" where
  "removeFile num s =
     (case os_run (os_remove num) s of
        (r, s1) \<Rightarrow>
          if (case r of Inl e \<Rightarrow> \<not> err_is e ErrNotExist | Inr _ \<Rightarrow> False) then (r, s1)
          else if \<not> noSync s1 then syncDir s1 else (Inr (), s1))"

definition dropSegment :: "nat \<Rightarrow> int \<Rightarrow> bool \<Rightarrow> unit op" where
  "dropSegment num sz foreign s =
     (case removeFile num s of
        (Inl e, s1) \<Rightarrow> (Inl e, s1)
      | (Inr _, s1) \<Rightarrow>
          let payload = max (sz - int headerSize) 0
          in if foreign then
               (Inr (), s1\<lparr>foreignSegments := foreignSegments s1 + 1, foreignBytes := foreignBytes s1 + payload\<rparr>)
             else
               (Inr (), s1\<lparr>lostSegments := lostSegments s1 + 1, lostBytes := lostBytes s1 + payload,
                           corruptions := corruptions s1 + 1, pendingCorrupt := pendingCorrupt s1 + 1\<rparr>))"

section \<open>Reading a header\<close>

definition readHeader :: "nat \<Rightarrow> bytes op" where
  "readHeader num s =
     (case os_run (os_open num) s of
        (Inl e, s1) \<Rightarrow> (Inl e, s1)
      | (Inr _, s1) \<Rightarrow>
          (case os_run (os_pread num 0 headerSize) s1 of
             ((h, e), s2) \<Rightarrow>
               let s3 = snd (os_run os_close s2)
               in case e of
                    None \<Rightarrow> (Inr h, s3)
                  | Some x \<Rightarrow> (Inl (if isShortRead x then Wrap ErrCorrupt x else x), s3)))"

text \<open>The scan for a nonzero byte, 64 KiB at a time.\<close>

lemma os_pread_progress:
  "os_run (os_pread n off len) s = ((bs, None), s1) \<Longrightarrow> length bs = len"
  by (auto simp: os_run_def os_pread_def Let_def split: prod.splits verdict.splits if_splits)

function zero_scan :: "nat \<Rightarrow> int \<Rightarrow> int \<Rightarrow> bool op" where
  "zero_scan num sz off s =
     (if off < sz then
        case os_run (os_pread num (nat off) (nat (min (int readAhead) (sz - off)))) s of
          ((bs, e), s1) \<Rightarrow>
            if (case e of Some x \<Rightarrow> \<not> isShortRead x | None \<Rightarrow> False) then (Inl (the e), s1)
            else if \<not> list_all (\<lambda>b. b = 0) bs then (Inr False, s1)
            else (case e of Some x \<Rightarrow> (Inr True, s1) | None \<Rightarrow> zero_scan num sz (off + int (length bs)) s1)
      else (Inr True, s))"
  by pat_completeness auto
termination
  by (relation "measure (\<lambda>(num, sz, off, s). nat (sz - off))")
    (auto simp: readAhead_def dest!: os_pread_progress [OF sym])

declare zero_scan.simps [simp del]

definition abortedCreate :: "nat \<Rightarrow> int \<Rightarrow> bytes \<Rightarrow> bool op" where
  "abortedCreate num sz h s =
     (if \<not> list_all (\<lambda>b. b = 0) h then (Inr False, s)
      else case os_run (os_open num) s of
             (Inl e, s1) \<Rightarrow> (Inl e, s1)
           | (Inr _, s1) \<Rightarrow>
               (case zero_scan num sz (int headerSize) s1 of (r, s2) \<Rightarrow> (r, snd (os_run os_close s2))))"

section \<open>The record walks\<close>

text \<open>Both walks step by the end of the record under them, which is past its start.\<close>

lemma frameHeader_pos: "frameHeader n off avail s = (Inr (Some (k, tot)), s1) \<Longrightarrow> 0 < tot"
  by (auto simp: frameHeader_def Let_def checksumSize_def split: prod.splits sum.splits if_splits)

lemma recordLen_forward: "recordLen n off s = (Inr (Some next), s1) \<Longrightarrow> off < next"
  by (auto simp: recordLen_def Let_def split: if_splits prod.splits sum.splits option.splits dest!: frameHeader_pos)

lemma recordAt_forward: "recordAt n off s = (Inr (Some (p, c, next)), s1) \<Longrightarrow> off < next"
  by (auto simp: recordAt_def Let_def split: if_splits prod.splits sum.splits option.splits dest!: frameHeader_pos)

function survive_loop :: "nat \<Rightarrow> int \<Rightarrow> int \<Rightarrow> int \<Rightarrow> (int \<times> int) op" where
  "survive_loop df fin off n s =
     (if off < fin then
        case recordLen df off s of
          (Inl e, s1) \<Rightarrow> if \<not> err_is e ErrCorrupt then (Inl e, s1) else (Inr (n, off), s1)
        | (Inr None, s1) \<Rightarrow> (Inr (n, off), s1)
        | (Inr (Some next), s1) \<Rightarrow> survive_loop df fin next (n + 1) s1
      else (Inr (n, off), s))"
  by pat_completeness auto
termination
  by (relation "measure (\<lambda>(df, fin, off, n, s). nat (fin - off))")
    (auto dest!: recordLen_forward [OF sym])

definition surviveCount :: "nat \<Rightarrow> (int \<times> int) op" where
  "surviveCount df s =
     (case ensureOpen df s of
        (Inl e, s1) \<Rightarrow> (Inl e, s1)
      | (Inr _, s1) \<Rightarrow> survive_loop df (df_end (heap s1 df)) (df_base (heap s1 df)) 0 s1)"

function verified_loop :: "hash \<Rightarrow> nat \<Rightarrow> int \<Rightarrow> int \<Rightarrow> int \<Rightarrow> (int \<times> int) op" where
  "verified_loop xx df fin off n s =
     (if off < fin then
        case recordAt df off s of
          (Inl e, s1) \<Rightarrow> if \<not> err_is e ErrCorrupt then (Inl e, s1) else (Inr (n, off), s1)
        | (Inr None, s1) \<Rightarrow> (Inr (n, off), s1)
        | (Inr (Some (payload, chk, next)), s1) \<Rightarrow>
            if unat (xx payload) \<noteq> chk then (Inr (n, off), s1)
            else verified_loop xx df fin next (n + 1) s1
      else (Inr (n, off), s))"
  by pat_completeness auto
termination
  by (relation "measure (\<lambda>(xx, df, fin, off, n, s). nat (fin - off))")
    (auto dest!: recordAt_forward [OF sym])

declare survive_loop.simps [simp del] verified_loop.simps [simp del]

definition countVerified :: "hash \<Rightarrow> nat \<Rightarrow> (int \<times> int) op" where
  "countVerified xx df s =
     (case ensureOpen df s of
        (Inl e, s1) \<Rightarrow> (Inl e, s1)
      | (Inr _, s1) \<Rightarrow> verified_loop xx df (df_end (heap s1 df)) (df_base (heap s1 df)) 0 s1)"

text \<open>Releasing the handle a walk opened, when the walk could not be completed.\<close>

definition close_walk :: "nat \<Rightarrow> store \<Rightarrow> store" where
  "close_walk n s =
     (if df_open (heap s n)
      then untrackOpen n (upd_df n (\<lambda>d. d\<lparr>df_open := False\<rparr>) (snd (os_run os_close s)))
      else s)"

section \<open>A torn header\<close>

definition salvage_mods :: "int \<Rightarrow> int \<Rightarrow> int \<Rightarrow> int \<Rightarrow> (bytes \<Rightarrow> bytes) list" where
  "salvage_mods sz written capacity segSize =
     [initHeader, setCommitCursor (int headerSize), setWriteCursor (int headerSize + sz),
      setWrittenCount written, setCommittedCount 0, setHdrCapacity capacity, setHdrSegSize segSize] @
     (if capacity > segSize then [setOversized] else [])"

definition salvageTornHeader :: "hash \<Rightarrow> nat \<Rightarrow> int \<Rightarrow> int \<Rightarrow> int op" where
  "salvageTornHeader xx num base sz s =
     (let s1 = upd_df num (\<lambda>_. (zero_dataFile num)\<lparr>df_base := base, df_size := sz - int headerSize\<rparr>) s
      in case countVerified xx num s1 of
           (Inl e, s2) \<Rightarrow> (Inl e, close_walk num s2)
         | (Inr (n, fin), s2) \<Rightarrow>
             let s3 = dropBlock (upd_df num (\<lambda>d. d\<lparr>df_size := fin - base, df_written := n\<rparr>) s2);
                 capacity = max (sz - int headerSize) (segmentSize s3);
                 s4 = upd_df num (\<lambda>d. (header xx (salvage_mods (df_size d) (df_written d) capacity (segmentSize s3))
                                        (d\<lparr>df_capacity := capacity\<rparr>))
                                       \<lparr>df_truncated := True, df_resetCommit := True\<rparr>) s3
             in (Inr (int headerSize),
                 s4\<lparr>corruptions := corruptions s4 + 1, pendingCorrupt := pendingCorrupt s4 + 1\<rparr>))"

section \<open>One segment\<close>

definition clamp :: "int \<Rightarrow> int \<Rightarrow> int \<Rightarrow> int" where
  "clamp lo hi v = (let a = (if v < lo then lo else v) in if a > hi then hi else a)"

text \<open>A truncated segment whose header publishes bytes that are gone: count what is whole.\<close>

definition cut_tail :: "nat \<Rightarrow> unit op" where
  "cut_tail num s =
     (case surviveCount num s of
        (Inl e, s1) \<Rightarrow> (Inl e, dropBlock (close_walk num s1))
      | (Inr (n, fin), s1) \<Rightarrow>
          let gone = df_written (heap s1 num) - n;
              s2 = (if gone > 0 then s1\<lparr>lostRecords := lostRecords s1 + gone\<rparr> else s1);
              s3 = upd_df num (\<lambda>d. d\<lparr>df_written := n\<rparr>) s2;
              cut = df_end (heap s3 num) - fin
          in (Inr (),
              if cut > 0 then
                dropBlock (upd_df num (\<lambda>d. d\<lparr>df_size := fin - df_base d\<rparr>)
                             (s3\<lparr>discardedBytes := discardedBytes s3 + cut\<rparr>))
              else s3))"

text \<open>A segment with a header that can be believed; the result is its stored commit cursor.\<close>

definition load_believed :: "nat \<Rightarrow> int \<Rightarrow> int \<Rightarrow> bytes \<Rightarrow> int op" where
  "load_believed num base sz h s =
     (if hdrSegSize h \<noteq> segmentSize s then (Inl ErrSegmentSizeMismatch, s)
      else
        let capacity = max (hdrCapacity h) 0;
            full = wrap64 (int headerSize + capacity);
            truncated = (sz < full);
            lostTail = (truncated \<and> writeCursor h > sz);
            s1 = (if lostTail
                  then s\<lparr>discardedBytes := discardedBytes s + (writeCursor h - sz),
                         corruptions := corruptions s + 1, pendingCorrupt := pendingCorrupt s + 1\<rparr>
                  else s);
            w0 = (if writeCursor h < int headerSize then int headerSize else writeCursor h);
            w1 = (if w0 > full then full else w0);
            w2 = (if w1 > sz then sz else w1);
            s2 = upd_df num (\<lambda>_. (zero_dataFile num)\<lparr>df_hdr := h, df_diskHeader := h, df_base := base,
                   df_size := w2 - int headerSize, df_capacity := capacity, df_truncated := truncated,
                   df_written := max (writtenCount h) 0\<rparr>) s1
        in case (if lostTail then cut_tail num s2 else (Inr (), s2)) of
             (Inl e, s3) \<Rightarrow> (Inl e, s3)
           | (Inr _, s3) \<Rightarrow>
               let d = heap s3 num
               in (Inr (clamp (int headerSize) (int headerSize + df_size d) (commitCursor h)),
                   upd_df num (\<lambda>d. d\<lparr>df_committed := clamp 0 (df_written d) (committedCount h)\<rparr>) s3))"

definition dropped :: "unit result \<times> store \<Rightarrow> int option result \<times> store" where
  "dropped x = (case x of (Inl e, s) \<Rightarrow> (Inl e, s) | (Inr _, s) \<Rightarrow> (Inr None, s))"

definition kept :: "int result \<times> store \<Rightarrow> int option result \<times> store" where
  "kept x = (case x of (Inl e, s) \<Rightarrow> (Inl e, s) | (Inr cc, s) \<Rightarrow> (Inr (Some cc), s))"

text \<open>\<open>loadFile\<close>: the commit cursor of a segment that was kept, \<open>None\<close> when it was dropped.\<close>

definition loadFile :: "hash \<Rightarrow> nat \<Rightarrow> int \<Rightarrow> bool \<Rightarrow> int option op" where
  "loadFile xx num base tail s =
     (case os_run (os_stat num) s of
        (Inl e, s1) \<Rightarrow> (Inl e, s1)
      | (Inr sz, s1) \<Rightarrow>
          if sz = 0 then dropped (if tail then removeFile num s1 else dropSegment num sz False s1)
          else
            (case readHeader num s1 of
               (Inl e, s2) \<Rightarrow>
                 if \<not> err_is e ErrCorrupt then (Inl e, s2) else dropped (dropSegment num sz False s2)
             | (Inr h, s2) \<Rightarrow>
                 if magic h \<noteq> headerMagic then
                   (case (if tail then abortedCreate num sz h s2 else (Inr False, s2)) of
                      (Inl e, s3) \<Rightarrow> (Inl e, s3)
                    | (Inr aborted, s3) \<Rightarrow>
                        dropped (if aborted then removeFile num s3 else dropSegment num sz False s3))
                 else if \<not> headerChecksumOK xx h then
                   (if knownVersion (version h) then
                      (case salvageTornHeader xx num base sz s2 of
                         (Inl e, s3) \<Rightarrow> (Inl e, s3)
                       | (Inr cc, s3) \<Rightarrow> (Inr (Some cc), upd_df num (\<lambda>d. d\<lparr>df_diskHeader := h\<rparr>) s3))
                    else dropped (dropSegment num sz False s2))
                 else if \<not> knownVersion (version h) then dropped (dropSegment num sz True s2)
                 else kept (load_believed num base sz h s2)))"

section \<open>The whole directory\<close>

definition startFresh :: "hash \<Rightarrow> nat \<Rightarrow> unit op" where
  "startFresh xx num s =
     (case createFile xx num (writeOff s) (segmentSize s) s of
        (Inl e, s1) \<Rightarrow> (Inl e, s1)
      | (Inr n, s1) \<Rightarrow>
          let s2 = trackOpen n (s1\<lparr>nextNum := (num + 1) mod 2 ^ 64, files := files s1 @ [n],
                                   diskBytes := diskBytes s1 + (int headerSize + df_capacity (heap s1 n))\<rparr>)
          in if \<not> noSync s2 then syncDir s2 else (Inr (), s2))"

text \<open>The loop over the segments: the stored commit cursors of the kept ones and the end offset.\<close>

fun load_loop :: "hash \<Rightarrow> nat list \<Rightarrow> int \<Rightarrow> (int list \<times> int) op" where
  "load_loop xx [] base s = (Inr ([], base), s)"
| "load_loop xx (num # nums) base s =
     (case loadFile xx num base (nums = []) s of
        (Inl e, s1) \<Rightarrow> (Inl e, s1)
      | (Inr None, s1) \<Rightarrow> load_loop xx nums base s1
      | (Inr (Some cc), s1) \<Rightarrow>
          let d = heap s1 num;
              s2 = s1\<lparr>nWritten := nWritten s1 + df_written d, files := files s1 @ [num],
                      diskBytes := diskBytes s1 + wrap64 (int headerSize + df_capacity d)\<rparr>
          in case load_loop xx nums (base + df_size d) s2 of
               (Inl e, s3) \<Rightarrow> (Inl e, s3)
             | (Inr (ccs, fin), s3) \<Rightarrow> (Inr (cc # ccs, fin), s3))"

definition recover_commit :: "int list \<Rightarrow> store \<Rightarrow> int" where
  "recover_commit ccs s =
     (case find (\<lambda>(n, cc). df_resetCommit (heap s n) \<or> cc < int headerSize + df_size (heap s n)) (zip (files s) ccs) of
        None \<Rightarrow> writeOff s
      | Some (n, cc) \<Rightarrow> df_base (heap s n) + (cc - int headerSize))"

definition reconciled :: "dataFile \<Rightarrow> int \<Rightarrow> int" where
  "reconciled d at = (if df_end d \<le> at then df_written d else if df_base d \<ge> at then 0 else df_committed d)"

fun reconcile :: "nat list \<Rightarrow> store \<Rightarrow> store" where
  "reconcile [] s = s"
| "reconcile (n # ns) s =
     (let c = reconciled (heap s n) (commitOff s);
          s1 = upd_df n (\<lambda>d. d\<lparr>df_committed := c\<rparr>) s
      in reconcile ns (s1\<lparr>nCommitted := nCommitted s1 + c\<rparr>))"

section \<open>The repair pass\<close>

definition repair_cursor :: "dataFile \<Rightarrow> int \<Rightarrow> int" where
  "repair_cursor d at =
     (if df_end d \<le> at then int headerSize + df_size d
      else if df_base d < at then int headerSize + (at - df_base d) else int headerSize)"

definition needs_repair :: "dataFile \<Rightarrow> int \<Rightarrow> bool" where
  "needs_repair d cc \<longleftrightarrow>
     \<not> (\<not> df_truncated d \<and> writeCursor (df_hdr d) = int headerSize + df_size d \<and>
        writtenCount (df_hdr d) = df_written d \<and> commitCursor (df_hdr d) = cc \<and>
        committedCount (df_hdr d) = df_committed d)"

definition repairSegment :: "hash \<Rightarrow> nat \<Rightarrow> unit op" where
  "repairSegment xx n s =
     (let cc = repair_cursor (heap s n) (commitOff s)
      in if \<not> needs_repair (heap s n) cc then (Inr (), s)
         else case ensureOpen n s of
           (Inl e, s1) \<Rightarrow> (Inl e, s1)
         | (Inr _, s1) \<Rightarrow>
             let s2 = upd_df n (\<lambda>d. header xx
                        [setWriteCursor (int headerSize + df_size d), setWrittenCount (df_written d),
                         setCommitCursor cc, setCommittedCount (df_committed d)] d) s1
             in case writeHeader n s2 of
                  (Inl e, s3) \<Rightarrow> (Inl e, s3)
                | (Inr _, s3) \<Rightarrow>
                    (case flushFile n s3 of
                       (Inl e, s4) \<Rightarrow> (Inl e, s4)
                     | (Inr _, s4) \<Rightarrow>
                         if df_truncated (heap s4 n) then
                           let s5 = snd (os_run (preallocate n (wrap64 (int headerSize + df_capacity (heap s4 n)))) s4)
                           in (Inr (), upd_df n (\<lambda>d. d\<lparr>df_truncated := False\<rparr>) s5)
                         else (Inr (), s4)))"

fun repair_loop :: "hash \<Rightarrow> nat list \<Rightarrow> unit op" where
  "repair_loop xx [] s = (Inr (), s)"
| "repair_loop xx (n # ns) s =
     (case repairSegment xx n s of (Inl e, s1) \<Rightarrow> (Inl e, s1) | (Inr _, s1) \<Rightarrow> repair_loop xx ns s1)"

definition open_active :: "unit op" where
  "open_active s =
     (let af = the (active s)
      in case ensureOpen af s of
           (Inl e, s1) \<Rightarrow> (Inl e, s1)
         | (Inr _, s1) \<Rightarrow>
             (Inr (), snd (os_run (preallocate af (wrap64 (int headerSize + df_capacity (heap s1 af)))) s1)))"

text \<open>The cursors and counts once every segment is loaded: from here the queue is what it will be.\<close>

definition recovered :: "int list \<Rightarrow> int \<Rightarrow> store \<Rightarrow> store" where
  "recovered ccs fin s =
     (let s1 = s\<lparr>writeOff := fin\<rparr>;
          at = recover_commit ccs s1;
          s2 = s1\<lparr>commitOff := at, headOff := at, nCommitted := 0\<rparr>
      in reconcile (files s2) s2)"

definition segment_nums :: "nat list \<Rightarrow> nat list" where
  "segment_nums raw = remdups_adj (sort raw)"

definition load :: "hash \<Rightarrow> (string \<times> bool) list \<Rightarrow> unit op" where
  "load xx ents s =
     (case os_run os_plain s of
        (Inl e, s1) \<Rightarrow> (Inl e, s1)
      | (Inr _, s1) \<Rightarrow>
          (case scan_dir ents s1 of
             (raw, s2) \<Rightarrow>
               let nums = segment_nums raw
               in if nums = [] then startFresh xx 1 s2
                  else
                    (case load_loop xx nums 0 (s2\<lparr>nextNum := (last nums + 1) mod 2 ^ 64\<rparr>) of
                       (Inl e, s3) \<Rightarrow> (Inl e, s3)
                     | (Inr (ccs, fin), s3) \<Rightarrow>
                         if files s3 = [] then startFresh xx (nextNum s3) s3
                         else
                           let s4 = recovered ccs fin s3
                           in case repair_loop xx (rev (files s4)) s4 of
                                (Inl e, s5) \<Rightarrow> (Inl e, s5)
                              | (Inr _, s5) \<Rightarrow> open_active s5)))"

text \<open>\<open>openStore\<close>: the first call makes the directory, the second opens it.\<close>

definition openStore :: "hash \<Rightarrow> (string \<times> bool) list \<Rightarrow> int \<Rightarrow> int \<Rightarrow> bool \<Rightarrow> int \<Rightarrow> int \<Rightarrow> os \<Rightarrow> unit result \<times> store" where
  "openStore xx ents segSize maxSegs nosync every maxOpen w =
     (let s0 = new_store segSize maxSegs nosync every maxOpen w
      in case os_run os_plain s0 of
           (Inl e, s1) \<Rightarrow> (Inl e, s1)
         | (Inr _, s1) \<Rightarrow>
             (case os_run os_plain s1 of
                (Inl e, s2) \<Rightarrow> (Inl e, s2)
              | (Inr _, s2) \<Rightarrow>
                  (case os_run tryLockDir s2 of
                     (Inl e, s3) \<Rightarrow> (Inl e, snd (os_run os_close s3))
                   | (Inr _, s3) \<Rightarrow>
                       (case load xx ents (s3\<lparr>dirOpen := True\<rparr>) of
                          (Inl e, s4) \<Rightarrow> (Inl e, snd (close_store s4))
                        | (Inr _, s4) \<Rightarrow> (Inr (), s4)))))"

end
