(* ===== verification/Recovery_Walks.thy ===== *)
theory Recovery_Walks
  imports Recovery Append_Live
begin

text \<open>
  What the open path finds: the names of the segments, the records a damaged segment still
  holds, and a segment that never held anything.
\<close>

section \<open>Names\<close>

lemma dec_digit_value: "d < 10 \<Longrightarrow> of_char (dec_digit d) = (48 + d :: nat)"
  by (simp add: dec_digit_def)

lemma parse_dec_append: "parse_dec acc (xs @ ys) = (case parse_dec acc xs of None \<Rightarrow> None | Some v \<Rightarrow> parse_dec v ys)"
  by (induction xs arbitrary: acc) (simp_all add: Let_def)

lemma parse_dec_string: "\<exists>k. parse_dec acc (dec_string n) = Some (acc * 10 ^ k + n)"
proof (induction n arbitrary: acc rule: dec_string.induct)
  case (1 n)
  show ?case
  proof (cases "n < 10")
    case True
    then show ?thesis by (intro exI [of _ 1]) (simp add: dec_string.simps [of n] dec_digit_value Let_def)
  next
    case False
    obtain k where k: "parse_dec acc (dec_string (n div 10)) = Some (acc * 10 ^ k + n div 10)" using 1 False by blast
    have "10 * (acc * 10 ^ k + n div 10) + n mod 10 = acc * 10 ^ Suc k + n" by simp
    then show ?thesis
      using False k by (intro exI [of _ "Suc k"])
        (simp add: dec_string.simps [of n] parse_dec_append dec_digit_value Let_def del: mult_div_mod_eq)
  qed
qed

lemma parse_dec_zeros: "parse_dec 0 (replicate k (CHR ''0'') @ cs) = parse_dec 0 cs"
  by (induction k) (simp_all add: Let_def)

lemma dec_string_nonempty: "dec_string n \<noteq> []"
  by (subst dec_string.simps) simp

lemma filePath_reads:
  assumes "n < 2 ^ 64"
  shows "take (length filePrefix) (filePath n) = filePrefix" "ParseUint (drop (length filePrefix) (filePath n)) = Some n"
proof -
  have "parse_dec 0 (pad08 n) = Some n"
    using parse_dec_string [of 0 n] by (auto simp: pad08_def parse_dec_zeros)
  moreover have "pad08 n \<noteq> []" using dec_string_nonempty by (simp add: pad08_def)
  ultimately show "take (length filePrefix) (filePath n) = filePrefix" "ParseUint (drop (length filePrefix) (filePath n)) = Some n"
    using assms by (simp_all add: filePath_def ParseUint_def)
qed

text \<open>
  C38: the name the store gives a segment reads back as that segment's number, for every 64-bit
  number, also when it has more than the eight digits the name is padded to.
\<close>

theorem filePath_roundtrip:
  assumes "n < 2 ^ 64"
  shows "take (length filePrefix) (filePath n) = filePrefix \<and> ParseUint (drop (length filePrefix) (filePath n)) = Some n"
  using filePath_reads [OF assms] by simp

theorem filePath_roundtrip_witness:
  "ParseUint (drop (length filePrefix) (filePath 7)) = Some 7 \<and>
   ParseUint (drop (length filePrefix) (filePath 12345678901)) = Some 12345678901"
  using filePath_roundtrip [of 7] filePath_roundtrip [of 12345678901] by simp

section \<open>The directory\<close>

text \<open>The answer of \<open>os.ReadDir\<close>: every linked segment is listed under its name, next to anything else.\<close>

definition dir_lists :: "(string \<times> bool) list \<Rightarrow> os \<Rightarrow> bool" where
  "dir_lists ents w \<longleftrightarrow> (\<forall>n < 2 ^ 64. linked w n \<longleftrightarrow> (filePath n, False) \<in> set ents)"

lemma ParseUint_bound: "ParseUint cs = Some n \<Longrightarrow> n < 2 ^ 64"
  by (auto simp: ParseUint_def split: if_splits option.splits)

lemma filePath_inj: "m < 2 ^ 64 \<Longrightarrow> n < 2 ^ 64 \<Longrightarrow> filePath m = filePath n \<Longrightarrow> m = n"
  by (metis filePath_reads(2) option.inject)

lemma distinct_remdups_adj_sort: "sorted xs \<Longrightarrow> distinct (remdups_adj xs)" for xs :: "nat list"
  by (induction xs rule: remdups_adj.induct) (auto simp: less_le)

lemma os_stat_linked:
  assumes "os_run (os_stat n) s = (r, s')"
  shows "linked (os s') = linked (os s)" "r = Inr k \<Longrightarrow> linked (os s) n"
  using assms by (auto simp: os_run_def os_stat_def os_tick_def split: list.splits verdict.splits if_splits)

text \<open>What one entry contributes: its number when it is a segment, and the state after the look.\<close>

lemma scan_dir_step:
  obtains ns s1 where "scan_dir ((name, isDir) # es) s = (ns @ fst (scan_dir es s1), snd (scan_dir es s1))"
    "linked (os s1) = linked (os s)"
    "\<And>n. n \<in> set ns \<Longrightarrow> n < 2 ^ 64 \<and> (linked (os s) n \<or> (name, isDir) = (filePath n, False))"
    "\<And>n. n < 2 ^ 64 \<Longrightarrow> (name, isDir) = (filePath n, False) \<Longrightarrow> n \<in> set ns"
proof (cases "isDir \<or> take (length filePrefix) name \<noteq> filePrefix \<or> ParseUint (drop (length filePrefix) name) = None")
  case True
  have no: "(name, isDir) \<noteq> (filePath n, False)" if "n < 2 ^ 64" for n
    using True filePath_reads [OF that] by auto
  show thesis by (rule that [of "[]" s]) (use True no in auto)
next
  case False
  then obtain num where num: "ParseUint (drop (length filePrefix) name) = Some num" and f: "\<not> isDir" "take (length filePrefix) name = filePrefix" by auto
  have only: "num = n" if "n < 2 ^ 64" "name = filePath n" for n
    using num filePath_reads [OF that(1)] that(2) by simp
  note b = ParseUint_bound [OF num]
  show thesis
  proof (cases "name = filePath num")
    case True
    show thesis by (rule that [of "[num]" s]) (use f num True only b in \<open>auto split: prod.splits\<close>)
  next
    case ne: False
    obtain r s1 where 1: "os_run (os_stat num) s = (r, s1)" by force
    show thesis
      by (rule that [of "case r of Inl _ \<Rightarrow> [] | Inr _ \<Rightarrow> [num]" s1])
        (use f num ne only b 1 os_stat_linked [OF 1] in \<open>auto split: prod.splits sum.splits\<close>)
  qed
qed

lemma scan_dir_sound:
  "n \<in> set (fst (scan_dir es s)) \<Longrightarrow> n < 2 ^ 64 \<and> (linked (os s) n \<or> (filePath n, False) \<in> set es)"
proof (induction es arbitrary: s)
  case (Cons e es)
  obtain name isDir where e: "e = (name, isDir)" by force
  show ?case by (rule scan_dir_step [of name isDir es s]) (use Cons e in force)
qed simp

lemma scan_dir_complete:
  "n < 2 ^ 64 \<Longrightarrow> (filePath n, False) \<in> set es \<Longrightarrow> n \<in> set (fst (scan_dir es s))"
proof (induction es arbitrary: s)
  case (Cons e es)
  obtain name isDir where e: "e = (name, isDir)" by force
  show ?case by (rule scan_dir_step [of name isDir es s]) (use Cons e in force)
qed simp

lemma segment_nums_spec:
  assumes "dir_lists ents (os s)"
  shows "sorted (segment_nums (fst (scan_dir ents s))) \<and> distinct (segment_nums (fst (scan_dir ents s))) \<and>
    set (segment_nums (fst (scan_dir ents s))) = {n. n < 2 ^ 64 \<and> linked (os s) n}"
proof -
  have "set (fst (scan_dir ents s)) = {n. n < 2 ^ 64 \<and> linked (os s) n}"
    using assms scan_dir_sound [of _ ents s] scan_dir_complete [of _ ents s] by (auto simp: dir_lists_def)
  then show ?thesis by (simp add: segment_nums_def distinct_remdups_adj_sort)
qed

text \<open>
  C37: whatever else the directory holds and whatever the disk answers, the segments the open
  path goes through are exactly those the directory names, each once and in increasing order.
\<close>

theorem segment_nums_exact:
  assumes "dir_lists ents (os s)"
  shows "sorted (segment_nums (fst (scan_dir ents s))) \<and> distinct (segment_nums (fst (scan_dir ents s))) \<and>
    set (segment_nums (fst (scan_dir ents s))) = {n. n < 2 ^ 64 \<and> linked (os s) n}"
  using assms by (rule segment_nums_spec)

definition sample_dir :: "(string \<times> bool) list" where
  "sample_dir = [(filePath 3, False), (''notes'', False), (filePath 2, True), (filePath 1, False)]"

lemma sample_dir_lists: "dir_lists sample_dir (os_empty\<lparr>linked := (\<lambda>n. n = 1 \<or> n = 3)\<rparr>)"
proof -
  have "filePath n \<noteq> ''notes''" for n by (simp add: filePath_def filePrefix_def)
  then show ?thesis using filePath_inj [of _ 3] filePath_inj [of _ 1] by (auto simp: dir_lists_def sample_dir_def)
qed

theorem segment_nums_exact_witness:
  "set (segment_nums (fst (scan_dir sample_dir
      (new_store 4096 0 False 1 3 (os_empty\<lparr>linked := (\<lambda>n. n = 1 \<or> n = 3)\<rparr>))))) = {1, 3}"
proof -
  let ?w = "os_empty\<lparr>linked := (\<lambda>n. n = 1 \<or> n = 3)\<rparr>"
  let ?s = "new_store 4096 0 False 1 3 ?w"
  have w: "os ?s = ?w" by (simp add: new_store_def)
  have "{n. n < 2 ^ 64 \<and> linked (os ?s) n} = {1, 3}" unfolding w by auto
  then show ?thesis using segment_nums_exact [of sample_dir ?s] sample_dir_lists unfolding w by argo
qed

section \<open>Decoding a cut region\<close>

text \<open>A prefix of the region decodes the same record while the record fits in it, and none once it does not.\<close>

lemma uvarint_loop_ge: "0 < snd (uvarint_loop i x bs) \<Longrightarrow> int i + 1 \<le> snd (uvarint_loop i x bs)"
  by (induction i x bs rule: uvarint_loop.induct) (auto split: if_splits)

lemma uvarint_loop_extend: "0 < snd (uvarint_loop i x bs) \<Longrightarrow> uvarint_loop i x (bs @ cs) = uvarint_loop i x bs"
  by (induction i x bs rule: uvarint_loop.induct) (auto split: if_splits)

lemma uvarint_loop_cut:
  assumes "uvarint_loop i x bs = (v, n)" "0 < n"
  shows "uvarint_loop i x (take k bs) = (if n \<le> int i + int k then (v, n) else (0, 0))"
  using assms
proof (induction i x bs arbitrary: k rule: uvarint_loop.induct)
  case (2 i x b bs)
  have le: "int (Suc i) \<le> n" using "2.prems" uvarint_loop_ge [of i x "b # bs"] by auto
  show ?case
  proof (cases k)
    case 0
    then show ?thesis using le by simp
  next
    case (Suc k')
    then show ?thesis using "2.IH" [of k'] "2.prems" le
      by (cases "i = MaxVarintLen64"; cases "b < 0x80"; cases "i = MaxVarintLen64 - 1 \<and> b > 1") auto
  qed
qed simp

lemma Uvarint_cut:
  "Uvarint bs = (v, n) \<Longrightarrow> 0 < n \<Longrightarrow> Uvarint (take k bs) = (if n \<le> int k then (v, n) else (0, 0))"
  unfolding Uvarint_def using uvarint_loop_cut [of 0 0 bs v n k] by simp

lemma frame_at_decode:
  assumes "int (length bs) < 2 ^ 63"
  shows "frame_at bs =
    (case Uvarint bs of (v, n) \<Rightarrow>
       if 0 < n \<and> n + int v + int checksumSize \<le> int (length bs) then Some (nat n, nat n + v + checksumSize) else None)"
proof -
  obtain v n where uv: "Uvarint bs = (v, n)" by force
  show ?thesis
  proof (cases "0 < n")
    case True
    have n: "n \<le> int MaxVarintLen64" and v: "v < 2 ^ 64" using Uvarint_n_bound [of bs] Uvarint_u64 [of bs] uv by auto
    have "Uvarint (take MaxVarintLen64 bs) = (v, n)" using Uvarint_take [of bs] uv True by simp
    moreover have "uint (of_nat v :: u64) = int v" using v by (simp add: uint_nat unat_of_nat)
    ultimately show ?thesis using uv True n assms
      by (auto simp: frame_at_def frame_hdr_def fitsInRecord_exact)
  next
    case False
    have "\<not> 0 < snd (Uvarint (take MaxVarintLen64 bs))"
      using False uv uvarint_loop_extend [of 0 0 "take MaxVarintLen64 bs" "drop MaxVarintLen64 bs"]
      unfolding Uvarint_def append_take_drop_id by (metis snd_conv)
    then show ?thesis using uv False by (auto simp: frame_at_def frame_hdr_def split: prod.splits)
  qed
qed

lemma frame_at_cut:
  assumes "frame_at bs = Some (n, tot)" "int (length bs) < 2 ^ 63"
  shows "frame_at (take k bs) = (if tot \<le> k then Some (n, tot) else None)"
proof -
  obtain v m where uv: "Uvarint bs = (v, m)" by force
  have m: "0 < m" "m + int v + int checksumSize \<le> int (length bs)" "n = nat m" "tot = nat m + v + checksumSize"
    using assms uv by (auto simp: frame_at_decode split: if_splits)
  show ?thesis
    using Uvarint_cut [OF uv m(1), of k] m(2) assms(2) unfolding m(3,4)
    by (subst frame_at_decode) (use m(1) in auto)
qed

lemma frame_at_bounds:
  assumes "frame_at bs = Some (n, tot)" "int (length bs) < 2 ^ 63"
  shows "0 < tot" "tot \<le> length bs"
  using frame_hdr_bounds [of "take MaxVarintLen64 bs" "int (length bs)" n tot] assms
  by (auto simp: frame_at_def checksumSize_def)

lemma frame_at_Nil [simp]: "frame_at [] = None"
  by (simp add: frame_at_def frame_hdr_def Uvarint_def)

section \<open>The walks on the bytes alone\<close>

text \<open>
  \<open>whole_run bs\<close> is how many frames follow each other from the start of \<open>bs\<close> and how many bytes they
  take; \<open>intact_run\<close> also asks each for its checksum.
\<close>

definition intact_at :: "hash \<Rightarrow> bytes \<Rightarrow> bool" where
  "intact_at xx bs \<longleftrightarrow>
     (case frame_at bs of None \<Rightarrow> False | Some (n, tot) \<Rightarrow> frame_sum tot bs = unat (xx (frame_payload n tot bs)))"

function run_of :: "(bytes \<Rightarrow> bool) \<Rightarrow> bytes \<Rightarrow> nat \<times> nat" where
  "run_of good bs =
     (case frame_at bs of
        None \<Rightarrow> (0, 0)
      | Some (n, tot) \<Rightarrow>
          if good bs \<and> 0 < tot \<and> tot \<le> length bs
          then (case run_of good (drop tot bs) of (c, k) \<Rightarrow> (Suc c, tot + k)) else (0, 0))"
  by pat_completeness auto
termination
  by (relation "measure (\<lambda>(good, bs). length bs)") auto

declare run_of.simps [simp del]

lemma run_of_stop: "frame_at bs = None \<or> \<not> good bs \<Longrightarrow> run_of good bs = (0, 0)"
  by (subst run_of.simps) (auto split: option.splits)

lemma run_of_step:
  assumes "frame_at bs = Some (n, tot)" "int (length bs) < 2 ^ 63" "good bs"
  shows "run_of good bs = (Suc (fst (run_of good (drop tot bs))), tot + snd (run_of good (drop tot bs)))"
  using assms frame_at_bounds [OF assms(1,2)] by (subst run_of.simps) (simp add: split_beta)

lemma intact_frame:
  assumes "int (length (frame xx p @ rest)) < 2 ^ 63"
  shows "intact_at xx (frame xx p @ rest)"
  using frame_at_frame [OF assms] by (simp add: intact_at_def frame_payload_frame frame_sum_frame)

lemma run_of_frames:
  assumes "int (length (frames xx ps @ rest)) < 2 ^ 63" "good = intact_at xx \<or> good = (\<lambda>_. True)"
    "frame_at rest = None \<or> \<not> good rest"
  shows "run_of good (frames xx ps @ rest) = (length ps, length (frames xx ps))"
  using assms
proof (induction ps)
  case Nil
  then show ?case using run_of_stop by auto
next
  case (Cons p ps)
  let ?bs = "frame xx p @ frames xx ps @ rest"
  have len: "int (length ?bs) < 2 ^ 63" using Cons.prems(1) by simp
  have "good ?bs" using Cons.prems(2) intact_frame [OF len] by auto
  from run_of_step [OF frame_at_frame [OF len] len, of good, OF this] show ?case
    using Cons by simp
qed

text \<open>Records cut anywhere: the whole ones are counted, the torn one ends the walk.\<close>

lemma frames_cut:
  obtains k rest where "take m (frames xx qs) = frames xx (take k qs) @ rest" "k \<le> length qs"
    "rest = [] \<and> k = length qs \<or> k < length qs \<and> (\<exists>j < length (frame xx (qs ! k)). rest = take j (frame xx (qs ! k)))"
proof (induction qs arbitrary: m thesis)
  case Nil
  show ?case by (rule Nil [of 0 "[]"]) simp_all
next
  case (Cons q qs)
  show ?case
  proof (cases "m < length (frame xx q)")
    case True
    show ?thesis by (rule Cons.prems [of 0 "take m (frame xx q)"]) (use True in auto)
  next
    case False
    obtain k rest where "take (m - length (frame xx q)) (frames xx qs) = frames xx (take k qs) @ rest" "k \<le> length qs"
      "rest = [] \<and> k = length qs \<or> k < length qs \<and> (\<exists>j < length (frame xx (qs ! k)). rest = take j (frame xx (qs ! k)))"
      using Cons.IH by blast
    then show ?thesis by (intro Cons.prems [of "Suc k" rest]) (use False in auto)
  qed
qed

lemma length_frame_le: "q \<in> set qs \<Longrightarrow> length (frame xx q) \<le> length (frames xx qs)"
  by (induction qs) auto

lemma frame_at_torn:
  assumes "j < length (frame xx q)" "int (length (frame xx q)) < 2 ^ 63"
  shows "frame_at (take j (frame xx q)) = None"
  using frame_at_cut [OF frame_at_frame [of xx q "[]"], of j] assms by simp

lemma records_step:
  assumes "frame_at bs = Some (n, tot)" "tot \<le> k" "k \<le> length bs" "int (length bs) < 2 ^ 63" "intact_at xx bs"
    "records xx (take (k - tot) (drop tot bs)) = Some ps"
  shows "records xx (take k bs) = Some (frame_payload n tot bs # ps)"
proof -
  have "frame_at (take k bs) = Some (n, tot)" using frame_at_cut [OF assms(1,4)] assms(2) by simp
  moreover have "frame_payload n tot (take k bs) = frame_payload n tot bs" "frame_sum tot (take k bs) = frame_sum tot bs"
    using assms(2) by (simp_all add: frame_payload_def frame_sum_def slice_def drop_take min_def)
  moreover have "drop tot (take k bs) = take (k - tot) (drop tot bs)" by (simp add: drop_take)
  moreover have "take k bs \<noteq> []" using assms frame_at_bounds [OF assms(1,4)] by auto
  ultimately show ?thesis
    using assms frame_at_bounds [OF assms(1,4)] by (subst records.simps) (simp add: intact_at_def)
qed

text \<open>What \<open>intact_run\<close> counts decodes to that many payloads, and no intact record follows.\<close>

lemma run_of_records:
  assumes "int (length bs) < 2 ^ 63"
  shows "\<exists>ps. records xx (take (snd (run_of (intact_at xx) bs)) bs) = Some ps \<and>
    length ps = fst (run_of (intact_at xx) bs) \<and> snd (run_of (intact_at xx) bs) \<le> length bs \<and>
    \<not> intact_at xx (drop (snd (run_of (intact_at xx) bs)) bs)"
  using assms
proof (induction "intact_at xx" bs rule: run_of.induct)
  case (1 bs)
  show ?case
  proof (cases "intact_at xx bs")
    case False
    then show ?thesis by (simp add: run_of_stop records.simps)
  next
    case True
    then obtain n tot where f: "frame_at bs = Some (n, tot)" by (auto simp: intact_at_def split: option.splits)
    note b = frame_at_bounds [OF f "1.prems"]
    let ?r = "run_of (intact_at xx) (drop tot bs)"
    obtain ps where ps: "records xx (take (snd ?r) (drop tot bs)) = Some ps" "length ps = fst ?r" "snd ?r \<le> length bs - tot"
      "\<not> intact_at xx (drop (snd ?r) (drop tot bs))"
      using "1.hyps" [OF f refl] True b "1.prems" by auto
    have "records xx (take (tot + snd ?r) bs) = Some (frame_payload n tot bs # ps)"
      by (rule records_step [OF f]) (use b ps True "1.prems" in simp_all)
    moreover have "run_of (intact_at xx) bs = (Suc (fst ?r), tot + snd ?r)"
      using run_of_step [OF f "1.prems", of "intact_at xx"] True by simp
    ultimately show ?thesis using ps b by (simp add: drop_drop add.commute)
  qed
qed

section \<open>The walks of the store\<close>

lemma region_advance: "0 \<le> q \<Longrightarrow> region d ino (q + int k) = drop k (region d ino q)"
  by (simp add: region_def slice_def drop_take nat_add_distrib add.commute add.left_commute)

lemma region_past: "df_size d \<le> q \<Longrightarrow> region d ino q = []"
  by (simp add: region_def slice_def)

text \<open>The two loops are one walk, with the checksum or without it.\<close>

definition walked :: "(bytes \<Rightarrow> bool) \<Rightarrow> bytes \<Rightarrow> int \<Rightarrow> int \<Rightarrow> bool \<Rightarrow> (int \<times> int) result \<Rightarrow> bool" where
  "walked good bs off n clean r \<longleftrightarrow>
     r = Inr (n + int (fst (run_of good bs)), off + int (snd (run_of good bs))) \<or> (\<exists>x. r = Inl (Errno x)) \<and> \<not> clean"

lemma walked_step:
  assumes "walked good (drop tot bs) (off + int tot) (n + 1) clean' r" "frame_at bs = Some (m, tot)"
    "int (length bs) < 2 ^ 63" "good bs" "clean \<Longrightarrow> clean'"
  shows "walked good bs off n clean r"
  using assms(1,5) run_of_step [OF assms(2,3), of good, OF assms(4)] by (auto simp: walked_def)

lemma walked_stop: "frame_at bs = None \<or> \<not> good bs \<Longrightarrow> walked good bs off n clean (Inr (n, off))"
  by (simp add: walked_def run_of_stop)

text \<open>Reads leave what the walk looks at alone.\<close>

lemma view_region:
  assumes v: "view s1 = view s"
  shows "region (heap s1 n) (inode (os s1) n) q = region (heap s n) (inode (os s) n) q"
    "whole (heap s1 n) (inode (os s1) n) = whole (heap s n) (inode (os s) n)" "df_size (heap s1 n) = df_size (heap s n)"
    "df_base (heap s1 n) = df_base (heap s n)" "df_end (heap s1 n) = df_end (heap s n)"
  using view_eq_df_fields [OF v, of n] view_eq_fields [OF v] by (simp_all add: region_def whole_def)

lemma read_stepD:
  assumes "read_step s s1"
  shows "view s1 = view s" "block_ok s1" "fault_free s \<Longrightarrow> fault_free s1"
  using assms by (simp_all add: read_step_def)

lemma ref_len_region:
  assumes w: "whole d ino" and q: "0 \<le> off - df_base d" "off < df_end d"
  shows "ref_len d ino off = Inr (map_option (\<lambda>(n, tot). off + int tot) (frame_at (region d ino (off - df_base d))))"
  using ref_hdr_region [OF w q(1)] q by (auto simp: ref_len_def df_end_def Let_def split: option.split)

lemma region_after:
  assumes "0 \<le> off - df_base d"
  shows "region d ino (off + int tot - df_base d) = drop tot (region d ino (off - df_base d))"
  using region_advance [OF assms, of d ino tot] by (simp add: algebra_simps)

lemma length_region_small:
  assumes "whole d ino" "0 \<le> off - df_base d" "off < df_end d" "df_size d < 2 ^ 63"
  shows "int (length (region d ino (off - df_base d))) < 2 ^ 63"
  using length_region [OF assms(1,2)] assms by (simp add: df_end_def)

lemma ref_record_none:
  assumes w: "whole d ino" and q: "0 \<le> off - df_base d" "off < df_end d"
    and "frame_at (region d ino (off - df_base d)) = None"
  shows "ref_record d ino off = Inr None"
  using ref_hdr_region [OF w q(1)] assms by (simp add: ref_record_def df_end_def Let_def)

lemma survive_loop_walks:
  assumes "block_ok s" "whole (heap s df) (inode (os s) df)" "df_size (heap s df) < 2 ^ 63"
    "df_base (heap s df) \<le> off" "fin = df_end (heap s df)" "survive_loop df fin off n s = (r, s')"
  shows "read_step s s' \<and>
    walked (\<lambda>_. True) (region (heap s df) (inode (os s) df) (off - df_base (heap s df))) off n (fault_free s) r"
  using assms
proof (induction df fin off n s rule: survive_loop.induct)
  case (1 df fin off n s)
  let ?d = "heap s df" and ?ino = "inode (os s) df"
  let ?R = "region ?d ?ino (off - df_base ?d)"
  note prems = "1.prems" and unfold = survive_loop.simps [of df fin off n s]
  show ?case
  proof (cases "off < fin")
    case False
    then have "?R = []" using prems(5) by (intro region_past) (simp add: df_end_def)
    then show ?thesis using prems(1,6) False by (auto simp: unfold walked_stop read_step_refl)
  next
    case True
    have q: "0 \<le> off - df_base ?d" "off < df_end ?d" using prems True by auto
    obtain r1 s1 where 1: "recordLen df off s = (r1, s1)" by force
    have st: "read_step s s1" and v: "r1 = ref_len ?d ?ino off \<or> (\<exists>x. r1 = Inl (Errno x)) \<and> \<not> fault_free s"
      using recordLen_spec [OF prems(1) 1] by auto
    from v ref_len_region [OF prems(2) q] consider (none) "r1 = Inr None" "frame_at ?R = None"
      | (rec) m tot where "r1 = Inr (Some (off + int tot))" "frame_at ?R = Some (m, tot)"
      | (bad) x where "r1 = Inl (Errno x)" "\<not> fault_free s"
      by (cases "frame_at ?R") auto
    then show ?thesis
    proof cases
      case none
      then show ?thesis using prems(6) True 1 st by (auto simp: unfold walked_stop)
    next
      case bad
      then show ?thesis using prems(6) True 1 st by (auto simp: unfold walked_def)
    next
      case rec
      note e = read_stepD [OF st] view_region [OF read_stepD(1) [OF st]]
      have "survive_loop df fin (off + int tot) (n + 1) s1 = (r, s')"
        using prems(6) True 1 rec by (simp add: unfold)
      with "1.IH" [OF True 1 [symmetric] rec(1) refl]
      have "read_step s1 s' \<and> walked (\<lambda>_. True) (drop tot ?R) (off + int tot) (n + 1) (fault_free s1) r"
        using prems e region_after [OF q(1), of ?ino tot] by simp
      then show ?thesis
        using walked_step [OF _ rec(2) length_region_small [OF prems(2) q prems(3)], of "\<lambda>_. True"]
          read_step_trans [OF st] e(3) by blast
    qed
  qed
qed

lemma verified_loop_walks:
  assumes "block_ok s" "whole (heap s df) (inode (os s) df)" "df_size (heap s df) < 2 ^ 63"
    "df_base (heap s df) \<le> off" "fin = df_end (heap s df)" "verified_loop xx df fin off n s = (r, s')"
  shows "read_step s s' \<and>
    walked (intact_at xx) (region (heap s df) (inode (os s) df) (off - df_base (heap s df))) off n (fault_free s) r"
  using assms
proof (induction xx df fin off n s rule: verified_loop.induct)
  case (1 xx df fin off n s)
  let ?d = "heap s df" and ?ino = "inode (os s) df"
  let ?R = "region ?d ?ino (off - df_base ?d)"
  note prems = "1.prems" and unfold = verified_loop.simps [of xx df fin off n s]
  show ?case
  proof (cases "off < fin")
    case False
    then have "?R = []" using prems(5) by (intro region_past) (simp add: df_end_def)
    then show ?thesis using prems(1,6) False by (auto simp: unfold walked_stop read_step_refl)
  next
    case True
    have q: "0 \<le> off - df_base ?d" "off < df_end ?d" using prems True by auto
    obtain r1 s1 where 1: "recordAt df off s = (r1, s1)" by force
    have st: "read_step s s1" and v: "r1 = ref_record ?d ?ino off \<or> (\<exists>x. r1 = Inl (Errno x)) \<and> \<not> fault_free s"
      using recordAt_spec [OF prems(1,3) 1] by auto
    from v ref_record_none [OF prems(2) q] ref_record_region [OF prems(2) q prems(3)]
    consider (none) "r1 = Inr None" "frame_at ?R = None"
      | (rec) m tot where "r1 = Inr (Some (frame_payload m tot ?R, frame_sum tot ?R, off + int tot))" "frame_at ?R = Some (m, tot)"
      | (bad) x where "r1 = Inl (Errno x)" "\<not> fault_free s"
      by (cases "frame_at ?R") auto
    then show ?thesis
    proof cases
      case none
      then show ?thesis using prems(6) True 1 st by (auto simp: unfold walked_stop)
    next
      case bad
      then show ?thesis using prems(6) True 1 st by (auto simp: unfold walked_def)
    next
      case rec
      note e = read_stepD [OF st] view_region [OF read_stepD(1) [OF st]]
      show ?thesis
      proof (cases "intact_at xx ?R")
        case False
        then show ?thesis using prems(6) True 1 st rec by (auto simp: unfold walked_stop intact_at_def)
      next
        case good: True
        then have ok: "unat (xx (frame_payload m tot ?R)) = frame_sum tot ?R" using rec(2) by (simp add: intact_at_def)
        then have "verified_loop xx df fin (off + int tot) (n + 1) s1 = (r, s')"
          using prems(6) True 1 rec by (simp add: unfold)
        with "1.IH" [OF True 1 [symmetric] rec(1) refl refl refl] ok
        have "read_step s1 s' \<and> walked (intact_at xx) (drop tot ?R) (off + int tot) (n + 1) (fault_free s1) r"
          using prems e region_after [OF q(1), of ?ino tot] by simp
        then show ?thesis
          using walked_step [OF _ rec(2) length_region_small [OF prems(2) q prems(3)], of "intact_at xx"] good
            read_step_trans [OF st] e(3) by blast
      qed
    qed
  qed
qed

lemma ensureOpen_looks:
  assumes "block_ok s" "ensureOpen n s = (r, s1)"
  shows "view s1 = view s" "block_ok s1" "fault_free s \<Longrightarrow> fault_free s1"
  using core_imp_view [OF core_ensureOpen [OF assms(2)]] block_ok_core [OF core_ensureOpen [OF assms(2)] assms(1)]
    ff_ensureOpen [OF _ assms(2)] by blast+

text \<open>
  C35: on a segment of any content the verified walk stops at the end of the longest run of
  intact records from the start: what it counts decodes to that many payloads, each with its checksum,
  and the bytes after it do not begin with an intact record; otherwise it returns an error of
  the device.
\<close>

theorem countVerified_exact:
  assumes "block_ok s" "whole (heap s df) (inode (os s) df)" "df_size (heap s df) < 2 ^ 63" "linked (os s) df"
    and r: "countVerified xx df s = (r, s')"
  shows "(\<exists>k ps. r = Inr (int (length ps), df_base (heap s df) + int k) \<and> k \<le> length (data_of s df) \<and>
      records xx (take k (data_of s df)) = Some ps \<and> \<not> intact_at xx (drop k (data_of s df))) \<or>
    (\<exists>x. r = Inl (Errno x)) \<and> \<not> fault_free s"
proof -
  obtain r1 s1 where 1: "ensureOpen df s = (r1, s1)" by force
  show ?thesis
  proof (cases r1)
    case (Inl e)
    then show ?thesis using r 1 ensureOpen_error [of df s e s1] assms(4) by (auto simp: countVerified_def)
  next
    case (Inr u)
    note e = ensureOpen_looks [OF assms(1) 1] view_region [OF ensureOpen_looks(1) [OF assms(1) 1]]
    have "walked (intact_at xx) (data_of s df) (df_base (heap s df)) 0 (fault_free s1) r"
      using verified_loop_walks [of s1 df "df_base (heap s1 df)" _ xx 0 r s'] r 1 Inr e assms
      by (simp add: countVerified_def data_of_def)
    moreover have "int (length (data_of s df)) < 2 ^ 63"
      using length_region [OF assms(2), of 0] assms(3) region_past [of "heap s df" 0] by (cases "df_size (heap s df) \<le> 0") (auto simp: data_of_def)
    ultimately show ?thesis
      using run_of_records [of "data_of s df" xx] e(3) by (auto simp: walked_def)
  qed
qed

text \<open>A segment that lost the end of its second record.\<close>

definition sample_torn :: store where
  "sample_torn = (new_store 4096 0 False 1 3
      (os_empty\<lparr>inode := (\<lambda>_. replicate 64 0 @ take 15 (frames (\<lambda>_. 5) [[1, 2], [3]])), linked := (\<lambda>_. True)\<rparr>))
     \<lparr>heap := zero_dataFile(1 := (zero_dataFile 1)\<lparr>df_base := 100, df_size := 15, df_capacity := 4096\<rparr>)\<rparr>"

lemma length_sample_frames: "length (frames (\<lambda>_. 5) [[1, 2], [3]]) = 21" "length (frames (\<lambda>_. 5) [[1, 2]]) = 11"
  using length_frame [of "\<lambda>_. 5" "[1, 2]"] length_frame [of "\<lambda>_. 5" "[3]"] by (simp_all add: framedLen_def checksumSize_def)

lemma sample_torn_facts:
  "block_ok sample_torn" "whole (heap sample_torn 1) (inode (os sample_torn) 1)" "df_size (heap sample_torn 1) < 2 ^ 63"
  "linked (os sample_torn) 1" "data_of sample_torn 1 = take 15 (frames (\<lambda>_. 5) [[1, 2], [3]])"
  "df_base (heap sample_torn 1) = 100" "fault_free sample_torn" "length (data_of sample_torn 1) = 15"
proof -
  note defs = sample_torn_def new_store_def zero_dataFile_def os_empty_def headerSize_def
  show d: "data_of sample_torn 1 = take 15 (frames (\<lambda>_. 5) [[1, 2], [3]])"
    by (simp add: data_of_alt defs del: frames_simps)
  show "length (data_of sample_torn 1) = 15" unfolding d using length_sample_frames(1) by (simp del: frames_simps)
  show "whole (heap sample_torn 1) (inode (os sample_torn) 1)"
    using length_sample_frames(1) by (simp add: whole_def defs del: frames_simps)
qed (simp_all add: sample_torn_def new_store_def zero_dataFile_def os_empty_def fault_free_def block_ok_def del: frames_simps)

theorem countVerified_exact_witness:
  "\<exists>k ps. fst (countVerified (\<lambda>_. 5) 1 sample_torn) = Inr (int (length ps), 100 + int k) \<and>
    records (\<lambda>_. 5) (take k (data_of sample_torn 1)) = Some ps \<and> \<not> intact_at (\<lambda>_. 5) (drop k (data_of sample_torn 1))"
  using countVerified_exact [OF sample_torn_facts(1-4) surjective_pairing, of "\<lambda>_. 5"] sample_torn_facts(6,7)
  by (auto simp del: One_nat_def)

text \<open>
  C36: when a segment of whole records is cut off anywhere, the walk over the surviving bytes
  counts exactly the records that are still whole and ends where the last of them does;
  otherwise it returns an error of the device.
\<close>

theorem surviveCount_cut:
  assumes "block_ok s" "whole (heap s df) (inode (os s) df)" "df_size (heap s df) < 2 ^ 63" "linked (os s) df"
    and cut: "data_of s df = take m (frames xx qs)" "int (length (frames xx qs)) < 2 ^ 63"
    and r: "surviveCount df s = (r, s')"
  shows "(\<exists>k \<le> length qs. r = Inr (int k, df_base (heap s df) + int (length (frames xx (take k qs)))) \<and>
      length (frames xx (take k qs)) \<le> length (data_of s df) \<and>
      (k < length qs \<longrightarrow> length (data_of s df) < length (frames xx (take (Suc k) qs)))) \<or>
    (\<exists>x. r = Inl (Errno x)) \<and> \<not> fault_free s"
proof -
  obtain r1 s1 where 1: "ensureOpen df s = (r1, s1)" by force
  show ?thesis
  proof (cases r1)
    case (Inl e)
    then show ?thesis using r 1 ensureOpen_error [of df s e s1] assms(4) by (auto simp: surviveCount_def)
  next
    case (Inr u)
    note e = ensureOpen_looks [OF assms(1) 1] view_region [OF ensureOpen_looks(1) [OF assms(1) 1]]
    have w: "walked (\<lambda>_. True) (data_of s df) (df_base (heap s df)) 0 (fault_free s1) r"
      using survive_loop_walks [of s1 df "df_base (heap s1 df)" _ 0 r s'] r 1 Inr e assms
      by (simp add: surviveCount_def data_of_def)
    obtain k rest where k: "take m (frames xx qs) = frames xx (take k qs) @ rest" "k \<le> length qs"
      "rest = [] \<and> k = length qs \<or> k < length qs \<and> (\<exists>j < length (frame xx (qs ! k)). rest = take j (frame xx (qs ! k)))"
      by (rule frames_cut)
    have small: "int (length (frame xx (qs ! k))) < 2 ^ 63" if "k < length qs"
      using cut(2) length_frame_le [OF nth_mem [OF that], of xx] by linarith
    have "frame_at rest = None" using k(3) frame_at_torn small by auto
    moreover have "int (length (frames xx (take k qs) @ rest)) < 2 ^ 63" 
      using cut(2) arg_cong [OF k(1), of length] by simp
    ultimately have "run_of (\<lambda>_. True) (data_of s df) = (length (take k qs), length (frames xx (take k qs)))"
      unfolding cut(1) k(1) by (intro run_of_frames) simp_all
    moreover have "length (data_of s df) < length (frames xx (take (Suc k) qs))" if "k < length qs"
      using k(1,3) that unfolding cut(1) by (auto simp: take_Suc_conv_app_nth)
    ultimately show ?thesis using w k(1,2) e(3) cut(1) by (auto simp: walked_def)
  qed
qed

theorem surviveCount_cut_witness: "fst (surviveCount 1 sample_torn) = Inr (1, 111)"
proof -
  let ?xx = "\<lambda>_. 5" and ?qs = "[[1, 2], [3]]"
  note len = length_sample_frames
  have "int (length (frames ?xx ?qs)) < 2 ^ 63" unfolding len(1) by simp
  from surviveCount_cut [OF sample_torn_facts(1-5) this surjective_pairing]
  obtain k where k: "k \<le> length ?qs"
    "fst (surviveCount 1 sample_torn) = Inr (int k, 100 + int (length (frames ?xx (take k ?qs))))"
    "length (frames ?xx (take k ?qs)) \<le> 15" "k < length ?qs \<longrightarrow> 15 < length (frames ?xx (take (Suc k) ?qs))"
    using sample_torn_facts(6,7,8) by auto
  from k(1) consider "k = 0" | "k = 1" | "k = 2" by fastforce
  then show ?thesis using k(2-4) len by cases (simp_all del: frames_simps add: numeral_2_eq_2 [symmetric])
qed

end
