(* ===== verification/Commit_Refine.thy ===== *)
theory Commit_Refine
  imports Commit_Walk Recovery_Walks
begin

text \<open>
  Committing is dropping a prefix of the backlog, whatever the disk does.  The invariant of the
  append side is extended by the commit marks: the cursor and the count in the header of every
  live segment, and the count the store keeps for it, are those of the commit cursor.
\<close>

section \<open>Commit marks\<close>

definition done_in :: "hash \<Rightarrow> store \<Rightarrow> nat \<Rightarrow> int \<Rightarrow> int" where
  "done_in xx s n c = int (length (filter (\<lambda>x. fst x < c) (seg_flat xx s n)))"

definition mark_at :: "dataFile \<Rightarrow> int \<Rightarrow> int" where
  "mark_at d c = int headerSize + min (max (c - df_base d) 0) (df_size d)"

definition mark_room :: "dataFile \<Rightarrow> bool" where
  "mark_room d \<longleftrightarrow> int headerSize + df_size d < 2 ^ 63 \<and> int headerSize + df_capacity d < 2 ^ 63"

definition marked :: "hash \<Rightarrow> int \<Rightarrow> store \<Rightarrow> nat \<Rightarrow> bool" where
  "marked xx c s n \<longleftrightarrow> mark_room (heap s n) \<and>
     commitCursor (df_hdr (heap s n)) = mark_at (heap s n) c \<and>
     committedCount (df_hdr (heap s n)) = done_in xx s n c \<and> df_committed (heap s n) = done_in xx s n c"

definition commit_ok :: "hash \<Rightarrow> store \<Rightarrow> bool" where
  "commit_ok xx s \<longleftrightarrow> queue_ok xx s \<and> (\<forall>n \<in> set (files s). marked xx (commitOff s) s n)"

lemma seg_flat_split:
  assumes f: "file_ok xx s n" and m: "(q, p) \<in> set (seg_flat xx s n)"
  obtains xs ys where "seg_flat xx s n = xs @ (q, p) # ys" "\<forall>x \<in> set xs. fst x < q"
    "\<forall>y \<in> set ys. q + framedLen (length p) \<le> fst y"
proof -
  obtain as bs where ab: "recs_of xx s n = as @ p # bs" "q = df_base (heap s n) + int (length (frames xx as))"
    using m offs_mem unfolding seg_flat_def by blast
  have sp: "seg_flat xx s n = offs (df_base (heap s n)) as @ (q, p) # offs (q + framedLen (length p)) bs"
    unfolding seg_flat_def ab(1) offs_append [where xx = xx] ab(2) by simp
  moreover have "fst x < q" if x: "x \<in> set (offs (df_base (heap s n)) as)" for x
  proof -
    obtain cs ds where "as = cs @ snd x # ds" "fst x = df_base (heap s n) + int (length (frames xx cs))"
      using offs_mem [of "fst x" "snd x" "df_base (heap s n)" as xx] x by auto
    then show ?thesis using framedLen_gt0 [of "length (snd x)"] ab(2) by (simp add: length_frame del: framedLen_gt0)
  qed
  moreover have "q + framedLen (length p) \<le> fst y" if "y \<in> set (offs (q + framedLen (length p)) bs)" for y
    using offs_from [of "fst y" "snd y"] that by simp
  ultimately show ?thesis using that by blast
qed

lemma done_in_step:
  assumes f: "file_ok xx s n" and m: "(q, p) \<in> set (seg_flat xx s n)"
  shows "done_in xx s n (q + framedLen (length p)) = done_in xx s n q + 1"
proof -
  obtain xs ys where h: "seg_flat xx s n = xs @ (q, p) # ys" "\<forall>x \<in> set xs. fst x < q"
    "\<forall>y \<in> set ys. q + framedLen (length p) \<le> fst y" by (rule seg_flat_split [OF assms])
  let ?n = "q + framedLen (length p)"
  have pos: "q < ?n" by simp
  have g: "filter (\<lambda>x. fst x < c) xs = xs" "filter (\<lambda>x. fst x < c) ys = []" if "q \<le> c" "c \<le> ?n" for c
    using h(2,3) that by (force simp: filter_id_conv filter_empty_conv)+
  from g [of q] g [of ?n] show ?thesis using pos by (simp add: done_in_def h(1))
qed

lemma done_in_outside:
  assumes f: "file_ok xx s n" and o: "x \<le> df_base (heap s n) \<and> y \<le> df_base (heap s n) \<or> df_end (heap s n) \<le> x \<and> df_end (heap s n) \<le> y"
  shows "done_in xx s n x = done_in xx s n y" "mark_at (heap s n) x = mark_at (heap s n) y"
proof -
  have "fst z < x \<longleftrightarrow> fst z < y" if "z \<in> set (seg_flat xx s n)" for z
    using seg_flat_bounds [OF f, of "fst z" "snd z"] that o framedLen_gt0 [of "length (snd z)"] by (auto simp del: framedLen_gt0)
  then have "filter (\<lambda>z. fst z < x) (seg_flat xx s n) = filter (\<lambda>z. fst z < y) (seg_flat xx s n)" by (simp cong: filter_cong)
  then show "done_in xx s n x = done_in xx s n y" by (simp add: done_in_def)
  show "mark_at (heap s n) x = mark_at (heap s n) y" using o file_ok_size [OF f] by (auto simp: mark_at_def df_end_def)
qed

lemma marked_outside:
  assumes "file_ok xx s n" "x \<le> df_base (heap s n) \<and> y \<le> df_base (heap s n) \<or> df_end (heap s n) \<le> x \<and> df_end (heap s n) \<le> y"
  shows "marked xx x s n = marked xx y s n"
  using done_in_outside [OF assms] by (simp add: marked_def)

lemma length_frames_ge: "length ps \<le> length (frames xx ps)"
proof (induction ps)
  case (Cons p ps)
  have "0 < length (frame xx p)" using length_frame framedLen_gt0 by (metis of_nat_0_less_iff)
  moreover have "length (frames xx (p # ps)) = length (frame xx p) + length (frames xx ps)" by simp
  ultimately show ?case using Cons by (simp only: list.size)
qed simp

lemma done_in_bounds:
  assumes f: "file_ok xx s n"
  shows "0 \<le> done_in xx s n c" "done_in xx s n c \<le> df_size (heap s n)"
proof -
  have "length (seg_flat xx s n) = length (recs_of xx s n)"
    unfolding seg_flat_def by (metis length_map map_snd_offs)
  then have "done_in xx s n c \<le> int (length (recs_of xx s n))"
    using length_filter_le [of "\<lambda>x. fst x < c" "seg_flat xx s n"] by (simp add: done_in_def)
  also have "\<dots> \<le> df_size (heap s n)"
    using length_frames_ge [of "recs_of xx s n" xx] file_ok_data [OF f] by simp
  finally show "done_in xx s n c \<le> df_size (heap s n)" .
  show "0 \<le> done_in xx s n c" by (simp add: done_in_def)
qed

lemma mark_in:
  assumes "df_base d \<le> c" "c \<le> df_end d"
  shows "mark_at d c = int headerSize + (c - df_base d)"
  using assms by (simp add: mark_at_def df_end_def)

text \<open>Setting both marks of a header to values of a segment reads them back.\<close>

lemma marks_set:
  assumes "length hdr = headerSize" "0 \<le> a" "a < 2 ^ 63" "0 \<le> b" "b < 2 ^ 63"
  shows "commitCursor (header_mods xx [setCommitCursor a, setCommittedCount b] hdr) = a"
    "committedCount (header_mods xx [setCommitCursor a, setCommittedCount b] hdr) = b"
    "length (header_mods xx [setCommitCursor a, setCommittedCount b] hdr) = headerSize"
  using assms by (simp_all add: header_mods_def hdr_laws is_i64_def)


section \<open>States that differ in the commit cursor\<close>

lemma options_quiet: "quiet s s' \<Longrightarrow> options s' = options s"
  using settings_quiet [of s s'] by (simp add: settings_def)

lemma options_dropCommitted: "distinct (files s) \<Longrightarrow> options (dropCommitted keep s) = options s"
  using settings_dropCommitted(1) [of s keep] by (simp add: settings_def)

definition alike :: "store \<Rightarrow> store \<Rightarrow> bool" where
  "alike s s' \<longleftrightarrow> files s' = files s \<and> writeOff s' = writeOff s \<and> headOff s' = headOff s \<and>
     nextNum s' = nextNum s \<and> lastFrameAt s' = lastFrameAt s \<and> lastFrameEnd s' = lastFrameEnd s \<and>
     reserved s' = reserved s \<and> options s' = options s \<and> (\<forall>n. same_seg s s' n) \<and> (block_ok s \<longrightarrow> block_ok s')"

lemma alikeD:
  assumes "alike s s'"
  shows "files s' = files s" "writeOff s' = writeOff s" "headOff s' = headOff s" "nextNum s' = nextNum s"
    "lastFrameAt s' = lastFrameAt s" "lastFrameEnd s' = lastFrameEnd s" "reserved s' = reserved s"
    "options s' = options s" "same_seg s s' n" "block_ok s \<Longrightarrow> block_ok s'"
  using assms by (simp_all add: alike_def)

lemma alike_refl [simp]: "alike s s"
  by (simp add: alike_def)

lemma alike_trans: "alike a b \<Longrightarrow> alike b c \<Longrightarrow> alike a c"
  unfolding alike_def using same_seg_trans by metis

lemma alike_quiet: "quiet s s' \<Longrightarrow> alike s s'"
  using shape_eq_fields [of s' s] options_quiet [of s s'] same_seg_quiet [of s s'] by (simp add: alike_def quiet_def)

lemma alike_df:
  assumes "\<And>d. df_base (f d) = df_base d" "\<And>d. df_size (f d) = df_size d" "\<And>d. df_capacity (f d) = df_capacity d"
    "\<And>d. df_written (f d) = df_written d" "length (df_hdr (f (heap s n))) = length (df_hdr (heap s n))"
  shows "alike s (upd_df n f s)"
proof -
  have "block_ok s \<Longrightarrow> block_ok (upd_df n f s)"
    by (rule block_ok_grow [of s "upd_df n f s"]) (simp_all add: upd_df_def data_of_def region_def assms)
  then show ?thesis
    using assms by (simp add: alike_def upd_df_def options_def same_seg_def data_of_alt)
qed

lemma alike_cursor [simp]:
  "alike t (s\<lparr>commitOff := a\<rparr>) = alike t s" "alike t (s\<lparr>nCommitted := b\<rparr>) = alike t s"
  "alike t (s\<lparr>nCommittedTotal := c\<rparr>) = alike t s"
  by (simp_all add: alike_def options_def same_seg_def data_of_def block_ok_def cong: option.case_cong)

lemma alike_flat:
  assumes "alike s s'"
  shows "flat xx s' = flat xx s" "seg_flat xx s' n = seg_flat xx s n" "file_ok xx s' n = file_ok xx s n"
    "df_base (heap s' n) = df_base (heap s n)" "df_size (heap s' n) = df_size (heap s n)"
    "df_capacity (heap s' n) = df_capacity (heap s n)" "df_end (heap s' n) = df_end (heap s n)"
    "done_in xx s' n c = done_in xx s n c" "mark_at (heap s' n) c = mark_at (heap s n) c"
    "mark_room (heap s' n) = mark_room (heap s n)" "boundary xx s' c = boundary xx s c" "fileForOffset c s' = fileForOffset c s"
proof -
  note sg = alikeD(9) [OF assms]
  show fl: "flat xx s' = flat xx s" by (rule flat_same [OF alikeD(1) [OF assms] sg])
  show sf: "seg_flat xx s' n = seg_flat xx s n" "file_ok xx s' n = file_ok xx s n" "df_end (heap s' n) = df_end (heap s n)" for n
    using same_seg_flat [OF sg] by simp_all
  show f: "df_base (heap s' n) = df_base (heap s n)" "df_size (heap s' n) = df_size (heap s n)"
    "df_capacity (heap s' n) = df_capacity (heap s n)" for n using sg [of n] by (simp_all add: same_seg_def)
  show "done_in xx s' n c = done_in xx s n c" "mark_at (heap s' n) c = mark_at (heap s n) c" "mark_room (heap s' n) = mark_room (heap s n)"
    by (simp_all add: done_in_def mark_at_def mark_room_def sf f)
  show "boundary xx s' c = boundary xx s c" using alikeD(2) [OF assms] by (simp add: boundary_def fl)
  show "fileForOffset c s' = fileForOffset c s" by (simp add: fileForOffset_def alikeD(1) [OF assms] sf f)
qed

lemma lay_mono_commit: "lay h c at ns w \<Longrightarrow> c \<le> c' \<Longrightarrow> lay h c' at ns w"
  by (induction ns arbitrary: at) auto

lemma queue_ok_commit:
  assumes ok: "queue_ok xx s" and b: "boundary xx s c" "commitOff s \<le> c" "c \<le> writeOff s"
  shows "queue_ok xx (s\<lparr>commitOff := c, headOff := max (headOff s) c\<rparr>)"
proof -
  let ?t = "s\<lparr>commitOff := c, headOff := max (headOff s) c\<rparr>"
  have "covered (s\<lparr>commitOff := c\<rparr>)"
  proof (cases "files s")
    case Nil
    then show ?thesis using queue_okD(2) [OF ok] b by (simp add: covered_def)
  next
    case (Cons n ns)
    then show ?thesis using queue_okD(2) [OF ok] lay_mono_commit [OF _ b(2), of "heap s"] b by (fastforce simp: covered_def)
  qed
  moreover have "boundary xx s (max (headOff s) c)" using b(1) queue_okD(8) [OF ok] by (simp add: max_def)
  ultimately show ?thesis using ok b by (simp add: queue_ok_parts)
qed

lemma alike_queue_ok:
  assumes ok: "queue_ok xx s" and a: "alike s s'" and b: "boundary xx s (commitOff s')" "commitOff s \<le> commitOff s'" "commitOff s' \<le> writeOff s"
    and h: "h = max (headOff s) (commitOff s')"
  shows "queue_ok xx (s'\<lparr>headOff := h\<rparr>)"
proof -
  note f = alikeD(1-8) [OF a] alike_flat [OF a]
  have "queue_ok xx (s'\<lparr>headOff := h\<rparr>) \<and> unread xx (s'\<lparr>headOff := h\<rparr>) = unread xx (s\<lparr>commitOff := commitOff s', headOff := h\<rparr>) \<and>
    backlog xx (s'\<lparr>headOff := h\<rparr>) = backlog xx (s\<lparr>commitOff := commitOff s', headOff := h\<rparr>)"
    by (rule queue_ok_same [OF queue_ok_commit [OF ok b, folded h]])
      (use f alikeD(9,10) [OF a] queue_okD(9) [OF ok] in \<open>auto simp: same_seg_def\<close>)
  then show ?thesis ..
qed

section \<open>The record under the cursor\<close>

lemma segs_apart:
  assumes ok: "queue_ok xx s" and n: "n \<in> set (files s)" "m \<in> set (files s)" "n \<noteq> m"
  shows "df_end (heap s n) \<le> df_base (heap s m) \<or> df_end (heap s m) \<le> df_base (heap s n)"
proof -
  have "files s \<noteq> []" using n(1) by auto
  then obtain at where lay: "lay (heap s) (commitOff s) at (files s) (writeOff s)"
    using covered_lay [OF queue_okD(2) [OF ok]] by blast
  obtain i j where ij: "i < length (files s)" "files s ! i = n" "j < length (files s)" "files s ! j = m"
    using n(1,2) by (auto simp: in_set_conv_nth)
  then have "i < j \<or> j < i" using n(3) by (cases i j rule: linorder_cases) auto
  then show ?thesis using lay_ends_sorted [OF lay queue_size [OF ok]] ij by blast
qed

lemma queue_whole:
  assumes "file_ok xx s n" "df_base (heap s n) < df_end (heap s n)"
  shows "whole (heap s n) (inode (os s) n)"
proof -
  have "df_size (heap s n) = int (length (data_of s n))" by (rule file_ok_data(2) [OF assms(1)])
  then have "nat (df_size (heap s n)) \<le> length (inode (os s) n) - headerSize" by (simp add: data_of_alt)
  moreover have "0 < df_size (heap s n)" using assms(2) by (simp add: df_end_def)
  ultimately show ?thesis by (simp add: whole_def)
qed

text \<open>Where the record at an offset ends, from the remembered frame or from the file.\<close>

lemma frameEnd_spec:
  assumes ok: "queue_ok xx s0" and a: "alike s0 s" and q: "(q, p) \<in> set (flat xx s0)" and n: "fileForOffset q s0 = Some n"
    and r: "frameEnd n q s = (r, s')"
  shows "quiet s s' \<and> (fault_free s \<longrightarrow> fault_free s') \<and> (r = Inr (Some (q + framedLen (length p))) \<or> (\<exists>x. r = Inl (Errno x)) \<and> \<not> fault_free s)"
proof (cases "lastFrameEnd s \<noteq> 0 \<and> lastFrameAt s = q")
  case True
  then have "lastFrameEnd s = q + framedLen (length p)"
    using queue_okD(10) [OF ok] alikeD(5,6) [OF a] q by (auto simp: cache_ok_def)
  then show ?thesis using r True by (auto simp: frameEnd_def)
next
  case False
  then have rl: "recordLen n q s = (r, s')" using r by (auto simp: frameEnd_def)
  obtain m rest where m: "m \<in> set (files s0)" "fileForOffset q s0 = Some m" "df_base (heap s0 m) \<le> q" "q < df_end (heap s0 m)"
    "region (heap s0 m) (inode (os s0) m) (q - df_base (heap s0 m)) = frame xx p @ rest"
    using flat_locate [OF ok q] by blast
  have mn: "m = n" using m(2) n by simp
  note f = alike_flat [OF a]
  have fo: "file_ok xx s n" using queue_okD(1) [OF ok] m(1) mn f by simp
  have w: "whole (heap s n) (inode (os s) n)" by (rule queue_whole [OF fo]) (use m(3,4) mn f in simp)
  have R: "region (heap s n) (inode (os s) n) (q - df_base (heap s n)) = frame xx p @ rest"
  proof -
    have "data_of s n = data_of s0 n" using alikeD(9) [OF a, of n] by (simp add: same_seg_def)
    then show ?thesis
      using m(3,5) mn f region_drop [of "q - df_base (heap s0 n)"] by (simp add: data_of_def)
  qed
  have "int (length (frame xx p @ rest)) < 2 ^ 63"
    using length_region [OF w, of "q - df_base (heap s n)"] R m(3,4) mn f file_okD(1) [OF fo] by (simp add: df_end_def)
  then have "ref_len (heap s n) (inode (os s) n) q = Inr (Some (q + framedLen (length p)))"
    using ref_len_region [OF w, of q] frame_at_frame [of xx p rest] m(3,4) mn f R by (simp add: length_frame)
  moreover have "block_ok s" using alikeD(10) [OF a queue_okD(9) [OF ok]] .
  ultimately show ?thesis using recordLen_spec [OF _ rl] quiet_read_step by (auto simp: read_step_def)
qed

section \<open>Writing the marks out\<close>

text \<open>
  The walk has committed part of segment \<open>c\<close>, from \<open>a\<close> on, and its header does not say so yet.
\<close>

definition unmarked :: "hash \<Rightarrow> store \<Rightarrow> nat \<Rightarrow> int \<Rightarrow> store \<Rightarrow> bool" where
  "unmarked xx s0 c a s \<longleftrightarrow> c \<in> set (files s0) \<and> boundary xx s0 a \<and> commitOff s0 \<le> a \<and> a \<le> commitOff s \<and>
     df_base (heap s0 c) \<le> a \<and> commitOff s \<le> df_end (heap s0 c) \<and>
     (\<forall>n \<in> set (files s0). n \<noteq> c \<longrightarrow> marked xx (commitOff s) s n) \<and>
     mark_room (heap s0 c) \<and> commitCursor (df_hdr (heap s c)) = mark_at (heap s0 c) a \<and>
     committedCount (df_hdr (heap s c)) = done_in xx s0 c a \<and> df_committed (heap s c) = done_in xx s0 c (commitOff s)"

definition all_marked :: "hash \<Rightarrow> store \<Rightarrow> store \<Rightarrow> bool" where
  "all_marked xx s0 s \<longleftrightarrow> (\<forall>n \<in> set (files s0). marked xx (commitOff s) s n)"

lemma marked_cong:
  assumes "alike s s'" "df_hdr (heap s' n) = df_hdr (heap s n)" "df_committed (heap s' n) = df_committed (heap s n)"
  shows "marked xx c s' n = marked xx c s n"
  using assms by (simp add: marked_def alike_flat [OF assms(1)])

lemma marked_quiet: "quiet s s' \<Longrightarrow> marked xx c s' n = marked xx c s n"
  using marked_cong [OF alike_quiet] shape_eq_df_fields(2,7) [of s' s n] by (simp add: quiet_def)

lemma marked_cursor [simp]:
  "marked xx c (s\<lparr>commitOff := a\<rparr>) n = marked xx c s n" "marked xx c (s\<lparr>nCommitted := b\<rparr>) n = marked xx c s n"
  "marked xx c (s\<lparr>nCommittedTotal := b\<rparr>) n = marked xx c s n" "marked xx c (s\<lparr>headOff := a\<rparr>) n = marked xx c s n"
  by (simp_all add: marked_def done_in_def seg_flat_def recs_of_def data_of_def)

lemma marked_upd_other: "m \<noteq> n \<Longrightarrow> marked xx c (upd_df n f s) m = marked xx c s m"
  by (simp add: marked_def done_in_def seg_flat_def recs_of_def data_of_def upd_df_def)

lemma marked_set:
  assumes f: "file_ok xx s n" and r: "mark_room (heap s n)" and g: "f = header xx [setCommitCursor (mark_at (heap s n) c), setCommittedCount (done_in xx s n c)] \<circ> k"
    and k: "\<And>d. \<exists>e. k d = d\<lparr>df_committed := e\<rparr>" "df_committed (k (heap s n)) = done_in xx s n c"
  shows "alike s (upd_df n f s)" "marked xx c (upd_df n f s) n"
proof -
  obtain e where e: "k (heap s n) = (heap s n)\<lparr>df_committed := e\<rparr>" using k(1) by blast
  have kf: "df_base (k d) = df_base d" "df_size (k d) = df_size d" "df_capacity (k d) = df_capacity d"
    "df_written (k d) = df_written d" "df_hdr (k d) = df_hdr d" for d using k(1) [of d] by auto
  have len: "length (df_hdr (heap s n)) = headerSize" by (rule file_okD(5) [OF f])
  have b: "0 \<le> mark_at (heap s n) c" "mark_at (heap s n) c < 2 ^ 63" "0 \<le> done_in xx s n c" "done_in xx s n c < 2 ^ 63"
    using r done_in_bounds [OF f, of c] file_ok_size [OF f] by (auto simp: mark_at_def mark_room_def)
  note m = marks_set [OF len b, of xx]
  show a: "alike s (upd_df n f s)"
    by (rule alike_df) (simp_all add: g header_def kf m len)
  show "marked xx c (upd_df n f s) n"
    unfolding marked_def alike_flat [OF a] using r m k(2) by (simp add: g upd_df_def header_def kf)
qed

lemma unmarked_other:
  assumes ok: "queue_ok xx s0" and a: "alike s0 s" and u: "unmarked xx s0 c a s" and n: "n \<in> set (files s0)" "n \<noteq> c"
  shows "marked xx a s n = marked xx (commitOff s) s n"
proof (rule marked_outside)
  show "file_ok xx s n" using queue_okD(1) [OF ok n(1)] alike_flat(3) [OF a] by simp
  have "c \<in> set (files s0)" using u by (simp add: unmarked_def)
  from segs_apart [OF ok n(1) this n(2)]
  show "a \<le> df_base (heap s n) \<and> commitOff s \<le> df_base (heap s n) \<or> df_end (heap s n) \<le> a \<and> df_end (heap s n) \<le> commitOff s"
    using u alike_flat(4,7) [OF a, of n] by (auto simp: unmarked_def)
qed

lemma persistCommit_spec:
  assumes ok: "queue_ok xx s0" and a: "alike s0 s" and u: "unmarked xx s0 c at s" and p: "persistCommit xx c perop s = (r, s')"
  shows "alike s0 s' \<and> all_marked xx s0 s' \<and> (commitOff s' = commitOff s \<or> commitOff s' = at \<and> (\<exists>e. r = Inl e))"
proof -
  note af = alike_flat [OF a]
  have U: "c \<in> set (files s0)" "at \<le> commitOff s" "df_base (heap s0 c) \<le> at" "commitOff s \<le> df_end (heap s0 c)" "mark_room (heap s0 c)"
    "commitCursor (df_hdr (heap s c)) = mark_at (heap s0 c) at" "committedCount (df_hdr (heap s c)) = done_in xx s0 c at"
    "df_committed (heap s c) = done_in xx s0 c (commitOff s)" using u by (simp_all add: unmarked_def)
  have f: "file_ok xx s c" using queue_okD(1) [OF ok U(1)] af by simp
  define s1 where "s1 = upd_df c (\<lambda>d. header xx [setCommitCursor (int headerSize + min (commitOff s - df_base d) (df_size d)),
                  setCommittedCount (df_committed d)] d) s"
  have "s1 = upd_df c (header xx [setCommitCursor (mark_at (heap s c) (commitOff s)), setCommittedCount (done_in xx s c (commitOff s))] \<circ> (\<lambda>d. d)) s"
    using U(2,3,8) by (simp add: s1_def upd_df_def mark_at_def af)
  moreover have "\<exists>e. d = d\<lparr>df_committed := e\<rparr>" for d :: dataFile by (intro exI [of _ "df_committed d"]) simp
  ultimately have s1: "alike s s1" "marked xx (commitOff s) s1 c"
    using marked_set [OF f, of _ "commitOff s" "\<lambda>d. d"] U(5,8) af(8,10) by auto
  obtain r2 s2 where w: "writeHeader c s1 = (r2, s2)" by force
  have len1: "length (df_hdr (heap s1 c)) = headerSize" using file_okD(5) [OF f] alikeD(9) [OF s1(1), of c] by (simp add: same_seg_def)
  have q: "quiet s1 s2" by (rule quiet_writeHeader [OF w]) (simp add: len1)
  have co: "commitOff s1 = commitOff s" by (simp add: s1_def upd_df_def)
  have oth: "marked xx x s1 n = marked xx x s n" if "n \<noteq> c" for n x using that by (simp add: s1_def marked_upd_other)
  have settled: "alike s0 x \<and> all_marked xx s0 x \<and> commitOff x = commitOff s" if "quiet s1 x" for x
  proof -
    have "commitOff x = commitOff s" using that co shape_eq_fields [of x s1] by (simp add: quiet_def)
    moreover have "marked xx (commitOff s) x n" if "n \<in> set (files s0)" for n
      unfolding marked_quiet [OF \<open>quiet s1 x\<close>] using s1(2) oth u that by (cases "n = c") (simp_all add: unmarked_def)
    ultimately show ?thesis using alike_trans [OF a alike_trans [OF s1(1) alike_quiet [OF that]]] by (simp add: all_marked_def)
  qed
  show ?thesis
  proof (cases "\<exists>e. r2 = Inl e \<and> \<not> err_is e ErrNotExist")
    case False
    obtain r3 s3 where 3: "flushFile c s2 = (r3, s3)" by force
    have "s' = s2 \<or> s' = s3" using p w False 3 unfolding persistCommit_def Let_def s1_def [symmetric] by (auto split: sum.splits if_splits)
    then show ?thesis using settled [OF q] settled [OF quiet_trans [OF q quiet_flushFile [OF 3]]] by auto
  next
    case True
    then obtain e where e: "r2 = Inl e" "\<not> err_is e ErrNotExist" by blast
    define s3 where "s3 = s2\<lparr>commitOff := df_base (heap s2 c) + commitCursor (df_hdr (heap s c)) - int headerSize,
        nCommitted := nCommitted s2 - (df_committed (heap s2 c) - committedCount (df_hdr (heap s c))),
        nCommittedTotal := nCommittedTotal s2 - (df_committed (heap s2 c) - committedCount (df_hdr (heap s c)))\<rparr>"
    have a2: "alike s s2" by (rule alike_trans [OF s1(1) alike_quiet [OF q]])
    then have a3: "alike s s3" by (simp add: s3_def)
    have f3: "file_ok xx s3 c" using alike_flat(3) [OF a3] f by simp
    have at: "commitOff s3 = at" using U(2-4,6) mark_in [of "heap s0 c" at] alike_flat(4) [OF a2, of c] af(4) [of c] by (simp add: s3_def)
    define k :: "dataFile \<Rightarrow> dataFile" where "k = (\<lambda>d. d\<lparr>df_committed := committedCount (df_hdr (heap s c))\<rparr>)"
    have eq: "alike s0 s3" by (rule alike_trans [OF a a3])
    define g where "g = header xx [setCommitCursor (mark_at (heap s3 c) at), setCommittedCount (done_in xx s3 c at)] \<circ> k"
    have r: "s' = upd_df c g s3" "r = Inl e"
      using p w e U(6,7) alike_flat(8,9) [OF eq] unfolding persistCommit_def Let_def s1_def [symmetric]
      by (simp_all add: s3_def k_def comp_def g_def)
    have kc: "\<exists>x. k d = d\<lparr>df_committed := x\<rparr>" for d by (auto simp: k_def)
    have kd: "df_committed (k (heap s3 c)) = done_in xx s3 c at" using U(7) alike_flat(8) [OF eq] by (simp add: k_def)
    have "mark_room (heap s3 c)" using U(5) alike_flat(10) [OF eq] by simp
    note ms = marked_set [OF f3 this g_def kc kd, folded r(1)]
    have s': "commitOff s' = at" using at r(1) by (simp add: upd_df_def)
    have o3: "marked xx x s' n = marked xx x s3 n" if "n \<noteq> c" for n x using that by (simp add: r(1) marked_upd_other)
    have "marked xx at s' n" if n: "n \<in> set (files s0)" "n \<noteq> c" for n
    proof -
      have "marked xx at s3 n = marked xx at s2 n" by (simp add: s3_def)
      also have "\<dots> = marked xx at s n" using oth n(2) marked_quiet [OF q] by simp
      also have "\<dots>" using unmarked_other [OF ok a u n] u n by (simp add: unmarked_def)
      finally show ?thesis using o3 n(2) by simp
    qed
    then have "all_marked xx s0 s'" using ms(2) s' by (auto simp: all_marked_def)
    then show ?thesis using s' r(2) alike_trans [OF eq ms(1)] by auto
  qed
qed

section \<open>The walk\<close>

definition marks_of :: "hash \<Rightarrow> store \<Rightarrow> nat option \<Rightarrow> store \<Rightarrow> bool" where
  "marks_of xx s0 cur s \<longleftrightarrow> (case cur of None \<Rightarrow> all_marked xx s0 s | Some c \<Rightarrow> \<exists>a. unmarked xx s0 c a s)"

definition walking :: "hash \<Rightarrow> int \<Rightarrow> store \<Rightarrow> walk \<Rightarrow> store \<Rightarrow> bool" where
  "walking xx off s0 w s \<longleftrightarrow> alike s0 s \<and> boundary xx s0 (commitOff s) \<and> commitOff s0 \<le> commitOff s \<and> commitOff s \<le> off \<and>
     (\<forall>n. w_df w = Some n \<longrightarrow> n \<in> set (files s0)) \<and> marks_of xx s0 (w_cur w) s"

text \<open>No record lies between the cursor and the target.\<close>

definition reached :: "hash \<Rightarrow> int \<Rightarrow> store \<Rightarrow> store \<Rightarrow> bool" where
  "reached xx off s0 s \<longleftrightarrow> (\<forall>(q, p) \<in> set (flat xx s0). commitOff s \<le> q \<longrightarrow> off < q + framedLen (length p))"

lemma marks_of_quiet:
  assumes m: "marks_of xx s0 cur s" and q: "quiet s s'"
  shows "marks_of xx s0 cur s'"
proof -
  have f: "commitOff s' = commitOff s" "df_hdr (heap s' n) = df_hdr (heap s n)" "df_committed (heap s' n) = df_committed (heap s n)" for n
    using q shape_eq_fields [of s' s] shape_eq_df_fields(2,7) [of s' s n] by (simp_all add: quiet_def)
  show ?thesis using m marked_quiet [OF q] by (simp add: marks_of_def all_marked_def unmarked_def f split: option.splits)
qed

lemma walking_quiet:
  assumes w: "walking xx off s0 w s" and q: "quiet s s'"
  shows "walking xx off s0 w s'"
proof -
  have "commitOff s' = commitOff s" using q shape_eq_fields [of s' s] by (simp add: quiet_def)
  moreover have "alike s0 s'" using w alike_trans [OF _ alike_quiet [OF q]] by (simp add: walking_def)
  moreover have "marks_of xx s0 (w_cur w) s'" using w marks_of_quiet [OF _ q] by (simp add: walking_def)
  ultimately show ?thesis using w by (simp add: walking_def)
qed

lemma advance_marks:
  assumes ok: "queue_ok xx s0" and a: "alike s0 s" and m: "marks_of xx s0 cur s" "cur = None \<or> cur = Some n"
    and n: "n \<in> set (files s0)" "df_base (heap s0 n) \<le> commitOff s" and b: "boundary xx s0 (commitOff s)" "commitOff s0 \<le> commitOff s"
    and p: "(commitOff s, p) \<in> set (seg_flat xx s0 n)"
    and s': "s' = upd_df n (\<lambda>d. d\<lparr>df_committed := df_committed d + 1\<rparr>) (s\<lparr>commitOff := commitOff s + framedLen (length p), nCommitted := k, nCommittedTotal := k'\<rparr>)"
  shows "alike s0 s' \<and> marks_of xx s0 (Some n) s'"
proof -
  let ?q = "commitOff s" and ?n = "commitOff s + framedLen (length p)"
  note f = queue_okD(1) [OF ok n(1)]
  note af = alike_flat [OF a]
  have en: "?q < ?n" "?n \<le> df_end (heap s0 n)" using seg_flat_bounds(2) [OF f p] by simp_all
  obtain at where at: "boundary xx s0 at" "commitOff s0 \<le> at" "at \<le> ?q" "df_base (heap s0 n) \<le> at" "mark_room (heap s0 n)"
      "commitCursor (df_hdr (heap s n)) = mark_at (heap s0 n) at" "committedCount (df_hdr (heap s n)) = done_in xx s0 n at"
      "df_committed (heap s n) = done_in xx s0 n ?q" and oth: "\<forall>x \<in> set (files s0). x \<noteq> n \<longrightarrow> marked xx ?q s x"
  proof (cases cur)
    case None
    then have "marked xx ?q s x" if "x \<in> set (files s0)" for x using m(1) that by (simp add: marks_of_def all_marked_def)
    then show ?thesis using that [of ?q] n b by (auto simp: marked_def af)
  next
    case (Some c)
    then show ?thesis using that m by (auto simp: marks_of_def unmarked_def)
  qed
  have a': "alike s0 s'"
  proof -
    have "alike s0 (s\<lparr>commitOff := ?n, nCommitted := k, nCommittedTotal := k'\<rparr>)" using a by simp
    then show ?thesis unfolding s' by (rule alike_trans) (rule alike_df; simp)
  qed
  have "marked xx ?n s' x" if x: "x \<in> set (files s0)" "x \<noteq> n" for x
  proof -
    have "marked xx ?n s x = marked xx ?q s x"
    proof (rule marked_outside)
      show "file_ok xx s x" using queue_okD(1) [OF ok x(1)] af by simp
      show "?n \<le> df_base (heap s x) \<and> ?q \<le> df_base (heap s x) \<or> df_end (heap s x) \<le> ?n \<and> df_end (heap s x) \<le> ?q"
      proof -
        have "df_end (heap s x) \<le> ?q \<or> ?n \<le> df_base (heap s x)"
          using segs_apart [OF ok x(1) n(1) x(2)] en(2) n(2) unfolding af by linarith
        moreover have "z \<le> ?q \<Longrightarrow> z \<le> ?n" "?n \<le> z \<Longrightarrow> ?q \<le> z" for z using en(1) by linarith+
        ultimately show ?thesis by blast
      qed
    qed
    then show ?thesis using oth x by (simp add: s' marked_upd_other)
  qed
  moreover have "done_in xx s0 n ?n = done_in xx s0 n ?q + 1" by (rule done_in_step [OF f p])
  moreover have "at \<le> ?n" using at(3) en(1) by linarith
  ultimately have "unmarked xx s0 n at s'" using at n en by (simp add: unmarked_def s' upd_df_def del: framedLen_gt0)
  then show ?thesis using a' by (auto simp: marks_of_def)
qed

lemma seg_of_flat:
  assumes ok: "queue_ok xx s" and q: "(q, p) \<in> set (flat xx s)" and n: "fileForOffset q s = Some n"
  shows "(q, p) \<in> set (seg_flat xx s n)"
proof -
  obtain m where m: "m \<in> set (files s)" "(q, p) \<in> set (seg_flat xx s m)" using q by (auto simp: flat_def)
  have "df_base (heap s m) \<le> q" "q < df_end (heap s m)"
    using seg_flat_bounds [OF queue_okD(1) [OF ok m(1)] m(2)] framedLen_gt0 [of "length p"] by linarith+
  then have "fileForOffset q s = Some m" using fileForOffset_eq [OF queue_okD(2) [OF ok] queue_size [OF ok] m(1)] by blast
  then show ?thesis using m n by simp
qed

lemma flat_after:
  assumes ok: "queue_ok xx s" and q: "(q, p) \<in> set (flat xx s)" "commitOff s \<le> q" and y: "(q', y) \<in> set (flat xx s)" "q < q'"
  shows "q + framedLen (length p) \<le> q'"
proof -
  obtain at where ch: "chain (commitOff s) at (flat xx s) (writeOff s)" using flat_chain [OF ok] .
  have "q \<in> fst ` set (flat xx s)" using q(1) by force
  then obtain z xs ys where sp: "flat xx s = xs @ (q, z) # ys" "\<forall>x \<in> set xs. fst x < q"
    "chain (commitOff s) (q + framedLen (length z)) ys (writeOff s)" using chain_split [OF ch _ q(2)] by metis
  have "(q', y) \<in> set ys" using y sp(1,2) by fastforce
  then have "q + framedLen (length z) \<le> q'" using chain_bounds [OF sp(3)] by blast
  moreover have "z = p" using chain_unique [OF ch q(1), of z] sp(1) by simp
  ultimately show ?thesis by simp
qed

definition step_outcome :: "hash \<Rightarrow> int \<Rightarrow> store \<Rightarrow> flow \<Rightarrow> store \<Rightarrow> bool" where
  "step_outcome xx off s0 fl s \<longleftrightarrow>
     (case fl of
        Continue w \<Rightarrow> walking xx off s0 w s
      | Break w stop \<Rightarrow> walking xx off s0 w s \<and> (stop = None \<longrightarrow> reached xx off s0 s))"

text \<open>On a well-formed store the walk goes through these branches only.\<close>

lemma walk_record_parts:
  assumes ok: "queue_ok xx s0" and w: "walking xx off s0 w s"
    and p: "(commitOff s, p) \<in> set (flat xx s0)" and n: "fileForOffset (commitOff s) s0 = Some n" "n \<in> set (files s0)"
    and r: "walk_record xx off n resv w s = (fl, s')" and 1: "ensureOpen n s = (r1, s1)"
  obtains (shut) e where "fl = Break w (Some e)" "s' = s1"
  | (looked) stop r2 s2 where "frameEnd n (commitOff s1) s1 = (r2, s2)" "fl = Break w stop" "s' = s2" "commitOff s2 = commitOff s"
      "stop = None \<longrightarrow> off < commitOff s + framedLen (length p)"
  | (moved) r2 s2 where "frameEnd n (commitOff s1) s1 = (r2, s2)" "commitOff s2 = commitOff s" "commitOff s + framedLen (length p) \<le> off"
      "fl = Continue (w\<lparr>w_cur := Some n\<rparr>)" "s' = upd_df n (\<lambda>d. d\<lparr>df_committed := df_committed d + 1\<rparr>)
        (s2\<lparr>commitOff := commitOff s + framedLen (length p), nCommitted := nCommitted s2 + 1, nCommittedTotal := nCommittedTotal s2 + 1\<rparr>)"
proof -
  let ?q = "commitOff s" and ?n = "commitOff s + framedLen (length p)"
  have a: "alike s0 s" and b: "commitOff s0 \<le> ?q" using w by (simp_all add: walking_def)
  have q1: "quiet s s1" by (rule quiet_ensureOpen [OF 1])
  have a1: "alike s0 s1" by (rule alike_trans [OF a alike_quiet [OF q1]])
  show ?thesis
  proof (cases "\<exists>u. r1 = Inr u \<and> ioErr s1 = None")
    case False
    have "linked (os s) n" using file_okD(4) [OF queue_okD(1) [OF ok n(2)]] alikeD(9) [OF a, of n] by (simp add: same_seg_def)
    then have "\<exists>x. e = Errno x" if "r1 = Inl e" for e using ensureOpen_error 1 that by blast
    then have "\<exists>e. fl = Break w (Some e)" "s' = s1"
      using r 1 False unfolding walk_record_def by (cases r1; cases "ioErr s1"; fastforce split: option.splits)+
    then show ?thesis using that(1) by blast
  next
    case True
    have q0: "commitOff s1 = ?q" using q1 shape_eq_fields [of s1 s] by (simp add: quiet_def)
    obtain r2 s2 where 2: "frameEnd n ?q s1 = (r2, s2)" by force
    note fe = frameEnd_spec [OF ok a1 p n(1) 2]
    have q2: "quiet s1 s2" using fe by simp
    have c2: "commitOff s2 = ?q" "writeOff s2 = writeOff s0"
      using q2 shape_eq_fields [of s2 s1] q0 alikeD(2) [OF a1] by (simp_all add: quiet_def)
    from fe consider (err) x where "r2 = Inl (Errno x)" | (rec) "r2 = Inr (Some ?n)" by blast
    then show ?thesis
    proof cases
      case err
      then have o: "fl = Break w (Some (Errno x))" "s' = s2"
        using r 1 2 True q0 by (auto simp: walk_record_def walk_next_def walk_corrupt_def)
      show ?thesis by (rule that(2) [OF 2 [folded q0] o c2(1)]) simp
    next
      case rec
      have "?q \<in> fst ` set (flat xx s0)" using p by force
      then obtain p' where p': "\<And>y. (?q, y) \<in> set (flat xx s0) \<Longrightarrow> y = p'" "?q + framedLen (length p') \<le> writeOff s0"
        using queue_advance [OF ok _ b] by metis
      have sane: "walk_sane (Some ?n) s2 = Some ?n"
        using p'(2) p'(1) [OF p] c2 framedLen_gt0 [of "length p"] by (simp add: walk_sane_def del: framedLen_gt0)
      show ?thesis
      proof (cases "?n > off")
        case True
        then have o: "fl = Break w None" "s' = s2" using r 1 2 \<open>\<exists>u. r1 = Inr u \<and> ioErr s1 = None\<close> q0 rec sane by (auto simp: walk_record_def walk_next_def)
        show ?thesis by (rule that(2) [OF 2 [folded q0] o c2(1)]) (use True in simp)
      next
        case False
        then have o: "fl = Continue (w\<lparr>w_cur := Some n\<rparr>)" "s' = upd_df n (\<lambda>d. d\<lparr>df_committed := df_committed d + 1\<rparr>)
            (s2\<lparr>commitOff := ?n, nCommitted := nCommitted s2 + 1, nCommittedTotal := nCommittedTotal s2 + 1\<rparr>)"
          using r 1 2 True q0 rec sane by (auto simp: walk_record_def walk_next_def)
        show ?thesis by (rule that(3) [OF 2 [folded q0] c2(1) _ o]) (use False in simp)
      qed
    qed
  qed
qed

lemma walk_record_spec:
  assumes ok: "queue_ok xx s0" and w: "walking xx off s0 w s"
    and p: "(commitOff s, p) \<in> set (flat xx s0)" and n: "fileForOffset (commitOff s) s0 = Some n" "n \<in> set (files s0)"
    and cur: "w_cur w = None \<or> w_cur w = Some n" and r: "walk_record xx off n resv w s = (fl, s')"
  shows "step_outcome xx off s0 fl s'"
proof -
  let ?q = "commitOff s" and ?n = "commitOff s + framedLen (length p)"
  have b: "boundary xx s0 ?q" "commitOff s0 \<le> ?q" "?q \<le> off" using w by (simp_all add: walking_def)
  obtain r1 s1 where 1: "ensureOpen n s = (r1, s1)" by force
  have q1: "quiet s s1" by (rule quiet_ensureOpen [OF 1])
  have w1: "walking xx off s0 w s1" by (rule walking_quiet [OF w q1])
  have q0: "commitOff s1 = ?q" using q1 shape_eq_fields [of s1 s] by (simp add: quiet_def)
  have w2: "walking xx off s0 w s2" if "frameEnd n (commitOff s1) s1 = (r2, s2)" for r2 s2
    using frameEnd_spec [OF ok _ p n(1) that [unfolded q0]] w1 walking_quiet [OF w1] by (simp add: walking_def)
  from ok w p n r 1 show ?thesis
  proof (cases rule: walk_record_parts)
    case (shut e)
    then show ?thesis using w1 by (simp add: step_outcome_def)
  next
    case (looked stop r2 s2)
    have "off < q + framedLen (length y)" if y: "(q, y) \<in> set (flat xx s0)" "?q \<le> q" and st: "stop = None" for q y
    proof (cases "q = ?q")
      case True
      obtain at where ch: "chain (commitOff s0) at (flat xx s0) (writeOff s0)" using flat_chain [OF ok] .
      have "y = p" using chain_unique [OF ch] y(1) p True by blast
      then show ?thesis using looked st True by simp
    next
      case False
      then have "?n \<le> q" using flat_after [OF ok p b(2) y(1)] y(2) by simp
      then show ?thesis using looked st framedLen_gt0 [of "length y"] by linarith
    qed
    then show ?thesis using w2 [OF looked(1)] looked by (auto simp: step_outcome_def reached_def)
  next
    case (moved r2 s2)
    have a2: "alike s0 s2" "marks_of xx s0 (w_cur w) s2" using w2 [OF moved(1)] by (simp_all add: walking_def)
    have sg: "(?q, p) \<in> set (seg_flat xx s0 n)" by (rule seg_of_flat [OF ok p n(1)])
    have "alike s0 s' \<and> marks_of xx s0 (Some n) s'"
      by (rule advance_marks [OF ok a2(1,2) cur n(2) _ _ _ _ moved(5) [folded moved(2)], unfolded moved(2),
            OF seg_flat_bounds(1) [OF queue_okD(1) [OF ok n(2)] sg] b(1,2) sg])
    moreover have "commitOff s' = ?n" using moved(5) by (simp add: upd_df_def)
    moreover have "commitOff s0 \<le> ?n" using b(2) framedLen_gt0 [of "length p"] by linarith
    moreover have "boundary xx s0 ?n"
    proof -
      have "?q \<in> fst ` set (flat xx s0)" using p by force
      then obtain p' where "\<And>y. (?q, y) \<in> set (flat xx s0) \<Longrightarrow> y = p'" "boundary xx s0 (?q + framedLen (length p'))"
        using queue_advance [OF ok _ b(2)] by metis
      then show ?thesis using p by metis
    qed
    ultimately show ?thesis using moved(3,4) w by (simp add: step_outcome_def walking_def)
  qed
qed

lemma commit_step_parts:
  assumes ok: "queue_ok xx s0" and w: "walking xx off s0 w s" and lt: "commitOff s < off" "off \<le> writeOff s0"
    and nc: "\<forall>r \<in> set (reserved s0). \<not> r_corrupt r" and c: "commit_step xx off perop w s = (fl, s')"
  obtains n r1 s1 where "n \<in> set (files s0)" "walk_turn xx n perop (w_cur w) s = (r1, s1)" "alike s0 s1" "boundary xx s0 (commitOff s1)"
    "commitOff s0 \<le> commitOff s1" "commitOff s1 \<le> commitOff s" "\<And>u. r1 = Inr u \<Longrightarrow> commitOff s1 = commitOff s"
    "marks_of xx s0 (if w_cur w = Some n then Some n else None) s1"
    "(\<exists>e. r1 = Inl e \<and> w_cur w \<noteq> Some n \<and> fl = Break (w\<lparr>w_df := Some n, w_cur := None\<rparr>) (Some e) \<and> s' = s1) \<or>
     r1 = Inr () \<and> (\<exists>p resv w3. (commitOff s1, p) \<in> set (flat xx s0) \<and> fileForOffset (commitOff s1) s0 = Some n \<and> w_df w3 = Some n \<and>
       w_cur w3 = (if w_cur w = Some n then Some n else None) \<and> walk_record xx off n resv w3 s1 = (fl, s'))"
proof -
  let ?q = "commitOff s"
  have a: "alike s0 s" and b: "boundary xx s0 ?q" "commitOff s0 \<le> ?q" and df: "\<And>n. w_df w = Some n \<Longrightarrow> n \<in> set (files s0)"
    and m: "marks_of xx s0 (w_cur w) s" using w by (simp_all add: walking_def)
  note af = alike_flat [OF a]
  have "?q \<in> fst ` set (flat xx s0)" using b(1) lt by (auto simp: boundary_def)
  then obtain p where p: "(?q, p) \<in> set (flat xx s0)" by auto
  obtain n where n: "n \<in> set (files s0)" "fileForOffset ?q s0 = Some n" "df_base (heap s0 n) \<le> ?q" "?q < df_end (heap s0 n)"
    using flat_locate [OF ok p] by metis
  have wf: "walk_file w s = Some n"
  proof (cases "w_df w")
    case (Some x)
    then show ?thesis
      using fileForOffset_eq [OF queue_okD(2) [OF ok] queue_size [OF ok] df [OF Some], of ?q] n(2)
      by (auto simp: walk_file_def Let_def af)
  qed (simp add: walk_file_def Let_def af n)
  let ?w1 = "w\<lparr>w_df := Some n\<rparr>"
  obtain r1 s1 where 1: "walk_turn xx n perop (w_cur w) s = (r1, s1)" by force
  have turn: "alike s0 s1 \<and> boundary xx s0 (commitOff s1) \<and> commitOff s0 \<le> commitOff s1 \<and> commitOff s1 \<le> ?q \<and>
      (\<forall>u. r1 = Inr u \<longrightarrow> commitOff s1 = ?q) \<and> marks_of xx s0 (if w_cur w = Some n then Some n else None) s1 \<and> (r1 = Inr () \<or> w_cur w \<noteq> Some n)"
  proof (cases "\<exists>c. w_cur w = Some c \<and> c \<noteq> n")
    case True
    then obtain c at where ca: "w_cur w = Some c" "c \<noteq> n" "unmarked xx s0 c at s" using m by (auto simp: marks_of_def)
    have "persistCommit xx c perop s = (r1, s1)" using 1 ca by (simp add: walk_turn_def)
    from persistCommit_spec [OF ok a ca(3) this] show ?thesis
      using ca b by (auto simp: marks_of_def unmarked_def)
  next
    case False
    then have "r1 = Inr ()" "s1 = s" "w_cur w = None \<or> w_cur w = Some n" using 1 by (auto simp: walk_turn_def split: option.splits)
    then show ?thesis using a b m by auto
  qed
  show ?thesis
  proof (cases r1)
    case (Inl e)
    then have "fl = Break (?w1\<lparr>w_cur := None\<rparr>) (Some e)" "s' = s1" using c wf 1 by (auto simp: commit_step_def Let_def)
    then show ?thesis using that [OF n(1) 1] turn Inl by auto
  next
    case (Inr u)
    define w2 where "w2 = (if w_cur w \<noteq> Some n then ?w1\<lparr>w_cur := None\<rparr> else ?w1)"
    have at: "walk_at xx off n w2 s1 = (fl, s')" using c wf 1 Inr by (simp add: commit_step_def Let_def w2_def)
    define w3 where "w3 = w2\<lparr>w_idx := skip_retired (commitOff s1) (reserved s1) (w_idx w2)\<rparr>"
    have "\<not> r_corrupt r" if "walk_resv i s1 = Some r" for i r
      using that nc alikeD(7) [of s0 s1] turn by (auto simp: walk_resv_def split: if_splits)
    then obtain resv where rec: "walk_record xx off n resv w3 s1 = (fl, s')"
      using at by (auto simp: walk_at_def w3_def Let_def split: option.splits if_splits)
    have w3: "w_df w3 = Some n" "w_cur w3 = (if w_cur w = Some n then Some n else None)" by (simp_all add: w3_def w2_def)
    have q1: "commitOff s1 = ?q" using turn Inr by simp
    show ?thesis
    proof (rule that [OF n(1) 1])
      show "(\<exists>e. r1 = Inl e \<and> w_cur w \<noteq> Some n \<and> fl = Break (w\<lparr>w_df := Some n, w_cur := None\<rparr>) (Some e) \<and> s' = s1) \<or>
        r1 = Inr () \<and> (\<exists>p resv w3. (commitOff s1, p) \<in> set (flat xx s0) \<and> fileForOffset (commitOff s1) s0 = Some n \<and> w_df w3 = Some n \<and>
          w_cur w3 = (if w_cur w = Some n then Some n else None) \<and> walk_record xx off n resv w3 s1 = (fl, s'))"
        using Inr p n(2) w3 rec q1 by (intro disjI2 conjI exI [of _ p] exI [of _ resv] exI [of _ w3]) simp_all
    qed (use turn in auto)
  qed
qed

lemma commit_step_spec:
  assumes ok: "queue_ok xx s0" and w: "walking xx off s0 w s" and lt: "commitOff s < off" "off \<le> writeOff s0"
    and nc: "\<forall>r \<in> set (reserved s0). \<not> r_corrupt r" and c: "commit_step xx off perop w s = (fl, s')"
  shows "step_outcome xx off s0 fl s'"
proof (rule commit_step_parts [OF assms])
  fix n r1 s1
  assume n: "n \<in> set (files s0)" and t: "alike s0 s1" "boundary xx s0 (commitOff s1)" "commitOff s0 \<le> commitOff s1" "commitOff s1 \<le> commitOff s"
      "marks_of xx s0 (if w_cur w = Some n then Some n else None) s1"
    and out: "(\<exists>e. r1 = Inl e \<and> w_cur w \<noteq> Some n \<and> fl = Break (w\<lparr>w_df := Some n, w_cur := None\<rparr>) (Some e) \<and> s' = s1) \<or>
     r1 = Inr () \<and> (\<exists>p resv w3. (commitOff s1, p) \<in> set (flat xx s0) \<and> fileForOffset (commitOff s1) s0 = Some n \<and> w_df w3 = Some n \<and>
       w_cur w3 = (if w_cur w = Some n then Some n else None) \<and> walk_record xx off n resv w3 s1 = (fl, s'))"
  from out show ?thesis
  proof (elim disjE conjE exE)
    fix e assume "w_cur w \<noteq> Some n" "fl = Break (w\<lparr>w_df := Some n, w_cur := None\<rparr>) (Some e)" "s' = s1"
    then show ?thesis using t lt n by (simp add: step_outcome_def walking_def)
  next
    fix p resv w3
    assume 3: "(commitOff s1, p) \<in> set (flat xx s0)" "fileForOffset (commitOff s1) s0 = Some n" "w_df w3 = Some n"
      "w_cur w3 = (if w_cur w = Some n then Some n else None)" "walk_record xx off n resv w3 s1 = (fl, s')"
    have "walking xx off s0 w3 s1" unfolding walking_def 3(3,4) using t lt n by auto
    then show ?thesis by (rule walk_record_spec [OF ok _ 3(1,2) n _ 3(5)]) (simp add: 3(4))
  qed
qed

lemma walk_run_spec:
  assumes "walk_run xx off perop w s x" "queue_ok xx s0" "off \<le> writeOff s0" "\<forall>r \<in> set (reserved s0). \<not> r_corrupt r" "walking xx off s0 w s"
  shows "walking xx off s0 (fst (fst x)) (snd x) \<and> (snd (fst x) = None \<longrightarrow> reached xx off s0 (snd x))"
  using assms
proof (induction rule: walk_run.induct)
  case (walk_exit s w)
  then have "commitOff s = off" by (simp add: walking_def)
  then have "reached xx off s0 s" by (auto simp: reached_def intro: le_less_trans)
  then show ?case using walk_exit by simp
next
  case (walk_break s w w1 stop s1)
  then show ?case using commit_step_spec [OF _ _ _ _ _ walk_break(2)] by (auto simp: step_outcome_def)
next
  case (walk_go s w w1 s1 x)
  then show ?case using commit_step_spec [OF _ _ _ _ _ walk_go(2)] by (auto simp: step_outcome_def)
qed

section \<open>Committing\<close>

lemma marked_same_seg:
  assumes "same_seg s s' n" "df_hdr (heap s' n) = df_hdr (heap s n)" "df_committed (heap s' n) = df_committed (heap s n)"
  shows "marked xx c s' n = marked xx c s n"
  using assms same_seg_flat(1) [OF assms(1)] by (simp add: marked_def mark_room_def mark_at_def done_in_def same_seg_def)

definition committed :: "hash \<Rightarrow> int \<Rightarrow> store \<Rightarrow> unit result \<Rightarrow> store \<Rightarrow> bool" where
  "committed xx off s r s' \<longleftrightarrow> commit_ok xx s' \<and> commitOff s \<le> commitOff s' \<and> commitOff s' \<le> max (commitOff s) off \<and>
     boundary xx s (commitOff s') \<and> writeOff s' = writeOff s \<and> headOff s' = max (headOff s) (commitOff s') \<and>
     backlog xx s' = from_off (commitOff s') (flat xx s) \<and> unread xx s' = from_off (headOff s') (flat xx s) \<and>
     options s' = options s \<and> reserved s' = reserved s \<and> (r = Inr () \<longrightarrow> reached xx off s s')"

lemma committed_stay:
  assumes "commit_ok xx s" "r = Inr () \<longrightarrow> off \<le> commitOff s"
  shows "committed xx off s r s"
proof -
  have "max (headOff s) (commitOff s) = headOff s" "boundary xx s (commitOff s)"
    using assms(1) queue_okD(5,7) [of xx s] by (auto simp: commit_ok_def)
  moreover have "reached xx off s s" if "off \<le> commitOff s"
    using that by (fastforce simp: reached_def intro: le_less_trans [of off "commitOff s"] order.strict_trans1)
  ultimately show ?thesis using assms by (simp add: committed_def backlog_def unread_def)
qed

lemma reserved_dropCommitted: "distinct (files s) \<Longrightarrow> reserved (dropCommitted keep s) = reserved s"
  using settings_dropCommitted(1) [of s keep] by (simp add: settings_def)

lemma committed_drop:
  assumes ok: "commit_ok xx s"
  defines "s' \<equiv> dropCommitted (active s) s"
  shows "commit_ok xx s'" "backlog xx s' = backlog xx s" "unread xx s' = unread xx s" "commitOff s' = commitOff s"
    "headOff s' = headOff s" "writeOff s' = writeOff s" "options s' = options s" "reserved s' = reserved s"
proof -
  have q: "queue_ok xx s" using ok by (simp add: commit_ok_def)
  have dist: "distinct (files s)" using queue_okD(3) [OF q] by (simp add: nums_ok_def)
  note d = dropCommitted_spec [OF q dropCommitted_active, folded s'_def]
  show "commit_ok xx s'" unfolding commit_ok_def d(9)
  proof (intro conjI ballI)
    fix n assume n: "n \<in> set (files s')"
    have "core_df (heap s' n) = core_df (heap s n)" using d(7) by blast
    then have "marked xx (commitOff s) s' n = marked xx (commitOff s) s n"
      by (intro marked_same_seg bspec [OF d(6) n]) (rule core_df_fields(5,8); assumption)+
    then show "marked xx (commitOff s) s' n" using ok d(4) n by (auto simp: commit_ok_def)
  qed (rule d(1))
  show "options s' = options s" "reserved s' = reserved s"
    unfolding s'_def using options_dropCommitted [OF dist] reserved_dropCommitted [OF dist] by simp_all
  show "backlog xx s' = backlog xx s" "unread xx s' = unread xx s" "commitOff s' = commitOff s"
    "headOff s' = headOff s" "writeOff s' = writeOff s" by (fact d)+
qed

lemma boundary_end:
  assumes ok: "queue_ok xx s" and b: "boundary xx s c" "commitOff s \<le> q" and q: "(q, p) \<in> set (flat xx s)" "q < c"
  shows "q + framedLen (length p) \<le> c"
proof (cases "c = writeOff s")
  case True
  obtain at where "chain (commitOff s) at (flat xx s) (writeOff s)" using flat_chain [OF ok] .
  then show ?thesis using chain_bounds q(1) True by blast
next
  case False
  then obtain y where "(c, y) \<in> set (flat xx s)" using b(1) by (auto simp: boundary_def)
  then show ?thesis using flat_after [OF ok q(1) b(2) _ q(2)] by blast
qed

lemma reached_min:
  assumes ok: "queue_ok xx s" and r: "reached xx (min off (writeOff s)) s s'"
  shows "reached xx off s s'"
proof (cases "off \<le> writeOff s")
  case True
  then show ?thesis using r by (simp add: min_def)
next
  case False
  obtain at where ch: "chain (commitOff s) at (flat xx s) (writeOff s)" using flat_chain [OF ok] .
  have "False" if "(q, p) \<in> set (flat xx s)" "commitOff s' \<le> q" for q p
    using r that False chain_bounds [OF ch that(1)] by (fastforce simp: reached_def min_def)
  then show ?thesis by (auto simp: reached_def)
qed

lemma commitDurable_spec:
  assumes ok: "commit_ok xx s" and nc: "\<forall>r \<in> set (reserved s). \<not> r_corrupt r" and c: "commitDurable xx off0 durable s = (r, s')"
  shows "committed xx off0 s r s'"
proof (cases "ioErr s \<noteq> None \<or> off0 \<le> commitOff s")
  case True
  then have "s' = s" "r = Inr () \<longrightarrow> off0 \<le> commitOff s" using c by (auto simp: commitDurable_def split: option.splits if_splits)
  then show ?thesis using committed_stay [OF ok] by simp
next
  case False
  have q: "queue_ok xx s" using ok by (simp add: commit_ok_def)
  let ?off = "min off0 (writeOff s)" and ?w = "\<lparr>w_df = None, w_cur = None, w_idx = 0\<rparr>"
  define perop where "perop = (durable \<and> perOp s)"
  obtain w stop s1 where 1: "commit_walk (nat (?off - commitOff s)) xx ?off perop ?w s = ((w, stop), s1)" by (metis prod_cases3 surj_pair)
  have "walking xx ?off s ?w s"
    using ok queue_okD(5-7) [OF q] False by (auto simp: walking_def marks_of_def all_marked_def commit_ok_def)
  with walk_run_spec [OF commit_walk_run [OF _ order_refl, of ?off s xx perop ?w, unfolded 1] q _ nc]
  have w: "walking xx ?off s w s1" "stop = None \<Longrightarrow> reached xx ?off s s1" by auto
  obtain stop2 s2 where 2: "(case w_cur w of Some c \<Rightarrow> (case persistCommit xx c perop s1 of (r, t) \<Rightarrow> (if stop = None then err_of r else stop, t))
      | None \<Rightarrow> (stop, s1)) = (stop2, s2)" by force
  have s2: "alike s s2" "all_marked xx s s2" "boundary xx s (commitOff s2)" "commitOff s \<le> commitOff s2" "commitOff s2 \<le> ?off"
    "stop2 = None \<longrightarrow> reached xx ?off s s2"
  proof -
    have "alike s s2 \<and> all_marked xx s s2 \<and> boundary xx s (commitOff s2) \<and> commitOff s \<le> commitOff s2 \<and> commitOff s2 \<le> ?off \<and>
      (stop2 = None \<longrightarrow> reached xx ?off s s2)"
    proof (cases "w_cur w")
      case None
      then show ?thesis using w 2 by (auto simp: walking_def marks_of_def)
    next
      case (Some x)
      then obtain at where u: "unmarked xx s x at s1" using w by (auto simp: walking_def marks_of_def)
      have a: "alike s s1" using w by (simp add: walking_def)
      obtain r3 where 3: "persistCommit xx x perop s1 = (r3, s2)" "stop2 = (if stop = None then err_of r3 else stop)"
        using 2 Some by (auto split: prod.splits)
      note ps = persistCommit_spec [OF q a u 3(1)]
      have "stop2 = None \<Longrightarrow> stop = None \<and> commitOff s2 = commitOff s1" using ps 3(2) by (auto split: if_splits)
      then show ?thesis using ps w u by (auto simp: walking_def unmarked_def reached_def)
    qed
    then show "alike s s2" "all_marked xx s s2" "boundary xx s (commitOff s2)" "commitOff s \<le> commitOff s2" "commitOff s2 \<le> ?off"
      "stop2 = None \<longrightarrow> reached xx ?off s s2" by blast+
  qed
  have mid: "committed xx off0 s r' t" if t: "quiet s2 t'" "t = t'\<lparr>headOff := max (headOff s) (commitOff t')\<rparr>" "r' = Inr () \<Longrightarrow> stop2 = None" for r' t' t
  proof -
    have ct: "commitOff t' = commitOff s2" using t(1) shape_eq_fields [of t' s2] by (simp add: quiet_def)
    have at: "alike s t'" by (rule alike_trans [OF s2(1) alike_quiet [OF t(1)]])
    note af = alike_flat [OF at]
    have "commitOff t' \<le> writeOff s" using s2(5) ct by simp
    then have "queue_ok xx t" unfolding t(2) using s2 ct by (intro alike_queue_ok [OF q at]) simp_all
    moreover have "marked xx (commitOff t) t n" if "n \<in> set (files t)" for n
      using s2(2) that alikeD(1) [OF at] ct marked_quiet [OF t(1)] by (simp add: t(2) all_marked_def)
    moreover have "reached xx off0 s t" if "r' = Inr ()" using reached_min [OF q] s2(6) t(3) that ct by (simp add: t(2) reached_def)
    ultimately show ?thesis using s2(3-5) ct alikeD(2,7,8) [OF at] af(1)
      by (auto simp: committed_def commit_ok_def t(2) backlog_def unread_def options_def)
  qed
  note run = c [unfolded commitDurable_def Let_def, folded perop_def]
  show ?thesis
  proof (cases "commitOff s2 = commitOff s")
    case True
    have "s' = s2" "r = as_result stop2" using run False 1 2 True by (auto split: option.splits)
    moreover have "s2 = s2\<lparr>headOff := max (headOff s) (commitOff s2)\<rparr>" using True alikeD(3) [OF s2(1)] queue_okD(5) [OF q] by simp
    ultimately show ?thesis using mid [of s2 s2 r] by (cases stop2) (auto simp: as_result_def)
  next
    case moved: False
    obtain stop3 s3 where 3: "(if durable \<and> batched s2 then (case recordOp s2 of (r, t) \<Rightarrow> (if stop2 = None then err_of r else stop2, t))
        else (stop2, s2)) = (stop3, s3)" by force
    have q3: "quiet s2 s3" "stop3 = None \<Longrightarrow> stop2 = None"
      using 3 quiet_recordOp [of s2] by (auto split: if_splits prod.splits)
    define s4 where "s4 = s3\<lparr>headOff := max (headOff s) (commitOff s3)\<rparr>"
    have h3: "headOff s3 = headOff s" using alikeD(3) [OF alike_trans [OF s2(1) alike_quiet [OF q3(1)]]] by simp
    have s4: "s4 = (if headOff s3 < commitOff s3 then s3\<lparr>headOff := commitOff s3\<rparr> else s3)"
      using h3 by (auto simp: s4_def max_def)
    have o: "r = as_result stop3" "s' = dropCommitted (active s4) s4" using run False 1 2 moved 3 by (auto simp: s4 split: option.splits)
    have m: "committed xx off0 s r s4" by (rule mid [OF q3(1) s4_def]) (use o(1) q3(2) in \<open>cases stop3; simp add: as_result_def\<close>)
    then have "commit_ok xx s4" by (simp add: committed_def)
    from committed_drop [OF this, folded o(2)] show ?thesis using m by (simp add: committed_def reached_def)
  qed
qed

section \<open>Properties\<close>

text \<open>
  C7: committing drops a prefix of the backlog and nothing else, under every pattern of I/O
  failures: what is left is exactly the records from the new commit cursor on, every record
  dropped lies wholly at or before the target, the records not yet read stay unless they were
  committed, and the header marks agree with the cursor afterwards, also when a header write
  failed half way and the cursor was taken back.  Success means that every record that lies at or
  before the target was dropped.
\<close>

theorem commitDurable_refines:
  assumes "commit_ok xx s" "\<forall>r \<in> set (reserved s). \<not> r_corrupt r" "commitDurable xx off durable s = (r, s')"
  shows "commit_ok xx s' \<and> commitOff s \<le> commitOff s' \<and>
    backlog xx s' = from_off (commitOff s') (flat xx s) \<and>
    unread xx s' = from_off (max (headOff s) (commitOff s')) (flat xx s) \<and>
    (\<forall>(q, p) \<in> set (flat xx s). commitOff s \<le> q \<and> q < commitOff s' \<longrightarrow> q + framedLen (length p) \<le> off) \<and>
    (r = Inr () \<longrightarrow> (\<forall>(q, p) \<in> set (flat xx s). commitOff s' \<le> q \<longrightarrow> off < q + framedLen (length p)))"
proof -
  note c = commitDurable_spec [OF assms, unfolded committed_def]
  have "q + framedLen (length p) \<le> off" if "(q, p) \<in> set (flat xx s)" "commitOff s \<le> q" "q < commitOff s'" for q p
    using boundary_end [of xx s "commitOff s'" q p] c that assms(1) by (auto simp: commit_ok_def)
  then show ?thesis using c by (auto simp: reached_def)
qed

text \<open>The sample store with the header of its segment filled in.\<close>

definition sample_marked :: store where
  "sample_marked = upd_df 1 (\<lambda>d. d\<lparr>df_hdr := header_mods (\<lambda>_. 5)
     [initHeader, setCommitCursor 64, setWriteCursor 85, setWrittenCount 2, setCommittedCount 0] (replicate 64 0)\<rparr>) sample"

lemma sample_marked_ok: "commit_ok (\<lambda>_. 5) sample_marked" "flat (\<lambda>_. 5) sample_marked = [(0, [1, 2]), (11, [3])]"
  "reserved sample_marked = []"
proof -
  have len: "length (replicate 64 (0 :: byte)) = headerSize" by (simp add: headerSize_def)
  let ?h = "header_mods (\<lambda>_. 5) [initHeader, setCommitCursor 64, setWriteCursor 85, setWrittenCount 2, setCommittedCount 0] (replicate 64 0)"
  have h: "commitCursor ?h = 64" "committedCount ?h = 0" "length ?h = headerSize"
    using len by (simp_all add: header_mods_def hdr_laws is_i64_def)
  have a: "alike sample sample_marked"
    unfolding sample_marked_def by (rule alike_df) (simp_all add: h sample_def zero_dataFile_def)
  note f = alikeD [OF a] alike_flat [OF a]
  have co: "commitOff sample_marked = 0" by (simp add: sample_marked_def upd_df_def sample_fields)
  have "queue_ok (\<lambda>_. 5) (sample_marked\<lparr>headOff := headOff sample\<rparr>)"
    by (rule alike_queue_ok [OF sample_ok a]) (use co sample_fields in \<open>simp_all add: boundary_def sample_flat\<close>)
  then have "queue_ok (\<lambda>_. 5) sample_marked" by (simp flip: f(3))
  moreover have "marked (\<lambda>_. 5) 0 sample_marked 1"
  proof -
    have "seg_flat (\<lambda>_. 5) sample 1 = [(0, [1, 2]), (11, [3])]"
      using sample_flat sample_fields(1) by (simp add: flat_def)
    then show ?thesis using h
      by (simp add: marked_def mark_room_def mark_at_def done_in_def f, simp add: sample_marked_def sample_def zero_dataFile_def headerSize_def)
  qed
  ultimately show "commit_ok (\<lambda>_. 5) sample_marked" using sample_fields(1) co f(1) by (simp add: commit_ok_def)
  show "flat (\<lambda>_. 5) sample_marked = [(0, [1, 2]), (11, [3])]" using f(11) sample_flat by simp
  show "reserved sample_marked = []" using f(7) by (simp add: sample_def new_store_def)
qed

theorem commitDurable_refines_witness:
  "commit_ok (\<lambda>_. 5) sample_marked \<and> reserved sample_marked = [] \<and>
   backlog (\<lambda>_. 5) (snd (commitDurable (\<lambda>_. 5) 11 True sample_marked)) =
     from_off (commitOff (snd (commitDurable (\<lambda>_. 5) 11 True sample_marked))) [(0, [1, 2]), (11, [3])]"
proof -
  obtain r s' where c: "commitDurable (\<lambda>_. 5) 11 True sample_marked = (r, s')" by force
  show ?thesis using commitDurable_refines [OF sample_marked_ok(1) _ c] sample_marked_ok c by simp
qed

end
