(* ===== verification/Append_Marks.thy ===== *)
theory Append_Marks
  imports Commit_Refine
begin

text \<open>
  Appending keeps the commit marks: no step of an append touches the commit cursor or the
  commit fields of a header, and the header of a segment that was started says that nothing in
  it is committed.
\<close>

definition marks_ok :: "hash \<Rightarrow> store \<Rightarrow> bool" where
  "marks_ok xx s \<longleftrightarrow> (\<forall>n \<in> set (files s). marked xx (commitOff s) s n)"

lemma commit_ok_alt: "commit_ok xx s \<longleftrightarrow> queue_ok xx s \<and> marks_ok xx s"
  by (simp add: commit_ok_def marks_ok_def)

lemma marks_ok_quiet: "quiet s s' \<Longrightarrow> marks_ok xx s' = marks_ok xx s"
  using marked_quiet [of s s'] shape_eq_fields [of s' s] by (simp add: marks_ok_def quiet_def)

lemma advance_hdr:
  assumes "length (df_hdr (heap s n)) = headerSize"
  shows "commitCursor (df_hdr (heap (advanceAppend xx n b k s) n)) = commitCursor (df_hdr (heap s n))"
    "committedCount (df_hdr (heap (advanceAppend xx n b k s) n)) = committedCount (df_hdr (heap s n))"
    "df_committed (heap (advanceAppend xx n b k s) n) = df_committed (heap s n)"
  using assms by (simp_all add: advanceAppend_def Let_def upd_df_def header_def header_mods_def hdr_laws)

lemma marked_fields:
  assumes "same_seg s s' n" "commitCursor (df_hdr (heap s' n)) = commitCursor (df_hdr (heap s n))"
    "committedCount (df_hdr (heap s' n)) = committedCount (df_hdr (heap s n))" "df_committed (heap s' n) = df_committed (heap s n)"
  shows "marked xx c s' n = marked xx c s n"
  using assms same_seg_flat(1) [OF assms(1)] by (simp add: marked_def mark_room_def mark_at_def done_in_def same_seg_def)

lemma queue_last_end:
  assumes ok: "queue_ok xx s" and act: "active s = Some n"
  shows "df_end (heap s n) = writeOff s" "n \<in> set (files s)"
proof -
  have fs: "files s \<noteq> []" "n = last (files s)" using act by (auto simp: active_def split: if_splits)
  then show "n \<in> set (files s)" by simp
  obtain at where "lay (heap s) (commitOff s) at (files s) (writeOff s)" using covered_lay [OF queue_okD(2) [OF ok] fs(1)] by blast
  from lay_last [OF this fs(1)] show "df_end (heap s n) = writeOff s" by (simp add: fs(2))
qed

text \<open>Records put behind the write cursor do not change what is committed of a segment.\<close>

lemma marks_advance:
  assumes ok: "queue_ok xx s" and m: "marks_ok xx s" and act: "active s = Some n"
    and wr: "written_at s n (df_size (heap s n)) (frame xx p)" and cap: "df_size (heap s n) + framedLen (length p) \<le> df_capacity (heap s n)"
  shows "marks_ok xx (advanceAppend xx n (framedLen (length p)) 1 s)"
proof -
  let ?t = "advanceAppend xx n (framedLen (length p)) 1 s" and ?c = "commitOff s"
  note n = queue_last_end [OF ok act]
  note tf = advance_fields [where xx = xx and n = n and b = "framedLen (length p)" and k = 1 and s = s]
  have f: "file_ok xx s n" by (rule queue_okD(1) [OF ok n(2)])
  have z: "0 \<le> df_size (heap s n)" by (rule file_ok_size [OF f])
  have room: "mark_room (heap s n)" using m n(2) by (simp add: marks_ok_def marked_def)
  have cw: "?c \<le> df_end (heap s n)" using queue_okD(5,6) [OF ok] n(1) by simp
  have pos: "0 < framedLen (length p)" by simp
  have d: "data_of ?t n = frames xx (recs_of xx s n @ [p])"
    using advance_data [OF wr z] file_ok_data(1) [OF f] by (simp add: length_frame)
  have "int (length (data_of ?t n)) = df_size (heap s n) + framedLen (length p)"
    unfolding d using file_ok_data [OF f] by (simp add: length_frame)
  then have r: "recs_of xx ?t n = recs_of xx s n @ [p]"
    unfolding recs_of_def [of xx ?t] d using records_frames [of xx "recs_of xx s n @ [p]"] cap room d by (simp add: mark_room_def)
  have sf: "seg_flat xx ?t n = seg_flat xx s n @ [(writeOff s, p)]"
    using n(1) file_ok_data [OF f] by (simp add: seg_flat_def r tf offs_append [where xx = xx] df_end_def)
  have "done_in xx ?t n ?c = done_in xx s n ?c" using queue_okD(5,6) [OF ok] by (simp add: done_in_def sf)
  moreover have "mark_at (heap ?t n) ?c = mark_at (heap s n) ?c" using cw z pos by (simp add: mark_at_def tf df_end_def del: framedLen_gt0)
  moreover have "mark_room (heap ?t n)" using room cap by (simp add: mark_room_def tf)
  ultimately have "marked xx ?c ?t n" using m n(2) advance_hdr [OF file_okD(5) [OF f]] by (simp add: marks_ok_def marked_def)
  moreover have "marked xx ?c ?t x" if "x \<in> set (files s)" "x \<noteq> n" for x
  proof -
    have "same_seg s ?t x" using tf(16) [OF that(2)] tf(8) by (simp add: same_seg_def data_of_def)
    then have "marked xx ?c ?t x = marked xx ?c s x" by (rule marked_fields) (simp_all add: tf(16) [OF that(2)])
    then show ?thesis using m that by (simp add: marks_ok_def)
  qed
  ultimately show ?thesis by (auto simp: marks_ok_def tf)
qed

lemma marks_publishAppend:
  assumes ok: "queue_ok xx s" and m: "marks_ok xx s" and act: "active s = Some n"
    and wr: "written_at s n (df_size (heap s n)) (frame xx p)" and cap: "df_size (heap s n) + framedLen (length p) \<le> df_capacity (heap s n)"
    and pub: "publishAppend xx n (framedLen (length p)) s = (r, s')"
  shows "marks_ok xx s'"
proof -
  let ?L = "framedLen (length p)"
  define t where "t = advanceAppend xx n ?L 1 s"
  note n = queue_last_end(2) [OF ok act]
  have len: "length (df_hdr (heap s n)) = headerSize" by (rule file_okD(5) [OF queue_okD(1) [OF ok n]])
  note tf = advance_fields [where xx = xx and n = n and b = ?L and k = 1 and s = s, folded t_def]
  have mt: "marks_ok xx t" unfolding t_def by (rule marks_advance [OF ok m act wr cap])
  obtain r1 s1 where w: "writeHeader n t = (r1, s1)" by force
  have q1: "quiet t s1" by (rule quiet_writeHeader [OF w]) (simp add: tf len)
  show ?thesis
  proof (cases "\<exists>e. r1 = Inl e")
    case True
    let ?u = "advanceAppend xx n (- ?L) (- 1) s1"
    have s': "s' = ?u" using True pub w by (auto simp: publishAppend_def rollbackAppend_def t_def)
    have sh: "shape s1 = shape t" using q1 by (simp add: quiet_def)
    note f1 = shape_eq_fields [OF sh] shape_eq_df_fields [OF sh]
    note uf = advance_fields [where xx = xx and n = n and b = "- ?L" and k = "- 1" and s = s1]
    have "0 \<le> ?L" using framedLen_gt0 [of "length p"] by linarith
    note seg = rollback_spec(2) [OF ok n this w [unfolded t_def]]
    have len1: "length (df_hdr (heap s1 n)) = headerSize" using tf(21) [OF len] f1 by simp
    have "marked xx (commitOff s) ?u x = marked xx (commitOff s) s x" if x: "x \<in> set (files s)" for x
    proof (rule marked_fields [OF seg [OF x]])
      show "commitCursor (df_hdr (heap ?u x)) = commitCursor (df_hdr (heap s x))"
        "committedCount (df_hdr (heap ?u x)) = committedCount (df_hdr (heap s x))" "df_committed (heap ?u x) = df_committed (heap s x)"
        using advance_hdr [OF len1] advance_hdr [OF len, of xx ?L 1, folded t_def] f1 uf(16) tf(16)
        by (cases "x = n"; simp)+
    qed
    then show ?thesis using m by (simp add: s' marks_ok_def uf f1 tf)
  next
    case False
    obtain r2 s2 where ds: "os_run (datasync n) s1 = (r2, s2)" by force
    have qd: "quiet s1 s2" "quiet s1 (upd_df n (\<lambda>d. d\<lparr>df_dirty := False\<rparr>) s2)"
      using quiet_datasync [OF ds] quiet_upd_df [of "\<lambda>d. d\<lparr>df_dirty := False\<rparr>" s2 n] by (auto intro: quiet_trans)
    have "quiet s1 s'"
      using pub w False ds qd quiet_trans [OF quiet_fields(3) quiet_recordOp] quiet_trans [OF qd(1) quiet_failIO]
      by (auto simp: publishAppend_def t_def [symmetric] split: if_splits sum.splits)
    then show ?thesis using marks_ok_quiet [OF quiet_trans [OF q1]] mt by blast
  qed
qed

lemma marks_append_write:
  assumes ok: "queue_ok xx s" and m: "marks_ok xx s" and room: "has_room (framedLen (length p)) s n" and a: "append_write xx p n s = (r, s')"
  shows "marks_ok xx s'"
proof -
  have n: "n \<in> set (files s)" using room by (auto simp: has_room_def active_def split: if_splits)
  obtain r3 s3 where 3: "ensureOpen n s = (r3, s3)" by force
  have q3: "quiet s s3" by (rule quiet_ensureOpen [OF 3])
  have f3: "file_ok xx s3 n" using quiet_file_ok [OF q3] queue_okD(1) [OF ok n] by simp
  obtain r4 s4 where 4: "writeRecord xx n (df_size (heap s3 n)) p s3 = (r4, s4)" by force
  note w4 = writeRecord_spec [OF f3 order_refl 4]
  define s5 where "s5 = s4\<lparr>writeBuf := trimOver (writeBuf s4) (segmentSize s4)\<rparr>"
  have q5: "quiet s s5" unfolding s5_def by (rule quiet_trans [OF quiet_trans [OF q3 w4(1)] quiet_fields(6)])
  obtain r6 s6 where 6: "os_run (datasync n) s5 = (r6, s6)" by force
  have q6: "quiet s s6" by (rule quiet_trans [OF q5 quiet_datasync [OF 6]])
  have pub: "marks_ok xx s'" if q: "quiet s x" and w: "written_at x n (df_size (heap s3 n)) (frame xx p)"
      and pb: "publishAppend xx n (framedLen (length p)) x = (r, s')" for x
  proof -
    have sz: "df_size (heap s3 n) = df_size (heap x n)"
      using shape_eq_df_fields(4) [of x s n] shape_eq_df_fields(4) [of s3 s n] q q3 by (simp add: quiet_def)
    show ?thesis
      by (rule marks_publishAppend [OF quiet_queue_ok [OF q ok] _ _ w [unfolded sz] _ pb])
        (use has_room_quiet [OF q room] marks_ok_quiet [OF q] m in \<open>simp_all add: has_room_def\<close>)
  qed
  have w: "written_at s5 n (df_size (heap s3 n)) (frame xx p) \<and> written_at s6 n (df_size (heap s3 n)) (frame xx p)" if "r4 = Inr u" for u
    using w4(2) [OF that] written_at_quiet [OF core_datasync [OF 6]] by (simp add: s5_def written_at_def)
  have fl: "marks_ok xx s'" if "(failIO e s6 :: unit result \<times> store) = (r, s')" for e
    using marks_ok_quiet [OF quiet_trans [OF q6 quiet_failIO [OF that]]] m by blast
  show ?thesis
    using a 3 4 6 m marks_ok_quiet [OF q3] marks_ok_quiet [OF q5] fl pub [OF q5] pub [OF q6] w
    by (auto simp: append_write_def s5_def [symmetric] Let_def split: sum.splits option.splits if_splits)
qed

section \<open>Starting a segment\<close>

lemma marks_dropCommitted:
  assumes ok: "queue_ok xx s" and m: "marks_ok xx s"
  shows "marks_ok xx (dropCommitted keep s)"
proof -
  note d = dropCommitted_loose [OF ok]
  show ?thesis unfolding marks_ok_def d(9)
  proof
    fix n assume n: "n \<in> set (files (dropCommitted keep s))"
    have c: "core_df (heap (dropCommitted keep s) n) = core_df (heap s n)" using d(7) by blast
    have "marked xx (commitOff s) (dropCommitted keep s) n = marked xx (commitOff s) s n"
      by (intro marked_same_seg bspec [OF d(6) n] core_df_fields(5,8) [OF c])
    then show "marked xx (commitOff s) (dropCommitted keep s) n" using m d(4) n by (auto simp: marks_ok_def)
  qed
qed

lemma only_fresh_marked:
  assumes o: "only_fresh n s s'" and z: "df_size (heap s n) = 0" and m: "m \<noteq> n"
  shows "marked xx c s' m = marked xx c s m"
proof (rule marked_same_seg [OF only_fresh_seg(1) [OF o z m]])
  have "shape (erase_seg n s') = shape (erase_seg n s)" using o z by (simp add: only_fresh_def)
  from shape_eq_df_fields(2,7) [OF this, of m] m
  show "df_hdr (heap s' m) = df_hdr (heap s m)" "df_committed (heap s' m) = df_committed (heap s m)" by (simp_all add: erase_seg_def)
qed

lemma marked_new:
  assumes "new_seg n base cap s" "c \<le> base" "int headerSize + cap < 2 ^ 63"
  shows "marked xx c s n"
  using assms new_seg_file_ok [OF assms(1), of xx] by (simp add: marked_def mark_room_def mark_at_def new_seg_def done_in_def headerSize_def)

lemma marks_cycle:
  assumes ok: "queue_ok xx s" and m: "marks_ok xx s" and big: "int headerSize + segmentSize s < 2 ^ 63" "int headerSize + need < 2 ^ 63"
    and c: "cycle xx need force s = (r, s')"
  shows "marks_ok xx s'"
proof -
  define s1 where "s1 = dropCommitted None s"
  note d = dropCommitted_loose [OF ok, of None, folded s1_def]
  have m1: "marks_ok xx s1" unfolding s1_def by (rule marks_dropCommitted [OF ok m])
  have sz1: "segmentSize s1 = segmentSize s"
    using settings_dropCommitted(1) [of s None] queue_okD(3) [OF ok] by (simp add: s1_def nums_ok_def settings_defs)
  show ?thesis
  proof (cases "\<not> force \<and> maxSegments s1 > 0 \<and> int (length (files s1)) \<ge> maxSegments s1")
    case True
    then have "s' = s1" using c by (simp_all add: cycle_def s1_def Let_def)
    then show ?thesis using m1 by simp
  next
    case go: False
    let ?cap = "max (segmentSize s1) need"
    obtain r2 s2 where 2: "createFile xx (nextNum s1) (writeOff s1) ?cap s1 = (r2, s2)" by force
    have cf: "only_fresh (nextNum s1) s1 s2 \<and> (\<forall>k. r2 = Inr k \<longrightarrow> k = nextNum s1 \<and> nextNum s1 \<noteq> 0 \<and> new_seg (nextNum s1) (writeOff s1) ?cap s2)"
      by (rule createFile_spec [OF 2])
    show ?thesis
    proof (cases "nextNum s1 = 0")
      case True
      then have "s' = s1" using c go by (simp add: cycle_def s1_def [symmetric] Let_def createFile_def)
      then show ?thesis using m1 by simp
    next
      case nz: False
      have z: "df_size (heap s1 (nextNum s1)) = 0" and nf: "n \<noteq> nextNum s1" if "n \<in> set (files s1)" for n
        using loose_okD(3) [OF d(1)] nz that by (auto simp: nums_ok_def)
      have z: "df_size (heap s1 (nextNum s1)) = 0" using loose_okD(3) [OF d(1)] nz by (simp add: nums_ok_def)
      note f2 = only_fresh_fields [OF conjunct1 [OF cf] z]
      have m2: "marked xx (commitOff s1) s2 n" if "n \<in> set (files s1)" for n
        using only_fresh_marked [OF conjunct1 [OF cf] z nf [OF that]] m1 that by (simp add: marks_ok_def)
      show ?thesis
      proof (cases r2)
        case (Inl e)
        then have "s' = s2" using c go 2 by (simp_all add: cycle_def s1_def [symmetric] Let_def)
        then show ?thesis using m2 by (simp add: marks_ok_def f2)
      next
        case (Inr n)
        then have n: "n = nextNum s1" "new_seg n (writeOff s1) ?cap s2" using cf by auto
        define s3 where "s3 = s2\<lparr>nextNum := (nextNum s2 + 1) mod 2 ^ 64, files := files s2 @ [n],
                         diskBytes := diskBytes s2 + (int headerSize + df_capacity (heap s2 n))\<rparr>"
        have "quiet s3 s'"
        proof (cases "ioErr (trackOpen n s3) = None \<and> \<not> noSync (trackOpen n s3)")
          case True
          then have "syncDir (trackOpen n s3) = (r, s')"
            using c go 2 Inr by (simp add: cycle_def s1_def [symmetric] Let_def s3_def)
          then show ?thesis using quiet_trans [OF quiet_trackOpen] quiet_syncDir by blast
        next
          case False
          then have "s' = trackOpen n s3"
            using c go 2 Inr by (auto simp: cycle_def s1_def [symmetric] Let_def s3_def split: option.splits if_splits)
          then show ?thesis using quiet_trackOpen by simp
        qed
        moreover have "marked xx x s3 y = marked xx x s2 y" for x y
          by (simp add: s3_def marked_def done_in_def seg_flat_def recs_of_def data_of_def)
        moreover have "marked xx (commitOff s1) s2 n"
          using n(2) by (rule marked_new) (use loose_okD(5,6) [OF d(1)] big sz1 in simp_all)
        ultimately show ?thesis
          using m2 marks_ok_quiet [of s3 s' xx] by (auto simp: marks_ok_def s3_def f2)
      qed
    qed
  qed
qed

section \<open>Appending\<close>

lemma commit_ok_append:
  assumes ok: "commit_ok xx s" and staged: "stagedBytes s = 0"
    and seg: "int headerSize + segmentSize s < 2 ^ 63" and len: "int headerSize + framedLen (length p) < 2 ^ 63"
    and a: "appendRecord xx p force s = (r, s')" and ns: "\<not> stranded s'"
  shows "commit_ok xx s'"
proof -
  have q: "queue_ok xx s" "marks_ok xx s" using ok by (simp_all add: commit_ok_alt)
  have seg': "segmentSize s < 2 ^ 63" using seg by (simp add: headerSize_def)
  have "queue_ok xx s'" using appendRecord_kept [OF q(1) staged seg' a ns] by (simp add: append_outcome_def)
  moreover have cnt: "marks_ok xx (t\<lparr>nFull := k\<rparr>) = marks_ok xx t" for t k
    by (simp add: marks_ok_def marked_def done_in_def seg_flat_def recs_of_def data_of_def)
  have "marks_ok xx s'"
  proof (cases "ioErr s = None \<and> admitRecord (framedLen (length p)) force s = (Inr (), s)")
    case False
    obtain r1 s1 where 1: "admitRecord (framedLen (length p)) force s = (r1, s1)" by force
    have "marks_ok xx s1" using 1 q(2) cnt by (auto simp: admitRecord_def split: if_splits)
    moreover have "s' = s \<or> s' = s1"
      using a False 1 admit_small [of "framedLen (length p)" force s "()" s1] by (auto simp: appendRecord_def Let_def split: option.splits sum.splits)
    ultimately show ?thesis using q(2) by auto
  next
    case True
    let ?L = "framedLen (length p)"
    have L: "?L < 2 ^ 63" "int headerSize + ?L < 2 ^ 63" using len by simp_all
    obtain r2 s2 where 2: "(if needsCycle ?L s then cycle xx ?L force s else (Inr (), s)) = (r2, s2)" by force
    have c: "r2 = Inr u \<Longrightarrow> queue_ok xx s2" "marks_ok xx s2" for u
      using 2 cycle_spec [OF q(1) seg' L(1)] marks_cycle [OF q seg L(2)] q by (auto split: if_splits)
    note out = a [unfolded appendRecord_alt Let_def]
    show ?thesis
    proof (cases r2)
      case (Inl e)
      then have "s' = s2 \<or> s' = s2\<lparr>nFull := nFull s2 + 1\<rparr>" using out True 2 by (auto split: if_splits)
      then show ?thesis using c cnt by auto
    next
      case (Inr u)
      obtain n where room: "has_room ?L s2 n"
      proof (cases "needsCycle ?L s")
        case True
        then have "cycled ?L s2" using cycle_spec [OF q(1) seg' L(1)] 2 Inr by simp
        then show ?thesis using that by (auto simp: cycled_def new_seg_def has_room_def)
      next
        case False
        then show ?thesis using that 2 staged by (auto simp: needsCycle_def has_room_def split: option.splits)
      qed
      then have "append_write xx p n s2 = (r, s')" using out True 2 Inr by (simp add: has_room_def)
      then show ?thesis by (rule marks_append_write [OF c(1) [OF Inr] c(2) room])
    qed
  qed
  ultimately show ?thesis by (simp add: commit_ok_alt)
qed

end
