(* ===== verification/Queue.thy ===== *)
theory Queue
  imports Recovery Read
begin

text \<open>
  The public type of diskqueue.go: its options, the notification channels, opening, the producer
  operations, group commit, the off-lock flush and closing.

  Everything the mutex protects is one step: an operation that releases the mutex on its way is
  cut there, and the pieces are put together again by the step relation of group commit.  A
  channel is a number, \<open>closedCh\<close> says which are closed, and a goroutine blocked on one may go on
  when it is.  The codec is a parameter of the operations that call it; a codec that panics is not
  modelled.  \<open>flushing\<close> and \<open>curGroup\<close> are fields of the store that only this code uses and
  \<open>groupErr\<close> is the \<open>err\<close> field of the flush groups, which are named by their \<open>done\<close> channels.
  The reused marshal buffers hold no state that can be observed.
\<close>

section \<open>Options\<close>

record Options =
  NoSync :: bool
  SyncEvery :: int
  SegmentSize :: int
  MaxSegments :: int
  MaxBytes :: int
  MaxOpenFiles :: int
  SyncInterval :: int
  StampRecords :: bool

definition defaultMaxSegments :: int where "defaultMaxSegments = 32"

definition resolveMaxSegments :: "int \<Rightarrow> int" where
  "resolveMaxSegments v = (if v = 0 then defaultMaxSegments else if v < 0 then 0 else v)"

definition segmentAlign :: int where "segmentAlign = 4096"

definition segmentCapacity :: "int \<Rightarrow> int" where
  "segmentCapacity sz =
     (let c0 = (if sz \<le> 0 then push_bit 20 8 else sz);
          c1 = (if c0 < segmentAlign then segmentAlign else c0);
          maxSeg = push_bit 48 1 - segmentAlign
      in if c1 > maxSeg then maxSeg
         else if c1 mod segmentAlign \<noteq> 0 then (c1 div segmentAlign + 1) * segmentAlign else c1)"

section \<open>Statistics\<close>

record Stats =
  BacklogBytes :: int
  Backlog :: int
  InFlightBytes :: int
  UnsyncedBytes :: int
  Segments :: int
  StatMaxSegments :: int
  StatMaxBytes :: int
  DiskBytes :: int
  Added :: int
  Delivered :: int
  Committed :: int
  Full :: int
  LostBytes :: int
  LostRecords :: int
  LostSegments :: int
  ForeignSegments :: int
  ForeignBytes :: int
  DiscardedBytes :: int
  Unreclaimed :: int
  Corruptions :: int

definition stats :: "store \<Rightarrow> Stats" where
  "stats s =
     \<lparr>BacklogBytes = store_size s, Backlog = store_count s, InFlightBytes = max (headOff s - commitOff s) 0,
      UnsyncedBytes = unsyncedBytes s, Segments = int (length (files s)), StatMaxSegments = maxSegments s,
      StatMaxBytes = maxBytes s, DiskBytes = diskBytes s, Added = nAdded s, Delivered = nDelivered s,
      Committed = nCommittedTotal s, Full = nFull s, LostBytes = lostBytes s, LostRecords = lostRecords s,
      LostSegments = lostSegments s, ForeignSegments = foreignSegments s, ForeignBytes = foreignBytes s,
      DiscardedBytes = discardedBytes s, Unreclaimed = unreclaimed s, Corruptions = corruptions s\<rparr>"

section \<open>The queue\<close>

record queue =
  stamp :: bool
  st :: store
  closed :: bool
  notify :: "nat option"
  spaceNotify :: "nat option"
  flushDrained :: "nat option"
  quiesceWant :: int
  quiesceRelease :: "nat option"
  syncer :: bool
  flushing :: bool
  curGroup :: "nat option"
  groupErr :: "nat \<Rightarrow> err option"
  nextCh :: nat
  closedCh :: "nat \<Rightarrow> bool"

definition new_queue :: "bool \<Rightarrow> bool \<Rightarrow> store \<Rightarrow> queue" where
  "new_queue stmp syn s =
     \<lparr>stamp = stmp, st = s, closed = False, notify = None, spaceNotify = None,
      flushDrained = None, quiesceWant = 0, quiesceRelease = None, syncer = syn, flushing = False,
      curGroup = None, groupErr = (\<lambda>_. None), nextCh = 0, closedCh = (\<lambda>_. False)\<rparr>"

definition New :: "hash \<Rightarrow> (string \<times> bool) list \<Rightarrow> Options \<Rightarrow> os \<Rightarrow> queue result" where
  "New xx ents opt w =
     (case openStore xx ents (segmentCapacity (SegmentSize opt)) (resolveMaxSegments (MaxSegments opt))
             (NoSync opt) (SyncEvery opt) (MaxOpenFiles opt) w of
        (Inl e, s) \<Rightarrow> Inl e
      | (Inr _, s) \<Rightarrow>
          Inr (new_queue (StampRecords opt) (SyncInterval opt > 0 \<and> \<not> NoSync opt)
                 (s\<lparr>maxBytes := max (MaxBytes opt) 0\<rparr>)))"

section \<open>Channels\<close>

definition close_chan :: "nat option \<Rightarrow> queue \<Rightarrow> queue" where
  "close_chan c q = (case c of None \<Rightarrow> q | Some ch \<Rightarrow> q\<lparr>closedCh := (closedCh q)(ch := True)\<rparr>)"

definition signal :: "queue \<Rightarrow> queue" where
  "signal q = (close_chan (notify q) q)\<lparr>notify := None\<rparr>"

definition signalSpace :: "queue \<Rightarrow> queue" where
  "signalSpace q = (close_chan (spaceNotify q) q)\<lparr>spaceNotify := None\<rparr>"

definition signalFlushDrained :: "queue \<Rightarrow> queue" where
  "signalFlushDrained q = (close_chan (flushDrained q) q)\<lparr>flushDrained := None\<rparr>"

definition signalProgress :: "queue \<Rightarrow> queue" where
  "signalProgress q = (let q1 = signalSpace q in if pendingCorrupt (st q1) > 0 then signal q1 else q1)"

text \<open>The first half of each wait, under the mutex: the channel to block on, made if there is none.\<close>

definition waitLocked :: "queue \<Rightarrow> nat \<times> queue" where
  "waitLocked q =
     (case notify q of Some ch \<Rightarrow> (ch, q)
      | None \<Rightarrow> (nextCh q, q\<lparr>notify := Some (nextCh q), nextCh := Suc (nextCh q)\<rparr>))"

definition waitSpaceLocked :: "queue \<Rightarrow> nat \<times> queue" where
  "waitSpaceLocked q =
     (case spaceNotify q of Some ch \<Rightarrow> (ch, q)
      | None \<Rightarrow> (nextCh q, q\<lparr>spaceNotify := Some (nextCh q), nextCh := Suc (nextCh q)\<rparr>))"

definition waitQuiesceReleaseLocked :: "queue \<Rightarrow> nat \<times> queue" where
  "waitQuiesceReleaseLocked q =
     (case quiesceRelease q of Some ch \<Rightarrow> (ch, q)
      | None \<Rightarrow> (nextCh q, q\<lparr>quiesceRelease := Some (nextCh q), nextCh := Suc (nextCh q)\<rparr>))"

text \<open>
  \<open>waitFlushQuiescedLocked\<close> in three pieces: announcing the wait, one test of the loop, which
  yields the channel to block on while there is something to wait for, and leaving.
\<close>

definition quiesce_enter :: "queue \<Rightarrow> queue" where
  "quiesce_enter q = q\<lparr>quiesceWant := quiesceWant q + 1\<rparr>"

definition quiesce_test :: "queue \<Rightarrow> nat option \<times> queue" where
  "quiesce_test q =
     (if flushing q \<or> stagedBytes (st q) > 0 then
        (case flushDrained q of Some ch \<Rightarrow> (Some ch, q)
         | None \<Rightarrow> (Some (nextCh q), q\<lparr>flushDrained := Some (nextCh q), nextCh := Suc (nextCh q)\<rparr>))
      else (None, q))"

definition quiesce_exit :: "queue \<Rightarrow> queue" where
  "quiesce_exit q =
     (let q1 = q\<lparr>quiesceWant := quiesceWant q - 1\<rparr>
      in if quiesceWant q1 = 0 then (close_chan (quiesceRelease q1) q1)\<lparr>quiesceRelease := None\<rparr> else q1)"

section \<open>Serializing\<close>

text \<open>
  \<open>marshal dst v\<close> is the slice the codec returned, \<open>None\<close> for nil, and its error; \<open>now\<close> is the
  time in nanoseconds.
\<close>

type_synonym 'v marshal = "bytes \<Rightarrow> 'v \<Rightarrow> bytes option \<times> err option"
type_synonym 'v unmarshal = "bytes \<Rightarrow> 'v result"

definition stampLen :: nat where "stampLen = 8"

definition stampInto :: "int \<Rightarrow> queue \<Rightarrow> bytes \<Rightarrow> bytes" where
  "stampInto now q dst = (if \<not> stamp q then dst else dst @ be_put 8 (to_u64 now))"

definition stampAge :: "int \<Rightarrow> bytes \<Rightarrow> int" where
  "stampAge now b = max (min (now - to_i64 (be_nat (take stampLen b))) maxInt64) 0"

definition marshalValue :: "'v marshal \<Rightarrow> int \<Rightarrow> 'v \<Rightarrow> queue \<Rightarrow> bytes result" where
  "marshalValue marshal now v q =
     (case marshal (stampInto now q []) v of
        (b, Some e) \<Rightarrow> Inl e
      | (b, None) \<Rightarrow> Inr (case b of None \<Rightarrow> [] | Some x \<Rightarrow> x))"

section \<open>Batches\<close>

definition on_store :: "(store \<Rightarrow> 'a \<times> store) \<Rightarrow> queue \<Rightarrow> 'a \<times> queue" where
  "on_store f q = (case f (st q) of (r, s) \<Rightarrow> (r, q\<lparr>st := s\<rparr>))"

text \<open>
  \<open>publishBatchLocked\<close> and the loop of \<open>addBatchLocked\<close> act on the store; \<open>k\<close> is \<open>*published\<close>.
  The fault points return nil outside the tests.
\<close>

definition publishBatchLocked :: "hash \<Rightarrow> int \<Rightarrow> store \<Rightarrow> (int \<times> err option) \<times> store" where
  "publishBatchLocked xx k s =
     (if pendingBytes s = 0 then ((k, None), s)
      else
        let s1 = takeSpan s; af = the (active s1); recs = inFlightRecs s1; span = inFlight s1
        in if \<not> perOp s1 then
             (case publishSpan xx s1 of
                (Inl e, s2) \<Rightarrow> ((k, Some e), s2)
              | (Inr _, s2) \<Rightarrow>
                  let s3 = s2\<lparr>unsyncedBytes := unsyncedBytes s2 + span\<rparr>
                  in if batched s3 then (case recordOps recs s3 of (r, s4) \<Rightarrow> ((k + recs, err_of r), s4))
                     else ((k + recs, None), s3))
           else
             (case os_run (datasync af) s1 of
                (Inl e, s2) \<Rightarrow>
                  (case failIO e (discardStaged s2) of (r :: unit result, s3) \<Rightarrow> ((k, err_of r), s3))
              | (Inr _, s2) \<Rightarrow>
                  (case publishSpan xx s2 of
                     (Inl e, s3) \<Rightarrow> ((k, Some e), s3)
                   | (Inr _, s3) \<Rightarrow>
                       (case os_run (datasync af) s3 of
                          (Inl e, s4) \<Rightarrow>
                            (case failIO e s4 of (r :: unit result, s5) \<Rightarrow> ((k + recs, err_of r), s5))
                        | (Inr _, s4) \<Rightarrow> ((k + recs, None), upd_df af (\<lambda>d. d\<lparr>df_dirty := False\<rparr>) s4)))))"

text \<open>Leaving the loop with an error: publish what is staged, then report both errors.\<close>

definition batch_stop :: "hash \<Rightarrow> int \<Rightarrow> err \<Rightarrow> store \<Rightarrow> (int \<times> err option) \<times> store" where
  "batch_stop xx k e s =
     (case publishBatchLocked xx k s of ((k1, perr), s1) \<Rightarrow> ((k1, err_join (Some e) perr), s1))"

text \<open>One serialized item: \<open>Inr\<close> the count so far when the loop goes on.\<close>

definition batch_item :: "hash \<Rightarrow> bytes \<Rightarrow> int \<Rightarrow> store \<Rightarrow> ((int \<times> err option) + int) \<times> store" where
  "batch_item xx b k s =
     (let recLen = framedLen (length b)
      in case ioErr s of
           Some e \<Rightarrow> (Inl (k, Some e), discardStaged s)
         | None \<Rightarrow>
             (case admitRecord recLen False s of
                (Inl e, s1) \<Rightarrow> (case batch_stop xx k e s1 of (r, s2) \<Rightarrow> (Inl r, s2))
              | (Inr _, s1) \<Rightarrow>
                  (case (if needsCycle recLen s1 then
                           (case publishBatchLocked xx k s1 of
                              ((k1, Some e), s2) \<Rightarrow> (Inl (k1, Some e), s2)
                            | ((k1, None), s2) \<Rightarrow>
                                (case cycle xx recLen False s2 of
                                   (Inl e, s3) \<Rightarrow>
                                     (Inl (k1, Some e), if err_is e ErrFull then s3\<lparr>nFull := nFull s3 + 1\<rparr> else s3)
                                 | (Inr _, s3) \<Rightarrow> (Inr k1, s3)))
                         else (Inr k, s1)) of
                     (Inl r, s2) \<Rightarrow> (Inl r, s2)
                   | (Inr k1, s2) \<Rightarrow>
                       (case stagePending xx b s2 of
                          (Inl e, s3) \<Rightarrow> (case batch_stop xx k1 e s3 of (r, s4) \<Rightarrow> (Inl r, s4))
                        | (Inr _, s3) \<Rightarrow>
                            if batched s3 \<and> unsynced s3 + pendingRecs s3 \<ge> syncEvery s3 then
                              (case publishBatchLocked xx k1 s3 of
                                 ((k2, Some e), s4) \<Rightarrow> (Inl (k2, Some e), s4)
                               | ((k2, None), s4) \<Rightarrow> (Inr k2, s4))
                            else (Inr k1, s3)))))"

text \<open>The loop over the items, serialized one at a time with the mutex held.\<close>

fun batch_loop :: "hash \<Rightarrow> bytes result list \<Rightarrow> int \<Rightarrow> store \<Rightarrow> (int \<times> err option) \<times> store" where
  "batch_loop xx [] k s = publishBatchLocked xx k s"
| "batch_loop xx (Inl e # bs) k s = batch_stop xx k e s"
| "batch_loop xx (Inr b # bs) k s =
     (case batch_item xx b k s of
        (Inl r, s1) \<Rightarrow> (r, s1)
      | (Inr k1, s1) \<Rightarrow> batch_loop xx bs k1 s1)"

text \<open>\<open>AddBatch\<close> once the store is quiescent; \<open>nows\<close> are the times the items are stamped with.\<close>

definition AddBatch :: "hash \<Rightarrow> 'v marshal \<Rightarrow> (int \<times> 'v) list \<Rightarrow> queue \<Rightarrow> (int \<times> err option) \<times> queue" where
  "AddBatch xx marshal items q =
     (if closed q then ((0, Some ErrClosed), q)
      else
        let before = writeOff (st q);
            ps = map (\<lambda>(now, v). marshalValue marshal now v q) items
        in case (case ioErr (st q) of
                   Some e \<Rightarrow> ((0, Some e), q)
                 | None \<Rightarrow> on_store (batch_loop xx ps 0) q) of
             (r, q1) \<Rightarrow>
               (r, if writeOff (st q1) \<noteq> before then signal q1 else q1))"

section \<open>Adding one record\<close>

text \<open>What an add is doing when it lets go of the mutex, or its result.\<close>

datatype addOut =
    AddDone "err option"
  | AddYield nat      \<comment> \<open>blocked until no goroutine quiesces\<close>
  | AddQuiesce        \<comment> \<open>waiting for the flush to settle before cycling\<close>
  | AddFollow nat     \<comment> \<open>staged; blocked on the verdict of a flush group\<close>
  | AddLead           \<comment> \<open>staged; leading the flush\<close>
  | AddSpace nat      \<comment> \<open>blocked until capacity is freed\<close>

text \<open>
  The loop of \<open>addDurableLocked\<close> up to its break, which is \<open>Inr\<close>.  It goes round only after a
  segment was started, and that segment has room for the record, so two rounds are enough.
\<close>

fun add_loop :: "nat \<Rightarrow> hash \<Rightarrow> int \<Rightarrow> bool \<Rightarrow> queue \<Rightarrow> (addOut + unit) option \<times> queue" where
  "add_loop 0 xx recLen force q = (None, q)"
| "add_loop (Suc k) xx recLen force q =
     (if closed q then (Some (Inl (AddDone (Some ErrClosed))), q)
      else case ioErr (st q) of
        Some e \<Rightarrow> (Some (Inl (AddDone (Some e))), q)
      | None \<Rightarrow>
          if quiesceWant q > 0 then
            (case waitQuiesceReleaseLocked q of (ch, q1) \<Rightarrow> (Some (Inl (AddYield ch)), q1))
          else
            (case on_store (admitRecord recLen force) q of
               (Inl e, q1) \<Rightarrow> (Some (Inl (AddDone (Some e))), q1)
             | (Inr _, q1) \<Rightarrow>
                 if \<not> needsCycle recLen (st q1) then (Some (Inr ()), q1)
                 else if flushing q1 \<or> stagedBytes (st q1) > 0 then (Some (Inl AddQuiesce), q1)
                 else
                   (case on_store (cycle xx recLen force) q1 of
                      (Inl e, q2) \<Rightarrow>
                        (Some (Inl (AddDone (Some e))),
                         if err_is e ErrFull then q2\<lparr>st := (st q2)\<lparr>nFull := nFull (st q2) + 1\<rparr>\<rparr> else q2)
                    | (Inr _, q2) \<Rightarrow> add_loop k xx recLen force q2)))"

definition join_group :: "queue \<Rightarrow> nat \<times> queue" where
  "join_group q =
     (case curGroup q of Some g \<Rightarrow> (g, q)
      | None \<Rightarrow> (nextCh q, q\<lparr>curGroup := Some (nextCh q), nextCh := Suc (nextCh q)\<rparr>))"

definition addDurableLocked :: "hash \<Rightarrow> bytes \<Rightarrow> bool \<Rightarrow> queue \<Rightarrow> addOut option \<times> queue" where
  "addDurableLocked xx payload force q =
     (case add_loop 2 xx (framedLen (length payload)) force q of
        (None, q1) \<Rightarrow> (None, q1)
      | (Some (Inl r), q1) \<Rightarrow> (Some r, q1)
      | (Some (Inr _), q1) \<Rightarrow>
          (case on_store (stagePending xx payload) q1 of
             (Inl e, q2) \<Rightarrow> (Some (AddDone (Some e)), q2)
           | (Inr _, q2) \<Rightarrow>
               if flushing q2 then (case join_group q2 of (g, q3) \<Rightarrow> (Some (AddFollow g), q3))
               else (Some AddLead, q2)))"

definition addBytesLocked :: "hash \<Rightarrow> bytes \<Rightarrow> queue \<Rightarrow> addOut option \<times> queue" where
  "addBytesLocked xx payload q =
     (if perOp (st q) then addDurableLocked xx payload False q
      else
        let before = writeOff (st q)
        in case on_store (append_store xx payload) q of
             (r, q1) \<Rightarrow> (Some (AddDone (err_of r)), if writeOff (st q1) \<noteq> before then signal q1 else q1))"

definition Add :: "hash \<Rightarrow> 'v marshal \<Rightarrow> int \<Rightarrow> 'v \<Rightarrow> queue \<Rightarrow> addOut option \<times> queue" where
  "Add xx marshal now v q =
     (case marshalValue marshal now v q of
        Inl e \<Rightarrow> (Some (AddDone (Some e)), q)
      | Inr payload \<Rightarrow> if closed q then (Some (AddDone (Some ErrClosed)), q) else addBytesLocked xx payload q)"

text \<open>The size \<open>AddSized\<close> reports when the add it performs is done with this error.\<close>

definition AddSized :: "bytes \<Rightarrow> err option \<Rightarrow> int" where
  "AddSized payload e = (if e = None then framedLen (length payload) else 0)"

text \<open>One round of the loop of \<open>AddWait\<close>.\<close>

definition addWait_round :: "hash \<Rightarrow> bytes \<Rightarrow> queue \<Rightarrow> addOut option \<times> queue" where
  "addWait_round xx payload q =
     (if closed q then (Some (AddDone (Some ErrClosed)), q)
      else case addBytesLocked xx payload q of
             (Some (AddDone (Some e)), q1) \<Rightarrow>
               if err_is e ErrFull then (case waitSpaceLocked q1 of (ch, q2) \<Rightarrow> (Some (AddSpace ch), q2))
               else (Some (AddDone (Some e)), q1)
           | (r, q1) \<Rightarrow> (r, q1))"

section \<open>Leading a flush\<close>

text \<open>
  \<open>leadFlushLocked\<close> in pieces.  \<open>lead_begin\<close> is the start, \<open>lead_take\<close> the head of the loop, with the group the span
  belongs to and the file; then the data flush runs with the mutex released; \<open>lead_publish\<close> is
  the part between the two flushes, \<open>Inr\<close> when the header flush is next; \<open>lead_header\<close> judges the
  header flush; \<open>lead_verdict\<close> delivers the verdict and says whether the loop goes on.
\<close>

definition lead_begin :: "queue \<Rightarrow> queue" where
  "lead_begin q = q\<lparr>flushing := True\<rparr>"

definition lead_take :: "queue \<Rightarrow> (nat option \<times> nat) \<times> queue" where
  "lead_take q =
     (let q1 = q\<lparr>curGroup := None, st := takeSpan (st q)\<rparr> in ((curGroup q, the (active (st q1))), q1))"

definition lead_publish :: "hash \<Rightarrow> err option \<Rightarrow> queue \<Rightarrow> (err + unit) \<times> queue" where
  "lead_publish xx derr q =
     (case (if derr = None then ioErr (st q) else derr) of
        Some e \<Rightarrow>
          on_store (\<lambda>s. failIO e (discardStaged s)) q
      | None \<Rightarrow>
          (case on_store (publishSpan xx) q of
             (Inl e, q1) \<Rightarrow> (Inl e, q1)
           | (Inr _, q1) \<Rightarrow> (Inr (), signal q1)))"

definition lead_header :: "err option \<Rightarrow> queue \<Rightarrow> err option \<times> queue" where
  "lead_header herr q =
     (case herr of
        Some e \<Rightarrow> (case on_store (failIO e :: unit op) q of (r, q1) \<Rightarrow> (err_of r, q1))
      | None \<Rightarrow> (ioErr (st q), q))"

definition settle_group :: "nat option \<Rightarrow> err option \<Rightarrow> queue \<Rightarrow> queue" where
  "settle_group g e q =
     (case g of None \<Rightarrow> q | Some c \<Rightarrow> close_chan (Some c) (q\<lparr>groupErr := (groupErr q)(c := e)\<rparr>))"

definition lead_finish :: "queue \<Rightarrow> queue" where
  "lead_finish q = signalSpace (signalFlushDrained (q\<lparr>flushing := False\<rparr>))"

definition lead_verdict :: "nat option \<Rightarrow> err option \<Rightarrow> queue \<Rightarrow> bool \<times> queue" where
  "lead_verdict g e q =
     (let q1 = settle_group g e q
      in case e of
           Some x \<Rightarrow>
             let q2 = (settle_group (curGroup q1) e q1)\<lparr>curGroup := None\<rparr>
             in (False, lead_finish (q2\<lparr>st := discardStaged (st q2)\<rparr>))
         | None \<Rightarrow> if curGroup q1 = None then (False, lead_finish q1) else (True, q1))"

section \<open>Flushing with the mutex released\<close>

text \<open>\<open>flushChunk\<close>: pinning under the mutex, flushing without it, unpinning under it again.\<close>

fun pin_chunk :: "nat list \<Rightarrow> err option \<Rightarrow> store \<Rightarrow> ((nat \<times> nat) list \<times> err option) \<times> store" where
  "pin_chunk [] errs s = (([], errs), s)"
| "pin_chunk (n # ns) errs s =
     (if \<not> live n s then pin_chunk ns errs s
      else if \<not> df_dirty (heap s n) then pin_chunk ns errs s
      else case ensureOpen n s of
             (Inl e, s1) \<Rightarrow> pin_chunk ns (err_join errs (Some e)) s1
           | (Inr _, s1) \<Rightarrow>
               let s2 = upd_df n (\<lambda>d. d\<lparr>df_pins := df_pins d + 1\<rparr>) s1
               in case pin_chunk ns errs s2 of
                    ((ts, errs1), s3) \<Rightarrow> (((n, df_writeSeq (heap s2 n)) # ts, errs1), s3))"

fun sync_targets :: "(nat \<times> nat) list \<Rightarrow> store \<Rightarrow> (nat \<times> nat \<times> err option) list \<times> store" where
  "sync_targets [] s = ([], s)"
| "sync_targets ((n, sq) # ts) s =
     (case os_run (datasync n) s of
        (r, s1) \<Rightarrow> (case sync_targets ts s1 of (rs, s2) \<Rightarrow> ((n, sq, err_of r) # rs, s2)))"

fun unpin_chunk :: "(nat \<times> nat \<times> err option) list \<Rightarrow> err option \<Rightarrow> store \<Rightarrow> err option \<times> store" where
  "unpin_chunk [] errs s = (errs, s)"
| "unpin_chunk ((n, sq, e) # ts) errs s =
     (let s1 = upd_df n (\<lambda>d. d\<lparr>df_pins := df_pins d - 1\<rparr>) s
      in case e of
           Some x \<Rightarrow> (case failIO x s1 of (r :: unit result, s2) \<Rightarrow> unpin_chunk ts (err_join errs (err_of r)) s2)
         | None \<Rightarrow>
             unpin_chunk ts errs
               (if df_writeSeq (heap s1 n) = sq then upd_df n (\<lambda>d. d\<lparr>df_dirty := False\<rparr>) s1 else s1))"

definition flushChunk :: "nat list \<Rightarrow> store \<Rightarrow> err option \<times> store" where
  "flushChunk chunk s =
     (case pin_chunk chunk None s of
        ((ts, errs), s1) \<Rightarrow> (case sync_targets ts s1 of (rs, s2) \<Rightarrow> unpin_chunk rs errs s2))"

definition chunk_len :: "nat list \<Rightarrow> store \<Rightarrow> nat" where
  "chunk_len dirty s =
     (let n = length dirty; sz = flushChunkSize s in if sz > 0 \<and> int n > sz then nat sz else n)"

function flush_chunks :: "nat list \<Rightarrow> err option \<Rightarrow> store \<Rightarrow> err option \<times> store" where
  "flush_chunks dirty errs s =
     (if dirty = [] then (errs, s)
      else
        let n = chunk_len dirty s
        in case flushChunk (take n dirty) s of
             (e, s1) \<Rightarrow> flush_chunks (drop n dirty) (err_join errs e) s1)"
  by pat_completeness auto
termination
  by (relation "measure (\<lambda>(dirty, errs, s). length dirty)") (auto simp: chunk_len_def Let_def)

declare flush_chunks.simps [simp del]

text \<open>\<open>syncOffLock\<close> from the test of the latch on, with no other goroutine running meanwhile.\<close>

definition sync_body :: "unit op" where
  "sync_body s =
     (case ioErr s of
        Some e \<Rightarrow> (Inl e, s)
      | None \<Rightarrow>
          (case flush_chunks (filter (\<lambda>n. df_dirty (heap s n)) (files s)) None s of
             (Some e, s1) \<Rightarrow> (Inl e, s1)
           | (None, s1) \<Rightarrow>
               (case ioErr s1 of
                  Some e \<Rightarrow> (Inl e, s1)
                | None \<Rightarrow>
                    (case syncDir s1 of
                       (Inl e, s2) \<Rightarrow> (Inl e, s2)
                     | (Inr _, s2) \<Rightarrow>
                         (Inr (), if flushEpoch s2 = flushEpoch s
                                  then s2\<lparr>unsynced := max (unsynced s2 - unsynced s) 0,
                                          unsyncedBytes := max (unsyncedBytes s2 - unsyncedBytes s) 0\<rparr>
                                  else s2)))))"

definition syncOffLock :: "queue \<Rightarrow> unit result \<times> queue" where
  "syncOffLock q =
     (if closed q then (Inl ErrClosed, signalSpace q)
      else case on_store sync_body q of (r, q1) \<Rightarrow> (r, signalSpace q1))"

section \<open>Rewinding and closing\<close>

definition Rewind :: "queue \<Rightarrow> int result \<times> queue" where
  "Rewind q =
     (if closed q then (Inl ErrClosed, q)
      else case on_store rewindToCommit q of
             (n, q1) \<Rightarrow> (Inr n, if n > 0 then signal q1 else q1))"

text \<open>\<open>Close\<close>: the first critical section, and the last one, once every flush has settled.\<close>

definition close_begin :: "queue \<Rightarrow> unit result \<times> queue" where
  "close_begin q =
     (if closed q then (Inl ErrClosed, q) else (Inr (), signalSpace (signal (q\<lparr>closed := True\<rparr>))))"

definition close_finish :: "queue \<Rightarrow> unit result \<times> queue" where
  "close_finish = on_store close_store"

end
