(* ===== verification/Stage_Refine.thy ===== *)
theory Stage_Refine
  imports Append_Live Queue
begin

text \<open>
  Staged records: bytes written past the published extent of the active segment, not yet in any
  cursor.  \<open>staged_as xx fl qs s\<close> says which payloads they are: \<open>fl\<close> in flight with the flush a
  leader runs, \<open>qs\<close> pending behind it.  Staging adds one, publishing a span appends exactly the
  payloads in flight to the queue, and a batch is a sequence of both.
\<close>

section \<open>Bytes behind the header\<close>

definition same_body :: "store \<Rightarrow> store \<Rightarrow> bool" where
  "same_body s s' \<longleftrightarrow> (\<forall>m. drop headerSize (inode (os s') m) = drop headerSize (inode (os s) m))"

lemma same_body_refl [simp]: "same_body s s"
  by (simp add: same_body_def)

lemma same_body_trans: "same_body a b \<Longrightarrow> same_body b c \<Longrightarrow> same_body a c"
  by (simp add: same_body_def)

lemma same_body_core: "core s' = core s \<Longrightarrow> same_body s s'"
  using core_eq_fields [of s' s] by (simp add: same_body_def)

lemma same_body_os: "inode (os s') = inode (os s) \<Longrightarrow> same_body s s'"
  by (simp add: same_body_def)

lemma same_body_header_pwrite:
  assumes "os_run (os_pwrite n 0 bs) s = (r, s')" "length bs \<le> headerSize"
  shows "same_body s s'"
  using assms(1) by (cases rule: pwrite_cases) (use assms(2) in \<open>simp add: same_body_def drop_overwrite_head\<close>)

lemma same_body_restoreHeader:
  assumes "restoreHeader n s = (r, s')"
  shows "same_body s s'"
proof -
  obtain cur e s1 where p: "os_run (os_pread n 0 headerSize) s = ((cur, e), s1)" by (metis surj_pair)
  let ?disk = "df_diskHeader (heap s1 n)" and ?k = "changed_len headerSize cur (df_diskHeader (heap s1 n))"
  have q1: "same_body s s1" by (rule same_body_os [OF pread_frame(6) [OF p]])
  have len: "length (take ?k ?disk) \<le> headerSize" using changed_len_le [of headerSize cur ?disk] by simp
  obtain r2 s2 where w: "os_run (os_pwrite n 0 (take ?k ?disk)) (mark_dirty n s1) = (r2, s2)" by force
  have q2: "same_body s s2"
    using same_body_header_pwrite [OF w len] q1 by (simp add: same_body_def mark_dirty_def)
  show ?thesis
    using assms p w q1 q2 unfolding restoreHeader_def
    by (auto simp: Let_def split: option.splits if_splits sum.splits dest!: core_datasync same_body_core intro: same_body_trans)
qed

lemma same_body_writeHeader:
  assumes w: "writeHeader n s = (r, s')" and len: "length (df_hdr (heap s n)) \<le> headerSize"
  shows "same_body s s'"
proof -
  obtain r1 s1 where 1: "(if df_open (heap s n) then (Inr (), s) else ensureOpen n s) = (r1, s1)" by force
  have c1: "core s1 = core s" using 1 by (auto split: if_splits dest: core_ensureOpen)
  have len1: "length (df_hdr (heap s1 n)) \<le> headerSize" using len by (simp add: core_eq_df_fields [OF c1])
  obtain r2 s2 where 2: "os_run (os_pwrite n 0 (df_hdr (heap s1 n))) s1 = (r2, s2)" by force
  have q2: "same_body s s2" by (rule same_body_trans [OF same_body_core [OF c1] same_body_header_pwrite [OF 2 len1]])
  obtain r3 s3 where 3: "restoreHeader n s2 = (r3, s3)" by force
  have q3: "same_body s s3" by (rule same_body_trans [OF q2 same_body_restoreHeader [OF 3]])
  have q4: "same_body s s4" if "(failIO e s3 :: unit result \<times> store) = (q, s4)" for e q s4
    by (rule same_body_trans [OF q3 same_body_core [OF core_failIO [OF that]]])
  have q5: "same_body s (mark_dirty n ((upd_df n f s2)\<lparr>nHeaderWrites := k\<rparr>))" for f k
    using q2 by (simp add: same_body_def mark_dirty_def upd_df_def)
  show ?thesis
    using w q2 q3 q4 same_body_core [OF c1] unfolding writeHeader_def 1
    by (auto simp: 2 3 q5 Let_def split: sum.splits option.splits if_splits prod.splits)
qed

lemma written_at_body:
  assumes "same_body s s'" "written_at s n off bs"
  shows "written_at s' n off bs"
proof -
  have "slice (headerSize + k) (headerSize + k + l) ino = slice k (k + l) (drop headerSize ino)" for k l and ino :: bytes
    by (simp add: slice_def add.commute)
  then show ?thesis using assms by (simp add: written_at_def same_body_def)
qed

section \<open>What is staged\<close>

definition staged_as :: "hash \<Rightarrow> bytes list \<Rightarrow> bytes list \<Rightarrow> store \<Rightarrow> bool" where
  "staged_as xx fl qs s \<longleftrightarrow>
     inFlight s = int (length (frames xx fl)) \<and> inFlightRecs s = int (length fl) \<and>
     pendingBytes s = int (length (frames xx qs)) \<and> pendingRecs s = int (length qs) \<and>
     (fl @ qs \<noteq> [] \<longrightarrow>
        (\<exists>n. active s = Some n \<and> written_at s n (df_size (heap s n)) (frames xx (fl @ qs)) \<and>
             df_size (heap s n) + int (length (frames xx (fl @ qs))) \<le> df_capacity (heap s n)))"

lemma frames_empty_iff [simp]: "frames xx ps = [] \<longleftrightarrow> ps = []"
  by (cases ps) simp_all

lemma staged_bytes: "staged_as xx fl qs s \<Longrightarrow> stagedBytes s = int (length (frames xx (fl @ qs)))"
  by (simp add: staged_as_def stagedBytes_def)

lemma staged_none: "staged_as xx [] [] s \<longleftrightarrow> inFlight s = 0 \<and> inFlightRecs s = 0 \<and> pendingBytes s = 0 \<and> pendingRecs s = 0"
  by (simp add: staged_as_def)

lemma staged_pending: "staged_as xx fl qs s \<Longrightarrow> pendingBytes s = 0 \<longleftrightarrow> qs = []"
  by (simp add: staged_as_def)

text \<open>Steps that move no cursor and write no byte past a header keep it.\<close>

lemma staged_quiet:
  assumes q: "quiet s s'" "same_body s s'" and st: "staged_as xx fl qs s"
  shows "staged_as xx fl qs s'"
proof -
  have sh: "shape s' = shape s" using q by (simp add: quiet_def)
  note f = shape_eq_fields [OF sh] shape_eq_df_fields [OF sh]
  have "active s' = active s" by (simp add: active_def f)
  then show ?thesis using st written_at_body [OF q(2)] by (auto simp: staged_as_def f)
qed

lemma staged_core: "core s' = core s \<Longrightarrow> staged_as xx fl qs s \<Longrightarrow> staged_as xx fl qs s'"
  by (rule staged_quiet [OF quiet_core same_body_core])

lemma queue_ok_staging [simp]:
  "queue_ok xx (s\<lparr>pendingBytes := a\<rparr>) = queue_ok xx s" "queue_ok xx (s\<lparr>pendingRecs := b\<rparr>) = queue_ok xx s"
  "queue_ok xx (s\<lparr>inFlight := c\<rparr>) = queue_ok xx s" "queue_ok xx (s\<lparr>inFlightRecs := d\<rparr>) = queue_ok xx s"
  "queue_ok xx (s\<lparr>unsyncedBytes := e\<rparr>) = queue_ok xx s"
  "flat xx (s\<lparr>pendingBytes := a\<rparr>) = flat xx s" "flat xx (s\<lparr>pendingRecs := b\<rparr>) = flat xx s"
  "flat xx (s\<lparr>inFlight := c\<rparr>) = flat xx s" "flat xx (s\<lparr>inFlightRecs := d\<rparr>) = flat xx s"
  "flat xx (s\<lparr>unsyncedBytes := e\<rparr>) = flat xx s"
  by (simp_all add: queue_ok_def file_ok_def flat_def seg_flat_def [abs_def] recs_of_def data_of_def covered_def
      nums_ok_def boundary_def cache_ok_def block_ok_def cong: option.case_cong list.case_cong)

lemma appended_staging [simp]:
  "appended xx ps t (s\<lparr>pendingBytes := a\<rparr>) = appended xx ps t s" "appended xx ps t (s\<lparr>pendingRecs := b\<rparr>) = appended xx ps t s"
  "appended xx ps t (s\<lparr>inFlight := c\<rparr>) = appended xx ps t s" "appended xx ps t (s\<lparr>inFlightRecs := d\<rparr>) = appended xx ps t s"
  "appended xx ps t (s\<lparr>unsyncedBytes := e\<rparr>) = appended xx ps t s"
  by (simp_all add: appended_def unread_def backlog_def)

lemma appended_refl [simp]: "appended xx [] s s"
  by (simp add: appended_def)

lemma appended_trans: "appended xx ps a b \<Longrightarrow> appended xx qs b c \<Longrightarrow> appended xx (ps @ qs) a c"
  by (simp add: appended_def)

section \<open>Staging one record\<close>

lemma written_at_Nil [simp]: "written_at s n off []"
  by (simp add: written_at_def slice_def)

lemma append_eq_le: "length xs \<le> length bs \<Longrightarrow> length ys \<le> length cs \<Longrightarrow> xs @ ys = bs @ cs \<longleftrightarrow> xs = bs \<and> ys = cs"
proof
  assume a: "length xs \<le> length bs" "length ys \<le> length cs" "xs @ ys = bs @ cs"
  then have "length xs + length ys = length bs + length cs" by (metis length_append)
  with a show "xs = bs \<and> ys = cs" by simp
qed simp

lemma active_cong: "files s' = files s \<Longrightarrow> active s' = active s"
  by (simp add: active_def)

lemma written_at_append:
  assumes "0 \<le> off"
  shows "written_at s n off (bs @ cs) \<longleftrightarrow> written_at s n off bs \<and> written_at s n (off + int (length bs)) cs"
proof -
  let ?a = "headerSize + nat off" and ?ino = "inode (os s) n"
  have k: "headerSize + nat (off + int (length bs)) = ?a + length bs" using assms by simp
  have "slice ?a (?a + length bs + length cs) ?ino =
      slice ?a (?a + length bs) ?ino @ slice (?a + length bs) (?a + length bs + length cs) ?ino"
    by (rule slice_split) auto
  then show ?thesis
    unfolding written_at_def k length_append by (simp add: add.assoc [symmetric] append_eq_le)
qed

text \<open>Writing a record does not disturb bytes that were written before its offset.\<close>

lemma written_at_overwrite:
  assumes "written_at s n off bs" "0 \<le> off" "off + int (length bs) \<le> at"
    "inode (os s') n = overwrite (headerSize + nat at) cs (inode (os s) n)"
  shows "written_at s' n off bs"
proof -
  let ?a = "headerSize + nat off"
  have "length bs = 0 \<or> ?a + length bs \<le> length (inode (os s) n)"
    using arg_cong [OF assms(1) [unfolded written_at_def], of length] unfolding length_slice by linarith
  then have len: "bs = [] \<or> ?a + length bs \<le> length (inode (os s) n)" by simp
  have "?a + length bs \<le> headerSize + nat at" using assms(2,3) by simp
  then show ?thesis
    using assms(1,4) len slice_overwrite_before [of "?a + length bs" "headerSize + nat at" "inode (os s) n" ?a cs]
    by (auto simp: written_at_def slice_def)
qed

lemma writeRecord_keeps:
  assumes "writeRecord xx n at p s = (r, s')" "written_at s n off bs" "0 \<le> off" "off + int (length bs) \<le> at"
  shows "written_at s' n off bs"
  using assms(1)
proof (cases rule: writeRecord_cases)
  case big
  then show ?thesis using assms(2) by simp
next
  case (fail x k w b)
  then show ?thesis using written_at_overwrite [OF assms(2-4)] by simp
next
  case (ok w b)
  then show ?thesis using written_at_overwrite [OF assms(2-4)] by (simp add: mark_dirty_def)
qed

definition staging :: "hash \<Rightarrow> bytes list \<Rightarrow> bytes list \<Rightarrow> store \<Rightarrow> store \<Rightarrow> bool" where
  "staging xx fl qs s s' \<longleftrightarrow> queue_ok xx s' \<and> appended xx [] s s' \<and> staged_as xx fl qs s' \<and>
     commitOff s' = commitOff s \<and> writeOff s' = writeOff s \<and> segmentSize s' = segmentSize s \<and> batched s' = batched s"

lemma staging_quiet:
  assumes "queue_ok xx s" "quiet s s'" "staged_as xx fl qs s'"
  shows "staging xx fl qs s s'"
proof -
  have sh: "shape s' = shape s" using assms by (simp add: quiet_def)
  show ?thesis
    using quiet_queue_ok [OF assms(2,1)] appended_quiet_nil [OF assms(2)] assms(3) shape_eq_fields [OF sh]
    by (simp add: staging_def batched_def)
qed

lemma stagePending_spec:
  assumes ok: "queue_ok xx s" and st: "staged_as xx fl qs s"
    and room: "has_room (stagedBytes s + framedLen (length p)) s n" and w: "stagePending xx p s = (r, s')"
  shows "staging xx fl (if r = Inr () then qs @ [p] else qs) s s'"
proof -
  have act: "active s = Some n" and n: "n \<in> set (files s)"
    using room by (auto simp: has_room_def active_def split: if_splits)
  obtain r1 s1 where 1: "ensureOpen n s = (r1, s1)" by force
  have c1: "core s1 = core s" by (rule core_ensureOpen [OF 1])
  have q1: "quiet s s1" by (rule quiet_core [OF c1])
  have st1: "staged_as xx fl qs s1" by (rule staged_core [OF c1 st])
  show ?thesis
  proof (cases "\<exists>u. r1 = Inr u \<and> ioErr s1 = None")
    case False
    then have "s' = s1" "r \<noteq> Inr ()" using w 1 act by (auto simp: stagePending_def split: sum.splits option.splits)
    then show ?thesis using staging_quiet [OF ok q1 st1] by simp
  next
    case True
    let ?at = "df_size (heap s1 n) + stagedBytes s1"
    obtain r2 s2 where 2: "writeRecord xx n ?at p s1 = (r2, s2)" by force
    have f1: "file_ok xx s1 n" using quiet_file_ok [OF q1] queue_okD(1) [OF ok n] by simp
    have z: "0 \<le> df_size (heap s1 n)" by (rule file_ok_size [OF f1])
    have sb: "stagedBytes s1 = int (length (frames xx (fl @ qs)))" by (rule staged_bytes [OF st1])
    have le: "df_size (heap s1 n) \<le> ?at" using sb by simp
    note w2 = writeRecord_spec [OF f1 le 2]
    define s3 where "s3 = s2\<lparr>writeBuf := trimOver (writeBuf s2) (segmentSize s2)\<rparr>"
    have q12: "quiet s1 s3" unfolding s3_def by (rule quiet_trans [OF w2(1) quiet_fields(6)])
    have q3: "quiet s s3" by (rule quiet_trans [OF q1 q12])
    have sh: "shape s3 = shape s1" using q12 by (simp add: quiet_def)
    note e = shape_eq_fields [OF sh] shape_eq_df_fields [OF sh]
    have act1: "active s1 = Some n" using act active_cong [OF core_eq_fields(8) [OF c1]] by simp
    have act3: "active s3 = Some n" using act1 active_cong [OF e(8)] by simp
    have "written_at s1 n (df_size (heap s1 n)) (frames xx (fl @ qs))"
      using st1 act1 by (cases "fl @ qs = []") (auto simp: staged_as_def)
    then have "written_at s2 n (df_size (heap s1 n)) (frames xx (fl @ qs))"
      by (rule writeRecord_keeps [OF 2 _ z]) (simp add: sb)
    then have k3: "written_at s3 n (df_size (heap s1 n)) (frames xx (fl @ qs))" by (simp add: s3_def written_at_def)
    have st3: "staged_as xx fl qs s3" using st1 k3 act1 act3 by (auto simp: staged_as_def e)
    have out: "(r, s') = (case r2 of Inl x \<Rightarrow> (Inl x, s3)
        | Inr _ \<Rightarrow> (Inr (), s3\<lparr>pendingBytes := pendingBytes s3 + framedLen (length p), pendingRecs := pendingRecs s3 + 1\<rparr>))"
      using w 1 True 2 act by (auto simp: stagePending_def s3_def [symmetric] Let_def split: sum.splits)
    show ?thesis
    proof (cases r2)
      case (Inl x)
      then show ?thesis using out staging_quiet [OF ok q3 st3] by simp
    next
      case (Inr u)
      have "written_at s3 n ?at (frame xx p)" using w2(2) [OF Inr] by (simp add: s3_def written_at_def)
      then have wr: "written_at s3 n (df_size (heap s1 n)) (frames xx (fl @ qs @ [p]))"
        using k3 written_at_append [OF z, of s3 n "frames xx (fl @ qs)" "frame xx p"] sb by simp
      have cap: "df_size (heap s1 n) + int (length (frames xx (fl @ qs @ [p]))) \<le> df_capacity (heap s1 n)"
        using room sb core_eq_df_fields [OF c1] core_eq_fields [OF c1]
        by (simp add: has_room_def stagedBytes_def length_frame algebra_simps)
      let ?t = "s3\<lparr>pendingBytes := pendingBytes s3 + framedLen (length p), pendingRecs := pendingRecs s3 + 1\<rparr>"
      have "active ?t = Some n" using act3 active_cong [of ?t s3] by simp
      moreover have "df_size (heap s3 n) = df_size (heap s1 n)" "df_capacity (heap s3 n) = df_capacity (heap s1 n)" by (simp_all add: e)
      ultimately have "staged_as xx fl (qs @ [p]) ?t"
        using st3 wr cap unfolding staged_as_def by (simp add: length_frame written_at_def)
      then have "staged_as xx fl (qs @ [p]) s'" using out Inr by simp
      moreover have "staging xx fl qs s s3" by (rule staging_quiet [OF ok q3 st3])
      ultimately show ?thesis using out Inr by (simp add: staging_def batched_def)
    qed
  qed
qed

section \<open>Publishing a span\<close>

lemma appended_offs:
  assumes "queue_ok xx s" "flat xx t = flat xx s @ offs (writeOff s) ps" "headOff t = headOff s" "commitOff t = commitOff s"
  shows "appended xx ps s t"
proof -
  have "from_off at (offs (writeOff s) ps) = ps" if "at \<le> writeOff s" for at
    using from_off_all [of "offs (writeOff s) ps" at] offs_from that by fastforce
  then show ?thesis using queue_okD(5,6) [OF assms(1)] assms
    by (simp add: appended_def unread_def backlog_def from_off_append)
qed

definition published :: "hash \<Rightarrow> bytes list \<Rightarrow> bytes list \<Rightarrow> store \<Rightarrow> store \<Rightarrow> bool" where
  "published xx ps qs s s' \<longleftrightarrow> queue_ok xx s' \<and> appended xx ps s s' \<and> staged_as xx [] qs s' \<and>
     commitOff s' = commitOff s \<and> writeOff s' = writeOff s + int (length (frames xx ps)) \<and>
     segmentSize s' = segmentSize s \<and> batched s' = batched s"

lemma publishSpan_spec:
  assumes ok: "queue_ok xx s" and st: "staged_as xx fl qs s" and act: "active s = Some n"
    and p: "publishSpan xx s = (r, s')"
  shows "if r = Inr () then published xx fl qs s s' else published xx [] [] s s'"
proof -
  let ?b = "int (length (frames xx fl))" and ?k = "int (length fl)"
  have n: "n \<in> set (files s)" using act by (auto simp: active_def split: if_splits)
  have f: "file_ok xx s n" by (rule queue_okD(1) [OF ok n])
  have z: "0 \<le> df_size (heap s n)" by (rule file_ok_size [OF f])
  have fl: "inFlight s = ?b" "inFlightRecs s = ?k" using st by (simp_all add: staged_as_def)
  define t where "t = advanceAppend xx n ?b ?k s"
  note tf = advance_fields [where xx = xx and n = n and b = ?b and k = ?k and s = s, folded t_def]
  have ts: "inFlight t = inFlight s" "pendingBytes t = pendingBytes s" "pendingRecs t = pendingRecs s" "inFlightRecs t = inFlightRecs s"
    "segmentSize t = segmentSize s"
    by (simp_all add: t_def advanceAppend_def Let_def upd_df_def)
  have all: "written_at s n (df_size (heap s n)) (frames xx fl)" "written_at s n (df_size (heap s n) + ?b) (frames xx qs)"
    "df_size (heap s n) + int (length (frames xx (fl @ qs))) \<le> df_capacity (heap s n) \<or> fl @ qs = []"
    using st act written_at_append [OF z, of s n "frames xx fl" "frames xx qs"]
    by (cases "fl @ qs = []"; auto simp: staged_as_def)+
  have cap: "df_size (heap s n) + ?b < 2 ^ 63" using all(3) file_okD(1,2) [OF f] by auto
  obtain r1 s1 where w: "writeHeader n t = (r1, s1)" by force
  have len: "length (df_hdr (heap t n)) = headerSize" by (simp add: tf file_okD(5) [OF f])
  have q1: "quiet t s1" by (rule quiet_writeHeader [OF w]) (simp add: len)
  have b1: "same_body t s1" by (rule same_body_writeHeader [OF w]) (simp add: len)
  have sh: "shape s1 = shape t" using q1 by (simp add: quiet_def)
  note e = shape_eq_fields [OF sh] shape_eq_df_fields [OF sh]
  show ?thesis
  proof (cases r1)
    case (Inl x)
    let ?u = "advanceAppend xx n (- inFlight s1) (- inFlightRecs s1) s1"
    have r: "r = Inl x" "s' = discardStaged ?u"
      using p act w fl Inl by (simp_all add: publishSpan_def unpublishSpan_def t_def)
    have u: "queue_ok xx ?u \<and> unread xx ?u = unread xx s \<and> backlog xx ?u = backlog xx s"
      using rollback_spec(1) [OF ok n _ w [unfolded t_def]] e ts fl by simp
    have "commitOff ?u = commitOff s" "writeOff ?u = writeOff s" "batched ?u = batched s" "segmentSize ?u = segmentSize s"
      using ts(1,4,5) fl tf(3,4,10,11) by (simp_all add: advance_fields batched_def e, simp add: advanceAppend_def Let_def upd_df_def e)
    then show ?thesis using r u
      by (simp add: published_def discardStaged_def appended_def unread_def backlog_def batched_def staged_none)
  next
    case (Inr u)
    have r: "r = Inr ()" "s' = s1\<lparr>inFlight := 0, inFlightRecs := 0\<rparr>"
      using p act w fl Inr by (simp_all add: publishSpan_def t_def)
    note q = queue_ok_advance_all [OF ok act all(1) cap, folded t_def]
    have ap: "appended xx fl s t" by (rule appended_offs [OF ok q(2)]) (simp_all add: tf)
    have "written_at t n (df_size (heap t n)) (frames xx qs)" using all(2) tf by (simp add: written_at_def)
    then have "written_at s1 n (df_size (heap s1 n)) (frames xx qs)" using written_at_body [OF b1] e by simp
    moreover have "active s1 = Some n" using act active_cong [OF e(8)] active_cong [OF tf(1)] by simp
    moreover have "df_size (heap s1 n) = df_size (heap s n) + ?b" "df_capacity (heap s1 n) = df_capacity (heap s n)"
      "pendingBytes s1 = int (length (frames xx qs))" "pendingRecs s1 = int (length qs)"
      using st by (simp_all add: e tf ts staged_as_def)
    moreover have "active s' = active s1" by (rule active_cong) (simp add: r)
    ultimately have "staged_as xx [] qs s'"
      using all(3) unfolding staged_as_def r(2) by (auto simp: written_at_def r(2) add.assoc)
    then show ?thesis
      using r quiet_queue_ok [OF q1 q(1)] appended_quiet [OF ap q1] e ts tf
      by (simp add: published_def batched_def)
  qed
qed

section \<open>Publishing a batch\<close>

lemma published_quiet:
  assumes "published xx ps [] s a" "quiet a b"
  shows "published xx ps [] s b"
proof -
  have sh: "shape b = shape a" using assms(2) by (simp add: quiet_def)
  show ?thesis
    using assms quiet_queue_ok [OF assms(2)] appended_quiet [OF _ assms(2)] shape_eq_fields [OF sh]
    by (simp add: published_def staged_none batched_def)
qed

lemma published_pre:
  assumes "published xx ps qs a s'" "staging xx fl rs s a"
  shows "published xx ps qs s s'"
  using assms by (simp add: published_def staging_def appended_def)

lemma published_discard:
  assumes "staging xx fl rs s a"
  shows "published xx [] [] s (discardStaged a)"
  using assms by (simp add: published_def staging_def discardStaged_def staged_none batched_def)

lemma takeSpan_staging:
  assumes "queue_ok xx s" "staged_as xx [] qs s"
  shows "staging xx qs [] s (takeSpan s)"
proof -
  have "active (takeSpan s) = active s" by (rule active_cong) (simp add: takeSpan_def)
  then show ?thesis
    using assms by (auto simp: staging_def takeSpan_def staged_as_def batched_def written_at_def)
qed

lemma staging_core:
  assumes "staging xx fl qs s a" "core b = core a"
  shows "staging xx fl qs s b"
  using assms quiet_queue_ok [OF quiet_core [OF assms(2)]] appended_quiet [OF _ quiet_core [OF assms(2)]]
    staged_core [OF assms(2)] core_eq_fields [OF assms(2)]
  by (simp add: staging_def batched_def)

text \<open>What the call published is a choice of all that was staged or nothing, and the count follows it.\<close>

definition batch_published :: "hash \<Rightarrow> bytes list \<Rightarrow> int \<Rightarrow> store \<Rightarrow> int \<Rightarrow> err option \<Rightarrow> store \<Rightarrow> bool" where
  "batch_published xx qs k s k' e s' \<longleftrightarrow>
     (\<exists>ps. published xx ps [] s s' \<and> k' = k + int (length ps) \<and> (ps = qs \<or> ps = [] \<and> e \<noteq> None))"

lemma publishBatch_spec:
  assumes ok: "queue_ok xx s" and st: "staged_as xx [] qs s" and p: "publishBatchLocked xx k s = ((k', e), s')"
  shows "batch_published xx qs k s k' e s'"
proof (cases "qs = []")
  case True
  then have "k' = k" "e = None" "s' = s" using p staged_pending [OF st] by (simp_all add: publishBatchLocked_def)
  then show ?thesis using ok st True by (simp add: batch_published_def published_def)
next
  case False
  define s1 where "s1 = takeSpan s"
  have g1: "staging xx qs [] s s1" unfolding s1_def by (rule takeSpan_staging [OF ok st])
  have "active s1 = active s" by (rule active_cong) (simp add: s1_def takeSpan_def)
  then obtain n where act: "active s1 = Some n" using st False by (auto simp: staged_as_def)
  have recs: "inFlightRecs s1 = int (length qs)" using g1 by (simp add: staging_def staged_as_def)
  have pend: "pendingBytes s \<noteq> 0" using staged_pending [OF st] False by simp
  have pub: "if r = Inr () then published xx qs [] s x else published xx [] [] s x"
    if g: "staging xx qs [] s a" and a: "active a = Some n" and "publishSpan xx a = (r, x)" for a r x
    using publishSpan_spec [OF _ _ a that(3)] published_pre [OF _ g] g by (auto simp: staging_def split: if_splits)
  note unfold = publishBatchLocked_def s1_def [symmetric] Let_def
  show ?thesis
  proof (cases "perOp s1")
    case False
    obtain r2 s2 where 2: "publishSpan xx s1 = (r2, s2)" by force
    note q = pub [OF g1 act 2]
    show ?thesis
    proof (cases r2)
      case (Inl x)
      then show ?thesis using p pend False 2 q by (auto simp: unfold batch_published_def)
    next
      case (Inr u)
      let ?s3 = "s2\<lparr>unsyncedBytes := unsyncedBytes s2 + inFlight s1\<rparr>"
      have q3: "published xx qs [] s ?s3" using q Inr by (auto intro: published_quiet quiet_fields)
      then have "published xx qs [] s s' \<and> k' = k + int (length qs)"
        using p pend False 2 Inr recs published_quiet [OF q3 quiet_recordOps]
        by (auto simp: unfold split: if_splits prod.splits)
      then show ?thesis by (auto simp: batch_published_def)
    qed
  next
    case True
    obtain r2 s2 where 2: "os_run (datasync n) s1 = (r2, s2)" by force
    have c2: "core s2 = core s1" by (rule core_datasync [OF 2])
    have g2: "staging xx qs [] s s2" by (rule staging_core [OF g1 c2])
    have act2: "active s2 = Some n" using act active_cong [OF core_eq_fields(8) [OF c2]] by simp
    show ?thesis
    proof (cases r2)
      case (Inl x)
      have d: "published xx [] [] s (discardStaged s2)" by (rule published_discard [OF g2])
      obtain r3 s3 where 3: "(failIO x (discardStaged s2) :: unit result \<times> store) = (r3, s3)" by force
      have "published xx [] [] s s3" by (rule published_quiet [OF d quiet_failIO [OF 3]])
      then show ?thesis using p pend True act 2 Inl 3 failIO_result [OF 3] by (auto simp: unfold batch_published_def)
    next
      case (Inr u)
      obtain r3 s3 where 3: "publishSpan xx s2 = (r3, s3)" by force
      note q = pub [OF g2 act2 3]
      show ?thesis
      proof (cases r3)
        case (Inl x)
        then show ?thesis using p pend True act 2 Inr 3 q by (auto simp: unfold batch_published_def)
      next
        case i3: (Inr v)
        then have q3: "published xx qs [] s s3" using q by simp
        obtain r4 s4 where 4: "os_run (datasync n) s3 = (r4, s4)" by force
        have q4: "published xx qs [] s s4" by (rule published_quiet [OF q3 quiet_datasync [OF 4]])
        have q5: "published xx qs [] s (upd_df n (\<lambda>d. d\<lparr>df_dirty := False\<rparr>) s4)"
          by (rule published_quiet [OF q4 quiet_upd_df]) simp
        have q6: "published xx qs [] s x" if "(failIO y s4 :: unit result \<times> store) = (z, x)" for x y z
          by (rule published_quiet [OF q4 quiet_failIO [OF that]])
        show ?thesis using p pend True act 2 Inr 3 i3 4 q5 q6 recs
          by (auto simp: unfold batch_published_def split: sum.splits prod.splits)
      qed
    qed
  qed
qed

section \<open>The batch\<close>

text \<open>
  Inside a batch that began at \<open>s0\<close>: \<open>pub\<close> is in the queue and counted, \<open>qs\<close> is staged.
\<close>

definition in_span :: "hash \<Rightarrow> store \<Rightarrow> bytes list \<Rightarrow> bytes list \<Rightarrow> int \<Rightarrow> store \<Rightarrow> bool" where
  "in_span xx s0 pub qs k s \<longleftrightarrow> queue_ok xx s \<and> appended xx pub s0 s \<and> staged_as xx [] qs s \<and>
     k = int (length pub) \<and> segmentSize s < 2 ^ 63"

definition batch_done :: "hash \<Rightarrow> store \<Rightarrow> bytes list \<Rightarrow> int \<Rightarrow> err option \<Rightarrow> store \<Rightarrow> bool" where
  "batch_done xx s0 ps k e s \<longleftrightarrow> (queue_ok xx s \<or> loose_ok xx s \<and> stranded s \<and> e \<noteq> None) \<and> stagedBytes s = 0 \<and> 0 \<le> k \<and> k \<le> int (length ps) \<and>
     appended xx (take (nat k) ps) s0 s \<and> (e = None \<longrightarrow> k = int (length ps))"

lemma batch_doneI:
  assumes "queue_ok xx s \<or> loose_ok xx s \<and> stranded s \<and> e \<noteq> None" "appended xx pub s0 s" "staged_as xx [] [] s" "k = int (length pub)" "ps = pub @ rest"
    "e = None \<longrightarrow> rest = []"
  shows "batch_done xx s0 ps k e s"
  using assms by (simp add: batch_done_def staged_none stagedBytes_def)

text \<open>Publishing everything that is staged, inside a batch.\<close>

lemma span_publish:
  assumes b: "in_span xx s0 pub qs k s" and p: "publishBatchLocked xx k s = ((k', e), s')"
  obtains ps where "published xx ps [] s s'" "in_span xx s0 (pub @ ps) [] k' s'" "ps = qs \<or> ps = [] \<and> e \<noteq> None"
proof -
  have ok: "queue_ok xx s" and st: "staged_as xx [] qs s" and ap: "appended xx pub s0 s" using b by (simp_all add: in_span_def)
  obtain ps where ps: "published xx ps [] s s'" "k' = k + int (length ps)" "ps = qs \<or> ps = [] \<and> e \<noteq> None"
    using publishBatch_spec [OF ok st p] by (auto simp: batch_published_def)
  have "appended xx (pub @ ps) s0 s'" using appended_trans [OF ap] ps(1) by (simp add: published_def)
  then show ?thesis using that [OF ps(1) _ ps(3)] ps b by (simp add: published_def in_span_def)
qed

lemma batch_publish:
  assumes b: "in_span xx s0 pub qs k s" and p: "publishBatchLocked xx k s = ((k', None), s')"
  shows "in_span xx s0 (pub @ qs) [] k' s'"
proof -
  obtain ps where "in_span xx s0 (pub @ ps) [] k' s'" "ps = qs" by (rule span_publish [OF b p]) simp
  then show ?thesis by simp
qed

lemma span_done:
  "in_span xx s0 pub [] k s \<Longrightarrow> ps = pub @ rest \<Longrightarrow> e = None \<longrightarrow> rest = [] \<Longrightarrow> batch_done xx s0 ps k e s"
  by (auto simp: in_span_def intro!: batch_doneI [where pub = pub])

lemma span_fail:
  assumes "in_span xx s0 (pub @ ps) [] k s" "ps = qs \<or> ps = []"
  shows "batch_done xx s0 (pub @ qs @ rest) k (Some e) s"
  using assms(2)
proof
  assume "ps = qs"
  then show ?thesis using span_done [OF assms(1), of _ rest] by simp
next
  assume "ps = []"
  then show ?thesis using span_done [OF assms(1), of _ "qs @ rest"] by simp
qed

lemma batch_stop_done:
  assumes "in_span xx s0 pub qs k s" "batch_stop xx k e s = ((k', e'), s')"
  shows "batch_done xx s0 (pub @ qs @ rest) k' e' s' \<and> e' \<noteq> None"
proof -
  obtain k1 pe s1 where 1: "publishBatchLocked xx k s = ((k1, pe), s1)" by (metis surj_pair)
  have o: "k' = k1" "e' = err_join (Some e) pe" "s' = s1" using assms(2) 1 by (simp_all add: batch_stop_def)
  obtain ps where ps: "in_span xx s0 (pub @ ps) [] k1 s1" "ps = qs \<or> ps = []" using span_publish [OF assms(1) 1] by metis
  moreover obtain x where "e' = Some x" by (cases pe) (simp_all add: o err_join_def)
  ultimately show ?thesis unfolding o(1,3) using span_fail [OF ps] by simp
qed

text \<open>One round of the loop up to the point where the record can be staged.\<close>

lemma batch_room:
  assumes b: "in_span xx s0 pub qs k s" and L: "L < 2 ^ 63"
    and c: "(if needsCycle L s then
               (case publishBatchLocked xx k s of
                  ((k1, Some e), s2) \<Rightarrow> (Inl (k1, Some e), s2)
                | ((k1, None), s2) \<Rightarrow>
                    (case cycle xx L False s2 of
                       (Inl e, s3) \<Rightarrow> (Inl (k1, Some e), if err_is e ErrFull then s3\<lparr>nFull := nFull s3 + 1\<rparr> else s3)
                     | (Inr _, s3) \<Rightarrow> (Inr k1, s3)))
             else (Inr k, s)) = (r, s')"
  shows "case r of
      Inl (k', e') \<Rightarrow> batch_done xx s0 (pub @ qs @ rest) k' e' s' \<and> e' \<noteq> None
    | Inr k1 \<Rightarrow> \<exists>pub1 qs1 n. pub1 @ qs1 = pub @ qs \<and> in_span xx s0 pub1 qs1 k1 s' \<and> has_room (stagedBytes s' + L) s' n"
proof (cases "needsCycle L s")
  case False
  then have "r = Inr k" "s' = s" using c by simp_all
  moreover obtain n where "has_room (stagedBytes s + L) s n"
    using False by (auto simp: needsCycle_def has_room_def add.assoc split: option.splits)
  ultimately show ?thesis using b by auto
next
  case True
  obtain k1 pe s2 where 1: "publishBatchLocked xx k s = ((k1, pe), s2)" by (metis surj_pair)
  show ?thesis
  proof (cases pe)
    case (Some e)
    then have "r = Inl (k1, Some e)" "s' = s2" using c True 1 by simp_all
    moreover obtain ps where ps: "in_span xx s0 (pub @ ps) [] k1 s2" "ps = qs \<or> ps = []"
      using span_publish [OF b 1] by metis
    ultimately show ?thesis using span_fail [OF ps] by simp
  next
    case None
    have b2: "in_span xx s0 (pub @ qs) [] k1 s2" by (rule batch_publish [OF b 1 [unfolded None]])
    then have ok2: "queue_ok xx s2" and sz: "segmentSize s2 < 2 ^ 63" by (simp_all add: in_span_def)
    obtain r3 s3 where 3: "cycle xx L False s2 = (r3, s3)" by force
    note cy = cycle_spec [OF ok2 sz L 3]
    then have g: "appended xx (pub @ qs) s0 s3" "staged_as xx [] [] s3" "k1 = int (length (pub @ qs))" "segmentSize s3 < 2 ^ 63"
      using b2 by (simp_all add: in_span_def appended_def settings_defs staged_none)
    show ?thesis
    proof (cases r3)
      case (Inl e)
      then have "r = Inl (k1, Some e)" "s' = s3 \<or> s' = s3\<lparr>nFull := nFull s3 + 1\<rparr>" using c True 1 None 3 by (auto split: if_splits)
      moreover have "batch_done xx s0 (pub @ qs @ rest) k1 (Some e) s3"
        by (rule batch_doneI [OF _ g(1-3)]) (use cy loose_queue in auto)
      ultimately show ?thesis by (auto simp: batch_done_def appended_def stagedBytes_def)
    next
      case (Inr u)
      then have o: "r = Inr k1" "s' = s3" using c True 1 None 3 by auto
      obtain n where "has_room L s3 n" using cy Inr by (auto simp: cycled_def new_seg_def has_room_def)
      moreover have "stagedBytes s3 = 0" using g(2) by (simp add: staged_none stagedBytes_def)
      ultimately have "pub @ qs = (pub @ qs) @ [] \<and> in_span xx s0 (pub @ qs) [] k1 s' \<and> has_room (stagedBytes s' + L) s' n"
        using o g cy Inr by (simp add: in_span_def)
      then show ?thesis unfolding o(1) sum.case by metis
    qed
  qed
qed

lemma in_span_full: "in_span xx s0 pub qs k (s\<lparr>nFull := m\<rparr>) = in_span xx s0 pub qs k s"
proof -
  have "active (s\<lparr>nFull := m\<rparr>) = active s" by (rule active_cong) simp
  then show ?thesis by (simp add: in_span_def appended_def staged_as_def written_at_def)
qed

text \<open>The outcome of one item \<open>p\<close> after \<open>ps\<close>: the batch is over, or goes on with the item in it.\<close>

definition item_outcome :: "hash \<Rightarrow> store \<Rightarrow> bytes list \<Rightarrow> bytes \<Rightarrow> bytes list \<Rightarrow> (int \<times> err option) + int \<Rightarrow> store \<Rightarrow> bool" where
  "item_outcome xx s0 ps p rest r s' \<longleftrightarrow>
     (case r of
        Inl (k', e') \<Rightarrow> batch_done xx s0 (ps @ p # rest) k' e' s' \<and> e' \<noteq> None
      | Inr k1 \<Rightarrow> \<exists>pub1 qs1. pub1 @ qs1 = ps @ [p] \<and> in_span xx s0 pub1 qs1 k1 s')"

lemma item_stop:
  assumes "in_span xx s0 pub qs k s" "batch_stop xx k e s = (x, s')"
  shows "item_outcome xx s0 (pub @ qs) p rest (Inl x) s'"
proof -
  obtain k' e' where x: "x = (k', e')" by force
  show ?thesis
    using batch_stop_done [OF assms(1) assms(2) [unfolded x], of "p # rest"] by (simp add: item_outcome_def x)
qed

lemma item_go: "in_span xx s0 pub qs k s \<Longrightarrow> pub @ qs = ps @ [p] \<Longrightarrow> item_outcome xx s0 ps p rest (Inr k) s"
  by (auto simp: item_outcome_def)

lemma item_stage:
  assumes sp: "in_span xx s0 pub qs k s" and room: "has_room (stagedBytes s + framedLen (length p)) s n"
    and i: "(case stagePending xx p s of
               (Inl e, s3) \<Rightarrow> (case batch_stop xx k e s3 of (r, s4) \<Rightarrow> (Inl r, s4))
             | (Inr _, s3) \<Rightarrow>
                 if batched s3 \<and> unsynced s3 + pendingRecs s3 \<ge> syncEvery s3 then
                   (case publishBatchLocked xx k s3 of
                      ((k2, Some e), s4) \<Rightarrow> (Inl (k2, Some e), s4)
                    | ((k2, None), s4) \<Rightarrow> (Inr k2, s4))
                 else (Inr k, s3)) = (r, s')"
  shows "item_outcome xx s0 (pub @ qs) p rest r s'"
proof -
  obtain r3 s3 where 3: "stagePending xx p s = (r3, s3)" by force
  have "staging xx [] (if r3 = Inr () then qs @ [p] else qs) s s3"
    using stagePending_spec [OF _ _ room 3] sp by (simp add: in_span_def)
  then have sp3: "in_span xx s0 pub (if r3 = Inr () then qs @ [p] else qs) k s3"
    using sp by (simp add: in_span_def staging_def appended_def)
  show ?thesis
  proof (cases r3)
    case (Inl e)
    then obtain x where "batch_stop xx k e s3 = (x, s')" "r = Inl x" using i 3 by (auto split: prod.splits)
    then show ?thesis using item_stop sp3 Inl by auto
  next
    case (Inr v)
    then have b3: "in_span xx s0 pub (qs @ [p]) k s3" using sp3 by simp
    obtain k2 e s4 where 4: "publishBatchLocked xx k s3 = ((k2, e), s4)" by (metis surj_pair)
    obtain ps where ps: "in_span xx s0 (pub @ ps) [] k2 s4" "ps = qs @ [p] \<or> ps = []"
      using span_publish [OF b3 4] by metis
    have "(r, s') = (Inr k, s3) \<or> (r, s') = (Inr k2, s4) \<and> e = None \<or> (\<exists>x. (r, s') = (Inl (k2, Some x), s4))"
      using i 3 Inr 4 by (auto split: if_splits option.splits)
    moreover have "item_outcome xx s0 (pub @ qs) p rest (Inr k) s3" by (rule item_go [OF b3]) simp
    moreover have "item_outcome xx s0 (pub @ qs) p rest (Inr k2) s4" if "e = None"
      by (rule item_go [OF batch_publish [OF b3 4 [unfolded that]]]) simp
    moreover have "item_outcome xx s0 (pub @ qs) p rest (Inl (k2, Some x)) s4" for x
      using span_fail [OF ps, of rest x] by (simp add: item_outcome_def)
    ultimately show ?thesis by blast
  qed
qed

lemma batch_item_spec:
  assumes b: "in_span xx s0 pub qs k s" and i: "batch_item xx p k s = (r, s')"
  shows "item_outcome xx s0 (pub @ qs) p rest r s'"
proof (cases "ioErr s")
  case (Some e)
  then have "r = Inl (k, Some e)" "s' = discardStaged s" using i by (simp_all add: batch_item_def Let_def)
  then show ?thesis using b
    by (auto simp: item_outcome_def in_span_def batch_done_def discardStaged_def stagedBytes_def)
next
  case None
  let ?L = "framedLen (length p)"
  obtain r1 s1 where 1: "admitRecord ?L False s = (r1, s1)" by force
  show ?thesis
  proof (cases r1)
    case (Inl e)
    have "s1 = s \<or> s1 = s\<lparr>nFull := nFull s + 1\<rparr>" using 1 by (auto simp: admitRecord_def split: if_splits)
    then have "in_span xx s0 pub qs k s1" using b by (auto simp: in_span_full)
    moreover obtain x where "batch_stop xx k e s1 = (x, s')" "r = Inl x"
      using i None 1 Inl by (auto simp: batch_item_def Let_def split: prod.splits)
    ultimately show ?thesis using item_stop by blast
  next
    case (Inr u)
    then have s1: "s1 = s" and L: "?L < 2 ^ 63" using admit_small [of ?L False s u s1] 1 maxFramedLen_small by auto
    obtain r2 s2 where 2: "(if needsCycle ?L s then
               (case publishBatchLocked xx k s of
                  ((k1, Some e), s2) \<Rightarrow> (Inl (k1, Some e), s2)
                | ((k1, None), s2) \<Rightarrow>
                    (case cycle xx ?L False s2 of
                       (Inl e, s3) \<Rightarrow> (Inl (k1, Some e), if err_is e ErrFull then s3\<lparr>nFull := nFull s3 + 1\<rparr> else s3)
                     | (Inr _, s3) \<Rightarrow> (Inr k1, s3)))
             else (Inr k, s)) = (r2, s2)" by force
    note room = batch_room [OF b L 2, of "p # rest"] and i2 = i [unfolded batch_item_def Let_def]
    show ?thesis
    proof (cases r2)
      case (Inl x)
      then have "r = Inl x" "s' = s2" using i2 None 1 Inr s1 2 by simp_all
      then show ?thesis using room Inl by (auto simp: item_outcome_def)
    next
      case k1: (Inr k1)
      then obtain pub1 qs1 n where "pub1 @ qs1 = pub @ qs" "in_span xx s0 pub1 qs1 k1 s2" "has_room (stagedBytes s2 + ?L) s2 n"
        using room by auto
      then show ?thesis using item_stage [of xx s0 pub1 qs1 k1 s2 p n r s' rest] i2 None 1 Inr s1 2 k1 by simp
    qed
  qed
qed

text \<open>The payloads of the items before the first that cannot be serialized.\<close>

fun serialized :: "bytes result list \<Rightarrow> bytes list" where
  "serialized [] = []"
| "serialized (Inl e # bs) = []"
| "serialized (Inr b # bs) = b # serialized bs"

lemma batch_loop_spec:
  assumes "in_span xx s0 pub qs k s" "batch_loop xx bs k s = ((k', e), s')"
  shows "batch_done xx s0 (pub @ qs @ serialized bs) k' e s' \<and> (e = None \<longrightarrow> length (serialized bs) = length bs)"
  using assms
proof (induction xx bs k s arbitrary: pub qs rule: batch_loop.induct)
  case (1 xx k s)
  then have p: "publishBatchLocked xx k s = ((k', e), s')" and sp: "in_span xx s0 pub qs k s" by simp_all
  obtain ps where "in_span xx s0 (pub @ ps) [] k' s'" "ps = qs \<or> ps = [] \<and> e \<noteq> None" using span_publish [OF sp p] by metis
  then show ?case using span_fail [of xx s0 pub ps k' s' qs "[]"] span_done [of xx s0 "pub @ ps" k' s' _ "[]" e] by (cases e) auto
next
  case (2 xx x bs k s)
  then show ?case using batch_stop_done [of xx s0 pub qs k s x k' e s' "[]"] by simp
next
  case (3 xx b bs k s)
  obtain r s1 where i: "batch_item xx b k s = (r, s1)" by force
  note spec = batch_item_spec [OF "3.prems"(1) i, of "serialized bs"]
  show ?case
  proof (cases r)
    case (Inl x)
    then show ?thesis using spec "3.prems"(2) i by (cases x) (auto simp: item_outcome_def)
  next
    case (Inr k1)
    then obtain pub1 qs1 where n: "pub1 @ qs1 = pub @ qs @ [b]" "in_span xx s0 pub1 qs1 k1 s1"
      using spec by (auto simp: item_outcome_def)
    have "batch_loop xx bs k1 s1 = ((k', e), s')" using "3.prems"(2) i Inr by simp
    then have "batch_done xx s0 (pub1 @ qs1 @ serialized bs) k' e s' \<and> (e = None \<longrightarrow> length (serialized bs) = length bs)"
      using "3.IH" i Inr n(2) by metis
    moreover have "pub1 @ qs1 @ serialized bs = pub @ qs @ serialized (Inr b # bs)"
      using arg_cong [OF n(1), of "\<lambda>l. l @ serialized bs"] by simp
    ultimately show ?thesis by simp
  qed
qed

lemma signal_store [simp]: "st (signal q) = st q"
  by (simp add: signal_def close_chan_def split: option.split)

text \<open>
  C14: a batch publishes exactly the items it counts: whatever fails on the way, the count
  \<open>AddBatch\<close> returns is the number of items, from the first, whose payloads are now at the end of
  the queue in order, nothing stays staged, and without an error all of them are there.  It starts
  from a well formed queue with nothing staged.  The invariant holds afterwards, except that a
  batch that failed with nothing published may leave the queue stranded: everything was committed,
  and the cycle of its first item reclaimed the segment that ended at the write cursor, left an
  older one, and failed to start a new one.
\<close>

theorem AddBatch_prefix:
  assumes "queue_ok xx (st q)" "staged_as xx [] [] (st q)" "segmentSize (st q) < 2 ^ 63"
    and "ps = serialized (map (\<lambda>(now, v). marshalValue marshal now v q) items)"
    and "AddBatch xx marshal items q = ((k, e), q')"
  shows "(queue_ok xx (st q') \<or> stranded (st q') \<and> commitOff (st q') = writeOff (st q') \<and> e \<noteq> None \<and> k = 0) \<and>
    stagedBytes (st q') = 0 \<and> 0 \<le> k \<and> k \<le> int (length ps) \<and>
    unread xx (st q') = unread xx (st q) @ take (nat k) ps \<and> backlog xx (st q') = backlog xx (st q) @ take (nat k) ps \<and>
    (e = None \<longrightarrow> k = int (length items))"
proof (cases "closed q \<or> ioErr (st q) \<noteq> None")
  case True
  then have "k = 0" "e \<noteq> None" "st q' = st q" using assms(5)
    by (cases "ioErr (st q)"; auto simp: AddBatch_def split: if_splits)+
  then show ?thesis using assms(1,2) by (auto simp: staged_none stagedBytes_def)
next
  case False
  obtain s1 where "batch_loop xx (map (\<lambda>(now, v). marshalValue marshal now v q) items) 0 (st q) = ((k, e), s1)" "st q' = s1"
    using assms(5) False by (auto simp: AddBatch_def on_store_def split: prod.splits if_splits)
  moreover have "in_span xx (st q) [] [] 0 (st q)" using assms(1-3) by (simp add: in_span_def)
  ultimately have "batch_done xx (st q) ps k e (st q') \<and> (e = None \<longrightarrow> length ps = length items)"
    using batch_loop_spec [of xx "st q" "[]" "[]" 0 "st q" _ k e "st q'"] assms(4) by simp
  note d = this
  have "commitOff (st q') = writeOff (st q') \<and> k = 0" if "loose_ok xx (st q')" "stranded (st q')"
    using stranded_empty [OF that] d by (auto simp: batch_done_def appended_def)
  then show ?thesis using d by (auto simp: batch_done_def appended_def)
qed

theorem AddBatch_prefix_witness:
  "queue_ok (\<lambda>_. 5) sample \<and>
   (case AddBatch (\<lambda>_. 5) (\<lambda>dst v. (Some (dst @ v), None)) [(0, [7]), (0, [8, 9])] (new_queue False False sample) of
      ((k, e), q') \<Rightarrow> (e = None \<longrightarrow> queue_ok (\<lambda>_. 5) (st q') \<and> k = 2) \<and> 0 \<le> k \<and> k \<le> 2 \<and>
        unread (\<lambda>_. 5) (st q') = [3] # take (nat k) [[7], [8, 9]])"
proof -
  let ?m = "\<lambda>dst v :: bytes. (Some (dst @ v), None :: err option)" and ?q = "new_queue False False sample"
  let ?items = "[(0 :: int, [7 :: byte]), (0, [8, 9])]"
  obtain k e q' where a: "AddBatch (\<lambda>_. 5) ?m ?items ?q = ((k, e), q')" by (metis surj_pair)
  have st: "st ?q = sample" by (simp add: new_queue_def)
  have ps: "serialized (map (\<lambda>(now, v). marshalValue ?m now v ?q) ?items) = [[7], [8, 9]]"
    by (simp add: marshalValue_def stampInto_def new_queue_def)
  have "staged_as (\<lambda>_. 5) [] [] sample" by (simp add: staged_none sample_def new_store_def)
  then show ?thesis
    using AddBatch_prefix [OF _ _ _ refl a] sample_ok sample_append(2,7) a unfolding st ps by auto
qed

end
