(* ===== verification/Group_Commit.thy ===== *)
theory Group_Commit
  imports Stage_Refine
begin

text \<open>
  Group commit with any number of producers: the calls of \<open>Add\<close> under per-operation durability,
  each in the piece of code it is in between two releases of the mutex, and the steps they take.
  A thread is one call.  One reader step stands for the consumers, which share the store but
  none of the staging state.  The ghost fields say which call owns which staged or published
  record; no step reads them.
\<close>

section \<open>Adding up to the point of staging\<close>

text \<open>What the loop keeps: the queue and what is staged.\<close>

definition adding :: "hash \<Rightarrow> bytes list \<Rightarrow> bytes list \<Rightarrow> store \<Rightarrow> bool" where
  "adding xx fl qs s \<longleftrightarrow> queue_ok xx s \<and> staged_as xx fl qs s \<and> segmentSize s < 2 ^ 63"

definition keeps :: "hash \<Rightarrow> store \<Rightarrow> store \<Rightarrow> bool" where
  "keeps xx s s' \<longleftrightarrow> unread xx s' = unread xx s \<and> backlog xx s' = backlog xx s"

lemma keeps_refl [simp]: "keeps xx s s"
  by (simp add: keeps_def)

lemma keeps_trans: "keeps xx a b \<Longrightarrow> keeps xx b c \<Longrightarrow> keeps xx a c"
  by (simp add: keeps_def)

lemma adding_full [simp]: "adding xx fl qs (s\<lparr>nFull := k\<rparr>) = adding xx fl qs s" "keeps xx t (s\<lparr>nFull := k\<rparr>) = keeps xx t s"
proof -
  have "active (s\<lparr>nFull := k\<rparr>) = active s" by (rule active_cong) simp
  then show "adding xx fl qs (s\<lparr>nFull := k\<rparr>) = adding xx fl qs s" "keeps xx t (s\<lparr>nFull := k\<rparr>) = keeps xx t s"
    by (simp_all add: adding_def staged_as_def written_at_def keeps_def)
qed

lemma adding_cycle:
  assumes a: "adding xx [] [] s" and L: "L < 2 ^ 63" and c: "cycle xx L force s = (r, s')"
  shows "keeps xx s s' \<and> (adding xx [] [] s' \<or> stranded s' \<and> (\<exists>e. r = Inl e)) \<and> (\<forall>u. r = Inr u \<longrightarrow> adding xx [] [] s' \<and> \<not> needsCycle L s')"
proof -
  have ok: "queue_ok xx s" "segmentSize s < 2 ^ 63" and st: "staged_as xx [] [] s"
    using a by (simp_all add: adding_def)
  note cy = cycle_spec [OF ok L c]
  have st': "staged_as xx [] [] s'" using cy st by (simp add: staged_none settings_defs)
  have "\<not> needsCycle L s'" if "cycled L s'"
    using that st' by (auto simp: cycled_def needsCycle_def new_seg_def staged_none stagedBytes_def)
  moreover have "queue_ok xx s' \<or> stranded s' \<and> (\<exists>e. r = Inl e)" using cy loose_queue by (cases r) auto
  ultimately show ?thesis using cy st' ok by (auto simp: adding_def keeps_def settings_defs)
qed

text \<open>The outcomes of the loop.  A cycle that fails may leave the queue stranded.\<close>

definition loop_outcome :: "hash \<Rightarrow> bytes list \<Rightarrow> bytes list \<Rightarrow> int \<Rightarrow> queue \<Rightarrow> (addOut + unit) option \<Rightarrow> queue \<Rightarrow> bool" where
  "loop_outcome xx fl qs L q r q' \<longleftrightarrow>
     (adding xx fl qs (st q') \<or> stranded (st q') \<and> (\<exists>e. r = Some (Inl (AddDone e)))) \<and> keeps xx (st q) (st q') \<and>
     (case r of
        None \<Rightarrow> False
      | Some (Inl (AddDone e)) \<Rightarrow> e \<noteq> None \<and> q' = q\<lparr>st := st q'\<rparr>
      | Some (Inl (AddYield ch)) \<Rightarrow>
          quiesceWant q > 0 \<and> q' = (snd (waitQuiesceReleaseLocked q))\<lparr>st := st q'\<rparr> \<and> ch = fst (waitQuiesceReleaseLocked q)
      | Some (Inl AddQuiesce) \<Rightarrow> q' = q \<and> (flushing q \<or> stagedBytes (st q) > 0)
      | Some (Inl _) \<Rightarrow> False
      | Some (Inr _) \<Rightarrow> q' = q\<lparr>st := st q'\<rparr> \<and> (\<exists>n. has_room (stagedBytes (st q') + L) (st q') n))"

lemma wait_release_store:
  "waitQuiesceReleaseLocked (q\<lparr>st := s\<rparr>) =
     (fst (waitQuiesceReleaseLocked q), (snd (waitQuiesceReleaseLocked q))\<lparr>st := s\<rparr>)"
  "st (snd (waitQuiesceReleaseLocked q)) = st q"
  by (simp_all add: waitQuiesceReleaseLocked_def split: option.split)

lemma wait_release_st: "waitQuiesceReleaseLocked q = (ch, q') \<Longrightarrow> st q' = st q"
  using wait_release_store(2) [of q] by simp

lemma staged_zero: "staged_as xx fl qs s \<Longrightarrow> stagedBytes s > 0 \<longleftrightarrow> fl @ qs \<noteq> []"
  by (simp add: staged_bytes del: frames_simps)

text \<open>A round that does not start a segment ends the loop.\<close>

definition round_cycles :: "int \<Rightarrow> bool \<Rightarrow> queue \<Rightarrow> bool" where
  "round_cycles L force q \<longleftrightarrow> \<not> closed q \<and> ioErr (st q) = None \<and> \<not> quiesceWant q > 0 \<and>
     admitRecord L force (st q) = (Inr (), st q) \<and> needsCycle L (st q) \<and> \<not> flushing q \<and> \<not> stagedBytes (st q) > 0"

lemma add_loop_last:
  assumes a: "adding xx fl qs (st q)"
    and c: "\<not> round_cycles L force q" and l: "add_loop (Suc k) xx L force q = (r, q')"
  shows "loop_outcome xx fl qs L q r q'"
proof -
  obtain r1 s1 where 1: "admitRecord L force (st q) = (r1, s1)" by force
  have s1: "s1 = st q \<or> s1 = (st q)\<lparr>nFull := nFull (st q) + 1\<rparr>" using 1 by (auto simp: admitRecord_def split: if_splits)
  have room: "\<exists>n. has_room (stagedBytes (st q) + L) (st q) n" if "\<not> needsCycle L (st q)"
    using that by (auto simp: needsCycle_def has_room_def add.assoc split: option.splits)
  show ?thesis
  proof (cases "closed q \<or> ioErr (st q) \<noteq> None \<or> quiesceWant q > 0")
    case True
    then show ?thesis using l a
      by (auto simp: loop_outcome_def wait_release_st split: if_splits option.splits prod.splits)
  next
    case go: False
    show ?thesis
    proof (cases r1)
      case (Inl e)
      then show ?thesis using l a s1 1 go by (auto simp: loop_outcome_def on_store_def split: if_splits option.splits)
    next
      case (Inr u)
      then have "s1 = st q" using 1 by (auto simp: admitRecord_def split: if_splits)
      then show ?thesis using l a c room 1 Inr go
        by (auto simp: round_cycles_def loop_outcome_def on_store_def split: if_splits option.splits)
    qed
  qed
qed

lemma loop_outcome_store:
  assumes "loop_outcome xx fl qs L (q\<lparr>st := s\<rparr>) r q'" "keeps xx (st q) s" "\<not> flushing q" "stagedBytes s \<le> 0"
  shows "loop_outcome xx fl qs L q r q'"
  using assms by (auto simp: loop_outcome_def wait_release_store split: option.splits sum.splits addOut.splits intro: keeps_trans)

lemma add_loop_outcome:
  assumes a: "adding xx fl qs (st q)" and l: "add_loop 2 xx L force q = (r, q')"
  shows "loop_outcome xx fl qs L q r q'"
proof (cases "round_cycles L force q")
  case False
  then show ?thesis using add_loop_last [OF a False] l by (simp add: numeral_2_eq_2)
next
  case True
  then have none: "fl = []" "qs = []" using a staged_zero [of xx fl qs "st q"] by (auto simp: adding_def round_cycles_def)
  have L: "L < 2 ^ 63" using True admit_small [of L force "st q" "()" "st q"] maxFramedLen_small by (auto simp: round_cycles_def)
  obtain r2 s2 where 2: "cycle xx L force (st q) = (r2, s2)" by force
  note cy = adding_cycle [OF a [unfolded none] L 2]
  show ?thesis
  proof (cases r2)
    case (Inl e)
    then show ?thesis using l True 2 cy none
      by (auto simp: numeral_2_eq_2 round_cycles_def loop_outcome_def on_store_def split: if_splits)
  next
    case (Inr u)
    have "add_loop (Suc 0) xx L force (q\<lparr>st := s2\<rparr>) = (r, q')"
      using l True 2 Inr by (simp add: numeral_2_eq_2 round_cycles_def on_store_def)
    moreover have "\<not> round_cycles L force (q\<lparr>st := s2\<rparr>)" using cy Inr by (simp add: round_cycles_def)
    ultimately have "loop_outcome xx [] [] L (q\<lparr>st := s2\<rparr>) r q'" using add_loop_last cy Inr by simp
    moreover have "stagedBytes s2 = 0" using cy Inr by (simp add: adding_def staged_none stagedBytes_def)
    ultimately show ?thesis using loop_outcome_store cy True none by (simp add: round_cycles_def)
  qed
qed

text \<open>The outcomes of the whole critical section, staging included.\<close>

definition add_outcome :: "hash \<Rightarrow> bytes list \<Rightarrow> bytes list \<Rightarrow> bytes \<Rightarrow> queue \<Rightarrow> addOut option \<Rightarrow> queue \<Rightarrow> bool" where
  "add_outcome xx fl qs p q r q' \<longleftrightarrow> keeps xx (st q) (st q') \<and>
     (case r of
        None \<Rightarrow> False
      | Some (AddDone e) \<Rightarrow> (adding xx fl qs (st q') \<or> stranded (st q')) \<and> e \<noteq> None \<and> q' = q\<lparr>st := st q'\<rparr>
      | Some (AddYield ch) \<Rightarrow> adding xx fl qs (st q') \<and> quiesceWant q > 0 \<and>
          q' = (snd (waitQuiesceReleaseLocked q))\<lparr>st := st q'\<rparr> \<and> ch = fst (waitQuiesceReleaseLocked q)
      | Some AddQuiesce \<Rightarrow> adding xx fl qs (st q') \<and> q' = q \<and> (flushing q \<or> stagedBytes (st q) > 0)
      | Some (AddFollow g) \<Rightarrow> adding xx fl (qs @ [p]) (st q') \<and> flushing q \<and>
          q' = (snd (join_group q))\<lparr>st := st q'\<rparr> \<and> g = fst (join_group q)
      | Some AddLead \<Rightarrow> adding xx fl (qs @ [p]) (st q') \<and> \<not> flushing q \<and> q' = q\<lparr>st := st q'\<rparr>
      | Some (AddSpace ch) \<Rightarrow> False)"

lemma join_group_store:
  "join_group (q\<lparr>st := s\<rparr>) = (fst (join_group q), (snd (join_group q))\<lparr>st := s\<rparr>)" "st (snd (join_group q)) = st q"
  by (simp_all add: join_group_def split: option.split)

lemma adding_stage:
  assumes a: "adding xx fl qs s" and room: "has_room (stagedBytes s + framedLen (length p)) s n"
    and s: "stagePending xx p s = (r, s')"
  shows "keeps xx s s' \<and> adding xx fl (if r = Inr () then qs @ [p] else qs) s'"
  using stagePending_spec [of xx s fl qs, OF _ _ room s] a by (simp add: adding_def staging_def keeps_def appended_def)

lemma addDurable_outcome:
  assumes a: "adding xx fl qs (st q)" and d: "addDurableLocked xx p force q = (r, q')"
  shows "add_outcome xx fl qs p q r q'"
proof -
  obtain r1 q1 where 1: "add_loop 2 xx (framedLen (length p)) force q = (r1, q1)" by force
  note l = add_loop_outcome [OF a 1]
  show ?thesis
  proof (cases "\<exists>u. r1 = Some (Inr u)")
    case False
    then show ?thesis using l d 1
      by (auto simp: addDurableLocked_def loop_outcome_def add_outcome_def split: option.splits sum.splits addOut.splits)
  next
    case True
    then obtain n where q1: "q1 = q\<lparr>st := st q1\<rparr>" "adding xx fl qs (st q1)" "keeps xx (st q) (st q1)"
      "has_room (stagedBytes (st q1) + framedLen (length p)) (st q1) n"
      using l by (auto simp: loop_outcome_def)
    obtain r2 s2 where 2: "stagePending xx p (st q1) = (r2, s2)" by force
    note g = adding_stage [OF q1(2,4) 2]
    have k: "keeps xx (st q) s2" using keeps_trans [OF q1(3)] g by simp
    have upd: "q1\<lparr>st := s2\<rparr> = q\<lparr>st := s2\<rparr>" by (subst q1(1)) simp
    have out: "(r, q') = (case r2 of Inl e \<Rightarrow> (Some (AddDone (Some e)), q\<lparr>st := s2\<rparr>)
      | Inr _ \<Rightarrow> if flushing q then (Some (AddFollow (fst (join_group q))), (snd (join_group q))\<lparr>st := s2\<rparr>)
                 else (Some AddLead, q\<lparr>st := s2\<rparr>))"
      using d 1 True 2 by (auto simp: addDurableLocked_def on_store_def upd join_group_store split: sum.splits)
    show ?thesis using out g k
      by (cases r2) (auto simp: add_outcome_def split: if_splits)
  qed
qed

section \<open>The calls and their steps\<close>

text \<open>
  Where a call is.  A leader carries the group of the span it took, the file it flushes and the
  verdict of its own span once it has it; \<open>DataSync\<close> and \<open>HeaderSync\<close> are in a flush with the mutex
  released, \<open>DataDone\<close> and \<open>HeaderDone\<close> have come back from it.
\<close>

datatype phase =
    Idle
  | Parked bytes nat
  | Settling bytes nat
  | Follow bytes nat
  | DataSync bytes "nat option" nat "err option option"
  | DataDone bytes "nat option" nat "err option" "err option option"
  | HeaderSync bytes "nat option" nat "err option option"
  | HeaderDone bytes "nat option" nat "err option" "err option option"
  | Returned bytes "err option"

record sys =
  sq :: queue
  ph :: "nat \<Rightarrow> phase"
  inflight :: "(nat \<times> bytes) list"
  pend :: "(nat \<times> bytes) list"
  log :: "(nat \<times> bytes) list"

definition move :: "nat \<Rightarrow> phase \<Rightarrow> queue \<Rightarrow> sys \<Rightarrow> sys" where
  "move t p q S = S\<lparr>sq := q, ph := (ph S)(t := p)\<rparr>"

text \<open>The head of the leader's loop, up to the release of the mutex.\<close>

definition lead_span :: "nat \<Rightarrow> bytes \<Rightarrow> err option option \<Rightarrow> queue \<Rightarrow> sys \<Rightarrow> sys" where
  "lead_span t p mine q S =
     (case lead_take q of
        ((g, af), q1) \<Rightarrow> (move t (DataSync p g af mine) q1 S)\<lparr>inflight := pend S, pend := []\<rparr>)"

text \<open>What a call does with the outcome of its critical section.\<close>

definition dispatch :: "nat \<Rightarrow> bytes \<Rightarrow> addOut \<Rightarrow> queue \<Rightarrow> sys \<Rightarrow> sys" where
  "dispatch t p out q S =
     (case out of
        AddDone e \<Rightarrow> move t (Returned p e) q S
      | AddYield ch \<Rightarrow> move t (Parked p ch) q S
      | AddQuiesce \<Rightarrow> (case quiesce_test (quiesce_enter q) of (ch, q1) \<Rightarrow> move t (Settling p (the ch)) q1 S)
      | AddFollow g \<Rightarrow> (move t (Follow p g) q S)\<lparr>pend := pend S @ [(t, p)]\<rparr>
      | AddLead \<Rightarrow> lead_span t p None (lead_begin q) (S\<lparr>pend := pend S @ [(t, p)]\<rparr>)
      | AddSpace ch \<Rightarrow> move t (Parked p ch) q S)"

text \<open>The leader delivers a verdict, and goes on with the next span or returns its own.\<close>

definition deliver :: "nat \<Rightarrow> bytes \<Rightarrow> nat option \<Rightarrow> err option \<Rightarrow> err option option \<Rightarrow> queue \<Rightarrow> sys \<Rightarrow> sys" where
  "deliver t p g e mine q S =
     (let own = (case mine of None \<Rightarrow> e | Some m \<Rightarrow> m)
      in case lead_verdict g e q of
           (True, q1) \<Rightarrow> lead_span t p (Some own) q1 S
         | (False, q1) \<Rightarrow> (move t (Returned p own) q1 S)\<lparr>inflight := [], pend := []\<rparr>)"

inductive tstep :: "hash \<Rightarrow> nat \<Rightarrow> sys \<Rightarrow> sys \<Rightarrow> bool" for xx where
  start: "ph S t = Idle \<Longrightarrow> addDurableLocked xx p False (sq S) = (Some out, q1) \<Longrightarrow> tstep xx t S (dispatch t p out q1 S)"
| unpark: "ph S t = Parked p ch \<Longrightarrow> closedCh (sq S) ch \<Longrightarrow> addDurableLocked xx p False (sq S) = (Some out, q1) \<Longrightarrow>
    tstep xx t S (dispatch t p out q1 S)"
| resettle: "ph S t = Settling p ch \<Longrightarrow> closedCh (sq S) ch \<Longrightarrow> quiesce_test (sq S) = (Some ch1, q1) \<Longrightarrow>
    tstep xx t S (move t (Settling p ch1) q1 S)"
| settled: "ph S t = Settling p ch \<Longrightarrow> closedCh (sq S) ch \<Longrightarrow> quiesce_test (sq S) = (None, q1) \<Longrightarrow>
    addDurableLocked xx p False (quiesce_exit q1) = (Some out, q2) \<Longrightarrow> tstep xx t S (dispatch t p out q2 S)"
| follow: "ph S t = Follow p g \<Longrightarrow> closedCh (sq S) g \<Longrightarrow> tstep xx t S (move t (Returned p (groupErr (sq S) g)) (sq S) S)"
| data: "ph S t = DataSync p g af mine \<Longrightarrow> on_store (os_run (datasync af)) (sq S) = (r, q1) \<Longrightarrow>
    tstep xx t S (move t (DataDone p g af (err_of r) mine) q1 S)"
| publish: "ph S t = DataDone p g af derr mine \<Longrightarrow> lead_publish xx derr (sq S) = (Inr u, q1) \<Longrightarrow>
    tstep xx t S ((move t (HeaderSync p g af mine) q1 S)\<lparr>inflight := [], log := log S @ inflight S\<rparr>)"
| refuse: "ph S t = DataDone p g af derr mine \<Longrightarrow> lead_publish xx derr (sq S) = (Inl e, q1) \<Longrightarrow>
    tstep xx t S (deliver t p g (Some e) mine q1 S)"
| header: "ph S t = HeaderSync p g af mine \<Longrightarrow> on_store (os_run (datasync af)) (sq S) = (r, q1) \<Longrightarrow>
    tstep xx t S (move t (HeaderDone p g af (err_of r) mine) q1 S)"
| judge: "ph S t = HeaderDone p g af herr mine \<Longrightarrow> lead_header herr (sq S) = (e, q1) \<Longrightarrow>
    tstep xx t S (deliver t p g e mine q1 S)"

inductive reach :: "hash \<Rightarrow> sys \<Rightarrow> sys \<Rightarrow> bool" for xx S0 where
  init: "reach xx S0 S0"
| thread: "reach xx S0 S \<Longrightarrow> tstep xx t S S1 \<Longrightarrow> \<not> stranded (st (sq S1)) \<Longrightarrow> reach xx S0 S1"
| take_head: "reach xx S0 S \<Longrightarrow> pendingCorrupt (st (sq S)) = 0 \<Longrightarrow> on_store (takeHead xx) (sq S) = (r, q1) \<Longrightarrow> reach xx S0 (S\<lparr>sq := q1\<rparr>)"

inductive_cases tstepE: "tstep xx t S S'"

text \<open>
  C34: the loop in front of staging ends: from a well formed queue, whatever is staged and whatever
  fails, one critical section of a durable \<open>Add\<close> comes to a result or to a point where it waits,
  within the two rounds it is given, because a segment that was started for the record has room
  for it.
\<close>

theorem addDurableLocked_returns:
  assumes "queue_ok xx (st q)" "staged_as xx fl qs (st q)" "segmentSize (st q) < 2 ^ 63"
  shows "\<exists>out q'. addDurableLocked xx p force q = (Some out, q')"
proof -
  obtain r q' where d: "addDurableLocked xx p force q = (r, q')" by force
  have "adding xx fl qs (st q)" using assms by (simp add: adding_def)
  from addDurable_outcome [OF this d] show ?thesis using d by (cases r) (auto simp: add_outcome_def)
qed

lemma sample_staged: "staged_as (\<lambda>_. 5) [] [] sample"
  by (simp add: staged_none sample_def new_store_def)

theorem addDurableLocked_returns_witness:
  "\<exists>out q'. addDurableLocked (\<lambda>_. 5) [9, 9] False (new_queue False False sample) = (Some out, q')"
  by (rule addDurableLocked_returns [where fl = "[]" and qs = "[]"])
    (use sample_ok sample_staged sample_append(2) in \<open>simp_all add: new_queue_def sample_fields\<close>)

end
