(* ===== verification/Group_Inv.thy ===== *)
theory Group_Inv
  imports Group_Commit
begin

text \<open>
  The invariant of group commit and what it gives: an add that returned without an error is in
  the queue, a flush has one leader, and no waiting call is forgotten.
\<close>

section \<open>The invariant\<close>

fun lead_group :: "phase \<Rightarrow> nat option option" where
  "lead_group (DataSync p g af m) = Some g"
| "lead_group (DataDone p g af e m) = Some g"
| "lead_group (HeaderSync p g af m) = Some g"
| "lead_group (HeaderDone p g af e m) = Some g"
| "lead_group _ = None"

text \<open>The groups whose verdict a leader owes, and the calls that own a record.\<close>

definition led :: "sys \<Rightarrow> nat set" where
  "led S = {g. \<exists>t. lead_group (ph S t) = Some (Some g)}"

definition owners :: "sys \<Rightarrow> nat set" where
  "owners S = fst ` set (log S @ inflight S @ pend S)"

definition olist :: "'a option \<Rightarrow> 'a list" where
  "olist x = (case x of None \<Rightarrow> [] | Some a \<Rightarrow> [a])"

lemma olist_simps [simp]: "olist None = []" "olist (Some a) = [a]" "a \<in> set (olist x) \<longleftrightarrow> x = Some a"
  by (auto simp: olist_def split: option.splits)

text \<open>The channels somebody may be blocked on; each is open and in one place.\<close>

definition slots :: "queue \<Rightarrow> nat list" where
  "slots q = olist (notify q) @ olist (spaceNotify q) @ olist (flushDrained q) @ olist (quiesceRelease q) @ olist (curGroup q)"

definition chan_ok :: "queue \<Rightarrow> nat set \<Rightarrow> bool" where
  "chan_ok q L \<longleftrightarrow> distinct (slots q) \<and> (\<forall>c \<in> set (slots q) \<union> L. c < nextCh q \<and> \<not> closedCh q c) \<and>
     set (slots q) \<inter> L = {} \<and> (\<forall>c \<ge> nextCh q. \<not> closedCh q c)"

text \<open>What a call may rely on in each phase, given the records in flight, pending and published.\<close>

type_synonym recs = "(nat \<times> bytes) list"

definition own :: "recs \<Rightarrow> recs \<Rightarrow> nat \<Rightarrow> bytes \<Rightarrow> err option option \<Rightarrow> bool" where
  "own fl lo t p m \<longleftrightarrow> (case m of None \<Rightarrow> (t, p) \<in> set fl \<union> set lo | Some e \<Rightarrow> e = None \<longrightarrow> (t, p) \<in> set lo)"

fun phase_ok :: "queue \<Rightarrow> nat set \<Rightarrow> recs \<Rightarrow> recs \<Rightarrow> recs \<Rightarrow> nat \<Rightarrow> phase \<Rightarrow> bool" where
  "phase_ok q L fl pe lo t Idle \<longleftrightarrow> t \<notin> fst ` (set fl \<union> set pe \<union> set lo)"
| "phase_ok q L fl pe lo t (Parked p ch) \<longleftrightarrow> t \<notin> fst ` (set fl \<union> set pe \<union> set lo) \<and>
     (closedCh q ch \<or> quiesceRelease q = Some ch \<and> quiesceWant q > 0)"
| "phase_ok q L fl pe lo t (Settling p ch) \<longleftrightarrow> t \<notin> fst ` (set fl \<union> set pe \<union> set lo) \<and>
     (closedCh q ch \<or> flushDrained q = Some ch \<and> flushing q)"
| "phase_ok q L fl pe lo t (Follow p g) \<longleftrightarrow> g < nextCh q \<and>
     (if closedCh q g then groupErr q g = None \<longrightarrow> (t, p) \<in> set lo
      else curGroup q = Some g \<and> (t, p) \<in> set pe \<or> g \<in> L \<and> (t, p) \<in> set fl \<union> set lo)"
| "phase_ok q L fl pe lo t (DataSync p g af m) \<longleftrightarrow> fl \<noteq> [] \<and> own fl lo t p m"
| "phase_ok q L fl pe lo t (DataDone p g af e m) \<longleftrightarrow> fl \<noteq> [] \<and> own fl lo t p m"
| "phase_ok q L fl pe lo t (HeaderSync p g af m) \<longleftrightarrow> fl = [] \<and> own fl lo t p m"
| "phase_ok q L fl pe lo t (HeaderDone p g af e m) \<longleftrightarrow> fl = [] \<and> own fl lo t p m"
| "phase_ok q L fl pe lo t (Returned p e) \<longleftrightarrow> (e = None \<longrightarrow> (t, p) \<in> set lo)"

definition thread_ok :: "sys \<Rightarrow> nat \<Rightarrow> bool" where
  "thread_ok S t \<longleftrightarrow> phase_ok (sq S) (led S) (inflight S) (pend S) (log S) t (ph S t)"

definition settlers :: "sys \<Rightarrow> nat set" where
  "settlers S = {t. \<exists>p ch. ph S t = Settling p ch}"

text \<open>Flushing is having a leader, there is one at most, and nothing is staged without it.\<close>

definition ctl_ok :: "sys \<Rightarrow> bool" where
  "ctl_ok S \<longleftrightarrow>
     (flushing (sq S) \<longleftrightarrow> (\<exists>t. lead_group (ph S t) \<noteq> None)) \<and>
     (\<forall>t u. lead_group (ph S t) \<noteq> None \<longrightarrow> lead_group (ph S u) \<noteq> None \<longrightarrow> t = u) \<and>
     (\<not> flushing (sq S) \<longrightarrow> inflight S = [] \<and> pend S = []) \<and> (pend S = [] \<longleftrightarrow> curGroup (sq S) = None) \<and>
     finite (settlers S) \<and> quiesceWant (sq S) = int (card (settlers S))"

definition data_ok :: "hash \<Rightarrow> bytes list \<Rightarrow> sys \<Rightarrow> bool" where
  "data_ok xx bl S \<longleftrightarrow> adding xx (map snd (inflight S)) (map snd (pend S)) (st (sq S)) \<and>
     backlog xx (st (sq S)) = bl @ map snd (log S) \<and> distinct (map fst (log S @ inflight S @ pend S))"

definition inv :: "hash \<Rightarrow> bytes list \<Rightarrow> sys \<Rightarrow> bool" where
  "inv xx bl S \<longleftrightarrow> data_ok xx bl S \<and> chan_ok (sq S) (led S) \<and> ctl_ok S \<and> (\<forall>t. thread_ok S t)"

lemma invI: "data_ok xx bl S \<Longrightarrow> chan_ok (sq S) (led S) \<Longrightarrow> ctl_ok S \<Longrightarrow> (\<And>t. thread_ok S t) \<Longrightarrow> inv xx bl S"
  by (simp add: inv_def)

lemma invD:
  assumes "inv xx bl S"
  shows "data_ok xx bl S" "chan_ok (sq S) (led S)" "ctl_ok S" "thread_ok S t"
  using assms by (simp_all add: inv_def)

lemma inv_phase_of:
  assumes "inv xx bl S" "ph S t = p"
  shows "phase_ok (sq S) (led S) (inflight S) (pend S) (log S) t p"
  using invD(4) [OF assms(1), of t] assms(2) by (simp add: thread_ok_def)

lemma sq_same [simp]: "sq S = q \<Longrightarrow> S\<lparr>sq := q\<rparr> = S"
  by auto

section \<open>Steps that keep it\<close>

lemma phase_ok_store [simp]: "phase_ok (q\<lparr>st := s\<rparr>) L fl pe lo t p = phase_ok q L fl pe lo t p"
  by (cases p) simp_all

lemma chan_ok_store [simp]: "chan_ok (q\<lparr>st := s\<rparr>) L = chan_ok q L"
  by (simp add: chan_ok_def slots_def)

text \<open>
  One step of another call, seen from a call that does not move: channels are allocated or closed, the
  groups it may be in stay as they are, and pending records are added.
\<close>

definition chan_step :: "queue \<Rightarrow> nat set \<Rightarrow> queue \<Rightarrow> bool" where
  "chan_step q L q' \<longleftrightarrow> nextCh q \<le> nextCh q' \<and> groupErr q' = groupErr q \<and> (\<forall>c. closedCh q c \<longrightarrow> closedCh q' c) \<and>
     (\<forall>g. curGroup q = Some g \<longrightarrow> curGroup q' = Some g) \<and>
     (\<forall>g. curGroup q = Some g \<or> g \<in> L \<longrightarrow> closedCh q' g = closedCh q g) \<and>
     (\<forall>c. quiesceRelease q = Some c \<and> quiesceWant q > 0 \<longrightarrow> closedCh q' c \<or> quiesceRelease q' = Some c \<and> quiesceWant q' > 0) \<and>
     (\<forall>c. flushDrained q = Some c \<and> flushing q \<longrightarrow> closedCh q' c \<or> flushDrained q' = Some c \<and> flushing q')"

lemma phase_ok_step:
  assumes "phase_ok q L fl pe lo t p" "chan_step q L q'" "set pe \<subseteq> set pe'" "t \<notin> fst ` (set pe' - set pe)"
  shows "phase_ok q' L fl pe' lo t p"
proof (cases p)
  case (Follow b g)
  then show ?thesis using assms by (auto simp: chan_step_def split: if_splits)
qed (use assms in \<open>auto simp: chan_step_def\<close>)

text \<open>The store alone moves.\<close>

lemma inv_store:
  assumes i: "inv xx bl S" and a: "adding xx (map snd (inflight S)) (map snd (pend S)) s" "backlog xx s = backlog xx (st (sq S))"
  shows "inv xx bl (S\<lparr>sq := (sq S)\<lparr>st := s\<rparr>\<rparr>)"
  using i a by (simp add: inv_def data_ok_def ctl_ok_def thread_ok_def led_def settlers_def)

text \<open>A call changes its phase, not its part in the flush.\<close>

lemma inv_phase:
  assumes i: "inv xx bl S" and p: "lead_group p = lead_group (ph S t)" "(\<exists>b ch. p = Settling b ch) = (\<exists>b ch. ph S t = Settling b ch)"
    and t: "phase_ok (sq S) (led S) (inflight S) (pend S) (log S) t p"
  shows "inv xx bl (S\<lparr>ph := (ph S)(t := p)\<rparr>)"
proof -
  let ?S = "S\<lparr>ph := (ph S)(t := p)\<rparr>"
  have lg: "lead_group (ph ?S u) = lead_group (ph S u)" for u using p(1) by simp
  then have led: "led ?S = led S" by (simp add: led_def)
  have se: "settlers ?S = settlers S" using p(2) by (auto simp: settlers_def)
  have "thread_ok ?S u" for u using i t led by (simp add: inv_def thread_ok_def)
  moreover have "ctl_ok ?S" using invD(3) [OF i] unfolding ctl_ok_def lg se by simp
  moreover have "data_ok xx bl ?S" using invD(1) [OF i] by (simp add: data_ok_def)
  ultimately show ?thesis using invD(2) [OF i] led by (intro invI) simp_all
qed

text \<open>A new channel in an empty slot.\<close>

lemma chan_ok_alloc:
  assumes "chan_ok q L"
  shows "quiesceRelease q = None \<Longrightarrow> chan_ok (q\<lparr>quiesceRelease := Some (nextCh q), nextCh := Suc (nextCh q)\<rparr>) L"
    "flushDrained q = None \<Longrightarrow> chan_ok (q\<lparr>flushDrained := Some (nextCh q), nextCh := Suc (nextCh q)\<rparr>) L"
    "curGroup q = None \<Longrightarrow> chan_ok (q\<lparr>curGroup := Some (nextCh q), nextCh := Suc (nextCh q)\<rparr>) L"
  using assms by (auto simp: chan_ok_def slots_def less_Suc_eq)

lemma inv_release_slot:
  assumes i: "inv xx bl S" and w: "waitQuiesceReleaseLocked (sq S) = (ch, q1)"
  shows "inv xx bl (S\<lparr>sq := q1\<rparr>) \<and> quiesceRelease q1 = Some ch \<and> quiesceWant q1 = quiesceWant (sq S)"
proof (cases "quiesceRelease (sq S)")
  case (Some c)
  then show ?thesis using i w by (auto simp: waitQuiesceReleaseLocked_def)
next
  case None
  then have q1: "q1 = (sq S)\<lparr>quiesceRelease := Some (nextCh (sq S)), nextCh := Suc (nextCh (sq S))\<rparr>" "ch = nextCh (sq S)"
    using w by (auto simp: waitQuiesceReleaseLocked_def)
  have "phase_ok q1 (led S) (inflight S) (pend S) (log S) t (ph S t)" for t
    by (rule phase_ok_step [OF inv_phase_of [OF i refl]]) (use None in \<open>auto simp: q1 chan_step_def\<close>)
  then show ?thesis using i chan_ok_alloc(1) [OF invD(2) [OF i] None] q1
    by (simp add: inv_def data_ok_def ctl_ok_def thread_ok_def led_def settlers_def)
qed

lemma inv_drained_slot:
  assumes i: "inv xx bl S" and w: "quiesce_test (sq S) = (Some ch, q1)"
  shows "inv xx bl (S\<lparr>sq := q1\<rparr>) \<and> flushDrained q1 = Some ch \<and> flushing q1 \<and> quiesceWant q1 = quiesceWant (sq S)"
proof -
  have f: "flushing (sq S)"
    using w invD(1,3) [OF i] staged_zero [of xx "map snd (inflight S)" "map snd (pend S)" "st (sq S)"]
    by (auto simp: quiesce_test_def ctl_ok_def data_ok_def adding_def split: if_splits)
  show ?thesis
  proof (cases "flushDrained (sq S)")
    case (Some c)
    then show ?thesis using i w f by (auto simp: quiesce_test_def)
  next
    case None
    then have q1: "q1 = (sq S)\<lparr>flushDrained := Some (nextCh (sq S)), nextCh := Suc (nextCh (sq S))\<rparr>" "ch = nextCh (sq S)"
      using w f by (auto simp: quiesce_test_def)
    have "phase_ok q1 (led S) (inflight S) (pend S) (log S) t (ph S t)" for t
      by (rule phase_ok_step [OF inv_phase_of [OF i refl]]) (use None in \<open>auto simp: q1 chan_step_def\<close>)
    then show ?thesis using i chan_ok_alloc(2) [OF invD(2) [OF i] None] q1 f
      by (simp add: inv_def data_ok_def ctl_ok_def thread_ok_def led_def settlers_def)
  qed
qed

text \<open>A call enters and leaves the wait for the flush to settle.\<close>

lemma inv_enter:
  assumes i: "inv xx bl S" and t: "ph S t = Idle" and ch: "flushDrained (sq S) = Some ch" "flushing (sq S)"
  shows "inv xx bl (move t (Settling p ch) (quiesce_enter (sq S)) S)"
proof -
  let ?S = "move t (Settling p ch) (quiesce_enter (sq S)) S"
  have lg: "lead_group (ph ?S u) = lead_group (ph S u)" for u using t by (simp add: move_def)
  then have led: "led ?S = led S" by (simp add: led_def)
  have se: "settlers ?S = insert t (settlers S)" "t \<notin> settlers S" using t by (auto simp: settlers_def move_def)
  have q: "quiesce_enter (sq S) = (sq S)\<lparr>quiesceWant := quiesceWant (sq S) + 1\<rparr>" by (simp add: quiesce_enter_def)
  have want: "0 \<le> quiesceWant (sq S)" using invD(3) [OF i] by (simp add: ctl_ok_def)
  have "phase_ok (quiesce_enter (sq S)) (led S) (inflight S) (pend S) (log S) u (ph ?S u)" for u
  proof (cases "u = t")
    case True
    then show ?thesis using inv_phase_of [OF i t] ch by (simp add: move_def q)
  next
    case False
    have "phase_ok (quiesce_enter (sq S)) (led S) (inflight S) (pend S) (log S) u (ph S u)"
      by (rule phase_ok_step [OF inv_phase_of [OF i refl]]) (use want in \<open>auto simp: q chan_step_def\<close>)
    then show ?thesis using False by (simp add: move_def)
  qed
  moreover have "chan_ok (quiesce_enter (sq S)) (led S)" using invD(2) [OF i] by (simp add: q chan_ok_def slots_def)
  moreover have "ctl_ok ?S" using invD(3) [OF i] unfolding ctl_ok_def lg se(1) using se(2) by (simp add: move_def q)
  moreover have "data_ok xx bl ?S" using invD(1) [OF i] by (simp add: data_ok_def move_def q)
  ultimately show ?thesis by (intro invI) (simp_all add: thread_ok_def led, simp_all add: move_def)
qed

lemma close_fields [simp]:
  "st (close_chan c q) = st q" "flushing (close_chan c q) = flushing q" "curGroup (close_chan c q) = curGroup q"
  "notify (close_chan c q) = notify q" "spaceNotify (close_chan c q) = spaceNotify q"
  "flushDrained (close_chan c q) = flushDrained q" "quiesceRelease (close_chan c q) = quiesceRelease q"
  "quiesceWant (close_chan c q) = quiesceWant q" "groupErr (close_chan c q) = groupErr q" "nextCh (close_chan c q) = nextCh q"
  "closed (close_chan c q) = closed q" "closedCh (close_chan c q) x \<longleftrightarrow> c = Some x \<or> closedCh q x"
  by (auto simp: close_chan_def split: option.splits)

lemma inv_exit:
  assumes i: "inv xx bl S" and t: "ph S t = Settling p ch"
  shows "inv xx bl (move t Idle (quiesce_exit (sq S)) S)"
proof -
  let ?q = "sq S" and ?S = "move t Idle (quiesce_exit (sq S)) S"
  have lg: "lead_group (ph ?S u) = lead_group (ph S u)" for u using t by (simp add: move_def)
  then have led: "led ?S = led S" by (simp add: led_def)
  have se: "settlers ?S = settlers S - {t}" "t \<in> settlers S" using t by (auto simp: settlers_def move_def)
  have q: "st (quiesce_exit ?q) = st ?q" "flushing (quiesce_exit ?q) = flushing ?q" "curGroup (quiesce_exit ?q) = curGroup ?q"
    "notify (quiesce_exit ?q) = notify ?q" "spaceNotify (quiesce_exit ?q) = spaceNotify ?q"
    "flushDrained (quiesce_exit ?q) = flushDrained ?q" "groupErr (quiesce_exit ?q) = groupErr ?q" "nextCh (quiesce_exit ?q) = nextCh ?q"
    "quiesceWant (quiesce_exit ?q) = quiesceWant ?q - 1"
    "quiesceRelease (quiesce_exit ?q) = (if quiesceWant ?q = 1 then None else quiesceRelease ?q)"
    "closedCh (quiesce_exit ?q) x \<longleftrightarrow> closedCh ?q x \<or> quiesceWant ?q = 1 \<and> quiesceRelease ?q = Some x" for x
    by (auto simp: quiesce_exit_def Let_def)
  have fin: "finite (settlers S)" and want: "quiesceWant ?q = int (card (settlers S))" using invD(3) [OF i] by (simp_all add: ctl_ok_def)
  then have pos: "quiesceWant ?q > 0" using se(2) card_gt_0_iff [of "settlers S"] by auto
  have c: "chan_ok ?q (led S)" by (rule invD(2) [OF i])
  have "phase_ok (quiesce_exit ?q) (led S) (inflight S) (pend S) (log S) u (ph ?S u)" for u
  proof (cases "u = t")
    case True
    then show ?thesis using inv_phase_of [OF i t] by (simp add: move_def)
  next
    case False
    have "g \<noteq> x" if "quiesceRelease ?q = Some x" "curGroup ?q = Some g \<or> g \<in> led S" for g x
      using c that by (auto simp: chan_ok_def slots_def)
    then have "chan_step ?q (led S) (quiesce_exit ?q)" using pos by (auto simp: chan_step_def q)
    then have "phase_ok (quiesce_exit ?q) (led S) (inflight S) (pend S) (log S) u (ph S u)"
      by (rule phase_ok_step [OF inv_phase_of [OF i refl]]) auto
    then show ?thesis using False by (simp add: move_def)
  qed
  moreover have "chan_ok (quiesce_exit ?q) (led S)" using c by (auto simp: q chan_ok_def slots_def)
  moreover have "ctl_ok ?S"
    using invD(3) [OF i] want fin se(2) unfolding ctl_ok_def lg se(1)
    by (simp add: move_def q card_Diff_singleton of_nat_diff card_gt_0_iff Suc_le_eq) (metis One_nat_def Suc_leI card_gt_0_iff empty_iff of_nat_1 of_nat_diff)
  moreover have "data_ok xx bl ?S" using invD(1) [OF i] by (simp add: data_ok_def move_def q)
  ultimately show ?thesis by (intro invI) (simp_all add: thread_ok_def led, simp_all add: move_def)
qed

text \<open>A record joins the pending span of the leader that is running.\<close>

lemma inv_join:
  assumes i: "inv xx bl S" and t: "ph S t = Idle" and f: "flushing (sq S)"
    and a: "adding xx (map snd (inflight S)) (map snd (pend S) @ [p]) s" "backlog xx s = backlog xx (st (sq S))"
    and g: "g = fst (join_group (sq S))" and q1: "q1 = (snd (join_group (sq S)))\<lparr>st := s\<rparr>"
  shows "inv xx bl ((move t (Follow p g) q1 S)\<lparr>pend := pend S @ [(t, p)]\<rparr>)"
proof -
  let ?q = "sq S" and ?S = "(move t (Follow p g) q1 S)\<lparr>pend := pend S @ [(t, p)]\<rparr>"
  have lg: "lead_group (ph ?S u) = lead_group (ph S u)" for u using t by (simp add: move_def)
  then have led: "led ?S = led S" by (simp add: led_def)
  have se: "settlers ?S = settlers S" using t by (auto simp: settlers_def move_def)
  have c: "chan_ok ?q (led S)" by (rule invD(2) [OF i])
  have q: "st q1 = s" "flushing q1 = flushing ?q" "curGroup q1 = Some g" "\<And>x. curGroup ?q = Some x \<Longrightarrow> x = g"
    "notify q1 = notify ?q" "spaceNotify q1 = spaceNotify ?q" "flushDrained q1 = flushDrained ?q" "quiesceRelease q1 = quiesceRelease ?q"
    "groupErr q1 = groupErr ?q" "nextCh ?q \<le> nextCh q1" "quiesceWant q1 = quiesceWant ?q" "closedCh q1 = closedCh ?q"
    by (auto simp: q1 g join_group_def split: option.split)
  have c1: "chan_ok q1 (led S)"
    using c chan_ok_alloc(3) [OF c] by (cases "curGroup ?q") (simp_all add: q1 join_group_def)
  then have og: "g < nextCh q1" "\<not> closedCh ?q g" using q(3,12) by (auto simp: chan_ok_def slots_def)
  have nt: "t \<notin> fst ` (set (inflight S) \<union> set (pend S) \<union> set (log S))" using inv_phase_of [OF i t] by simp
  have "phase_ok q1 (led S) (inflight S) (pend S @ [(t, p)]) (log S) u (ph ?S u)" for u
  proof (cases "u = t")
    case True
    then show ?thesis using og by (simp add: move_def q)
  next
    case False
    have "chan_step ?q (led S) q1" using q(4,10) by (auto simp: chan_step_def q(2,3,5-9,11,12))
    then have "phase_ok q1 (led S) (inflight S) (pend S @ [(t, p)]) (log S) u (ph S u)"
      by (rule phase_ok_step [OF inv_phase_of [OF i refl]]) (use False in auto)
    then show ?thesis using False by (simp add: move_def)
  qed
  moreover have "ctl_ok ?S" using invD(3) [OF i] f unfolding ctl_ok_def lg se by (simp add: move_def q)
  moreover have "data_ok xx bl ?S" using invD(1) [OF i] a nt by (auto simp: data_ok_def move_def q)
  ultimately show ?thesis using c1 by (intro invI) (simp_all add: thread_ok_def led, simp_all add: move_def)
qed

text \<open>The first record of a flush makes its call the leader.\<close>

lemma adding_takeSpan:
  assumes "adding xx [] qs s"
  shows "adding xx qs [] (takeSpan s) \<and> keeps xx s (takeSpan s)"
  using takeSpan_staging [of xx s qs] assms by (simp add: adding_def staging_def keeps_def appended_def)

lemma adding_discard:
  assumes "adding xx fl qs s"
  shows "adding xx [] [] (discardStaged s) \<and> keeps xx s (discardStaged s)"
  using assms by (simp add: adding_def discardStaged_def staged_none keeps_def unread_def backlog_def)

lemma led_move: "led (S\<lparr>ph := (ph S)(t := p)\<rparr>) = {g. lead_group p = Some (Some g) \<or> (\<exists>u. u \<noteq> t \<and> lead_group (ph S u) = Some (Some g))}"
  by (auto simp: led_def)

lemma inv_lead:
  assumes i: "inv xx bl S" and t: "ph S t = Idle" and f: "\<not> flushing (sq S)"
    and a: "adding xx (map snd (inflight S)) (map snd (pend S) @ [p]) s" "backlog xx s = backlog xx (st (sq S))"
  shows "inv xx bl (lead_span t p None (lead_begin ((sq S)\<lparr>st := s\<rparr>)) (S\<lparr>pend := pend S @ [(t, p)]\<rparr>))" (is "inv xx bl ?S")
proof -
  let ?q = "sq S"
  have e: "inflight S = []" "pend S = []" "curGroup ?q = None" and nl: "\<And>u. lead_group (ph S u) = None"
    using invD(3) [OF i] f by (auto simp: ctl_ok_def)
  define q1 where "q1 = ?q\<lparr>flushing := True, curGroup := None, st := takeSpan s\<rparr>"
  define S1 where "S1 = S\<lparr>sq := q1, ph := (ph S)(t := DataSync p None (the (active (takeSpan s))) None), inflight := [(t, p)], pend := []\<rparr>"
  have S: "?S = S1"
    using e by (simp add: lead_span_def lead_take_def lead_begin_def move_def Let_def q1_def S1_def)
  have led: "led S1 = {}" "led S = {}" using nl by (auto simp: S1_def led_def)
  have se: "settlers S1 = settlers S" using t by (auto simp: settlers_def S1_def)
  have nt: "t \<notin> fst ` set (log S)" using inv_phase_of [OF i t] by auto
  have "phase_ok q1 {} [(t, p)] [] (log S) u (ph S1 u)" for u
  proof (cases "u = t")
    case True
    then show ?thesis by (simp add: S1_def own_def)
  next
    case False
    then show ?thesis using inv_phase_of [OF i refl, of u] e led(2) nl [of u]
      by (cases "ph S u") (auto simp: S1_def q1_def split: if_splits)
  qed
  moreover have "ctl_ok S1" using invD(3) [OF i] nl e unfolding ctl_ok_def se by (auto simp: S1_def q1_def)
  moreover have "data_ok xx bl S1"
    using invD(1) [OF i] a e nt adding_takeSpan [of xx "[p]" s] by (auto simp: data_ok_def S1_def q1_def keeps_def)
  moreover have "chan_ok q1 {}" using invD(2) [OF i] e(3) by (simp add: chan_ok_def slots_def q1_def led(2))
  ultimately show ?thesis unfolding S by (intro invI) (simp_all add: thread_ok_def led, simp_all add: S1_def)
qed

text \<open>The leader delivers a verdict.\<close>

lemma settle_fields [simp]:
  "st (settle_group g e q) = st q" "flushing (settle_group g e q) = flushing q" "curGroup (settle_group g e q) = curGroup q"
  "notify (settle_group g e q) = notify q" "spaceNotify (settle_group g e q) = spaceNotify q"
  "flushDrained (settle_group g e q) = flushDrained q" "quiesceRelease (settle_group g e q) = quiesceRelease q"
  "quiesceWant (settle_group g e q) = quiesceWant q" "nextCh (settle_group g e q) = nextCh q"
  "closedCh (settle_group g e q) c \<longleftrightarrow> closedCh q c \<or> g = Some c"
  "groupErr (settle_group g e q) c = (if g = Some c then e else groupErr q c)"
  by (auto simp: settle_group_def split: option.splits)

lemma finish_fields [simp]:
  "st (lead_finish q) = st q" "flushing (lead_finish q) = False" "curGroup (lead_finish q) = curGroup q"
  "notify (lead_finish q) = notify q" "spaceNotify (lead_finish q) = None"
  "flushDrained (lead_finish q) = None" "quiesceRelease (lead_finish q) = quiesceRelease q"
  "quiesceWant (lead_finish q) = quiesceWant q" "nextCh (lead_finish q) = nextCh q"
  "closedCh (lead_finish q) c \<longleftrightarrow> closedCh q c \<or> flushDrained q = Some c \<or> spaceNotify q = Some c"
  "groupErr (lead_finish q) = groupErr q"
  by (auto simp: lead_finish_def signalSpace_def signalFlushDrained_def)

lemma cur_same [simp]: "curGroup q = None \<Longrightarrow> q\<lparr>curGroup := None\<rparr> = q" "st q = s \<Longrightarrow> q\<lparr>st := s\<rparr> = q"
  by (cases q; auto)+

lemma settle_None [simp]: "settle_group None e q = q"
  by (simp add: settle_group_def)

lemma sole_leader:
  assumes "ctl_ok S" "lead_group (ph S t) = Some g"
  shows "u \<noteq> t \<Longrightarrow> lead_group (ph S u) = None" "led S = set (olist g)" "flushing (sq S)"
proof -
  show *: "u \<noteq> t \<Longrightarrow> lead_group (ph S u) = None" for u using assms by (auto simp: ctl_ok_def)
  have "lead_group (ph S u) = Some (Some x) \<longleftrightarrow> u = t \<and> g = Some x" for u x using * assms(2) by (cases "u = t") auto
  then show "led S = set (olist g)" by (auto simp: led_def)
  show "flushing (sq S)" using assms by (auto simp: ctl_ok_def)
qed

text \<open>The last verdict of a flush: the leader returns, nothing is left staged.\<close>

lemma inv_finish:
  assumes i: "inv xx bl S" and l: "lead_group (ph S t) = Some g"
    and own: "own (inflight S) (log S) t p mine"
    and e: "e = None \<longrightarrow> curGroup (sq S) = None \<and> inflight S = []"
    and a: "adding xx [] [] s" "backlog xx s = backlog xx (st (sq S))"
    and q: "q1 = lead_finish ((settle_group (curGroup (sq S)) e (settle_group g e (sq S)))\<lparr>curGroup := None, st := s\<rparr>)"
    and ret: "ret = (case mine of None \<Rightarrow> e | Some m \<Rightarrow> m)"
  shows "inv xx bl ((move t (Returned p ret) q1 S)\<lparr>inflight := [], pend := []\<rparr>)"
proof -
  let ?q = "sq S" and ?S = "(move t (Returned p ret) q1 S)\<lparr>inflight := [], pend := []\<rparr>"
  note sl = sole_leader [OF invD(3) [OF i] l]
  have c: "chan_ok ?q (led S)" by (rule invD(2) [OF i])
  have nl: "lead_group (ph ?S u) = None" for u using sl(1) by (simp add: move_def)
  have led: "led ?S = {}" using nl by (simp add: led_def)
  have se: "settlers ?S = settlers S" using l by (auto simp: settlers_def move_def)
  have qf: "closedCh q1 x \<longleftrightarrow> closedCh ?q x \<or> x \<in> led S \<or> curGroup ?q = Some x \<or> flushDrained ?q = Some x \<or> spaceNotify ?q = Some x"
    "groupErr q1 x = (if x \<in> led S \<or> curGroup ?q = Some x then e else groupErr ?q x)" for x
    unfolding q sl(2) by (auto simp: olist_def split: option.splits)
  have "phase_ok q1 {} [] [] (log S) u (ph ?S u)" for u
  proof (cases "u = t")
    case True
    then show ?thesis using own e by (auto simp: move_def ret own_def split: option.splits)
  next
    case False
    have o: "\<not> closedCh ?q x" if "x \<in> led S \<or> curGroup ?q = Some x" for x using c that by (auto simp: chan_ok_def slots_def)
    have "phase_ok q1 {} [] [] (log S) u (ph S u)"
      using inv_phase_of [OF i refl, of u] e sl(1) [OF False] sl(3)
    proof (cases "ph S u")
      case (Follow b x)
      then show ?thesis using inv_phase_of [OF i refl, of u] e o [of x] qf [of x] by (auto simp: q split: if_splits)
    qed (auto simp: qf(1), auto simp: q)
    then show ?thesis using False by (simp add: move_def)
  qed
  moreover have "ctl_ok ?S" using invD(3) [OF i] nl unfolding ctl_ok_def se by (simp add: move_def q)
  moreover have "data_ok xx bl ?S" using invD(1) [OF i] a by (simp add: data_ok_def move_def q)
  moreover have "chan_ok q1 {}"
  proof -
    have sl1: "slots q1 = olist (notify ?q) @ olist (quiesceRelease ?q)" "nextCh q1 = nextCh ?q" by (simp_all add: slots_def q)
    have "c < nextCh ?q" if "c \<in> led S \<or> curGroup ?q = Some c \<or> flushDrained ?q = Some c \<or> spaceNotify ?q = Some c" for c
      using c that by (auto simp: chan_ok_def slots_def)
    then show ?thesis using c unfolding chan_ok_def sl1 qf(1) by (auto simp: slots_def not_less [symmetric])
  qed
  ultimately show ?thesis by (intro invI) (simp_all add: thread_ok_def led, simp_all add: move_def)
qed

text \<open>A verdict with more pending: the leader goes on with the next span.\<close>

lemma inv_next:
  assumes i: "inv xx bl S" and l: "lead_group (ph S t) = Some g"
    and own: "own [] (log S) t p mine" and fl: "inflight S = []" and cur: "curGroup (sq S) \<noteq> None"
    and ret: "ret = (case mine of None \<Rightarrow> None | Some m \<Rightarrow> m)"
  shows "inv xx bl (lead_span t p (Some ret) (settle_group g None (sq S)) S)" (is "inv xx bl ?S")
proof -
  let ?q = "sq S"
  obtain x where x: "curGroup ?q = Some x" using cur by blast
  define q1 where "q1 = (settle_group g None ?q)\<lparr>curGroup := None, st := takeSpan (st ?q)\<rparr>"
  define S1 where "S1 = S\<lparr>sq := q1, ph := (ph S)(t := DataSync p (Some x) (the (active (takeSpan (st ?q)))) (Some ret)),
    inflight := pend S, pend := []\<rparr>"
  have S: "?S = S1" by (simp add: lead_span_def lead_take_def move_def Let_def q1_def S1_def x)
  note sl = sole_leader [OF invD(3) [OF i] l]
  have c: "chan_ok ?q (led S)" by (rule invD(2) [OF i])
  have "lead_group (ph S1 u) = (if u = t then Some (Some x) else None)" for u using sl(1) by (simp add: S1_def)
  then have lg: "lead_group (ph S1 u) = Some y \<longleftrightarrow> u = t \<and> y = Some x" for u y by auto
  then have led: "led S1 = {x}" by (simp add: led_def)
  have se: "settlers S1 = settlers S" using l by (auto simp: settlers_def S1_def)
  have qf: "closedCh q1 y \<longleftrightarrow> closedCh ?q y \<or> y \<in> led S" "groupErr q1 y = (if y \<in> led S then None else groupErr ?q y)" for y
    unfolding q1_def sl(2) by auto
  have sl1: "slots q1 = olist (notify ?q) @ olist (spaceNotify ?q) @ olist (flushDrained ?q) @ olist (quiesceRelease ?q)"
    "nextCh q1 = nextCh ?q" by (simp_all add: slots_def q1_def)
  have o: "\<not> closedCh ?q y" "y < nextCh ?q" if "y \<in> led S \<or> curGroup ?q = Some y" for y using c that by (auto simp: chan_ok_def slots_def)
  have pe: "pend S \<noteq> []" using invD(3) [OF i] x by (simp add: ctl_ok_def)
  have xl: "x \<notin> led S" using c x by (auto simp: chan_ok_def slots_def)
  have "phase_ok q1 {x} (pend S) [] (log S) u (ph S1 u)" for u
  proof (cases "u = t")
    case True
    then show ?thesis using own pe by (auto simp: S1_def ret own_def split: option.splits)
  next
    case False
    have "phase_ok q1 {x} (pend S) [] (log S) u (ph S u)"
    proof (cases "ph S u")
      case (Follow b y)
      then show ?thesis using inv_phase_of [OF i refl, of u] fl o [of y] qf [of y] x xl sl1(2) by (auto split: if_splits)
    qed (use inv_phase_of [OF i refl, of u] fl sl(1) [OF False] qf(1) in \<open>auto simp: q1_def\<close>)
    then show ?thesis using False by (simp add: S1_def)
  qed
  moreover have "ctl_ok S1"
    using invD(3) [OF i] sl(3) unfolding ctl_ok_def se by (auto simp: lg) (auto simp: S1_def q1_def)
  moreover have "data_ok xx bl S1"
    using invD(1) [OF i] fl adding_takeSpan [of xx "map snd (pend S)" "st ?q"] by (auto simp: data_ok_def S1_def q1_def keeps_def)
  moreover have "chan_ok q1 {x}"
    using c x xl o unfolding chan_ok_def sl1 qf(1) by (auto simp: slots_def not_less [symmetric])
  ultimately show ?thesis unfolding S by (intro invI) (simp_all add: thread_ok_def led, simp_all add: S1_def)
qed

lemma inv_deliver:
  assumes i: "inv xx bl S" and l: "lead_group (ph S t) = Some g"
    and own: "own (inflight S) (log S) t p mine"
    and e: "e = None \<longrightarrow> inflight S = [] \<and> s = st (sq S)"
    and a: "e \<noteq> None \<longrightarrow> adding xx [] [] (discardStaged s) \<and> backlog xx (discardStaged s) = backlog xx (st (sq S))"
  shows "inv xx bl (deliver t p g e mine ((sq S)\<lparr>st := s\<rparr>) S)"
proof (cases e)
  case (Some x)
  have "snd (lead_verdict g e ((sq S)\<lparr>st := s\<rparr>)) =
      lead_finish ((settle_group (curGroup (sq S)) e (settle_group g e (sq S)))\<lparr>curGroup := None, st := discardStaged s\<rparr>)"
    by (simp add: lead_verdict_def Let_def Some settle_group_def close_chan_def split: option.split)
  then have "deliver t p g e mine ((sq S)\<lparr>st := s\<rparr>) S =
      (move t (Returned p (case mine of None \<Rightarrow> e | Some m \<Rightarrow> m))
        (lead_finish ((settle_group (curGroup (sq S)) e (settle_group g e (sq S)))\<lparr>curGroup := None, st := discardStaged s\<rparr>)) S)
        \<lparr>inflight := [], pend := []\<rparr>"
    by (cases mine) (simp_all add: deliver_def Let_def split_beta Some lead_verdict_def)
  then show ?thesis using inv_finish [OF i l own _ _ _ refl refl, of e "discardStaged s"] a Some by simp
next
  case None
  then have fl: "inflight S = []" and s: "(sq S)\<lparr>st := s\<rparr> = sq S" using e by auto
  show ?thesis
  proof (cases "curGroup (sq S)")
    case c: None
    have pe: "pend S = []" using invD(3) [OF i] c by (simp add: ctl_ok_def)
    have "deliver t p g e mine (sq S) S =
      (move t (Returned p (case mine of None \<Rightarrow> e | Some m \<Rightarrow> m))
        (lead_finish ((settle_group (curGroup (sq S)) e (settle_group g e (sq S)))\<lparr>curGroup := None, st := st (sq S)\<rparr>)) S)
        \<lparr>inflight := [], pend := []\<rparr>"
      by (cases mine) (simp_all add: deliver_def Let_def None lead_verdict_def c)
    then show ?thesis
      using inv_finish [OF i l own _ _ _ refl refl, of e "st (sq S)"] c fl pe invD(1) [OF i] unfolding s by (simp add: data_ok_def)
  next
    case (Some x)
    have "deliver t p g e mine (sq S) S = lead_span t p (Some (case mine of None \<Rightarrow> None | Some m \<Rightarrow> m)) (settle_group g None (sq S)) S"
      by (simp add: deliver_def Let_def None lead_verdict_def Some)
    then show ?thesis using inv_next [OF i l _ fl _ refl] own fl Some unfolding s by simp
  qed
qed

section \<open>Every step keeps it\<close>

lemma dispatch_done: "sq (dispatch t p (AddDone e) q S) = q"
  by (simp add: dispatch_def move_def)

lemma inv_dispatch:
  assumes i: "inv xx bl S" and t: "ph S t = Idle" and d: "addDurableLocked xx p False (sq S) = (Some out, q1)"
    and ns: "\<And>e. out = AddDone e \<Longrightarrow> \<not> stranded (st q1)"
  shows "inv xx bl (dispatch t p out q1 S)"
proof -
  let ?q = "sq S"
  have "adding xx (map snd (inflight S)) (map snd (pend S)) (st ?q)" using invD(1) [OF i] by (simp add: data_ok_def)
  note o = addDurable_outcome [OF this d]
  have bl: "backlog xx (st q1) = backlog xx (st ?q)" using o by (simp add: add_outcome_def keeps_def)
  have keep: "inv xx bl (S\<lparr>sq := ?q\<lparr>st := st q1\<rparr>\<rparr>)" if "adding xx (map snd (inflight S)) (map snd (pend S)) (st q1)"
    by (rule inv_store [OF i that bl])
  show ?thesis
  proof (cases out)
    case (AddDone e)
    then have "adding xx (map snd (inflight S)) (map snd (pend S)) (st q1)" "q1 = ?q\<lparr>st := st q1\<rparr>" "e \<noteq> None"
      using o ns by (simp_all add: add_outcome_def)
    then show ?thesis using inv_phase [OF keep, of "Returned p e" t] t AddDone by (auto simp: dispatch_def move_def)
  next
    case (AddYield ch)
    then have a: "adding xx (map snd (inflight S)) (map snd (pend S)) (st q1)" "quiesceWant ?q > 0"
      "q1 = (snd (waitQuiesceReleaseLocked ?q))\<lparr>st := st q1\<rparr>" "ch = fst (waitQuiesceReleaseLocked ?q)"
      using o by (simp_all add: add_outcome_def)
    then have "waitQuiesceReleaseLocked (sq (S\<lparr>sq := ?q\<lparr>st := st q1\<rparr>\<rparr>)) = (ch, q1)" by (simp add: wait_release_store)
    from inv_release_slot [OF keep [OF a(1)] this]
    have "inv xx bl (S\<lparr>sq := q1\<rparr>)" "quiesceRelease q1 = Some ch" "quiesceWant q1 > 0" using a(2) by simp_all
    then show ?thesis using inv_phase [of xx bl "S\<lparr>sq := q1\<rparr>" "Parked p ch" t] inv_phase_of [of xx bl "S\<lparr>sq := q1\<rparr>" t Idle] t AddYield
      by (simp add: dispatch_def move_def)
  next
    case AddQuiesce
    then have q1: "q1 = ?q" "flushing ?q \<or> stagedBytes (st ?q) > 0" using o by (simp_all add: add_outcome_def)
    obtain ch q2 where 2: "quiesce_test ?q = (Some ch, q2)" using q1(2) by (cases "flushDrained ?q") (auto simp: quiesce_test_def)
    note w = inv_drained_slot [OF i 2]
    have "quiesce_test (quiesce_enter ?q) = (Some ch, quiesce_enter q2)"
      using 2 by (auto simp: quiesce_test_def quiesce_enter_def split: if_splits option.splits)
    then have "dispatch t p out q1 S = move t (Settling p ch) (quiesce_enter (sq (S\<lparr>sq := q2\<rparr>))) (S\<lparr>sq := q2\<rparr>)"
      by (simp add: dispatch_def AddQuiesce q1 move_def)
    then show ?thesis using inv_enter [of xx bl "S\<lparr>sq := q2\<rparr>" t ch p] w t by simp
  next
    case (AddFollow g)
    then show ?thesis using inv_join [OF i t, of p "st q1" g q1] o bl by (simp add: add_outcome_def dispatch_def)
  next
    case AddLead
    then have "q1 = ?q\<lparr>st := st q1\<rparr>" "\<not> flushing ?q" "adding xx (map snd (inflight S)) (map snd (pend S) @ [p]) (st q1)"
      using o by (simp_all add: add_outcome_def)
    then show ?thesis using inv_lead [OF i t, of p "st q1"] bl AddLead by (simp add: dispatch_def)
  next
    case (AddSpace ch)
    then show ?thesis using o by (simp add: add_outcome_def)
  qed
qed

lemma adding_core: "core s' = core s \<Longrightarrow> adding xx fl qs s \<Longrightarrow> adding xx fl qs s' \<and> backlog xx s' = backlog xx s"
  using staging_core [of xx fl qs s s s'] core_eq_fields [of s' s]
  by (simp add: adding_def staging_def batched_def appended_def)

lemma adding_publish:
  assumes a: "adding xx fl qs s" and fl: "fl \<noteq> []" and p: "publishSpan xx s = (r, s')"
  shows "if r = Inr () then adding xx [] qs s' \<and> backlog xx s' = backlog xx s @ fl else adding xx [] [] s' \<and> backlog xx s' = backlog xx s"
proof -
  obtain n where "active s = Some n" using a fl by (auto simp: adding_def staged_as_def)
  from publishSpan_spec [OF _ _ this p, where fl = fl and qs = qs] a
  show ?thesis by (auto simp: adding_def published_def appended_def split: if_splits)
qed

lemma adding_failIO: "(failIO e s :: 'a result \<times> store) = (r, s') \<Longrightarrow> adding xx fl qs s \<Longrightarrow> adding xx fl qs s' \<and> backlog xx s' = backlog xx s"
  by (rule adding_core [OF core_failIO])

lemma signal_fields [simp]:
  "flushing (signal q) = flushing q" "curGroup (signal q) = curGroup q" "notify (signal q) = None"
  "spaceNotify (signal q) = spaceNotify q" "flushDrained (signal q) = flushDrained q"
  "quiesceRelease (signal q) = quiesceRelease q" "quiesceWant (signal q) = quiesceWant q" "nextCh (signal q) = nextCh q"
  "closedCh (signal q) c \<longleftrightarrow> closedCh q c \<or> notify q = Some c" "groupErr (signal q) = groupErr q"
  by (auto simp: signal_def)

text \<open>Publishing moves the span from in flight to the log.\<close>

lemma inv_publish:
  assumes i: "inv xx bl S" and t: "ph S t = DataDone p g af derr mine"
    and a: "adding xx [] (map snd (pend S)) s" "backlog xx s = backlog xx (st (sq S)) @ map snd (inflight S)"
  shows "inv xx bl ((move t (HeaderSync p g af mine) (signal ((sq S)\<lparr>st := s\<rparr>)) S)\<lparr>inflight := [], log := log S @ inflight S\<rparr>)"
    (is "inv xx bl ?S")
proof -
  let ?q = "sq S" and ?q1 = "signal ((sq S)\<lparr>st := s\<rparr>)"
  have l: "lead_group (ph S t) = Some g" using t by simp
  note sl = sole_leader [OF invD(3) [OF i] l]
  have c: "chan_ok ?q (led S)" by (rule invD(2) [OF i])
  have lg: "lead_group (ph ?S u) = lead_group (ph S u)" for u using t by (simp add: move_def)
  then have led: "led ?S = led S" by (simp add: led_def)
  have se: "settlers ?S = settlers S" using t by (auto simp: settlers_def move_def)
  have "phase_ok ?q1 (led S) [] (pend S) (log S @ inflight S) u (ph ?S u)" for u
  proof (cases "u = t")
    case True
    then show ?thesis using inv_phase_of [OF i t] by (auto simp: move_def own_def split: option.splits)
  next
    case False
    have "y \<noteq> x" if "notify ?q = Some x" "curGroup ?q = Some y \<or> y \<in> led S" for x y using c that by (auto simp: chan_ok_def slots_def)
    then have "phase_ok ?q1 (led S) [] (pend S) (log S @ inflight S) u (ph S u)"
      using inv_phase_of [OF i refl, of u] sl(1) [OF False] c
      by (cases "ph S u") (auto simp: chan_ok_def slots_def split: if_splits)
    then show ?thesis using False by (simp add: move_def)
  qed
  moreover have "ctl_ok ?S" using invD(3) [OF i] unfolding ctl_ok_def lg se by (simp add: move_def)
  moreover have "data_ok xx bl ?S" using invD(1) [OF i] a by (auto simp: data_ok_def move_def)
  moreover have "chan_ok ?q1 (led S)" using c by (auto simp: chan_ok_def slots_def)
  ultimately show ?thesis by (intro invI) (simp_all add: thread_ok_def led, simp_all add: move_def)
qed

lemma inv_sync:
  assumes i: "inv xx bl S" and o: "on_store (os_run (datasync af)) (sq S) = (r, q1)"
  shows "inv xx bl (S\<lparr>sq := q1\<rparr>)"
proof -
  obtain s1 where 1: "os_run (datasync af) (st (sq S)) = (r, s1)" "q1 = (sq S)\<lparr>st := s1\<rparr>"
    using o by (auto simp: on_store_def split: prod.splits)
  have "adding xx (map snd (inflight S)) (map snd (pend S)) (st (sq S))" using invD(1) [OF i] by (simp add: data_ok_def)
  from adding_core [OF core_datasync [OF 1(1)] this] show ?thesis unfolding 1(2) using inv_store [OF i] by blast
qed

lemma inv_move_phase:
  assumes i: "inv xx bl (S\<lparr>sq := q1\<rparr>)" and p: "lead_group p = lead_group (ph S t)"
      "(\<exists>b ch. p = Settling b ch) = (\<exists>b ch. ph S t = Settling b ch)"
    and t: "phase_ok q1 (led S) (inflight S) (pend S) (log S) t p"
  shows "inv xx bl (move t p q1 S)"
proof -
  have "led (S\<lparr>sq := q1\<rparr>) = led S" by (simp add: led_def)
  then show ?thesis using inv_phase [OF i, of p t] p t by (simp add: move_def)
qed

lemma inv_tstep:
  assumes i: "inv xx bl S" and s: "tstep xx t S S'" and ns: "\<not> stranded (st (sq S'))"
  shows "inv xx bl S'"
  using s
proof cases
  case (start p out q1)
  show ?thesis unfolding start(1) by (rule inv_dispatch [OF i start(2,3)]) (use ns start(1) in \<open>simp add: dispatch_done\<close>)
next
  case (unpark p ch out q1)
  let ?S = "S\<lparr>ph := (ph S)(t := Idle)\<rparr>"
  have "inv xx bl ?S" by (rule inv_phase [OF i]) (use inv_phase_of [OF i unpark(2)] unpark(2) in simp_all)
  moreover have "\<not> stranded (st q1)" if "out = AddDone e" for e using ns unpark(1) that by (simp add: dispatch_done)
  ultimately have "inv xx bl (dispatch t p out q1 ?S)" by (intro inv_dispatch) (use unpark in simp_all)
  then show ?thesis using unpark(1)
    by (cases out) (simp_all add: dispatch_def move_def lead_span_def split_beta)
next
  case (resettle p ch ch1 q1)
  note w = inv_drained_slot [OF i resettle(4)]
  show ?thesis unfolding resettle(1)
    by (rule inv_move_phase) (use w inv_phase_of [OF i resettle(2)] resettle(2) in simp_all)
next
  case (settled p ch q1 out q2)
  have q1: "q1 = sq S" using settled(4) by (auto simp: quiesce_test_def split: if_splits option.splits)
  let ?S = "move t Idle (quiesce_exit (sq S)) S"
  have "inv xx bl ?S" by (rule inv_exit [OF i settled(2)])
  moreover have "\<not> stranded (st q2)" if "out = AddDone e" for e using ns settled(1) that by (simp add: dispatch_done)
  ultimately have "inv xx bl (dispatch t p out q2 ?S)"
    by (intro inv_dispatch) (use settled q1 in \<open>simp_all add: move_def\<close>)
  then show ?thesis using settled(1)
    by (cases out) (simp_all add: dispatch_def move_def lead_span_def split_beta)
next
  case (follow p g)
  then show ?thesis using inv_move_phase [where S = S and ?q1.0 = "sq S" and p = "Returned p (groupErr (sq S) g)" and t = t]
      i inv_phase_of [OF i follow(2)] by simp
next
  case (data p g af mine r q1)
  then show ?thesis using inv_move_phase [OF inv_sync [OF i data(3)], of "DataDone p g af (err_of r) mine" t] inv_phase_of [OF i data(2)]
    by simp
next
  case (publish p g af derr mine u q1)
  have fl: "map snd (inflight S) \<noteq> []" using inv_phase_of [OF i publish(2)] by simp
  obtain s1 where 1: "publishSpan xx (st (sq S)) = (Inr (), s1)" "q1 = signal ((sq S)\<lparr>st := s1\<rparr>)"
    using publish(3) by (auto simp: lead_publish_def on_store_def failIO_def Let_def split: option.splits prod.splits sum.splits if_splits)
  then show ?thesis
    using inv_publish [OF i publish(2)] adding_publish [OF _ fl 1(1), of "map snd (pend S)"] invD(1) [OF i] publish(1) by (simp add: data_ok_def)
next
  case (refuse p g af derr mine e q1)
  have fl: "map snd (inflight S) \<noteq> []" and own: "own (inflight S) (log S) t p mine" using inv_phase_of [OF i refuse(2)] by simp_all
  have a: "adding xx (map snd (inflight S)) (map snd (pend S)) (st (sq S))" using invD(1) [OF i] by (simp add: data_ok_def)
  have "\<exists>s1. q1 = (sq S)\<lparr>st := s1\<rparr> \<and> adding xx [] [] s1 \<and> backlog xx s1 = backlog xx (st (sq S))"
  proof (cases "if derr = None then ioErr (st (sq S)) else derr")
    case (Some x)
    obtain r s1 where f: "(failIO x (discardStaged (st (sq S))) :: unit result \<times> store) = (r, s1)" "q1 = (sq S)\<lparr>st := s1\<rparr>"
      using refuse(3) Some by (auto simp: lead_publish_def on_store_def split: prod.splits)
    then show ?thesis using adding_failIO [OF f(1)] adding_discard [OF a] by (auto simp: keeps_def)
  next
    case None
    obtain s1 where f: "publishSpan xx (st (sq S)) = (Inl e, s1)" "q1 = (sq S)\<lparr>st := s1\<rparr>"
      using refuse(3) None by (auto simp: lead_publish_def on_store_def split: prod.splits sum.splits)
    then show ?thesis using adding_publish [OF a fl f(1)] by auto
  qed
  then obtain s1 where q1: "q1 = (sq S)\<lparr>st := s1\<rparr>" and a1: "adding xx [] [] s1" "backlog xx s1 = backlog xx (st (sq S))" by blast
  show ?thesis unfolding refuse(1) q1
    by (rule inv_deliver [OF i _ own]) (use refuse(2) a1 adding_discard [OF a1(1)] in \<open>auto simp: keeps_def\<close>)
next
  case (header p g af mine r q1)
  have ok: "phase_ok q1 (led S) (inflight S) (pend S) (log S) t (HeaderDone p g af (err_of r) mine)"
    using inv_phase_of [OF i header(2)] unfolding phase_ok.simps .
  show ?thesis unfolding header(1) by (rule inv_move_phase [OF inv_sync [OF i header(3)] _ _ ok]) (simp_all add: header(2))
next
  case (judge p g af herr mine e q1)
  have fl: "inflight S = []" and own: "own (inflight S) (log S) t p mine"
    using inv_phase_of [OF i judge(2)] unfolding phase_ok.simps by blast+
  have a: "adding xx (map snd (inflight S)) (map snd (pend S)) (st (sq S))" using invD(1) [OF i] by (simp add: data_ok_def)
  obtain s1 where q1: "q1 = (sq S)\<lparr>st := s1\<rparr>" and a1: "adding xx (map snd (inflight S)) (map snd (pend S)) s1"
      "backlog xx s1 = backlog xx (st (sq S))" "e = None \<longrightarrow> s1 = st (sq S)"
  proof (cases herr)
    case None
    then show thesis using judge(3) that [of "st (sq S)"] a by (simp add: lead_header_def)
  next
    case (Some x)
    obtain r s1 where f: "(failIO x (st (sq S)) :: unit result \<times> store) = (r, s1)" "q1 = (sq S)\<lparr>st := s1\<rparr>" "e = err_of r"
      using judge(3) Some by (auto simp: lead_header_def on_store_def split: prod.splits)
    then show thesis using that [of s1] adding_failIO [OF f(1) a] failIO_result [OF f(1)] by auto
  qed
  show ?thesis unfolding judge(1) q1
    by (rule inv_deliver [OF i _ own]) (use judge(2) fl a1 adding_discard [OF a1(1)] in \<open>auto simp: keeps_def\<close>)
qed

section \<open>The consumers\<close>

lemma view_readBlock: "readBlock n off len s = (r, s') \<Longrightarrow> view s' = view s"
  unfolding readBlock_def Let_def by (auto split: if_splits prod.splits option.splits dest!: view_pread)

lemma view_fillBlock: "fillBlock n off avail need s = (r, s') \<Longrightarrow> view s' = view s"
  unfolding fillBlock_def Let_def by (auto split: if_splits prod.splits sum.splits dest!: view_readBlock)

lemma view_frameHeader: "frameHeader n off avail s = (r, s') \<Longrightarrow> view s' = view s"
  unfolding frameHeader_def Let_def by (auto split: if_splits prod.splits sum.splits dest!: view_fillBlock)

lemma view_recordAt: "recordAt n off s = (r, s') \<Longrightarrow> view s' = view s"
  unfolding recordAt_def Let_def
  by (auto split: if_splits prod.splits sum.splits option.splits dest!: view_frameHeader view_fillBlock)

lemma view_read: "read off s = (r, s') \<Longrightarrow> view s' = view s"
  unfolding read_def
  by (auto split: if_splits prod.splits sum.splits option.splits dest!: core_ensureOpen core_imp_view view_recordAt)

lemma takeHead_cursor:
  assumes ok: "queue_ok xx s" and pc: "pendingCorrupt s = 0" and t: "takeHead xx s = (r, s')"
  obtains s1 where "view s1 = view s" "s' = s1 \<or> (\<exists>a b c k. s' = s1\<lparr>lastFrameAt := a, lastFrameEnd := b, headOff := c, nDelivered := k\<rparr>)"
proof (cases "headOff s = writeOff s")
  case True
  then have "read (headOff s) s = (Inr None, s)" by (simp add: read_def)
  then have "s' = s" using t pc by (simp add: takeHead_def)
  then show ?thesis using that [OF refl] by blast
next
  case False
  then have "headOff s \<in> fst ` set (flat xx s)" using queue_okD(8) [OF ok] by (simp add: boundary_def)
  then obtain p where p: "(headOff s, p) \<in> set (flat xx s)" by auto
  obtain r1 s1 where 1: "read (headOff s) s = (r1, s1)" by force
  let ?n = "headOff s + framedLen (length p)"
  from read_spec [OF ok p 1] consider "r1 = Inr (Some (p, unat (xx p), ?n))" | x where "r1 = Inl (Errno x)" by blast
  then show ?thesis
  proof cases
    case 1
    then have "s' = s1\<lparr>lastFrameAt := headOff s1, lastFrameEnd := ?n, headOff := ?n, nDelivered := nDelivered s1 + 1\<rparr>"
      using t pc \<open>read (headOff s) s = (r1, s1)\<close> by (simp add: takeHead_def)
    then show ?thesis using that [OF view_read [OF \<open>read (headOff s) s = (r1, s1)\<close>]] by blast
  next
    case 2
    then have "s' = s1" using t pc \<open>read (headOff s) s = (r1, s1)\<close> by (simp add: takeHead_def take_unreadable_def)
    then show ?thesis using that [OF view_read [OF \<open>read (headOff s) s = (r1, s1)\<close>]] by blast
  qed
qed

lemma adding_takeHead:
  assumes a: "adding xx fl qs s" and pc: "pendingCorrupt s = 0" and t: "takeHead xx s = (r, s')"
  shows "adding xx fl qs s' \<and> backlog xx s' = backlog xx s"
proof -
  have ok: "queue_ok xx s" using a by (simp add: adding_def)
  obtain s1 where v: "view s1 = view s"
      and s': "s' = s1 \<or> (\<exists>a b c k. s' = s1\<lparr>lastFrameAt := a, lastFrameEnd := b, headOff := c, nDelivered := k\<rparr>)"
    by (rule takeHead_cursor [OF ok pc t])
  note f = view_eq_fields [OF v] view_eq_df_fields [OF v]
  have "files s' = files s" using s' f by auto
  then have act: "active s' = active s" by (rule active_cong)
  have "staged_as xx fl qs s'" using a s' act by (auto simp: adding_def staged_as_def written_at_def f)
  then show ?thesis using takeHead_outcome [OF ok pc t] a s' by (auto simp: adding_def f)
qed

section \<open>Properties\<close>

text \<open>A well formed queue on which no call has started and nothing is staged.\<close>

definition fresh_sys :: "hash \<Rightarrow> sys \<Rightarrow> bool" where
  "fresh_sys xx S \<longleftrightarrow> adding xx [] [] (st (sq S)) \<and> \<not> flushing (sq S) \<and> slots (sq S) = [] \<and> quiesceWant (sq S) = 0 \<and>
     (\<forall>c. \<not> closedCh (sq S) c) \<and> (\<forall>t. ph S t = Idle) \<and> inflight S = [] \<and> pend S = [] \<and> log S = []"

lemma reach_inv:
  assumes f: "fresh_sys xx S0" and r: "reach xx S0 S"
  shows "inv xx (backlog xx (st (sq S0))) S"
  using r
proof induction
  case init
  have "led S0 = {}" "settlers S0 = {}" using f by (simp_all add: fresh_sys_def led_def settlers_def)
  moreover have "curGroup (sq S0) = None" using f by (cases "curGroup (sq S0)") (simp_all add: fresh_sys_def slots_def)
  ultimately show ?case using f
    by (intro invI) (simp_all add: fresh_sys_def data_ok_def chan_ok_def ctl_ok_def thread_ok_def)
next
  case (thread S t S1)
  then show ?case using inv_tstep by blast
next
  case (take_head S r q1)
  obtain s1 where 1: "takeHead xx (st (sq S)) = (r, s1)" "q1 = (sq S)\<lparr>st := s1\<rparr>"
    using take_head(3) by (auto simp: on_store_def split: prod.splits)
  have "adding xx (map snd (inflight S)) (map snd (pend S)) (st (sq S))" using invD(1) [OF take_head.IH] by (simp add: data_ok_def)
  from adding_takeHead [OF this take_head(2) 1(1)] show ?case unfolding 1(2) using inv_store [OF take_head.IH] by blast
qed

text \<open>
  C12: group commit: in every interleaving of any number of concurrent calls of \<open>Add\<close> under
  per-operation durability, with consumers taking the head record meanwhile and any pattern of I/O
  failures, the queue is what it was followed by the records of the log, a call that returned
  without an error has its record there, and no call is there twice.  It starts from a well
  formed queue, empty or not, with nothing staged and no call waiting, and covers every run in
  which no call leaves the queue stranded (the first finding); commits, acknowledgements,
  \<open>Sync\<close>, \<open>Close\<close> and \<open>AddBatch\<close> are not among the steps.
\<close>

theorem group_commit_safe:
  assumes "fresh_sys xx S0" "reach xx S0 S"
  shows "queue_ok xx (st (sq S)) \<and> backlog xx (st (sq S)) = backlog xx (st (sq S0)) @ map snd (log S) \<and>
    distinct (map fst (log S)) \<and> (\<forall>t p. ph S t = Returned p None \<longrightarrow> (t, p) \<in> set (log S))"
proof -
  note i = reach_inv [OF assms]
  have "(t, p) \<in> set (log S)" if "ph S t = Returned p None" for t p using inv_phase_of [OF i that] by simp
  then show ?thesis using invD(1) [OF i] by (auto simp: data_ok_def adding_def)
qed

definition sample_sys :: sys where
  "sample_sys = \<lparr>sq = new_queue False False sample, ph = (\<lambda>_. Idle), inflight = [], pend = [], log = []\<rparr>"

text \<open>The same system once one call has staged its record and leads a flush.\<close>

definition sample_led :: sys where
  "sample_led = dispatch 0 [9, 9] AddLead (snd (addDurableLocked (\<lambda>_. 5) [9, 9] False (new_queue False False sample))) sample_sys"

lemma sample_lead: "fst (addDurableLocked (\<lambda>_. 5) [9, 9] False (new_queue False False sample)) = Some AddLead"
  by code_simp

lemma sample_sys_fresh: "fresh_sys (\<lambda>_. 5) sample_sys"
proof -
  show ?thesis using sample_ok sample_append(2) sample_staged
    by (simp add: fresh_sys_def sample_sys_def new_queue_def adding_def sample_fields slots_def)
qed

lemma sample_led_reach: "reach (\<lambda>_. 5) sample_sys sample_led" "\<exists>g af m. ph sample_led 0 = DataSync [9, 9] g af m"
proof -
  obtain q1 where q1: "addDurableLocked (\<lambda>_. 5) [9, 9] False (new_queue False False sample) = (Some AddLead, q1)"
    using sample_lead by (metis prod.collapse)
  then have s: "tstep (\<lambda>_. 5) 0 sample_sys sample_led"
    unfolding sample_led_def q1 snd_conv by (intro tstep.start) (simp_all add: sample_sys_def q1)
  have "inv (\<lambda>_. 5) (backlog (\<lambda>_. 5) (st (sq sample_sys))) sample_led"
    unfolding sample_led_def q1 snd_conv
    by (rule inv_dispatch [OF reach_inv [OF sample_sys_fresh reach.init]]) (simp_all add: sample_sys_def q1)
  then have "queue_ok (\<lambda>_. 5) (st (sq sample_led))" using invD(1) by (auto simp: data_ok_def adding_def)
  then show "reach (\<lambda>_. 5) sample_sys sample_led" by (intro reach.thread [OF reach.init s] queue_not_stranded)
  show "\<exists>g af m. ph sample_led 0 = DataSync [9, 9] g af m"
    by (simp add: sample_led_def dispatch_def lead_span_def lead_take_def move_def Let_def)
qed

theorem group_commit_safe_witness:
  "queue_ok (\<lambda>_. 5) (st (sq sample_led)) \<and> backlog (\<lambda>_. 5) (st (sq sample_led)) = [1, 2] # [3] # map snd (log sample_led)"
proof -
  have "backlog (\<lambda>_. 5) (st (sq sample_sys)) = [[1, 2], [3]]" using sample_append(8) by (simp add: sample_sys_def new_queue_def)
  then show ?thesis using group_commit_safe [OF sample_sys_fresh sample_led_reach(1)] by simp
qed

text \<open>
  C33: the control state of group commit, in every state the runs of C12 reach (same start, same
  steps, no call leaving the queue stranded): a flush is running exactly when one call leads it,
  and when none is, nothing is staged and no group of followers is waiting to be led.
\<close>

theorem group_commit_control:
  assumes "fresh_sys xx S0" "reach xx S0 S"
  shows "(flushing (sq S) \<longleftrightarrow> (\<exists>!t. lead_group (ph S t) \<noteq> None)) \<and>
    (\<not> flushing (sq S) \<longrightarrow> stagedBytes (st (sq S)) = 0 \<and> curGroup (sq S) = None) \<and>
    quiesceWant (sq S) = int (card {t. \<exists>p ch. ph S t = Settling p ch})"
proof -
  note i = reach_inv [OF assms]
  have c: "ctl_ok S" by (rule invD(3) [OF i])
  have "stagedBytes (st (sq S)) = 0" if "inflight S = []" "pend S = []"
    using invD(1) [OF i] that by (simp add: data_ok_def adding_def staged_none stagedBytes_def)
  moreover have "flushing (sq S) \<longleftrightarrow> (\<exists>!t. lead_group (ph S t) \<noteq> None)" using c unfolding ctl_ok_def by metis
  ultimately show ?thesis using c unfolding ctl_ok_def settlers_def by auto
qed

theorem group_commit_control_witness:
  "fresh_sys (\<lambda>_. 5) sample_sys \<and> reach (\<lambda>_. 5) sample_sys sample_led \<and> flushing (sq sample_led)"
proof -
  have "ph sample_led t = Idle" if "t \<noteq> 0" for t
    using that by (simp add: sample_led_def sample_sys_def dispatch_def lead_span_def lead_take_def move_def Let_def)
  then have "lead_group (ph sample_led t) \<noteq> None \<longleftrightarrow> t = 0" for t
    using sample_led_reach(2) by (cases "t = 0") auto
  then have "\<exists>!t. lead_group (ph sample_led t) \<noteq> None" by simp
  then show ?thesis using group_commit_control [OF sample_sys_fresh sample_led_reach(1)] sample_sys_fresh sample_led_reach(1) by blast
qed

section \<open>Progress\<close>

lemma addDurable_some:
  assumes "inv xx bl S" "st q = st (sq S)"
  obtains out q1 where "addDurableLocked xx p False q = (Some out, q1)"
proof -
  obtain r q1 where d: "addDurableLocked xx p False q = (r, q1)" by force
  have "adding xx (map snd (inflight S)) (map snd (pend S)) (st q)" using invD(1) [OF assms(1)] assms(2) by (simp add: data_ok_def)
  from addDurable_outcome [OF this d] have "r \<noteq> None" by (cases r) (simp_all add: add_outcome_def)
  then show ?thesis using that d by blast
qed

lemma leader_enabled:
  assumes "lead_group (ph S u) \<noteq> None"
  shows "\<exists>S'. tstep xx u S S'"
proof (cases "ph S u")
  case (DataSync p g af m)
  then show ?thesis using tstep.data [OF DataSync] by (metis surj_pair)
next
  case (DataDone p g af e m)
  obtain r q1 where 1: "lead_publish xx e (sq S) = (r, q1)" by force
  show ?thesis using tstep.publish [OF DataDone, of xx] tstep.refuse [OF DataDone, of xx] 1 by (cases r) blast+
next
  case (HeaderSync p g af m)
  then show ?thesis using tstep.header [OF HeaderSync] by (metis surj_pair)
next
  case (HeaderDone p g af e m)
  then show ?thesis using tstep.judge [OF HeaderDone] by (metis surj_pair)
qed (use assms in simp_all)

lemma settler_enabled:
  assumes i: "inv xx bl S" and f: "\<not> flushing (sq S)" and u: "ph S u = Settling p ch"
  shows "\<exists>S'. tstep xx u S S'"
proof -
  have "closedCh (sq S) ch" using inv_phase_of [OF i u] f by simp
  moreover have "stagedBytes (st (sq S)) = 0"
    using invD(1,3) [OF i] f by (simp add: data_ok_def adding_def staged_none stagedBytes_def ctl_ok_def)
  then have "quiesce_test (sq S) = (None, sq S)" using f by (simp add: quiesce_test_def)
  moreover have "st (quiesce_exit (sq S)) = st (sq S)" by (simp add: quiesce_exit_def Let_def)
  ultimately show ?thesis using tstep.settled [OF u] addDurable_some [OF i] by metis
qed

text \<open>
  C13: no wakeup is lost: in every state the runs of C12 reach (from any well formed queue, empty or
  not, with nothing staged and no call waiting; producers and consumers taking the head; no call
  leaving the queue stranded), whenever a call of \<open>Add\<close> has started and not returned, some call that
  has started can take its next step: every call that waits, for the verdict of a flush group, for
  the flush to settle or for the last settling call to leave, waits for something a runnable
  call will do.
\<close>

theorem group_commit_progress:
  assumes f: "fresh_sys xx S0" and r: "reach xx S0 S" and t: "ph S t \<noteq> Idle" "\<And>p e. ph S t \<noteq> Returned p e"
  shows "\<exists>u S'. ph S u \<noteq> Idle \<and> tstep xx u S S'"
proof (cases "flushing (sq S)")
  case True
  then obtain u where u: "lead_group (ph S u) \<noteq> None" using invD(3) [OF reach_inv [OF f r]] by (auto simp: ctl_ok_def)
  then have "ph S u \<noteq> Idle" by auto
  then show ?thesis using leader_enabled [OF u] by blast
next
  case nf: False
  note i = reach_inv [OF f r]
  have nl: "lead_group (ph S u) = None" for u using invD(3) [OF i] nf by (simp add: ctl_ok_def)
  have cur: "curGroup (sq S) = None" "led S = {}" using invD(3) [OF i] nf nl by (auto simp: ctl_ok_def led_def)
  have settler: ?thesis if "ph S u = Settling p ch" for u p ch
  proof -
    have "ph S u \<noteq> Idle" using that by simp
    then show ?thesis using settler_enabled [OF i nf that] by blast
  qed
  show ?thesis
  proof (cases "ph S t")
    case (Follow p g)
    then have "closedCh (sq S) g" using inv_phase_of [OF i Follow] cur by (auto split: if_splits)
    then show ?thesis using tstep.follow [OF Follow] t(1) by blast
  next
    case (Settling p ch)
    then show ?thesis by (rule settler)
  next
    case (Parked p ch)
    then have "closedCh (sq S) ch \<or> quiesceWant (sq S) > 0" using inv_phase_of [OF i Parked] by auto
    then show ?thesis
    proof
      assume "closedCh (sq S) ch"
      then show ?thesis using tstep.unpark [OF Parked] addDurable_some [OF i refl] t(1) by metis
    next
      assume "quiesceWant (sq S) > 0"
      then have "settlers S \<noteq> {}" using invD(3) [OF i] by (auto simp: ctl_ok_def)
      then show ?thesis using settler by (auto simp: settlers_def)
    qed
  qed (use t nl [of t] in auto)
qed

theorem group_commit_progress_witness: "\<exists>u S'. ph sample_led u \<noteq> Idle \<and> tstep (\<lambda>_. 5) u sample_led S'"
  by (rule group_commit_progress [OF sample_sys_fresh sample_led_reach(1), of 0]) (use sample_led_reach(2) in auto)

end
