(* ===== verification/Session.thy ===== *)
theory Session
  imports Append_Marks Group_Inv "HOL-Library.Sublist"
begin

text \<open>
  The whole life of a record: it is appended, handed out under a reservation, acknowledged, and
  only then dropped.  The interface \<open>acked_log\<close> says what a client of such a log relies on, its
  lemmas follow a record through any sequence of operations, and the interpretation shows that
  the store with its append, reserve, acknowledge and rewind operations is one.
\<close>

section \<open>The interface\<close>

fun enabled_run :: "('o \<Rightarrow> 's \<Rightarrow> bool) \<Rightarrow> ('o \<Rightarrow> 's \<Rightarrow> 's) \<Rightarrow> 'o list \<Rightarrow> 's \<Rightarrow> bool" where
  "enabled_run en step [] s \<longleftrightarrow> True"
| "enabled_run en step (a # as) s \<longleftrightarrow> en a s \<and> enabled_run en step as (step a s)"

fun given_run :: "('o \<Rightarrow> 's \<Rightarrow> 'e list) \<Rightarrow> ('o \<Rightarrow> 's \<Rightarrow> 's) \<Rightarrow> 'o list \<Rightarrow> 's \<Rightarrow> 'e list" where
  "given_run given step [] s = []"
| "given_run given step (a # as) s = given a s @ given_run given step as (step a s)"

text \<open>
  \<open>entries\<close> are the records of the log that are not committed, each with the token that
  acknowledges it, and \<open>ready\<close> those of them that are still to be handed out; \<open>pending\<close> are the
  tokens that were acknowledged and wait for an older record.  What an operation reports to have
  put into the log is \<open>taken\<close>, a part of what it was \<open>offered\<close>.
\<close>

locale acked_log =
  fixes inv :: "'s \<Rightarrow> bool" and en :: "'o \<Rightarrow> 's \<Rightarrow> bool" and step :: "'o \<Rightarrow> 's \<Rightarrow> 's"
    and entries ready :: "'s \<Rightarrow> (int \<times> 'a) list" and pending :: "'s \<Rightarrow> int set"
    and offered :: "'o \<Rightarrow> 'a list" and taken :: "'o \<Rightarrow> 's \<Rightarrow> 'a list" and acks :: "'o \<Rightarrow> int set" and given :: "'o \<Rightarrow> 's \<Rightarrow> (int \<times> 'a) list"
    and rewinds :: "'o \<Rightarrow> bool"
  assumes step_inv: "inv s \<Longrightarrow> en a s \<Longrightarrow> inv (step a s)"
    and step_log: "inv s \<Longrightarrow> en a s \<Longrightarrow> \<exists>gone new. entries s @ new = gone @ entries (step a s) \<and>
      subseq (map snd new) (offered a) \<and> subseq (taken a s) (map snd new) \<and> fst ` set gone \<subseteq> pending s \<union> acks a \<and>
      (\<not> rewinds a \<longrightarrow> ready s @ new = given a s @ ready (step a s))"
    and step_pending: "inv s \<Longrightarrow> en a s \<Longrightarrow> pending (step a s) \<subseteq> pending s \<union> acks a"
    and step_rewind: "inv s \<Longrightarrow> en a s \<Longrightarrow> rewinds a \<Longrightarrow> ready (step a s) = entries (step a s)"
begin

lemma run_inv: "inv s \<Longrightarrow> enabled_run en step as s \<Longrightarrow> inv (fold step as s)"
  by (induction as arbitrary: s) (simp_all add: step_inv)

text \<open>Nothing is lost, duplicated or reordered, and only acknowledged records leave.\<close>

lemma run_log:
  assumes "inv s" "enabled_run en step as s"
  shows "\<exists>gone new. entries s @ new = gone @ entries (fold step as s) \<and> subseq (map snd new) (concat (map offered as)) \<and>
    subseq (given_run taken step as s) (map snd new) \<and> fst ` set gone \<subseteq> pending s \<union> (\<Union>a \<in> set as. acks a) \<and>
    ((\<forall>a \<in> set as. \<not> rewinds a) \<longrightarrow> ready s @ new = given_run given step as s @ ready (fold step as s))"
  using assms
proof (induction as arbitrary: s)
  case Nil
  show ?case by (intro exI [of _ "[]"]) simp
next
  case (Cons a as)
  have i: "inv s" "en a s" "inv (step a s)" "enabled_run en step as (step a s)" using Cons.prems step_inv by auto
  obtain g1 n1 where 1: "entries s @ n1 = g1 @ entries (step a s)" "subseq (map snd n1) (offered a)"
    "fst ` set g1 \<subseteq> pending s \<union> acks a" "subseq (taken a s) (map snd n1)" "\<not> rewinds a \<Longrightarrow> ready s @ n1 = given a s @ ready (step a s)"
    using step_log [OF i(1,2)] by metis
  obtain g2 n2 where 2: "entries (step a s) @ n2 = g2 @ entries (fold step as (step a s))"
    "subseq (map snd n2) (concat (map offered as))" "fst ` set g2 \<subseteq> pending (step a s) \<union> (\<Union>a \<in> set as. acks a)" "subseq (given_run taken step as (step a s)) (map snd n2)"
    "\<forall>a \<in> set as. \<not> rewinds a \<Longrightarrow> ready (step a s) @ n2 = given_run given step as (step a s) @ ready (fold step as (step a s))"
    using Cons.IH [OF i(3,4)] by metis
  have "entries s @ (n1 @ n2) = (g1 @ g2) @ entries (fold step (a # as) s)" using 1(1) 2(1) by (metis append.assoc fold_simps(2))
  moreover have "subseq (map snd (n1 @ n2)) (concat (map offered (a # as)))" using list_emb_append_mono [OF 1(2) 2(2)] by simp
  moreover have "subseq (given_run taken step (a # as) s) (map snd (n1 @ n2))" using list_emb_append_mono [OF 1(4) 2(4)] by simp
  moreover have "fst ` set (g1 @ g2) \<subseteq> pending s \<union> (\<Union>a \<in> set (a # as). acks a)"
    using 1(3) 2(3) step_pending [OF i(1,2)] by (auto simp: image_Un)
  moreover have "ready s @ (n1 @ n2) = given_run given step (a # as) s @ ready (fold step (a # as) s)" if "\<forall>b \<in> set (a # as). \<not> rewinds b"
    using 1(5) 2(5) that by (metis append.assoc fold_simps(2) given_run.simps(2) list.set_intros(1,2))
  ultimately show ?case by blast
qed

text \<open>A rewind offers every record again that was not committed.\<close>

lemma run_rewind:
  assumes "inv s" "enabled_run en step (as @ [a]) s" "rewinds a"
  shows "ready (fold step (as @ [a]) s) = entries (fold step (as @ [a]) s)"
proof -
  have "en a (fold step as s) \<and> enabled_run en step as s" using assms(2) by (induction as arbitrary: s) auto
  then show ?thesis using step_rewind [OF run_inv [OF assms(1)] _ assms(3)] by simp
qed

end

section \<open>Records and tokens\<close>

lemma chain_offs_all: "chain c at fl w \<Longrightarrow> c < at \<Longrightarrow> fl = offs at (map snd fl) \<and> w = at + int (length (frames xx (map snd fl)))"
proof (induction fl arbitrary: at)
  case (Cons x fl)
  obtain q p where x: "x = (q, p)" by force
  have q: "q = at" "chain c (at + framedLen (length p)) fl w" using Cons.prems x by auto
  have "c < at + framedLen (length p)" using Cons.prems(2) framedLen_gt0 [of "length p"] by linarith
  from Cons.IH [OF q(2) this] show ?case using x q(1) by (simp add: length_frame)
qed auto

lemma flat_from:
  assumes ok: "queue_ok xx s" and b: "boundary xx s c" "commitOff s \<le> c"
  shows "filter (\<lambda>(q, p). c \<le> q) (flat xx s) = offs c (from_off c (flat xx s))"
    "c + int (length (frames xx (from_off c (flat xx s)))) = writeOff s"
proof -
  obtain at where ch: "chain (commitOff s) at (flat xx s) (writeOff s)" using flat_chain [OF ok] .
  have "filter (\<lambda>(q, p). c \<le> q) (flat xx s) = offs c (from_off c (flat xx s)) \<and> c + int (length (frames xx (from_off c (flat xx s)))) = writeOff s"
  proof (cases "c \<in> fst ` set (flat xx s)")
    case True
    obtain p xs ys where h: "flat xx s = xs @ (c, p) # ys" "\<forall>x \<in> set xs. fst x < c" "chain (commitOff s) (c + framedLen (length p)) ys (writeOff s)"
      using chain_split [OF ch True b(2)] by metis
    have lt: "commitOff s < c + framedLen (length p)" using b(2) framedLen_gt0 [of "length p"] by linarith
    note o = chain_offs_all [OF h(3) lt, of xx]
    have "filter (\<lambda>(q, p). c \<le> q) xs = []" using h(2) by (fastforce simp: filter_empty_conv)
    moreover have "c \<le> fst y" if "y \<in> set ys" for y
    proof -
      have "c + framedLen (length p) \<le> fst y" using chain_bounds [OF h(3), of "fst y" "snd y"] that by simp
      then show ?thesis using framedLen_gt0 [of "length p"] by linarith
    qed
    then have "filter (\<lambda>(q, p). c \<le> q) ys = ys" by (auto simp: filter_id_conv)
    ultimately have "filter (\<lambda>(q, p). c \<le> q) (flat xx s) = (c, p) # ys" by (simp add: h(1))
    then show ?thesis using o by (simp add: from_off_def length_frame)
  next
    case False
    then have "c = writeOff s" using b(1) by (simp add: boundary_def)
    moreover have "from_off (writeOff s) (flat xx s) = []" by (rule from_off_end [OF ok])
    ultimately show ?thesis by (simp add: from_off_def)
  qed
  then show "filter (\<lambda>(q, p). c \<le> q) (flat xx s) = offs c (from_off c (flat xx s))"
    "c + int (length (frames xx (from_off c (flat xx s)))) = writeOff s" by blast+
qed

text \<open>The token of a record is the offset past it.\<close>

definition tokens :: "int \<Rightarrow> bytes list \<Rightarrow> (int \<times> bytes) list" where
  "tokens b ps = map (\<lambda>(q, p). (q + framedLen (length p), p)) (offs b ps)"

definition log_of :: "hash \<Rightarrow> store \<Rightarrow> (int \<times> bytes) list" where
  "log_of xx s = tokens (commitOff s) (backlog xx s)"

definition ready_of :: "hash \<Rightarrow> store \<Rightarrow> (int \<times> bytes) list" where
  "ready_of xx s = tokens (headOff s) (unread xx s)"

lemma tokens_append: "tokens b (ps @ qs) = tokens b ps @ tokens (b + int (length (frames xx ps))) qs"
  by (simp add: tokens_def offs_append [where xx = xx])

lemma map_snd_tokens [simp]: "map snd (tokens b ps) = ps"
  unfolding tokens_def by (induction ps arbitrary: b) simp_all

lemma token_frames:
  assumes "queue_ok xx s"
  shows "commitOff s + int (length (frames xx (backlog xx s))) = writeOff s" "headOff s + int (length (frames xx (unread xx s))) = writeOff s"
  using flat_from(2) [OF assms queue_okD(7) [OF assms] order_refl] flat_from(2) [OF assms queue_okD(8) [OF assms] queue_okD(5) [OF assms]]
  by (simp_all add: backlog_def unread_def)

lemma in_log:
  assumes "queue_ok xx s"
  shows "(q, p) \<in> set (offs (commitOff s) (backlog xx s)) \<longleftrightarrow> (q, p) \<in> set (flat xx s) \<and> commitOff s \<le> q"
  using flat_from(1) [OF assms queue_okD(7) [OF assms] order_refl, symmetric] by (auto simp: backlog_def)

text \<open>A boundary cuts the backlog in two.\<close>

lemma backlog_cut:
  assumes ok: "queue_ok xx s" and b: "boundary xx s c" "commitOff s \<le> c"
  obtains gp where "backlog xx s = gp @ from_off c (flat xx s)" "commitOff s + int (length (frames xx gp)) = c"
proof -
  obtain at where ch: "chain (commitOff s) at (flat xx s) (writeOff s)" using flat_chain [OF ok] .
  have "\<exists>gp. backlog xx s = gp @ from_off c (flat xx s)"
  proof (cases "c \<in> fst ` set (flat xx s)")
    case True
    obtain p xs ys where h: "flat xx s = xs @ (c, p) # ys" "\<forall>x \<in> set xs. fst x < c" "chain (commitOff s) (c + framedLen (length p)) ys (writeOff s)"
      using chain_split [OF ch True b(2)] by metis
    have y: "c \<le> fst y" if "y \<in> set ((c, p) # ys)" for y
    proof (cases "y = (c, p)")
      case False
      then have "c + framedLen (length p) \<le> fst y" using chain_bounds [OF h(3), of "fst y" "snd y"] that by simp
      then show ?thesis using framedLen_gt0 [of "length p"] by linarith
    qed simp
    then have "commitOff s \<le> fst y" if "y \<in> set ((c, p) # ys)" for y using b(2) that by fastforce
    then have "from_off (commitOff s) ((c, p) # ys) = map snd ((c, p) # ys)" "from_off c ((c, p) # ys) = map snd ((c, p) # ys)"
      using y by (intro from_off_all; blast)+
    moreover have "from_off c xs = []" using h(2) by (intro from_off_none) simp
    ultimately show ?thesis unfolding backlog_def h(1) from_off_append by simp
  next
    case False
    then have "c = writeOff s" using b(1) by (simp add: boundary_def)
    then show ?thesis using from_off_end [OF ok] by simp
  qed
  then obtain gp where gp: "backlog xx s = gp @ from_off c (flat xx s)" by blast
  have "int (length (frames xx (backlog xx s))) = int (length (frames xx gp)) + int (length (frames xx (from_off c (flat xx s))))"
    unfolding gp by simp
  then have "commitOff s + int (length (frames xx gp)) = c" using token_frames(1) [OF ok] flat_from(2) [OF ok b] by linarith
  then show ?thesis using gp that by blast
qed

lemma offs_below: "(q, p) \<in> set (offs b ps) \<Longrightarrow> q + framedLen (length p) \<le> b + int (length (frames xx ps))"
proof (induction ps arbitrary: b)
  case (Cons y ps)
  then show ?case by (fastforce simp: length_frame)
qed simp

section \<open>The store as a log\<close>

datatype request =
    DoAppend bytes bool
  | DoReserve
  | DoAck int
  | DoRewind

fun perform :: "hash \<Rightarrow> request \<Rightarrow> store \<Rightarrow> store" where
  "perform xx (DoAppend p force) s = snd (appendRecord xx p force s)"
| "perform xx DoReserve s = (case takeHead xx s of (Inr (Some _), s1) \<Rightarrow> trackReserve s1 | (_, s1) \<Rightarrow> s1)"
| "perform xx (DoAck fin) s = snd (ackTo xx fin s)"
| "perform xx DoRewind s = snd (rewindToCommit s)"

text \<open>
  An append is admitted when it does not leave the queue stranded, which it can only do by failing
  with everything committed, and when the record is not within a header of the largest file size.
\<close>

fun admits :: "hash \<Rightarrow> request \<Rightarrow> store \<Rightarrow> bool" where
  "admits xx (DoAppend p force) s \<longleftrightarrow>
     \<not> stranded (snd (appendRecord xx p force s)) \<and> int headerSize + framedLen (length p) < 2 ^ 63"
| "admits xx _ s \<longleftrightarrow> True"

fun offer :: "request \<Rightarrow> bytes list" where
  "offer (DoAppend p force) = [p]"
| "offer _ = []"

text \<open>The payloads an operation reports to have appended.\<close>

fun accepted :: "hash \<Rightarrow> request \<Rightarrow> store \<Rightarrow> bytes list" where
  "accepted xx (DoAppend p force) s = (if fst (appendRecord xx p force s) = Inr () then [p] else [])"
| "accepted xx _ s = []"

fun acks_of :: "request \<Rightarrow> int set" where
  "acks_of (DoAck fin) = {fin}"
| "acks_of _ = {}"

fun handed :: "hash \<Rightarrow> request \<Rightarrow> store \<Rightarrow> (int \<times> bytes) list" where
  "handed xx DoReserve s = (case fst (takeHead xx s) of Inr (Some (p, fin)) \<Rightarrow> [(fin, p)] | _ \<Rightarrow> [])"
| "handed xx _ s = []"

definition pending_of :: "store \<Rightarrow> int set" where
  "pending_of s = r_end ` {r \<in> set (reserved s). r_acked r}"

text \<open>Every reservation is the extent of a record that was handed out, or of one already committed.\<close>

definition ledger_fit :: "hash \<Rightarrow> store \<Rightarrow> bool" where
  "ledger_fit xx s \<longleftrightarrow> ledger_ok (reserved s) \<and>
     (\<forall>r \<in> set (reserved s). \<not> r_corrupt r \<and> r_end r \<le> headOff s \<and>
        (commitOff s \<le> r_start r \<longrightarrow>
           (\<exists>p. (r_start r, p) \<in> set (offs (commitOff s) (backlog xx s)) \<and> r_end r = r_start r + framedLen (length p))))"

definition session_ok :: "hash \<Rightarrow> store \<Rightarrow> bool" where
  "session_ok xx s \<longleftrightarrow> commit_ok xx s \<and> stagedBytes s = 0 \<and> int headerSize + segmentSize s < 2 ^ 63 \<and>
     pendingCorrupt s = 0 \<and> ledger_fit xx s"

lemma session_okD:
  assumes "session_ok xx s"
  shows "commit_ok xx s" "queue_ok xx s" "marks_ok xx s" "stagedBytes s = 0" "int headerSize + segmentSize s < 2 ^ 63"
    "pendingCorrupt s = 0" "ledger_fit xx s"
  using assms by (simp_all add: session_ok_def commit_ok_alt)

lemma session_options:
  "options s' = options s \<Longrightarrow> stagedBytes s' = stagedBytes s \<and> segmentSize s' = segmentSize s \<and> pendingCorrupt s' = pendingCorrupt s"
  by (simp add: options_def stagedBytes_def)

subsection \<open>Appending\<close>

lemma append_session:
  assumes i: "session_ok xx s" and e: "admits xx (DoAppend p force) s"
  defines "s' \<equiv> perform xx (DoAppend p force) s"
  shows "session_ok xx s' \<and> pending_of s' = pending_of s \<and> commitOff s' = commitOff s \<and>
    (\<exists>new. log_of xx s' = log_of xx s @ new \<and> ready_of xx s' = ready_of xx s @ new \<and> subseq (map snd new) [p] \<and>
      subseq (accepted xx (DoAppend p force) s) (map snd new))"
proof -
  note D = session_okD [OF i]
  have seg: "segmentSize s < 2 ^ 63" using D(5) by (simp add: headerSize_def)
  obtain r where a: "appendRecord xx p force s = (r, s')" unfolding s'_def by (simp add: prod_eq_iff)
  have st: "settings s' = settings s" by (rule appendRecord_settings [OF D(2,4) seg a])
  then have f: "options s' = options s" "commitOff s' = commitOff s" "headOff s' = headOff s" "reserved s' = reserved s"
    by (simp_all add: settings_def)
  have ns: "\<not> stranded s'" using e a by simp
  have "append_outcome xx p s r s'" by (rule appendRecord_kept [OF D(2,4) seg a ns])
  then obtain ps where ps: "ps = [] \<or> ps = [p]" "appended xx ps s s'" "r = Inr () \<longrightarrow> ps = [p]"
    by (cases r) (auto simp: append_outcome_def)
  have c: "commit_ok xx s'" using commit_ok_append [OF D(1,4,5) _ a ns] e by simp
  have "ledger_fit xx s'"
    using D(7) ps(2) by (fastforce simp: ledger_fit_def f appended_def offs_append [where xx = xx])
  then have "session_ok xx s'" using c session_options [OF f(1)] D by (simp add: session_ok_def)
  moreover have "log_of xx s' = log_of xx s @ tokens (writeOff s) ps" "ready_of xx s' = ready_of xx s @ tokens (writeOff s) ps"
    using ps(2) token_frames [OF D(2)] by (simp_all add: log_of_def ready_of_def appended_def f tokens_append [where xx = xx])
  moreover have "subseq (map snd (tokens (writeOff s) ps)) [p]" "subseq (accepted xx (DoAppend p force) s) (map snd (tokens (writeOff s) ps))"
    using ps(1,3) a by auto
  ultimately show ?thesis by (auto simp: pending_of_def f)
qed

subsection \<open>Reserving\<close>

lemma marks_ok_frame [simp]:
  "marks_ok xx (s\<lparr>reserved := a\<rparr>) = marks_ok xx s" "marks_ok xx (s\<lparr>headOff := b\<rparr>) = marks_ok xx s"
  "marks_ok xx (s\<lparr>lastFrameAt := b\<rparr>) = marks_ok xx s" "marks_ok xx (s\<lparr>lastFrameEnd := b\<rparr>) = marks_ok xx s"
  "marks_ok xx (s\<lparr>nDelivered := b\<rparr>) = marks_ok xx s"
  by (simp_all add: marks_ok_def marked_def done_in_def seg_flat_def recs_of_def data_of_def)

lemma reserved_frame [simp]:
  "queue_ok xx (s\<lparr>reserved := a\<rparr>) = queue_ok xx s" "commit_ok xx (s\<lparr>reserved := a\<rparr>) = commit_ok xx s"
  "backlog xx (s\<lparr>reserved := a\<rparr>) = backlog xx s" "unread xx (s\<lparr>reserved := a\<rparr>) = unread xx s"
  "stagedBytes (s\<lparr>reserved := a\<rparr>) = stagedBytes s"
  by (simp_all add: commit_ok_alt queue_ok_parts backlog_def unread_def stagedBytes_def)

lemma session_reserved:
  assumes "session_ok xx s" "ledger_fit xx (s\<lparr>reserved := rs\<rparr>)"
  shows "session_ok xx (s\<lparr>reserved := rs\<rparr>)"
  using assms by (simp add: session_ok_def)

lemma takeHead_state:
  assumes ok: "queue_ok xx s" and pc: "pendingCorrupt s = 0" and t: "takeHead xx s = (r, s')"
  obtains (got) s1 p n k where "quiet s s1" "r = Inr (Some (p, n))"
      "s' = s1\<lparr>lastFrameAt := headOff s, lastFrameEnd := n, headOff := n, nDelivered := k\<rparr>"
  | (none) "quiet s s'" "\<And>x. r \<noteq> Inr (Some x)"
proof (cases "headOff s = writeOff s")
  case True
  then have "read (headOff s) s = (Inr None, s)" by (simp add: read_def)
  then have "r = Inr None" "s' = s" using t pc by (simp_all add: takeHead_def)
  then show ?thesis using none by simp
next
  case False
  then obtain p where p: "(headOff s, p) \<in> set (flat xx s)" using queue_okD(8) [OF ok] by (auto simp: boundary_def)
  obtain r1 s1 where 1: "read (headOff s) s = (r1, s1)" by force
  note sp = read_spec [OF ok p 1]
  have q: "quiet s s1" using sp by simp
  then have h: "headOff s1 = headOff s" using shape_eq_fields [of s1 s] by (simp add: quiet_def)
  from sp consider "r1 = Inr (Some (p, unat (xx p), headOff s + framedLen (length p)))" | x where "r1 = Inl (Errno x)" by blast
  then show ?thesis
  proof cases
    case 1
    then show ?thesis using t pc \<open>read (headOff s) s = (r1, s1)\<close> h got [OF q] by (auto simp: takeHead_def)
  next
    case 2
    then have "r = Inl (Errno x)" "s' = s1" using t pc 1 by (simp_all add: takeHead_def take_unreadable_def)
    then show ?thesis using none q by simp
  qed
qed

lemma ledger_ok_snoc:
  assumes "ledger_ok rs" "\<And>r. r \<in> set rs \<Longrightarrow> r_end r \<le> a" "a < b"
  shows "ledger_ok (rs @ [new_reservation a b])"
proof -
  obtain x where x: "ledger_chain x rs" using assms(1) by (auto simp: ledger_ok_def)
  then have "ledger_chain (min x a) (rs @ [new_reservation a b])"
    using assms(2,3) ledger_chain_mono [OF x, of "min x a"] by (auto simp: ledger_chain_append new_reservation_def)
  then show ?thesis by (auto simp: ledger_ok_def)
qed

lemma retired_sub: "set (reserved (dropRetired s)) \<subseteq> set (reserved s)"
  by (auto simp: dropRetired_def dest: set_dropWhileD)

lemma ledger_fit_drop: "ledger_fit xx s \<Longrightarrow> ledger_fit xx (dropRetired s)"
  using ledger_ok_dropRetired [of s] retired_sub [of s] by (auto simp: ledger_fit_def dropRetired_def)

lemma take_session:
  assumes i: "session_ok xx s" and t: "takeHead xx s = (r, t)"
  shows "session_ok xx t \<and> commitOff t = commitOff s \<and> reserved t = reserved s \<and> backlog xx t = backlog xx s \<and> options t = options s \<and>
    files t = files s \<and>
    (case r of
       Inr (Some (p, n)) \<Rightarrow> unread xx s = p # unread xx t \<and> n = headOff s + framedLen (length p) \<and> headOff t = n \<and>
         lastFrameAt t = headOff s \<and> lastFrameEnd t = n
     | _ \<Rightarrow> unread xx t = unread xx s \<and> headOff t = headOff s)"
proof -
  note D = session_okD [OF i]
  note ref = takeHead_outcome [OF D(2,6) t]
  show ?thesis
  proof (cases rule: takeHead_state [OF D(2,6) t, case_names got none])
    case none
    have sh: "shape t = shape s" using none(1) by (simp add: quiet_def)
    note f = shape_eq_fields [OF sh]
    have ub: "unread xx t = unread xx s" "backlog xx t = backlog xx s" using quiet_flat(3,4) [OF none(1)] by simp_all
    then have "ledger_fit xx t" using D(7) by (simp add: ledger_fit_def f)
    then have "session_ok xx t"
      using ref marks_ok_quiet [OF none(1)] D session_options [OF options_quiet [OF none(1)]] by (simp add: session_ok_def commit_ok_alt)
    then show ?thesis using none(2) ub f options_quiet [OF none(1)] by (auto split: sum.splits option.splits)
  next
    case (got s1 p n k)
    obtain q qs where u: "unread xx s = q # qs" using ref got(2) by (cases "unread xx s") auto
    then have g: "p = q" "n = headOff s + framedLen (length q)" "unread xx t = qs" "headOff t = n" "queue_ok xx t" "backlog xx t = backlog xx s"
      using ref got(2) by auto
    have sh: "shape s1 = shape s" using got(1) by (simp add: quiet_def)
    note f = shape_eq_fields [OF sh]
    have tf: "commitOff t = commitOff s" "reserved t = reserved s" "lastFrameAt t = headOff s" "lastFrameEnd t = n" "files t = files s"
      using f by (simp_all add: got(3))
    have ot: "options t = options s" using options_quiet [OF got(1)] by (simp add: got(3) options_def)
    have fit: "ledger_fit xx t" using D(7) g(2) framedLen_gt0 [of "length q"] by (fastforce simp: ledger_fit_def tf g(4,6) simp del: framedLen_gt0)
    have "session_ok xx t"
      using g(5) marks_ok_quiet [OF got(1)] D fit session_options [OF ot] by (simp add: session_ok_def commit_ok_alt) (simp add: got(3))
    then show ?thesis using tf ot g u got(2) by simp
  qed
qed

text \<open>The record at the read cursor joins the ledger as a reservation, acknowledged or not.\<close>

lemma reserve_ledger:
  assumes i: "session_ok xx s" and u: "unread xx s = p # qs"
    and t: "session_ok xx t" "commitOff t = commitOff s" "set (reserved t) \<subseteq> set (reserved s)" "headOff s + framedLen (length p) \<le> headOff t"
      "\<And>x. x \<in> set (offs (commitOff s) (backlog xx s)) \<Longrightarrow> x \<in> set (offs (commitOff t) (backlog xx t))"
  shows "session_ok xx (t\<lparr>reserved := reserved (dropRetired t) @ [(new_reservation (headOff s) (headOff s + framedLen (length p)))\<lparr>r_acked := a\<rparr>]\<rparr>)"
proof -
  note D = session_okD [OF i]
  let ?n = "headOff s + framedLen (length p)" and ?rs = "reserved (dropRetired t)"
  have lt: "headOff s < ?n" by simp
  have old: "r_end x \<le> headOff s" if "x \<in> set ?rs" for x
    using retired_sub [of t] that D(7) t(3) by (auto simp: ledger_fit_def)
  have fit_d: "ledger_fit xx (dropRetired t)" by (rule ledger_fit_drop [OF session_okD(7) [OF t(1)]])
  have "(headOff s, p) \<in> set (filter (\<lambda>(x, p). headOff s \<le> x) (flat xx s))"
    using flat_from(1) [OF D(2) queue_okD(8) [OF D(2)] queue_okD(5) [OF D(2)]] u by (simp add: unread_def)
  then have "(headOff s, p) \<in> set (offs (commitOff s) (backlog xx s))" using in_log [OF D(2)] queue_okD(5) [OF D(2)] by simp
  then have m: "(headOff s, p) \<in> set (offs (commitOff t) (backlog xx t))" by (rule t(5))
  have "ledger_ok (?rs @ [new_reservation (headOff s) ?n])" using fit_d ledger_ok_snoc [OF _ old lt] by (simp add: ledger_fit_def)
  then have "ledger_ok (?rs @ [(new_reservation (headOff s) ?n)\<lparr>r_acked := a\<rparr>])"
    by (auto simp: ledger_ok_def ledger_chain_append)
  then have "ledger_fit xx (t\<lparr>reserved := ?rs @ [(new_reservation (headOff s) ?n)\<lparr>r_acked := a\<rparr>]\<rparr>)"
    using fit_d m t(4) by (auto simp: ledger_fit_def dropRetired_def new_reservation_def)
  then show ?thesis by (rule session_reserved [OF t(1)])
qed

lemma reserve_session:
  assumes i: "session_ok xx s"
  defines "s' \<equiv> perform xx DoReserve s"
  shows "session_ok xx s' \<and> pending_of s' \<subseteq> pending_of s \<and> commitOff s' = commitOff s \<and> log_of xx s' = log_of xx s \<and>
    ready_of xx s = handed xx DoReserve s @ ready_of xx s'"
proof -
  obtain r t where t: "takeHead xx s = (r, t)" by force
  note T = take_session [OF i t]
  show ?thesis
  proof (cases "\<exists>p n. r = Inr (Some (p, n))")
    case False
    then have s': "s' = t" "handed xx DoReserve s = []" using t by (auto simp: s'_def split: sum.splits option.splits)
    have "unread xx t = unread xx s \<and> headOff t = headOff s" using T False by (auto split: sum.splits option.splits)
    then show ?thesis using T by (simp add: s' pending_of_def log_of_def ready_of_def del: handed.simps)
  next
    case True
    then obtain p n where r: "r = Inr (Some (p, n))" by blast
    then have g: "unread xx s = p # unread xx t" "n = headOff s + framedLen (length p)" "headOff t = n" "lastFrameAt t = headOff s" "lastFrameEnd t = n"
      using T by simp_all
    have s': "s' = t\<lparr>reserved := reserved (dropRetired t) @ [new_reservation (headOff s) n]\<rparr>" "handed xx DoReserve s = [(n, p)]"
      using t r g by (simp_all add: s'_def trackReserve_def Let_def dropRetired_def)
    have na: "(new_reservation x y)\<lparr>r_acked := False\<rparr> = new_reservation x y" for x y by (simp add: new_reservation_def)
    have "session_ok xx s'"
      using reserve_ledger [OF i g(1), of t False] T g(2,3) unfolding s' na by simp
    moreover have "pending_of s' \<subseteq> pending_of s"
      using retired_sub [of t] T unfolding s' pending_of_def by (auto simp: new_reservation_def)
    moreover have "log_of xx s' = log_of xx s" "commitOff s' = commitOff s" using T by (simp_all add: s' log_of_def)
    moreover have "ready_of xx s = handed xx DoReserve s @ ready_of xx s'" using g s'(2) by (simp add: s'(1) ready_of_def tokens_def)
    ultimately show ?thesis by blast
  qed
qed

subsection \<open>Acknowledging\<close>

lemma options_reserved [simp]: "options (s\<lparr>reserved := rs\<rparr>) = options s"
  by (simp add: options_def)

lemma session_drop:
  assumes "session_ok xx s"
  shows "session_ok xx (dropRetired s)" "pending_of (dropRetired s) \<subseteq> pending_of s"
    "log_of xx (dropRetired s) = log_of xx s" "ready_of xx (dropRetired s) = ready_of xx s"
proof -
  show "session_ok xx (dropRetired s)"
    using session_reserved [OF assms] ledger_fit_drop [OF session_okD(7) [OF assms]] by (simp add: dropRetired_def)
  show "pending_of (dropRetired s) \<subseteq> pending_of s" using retired_sub [of s] by (auto simp: pending_of_def)
  show "log_of xx (dropRetired s) = log_of xx s" "ready_of xx (dropRetired s) = ready_of xx s"
    by (simp_all add: log_of_def ready_of_def dropRetired_def)
qed

lemma ledger_chain_cong:
  "map r_start rs' = map r_start rs \<Longrightarrow> map r_end rs' = map r_end rs \<Longrightarrow> ledger_chain a rs' = ledger_chain a rs"
  by (induction rs' rs arbitrary: a rule: list_induct2') auto

lemma session_mark:
  assumes i: "session_ok xx s" and n: "n < length (reserved s)" "r_end (reserved s ! n) = fin"
  shows "session_ok xx (mark_acked n s)" "pending_of (mark_acked n s) \<subseteq> pending_of s \<union> {fin}"
proof -
  let ?r = "reserved s ! n" and ?rs = "(reserved s)[n := (reserved s ! n)\<lparr>r_acked := True\<rparr>]"
  have "map r_start ?rs = map r_start (reserved s)" "map r_end ?rs = map r_end (reserved s)"
    using n(1) by (simp_all add: map_update list_update_same_conv)
  then have "ledger_ok ?rs = ledger_ok (reserved s)" using ledger_chain_cong unfolding ledger_ok_def by blast
  moreover have el: "\<exists>y \<in> set (reserved s). r_start y = r_start x \<and> r_end y = r_end x \<and> r_corrupt y = r_corrupt x" if "x \<in> set ?rs" for x
    using that n(1) set_update_subset_insert [of "reserved s" n] nth_mem by fastforce
  ultimately have "ledger_fit xx (s\<lparr>reserved := ?rs\<rparr>)"
    using session_okD(7) [OF i] unfolding ledger_fit_def by simp (metis (no_types, lifting))
  then show "session_ok xx (mark_acked n s)" unfolding mark_acked_def by (rule session_reserved [OF i])
  show "pending_of (mark_acked n s) \<subseteq> pending_of s \<union> {fin}"
    using set_update_subset_insert [of "reserved s" n "?r\<lparr>r_acked := True\<rparr>"] n(2) by (auto simp: pending_of_def mark_acked_def)
qed

lemma run_end_covers:
  "ledger_chain c rs \<Longrightarrow> at \<le> q \<Longrightarrow> q < run_end at rs \<Longrightarrow> \<exists>r \<in> set rs. r_acked r \<and> at \<le> r_start r \<and> r_start r \<le> q \<and> q < r_end r"
proof (induction rs arbitrary: at c)
  case (Cons r rs)
  then have r: "r_acked r" "r_start r = at" "q < run_end (r_end r) rs" "at < r_end r" "ledger_chain (r_end r) rs"
    by (auto split: if_splits)
  show ?case
  proof (cases "q < r_end r")
    case True
    then show ?thesis using r Cons.prems(2) by auto
  next
    case False
    then obtain x where "x \<in> set rs" "r_acked x" "r_end r \<le> r_start x" "r_start x \<le> q" "q < r_end x"
      using Cons.IH [OF r(5) _ r(3)] by auto
    then show ?thesis using r(4) by (intro bexI [of _ x]) auto
  qed
qed simp

lemma run_end_bound: "\<forall>r \<in> set rs. r_end r \<le> h \<Longrightarrow> at \<le> h \<Longrightarrow> run_end at rs \<le> h"
  by (induction rs arbitrary: at) auto

text \<open>What an acknowledgement commits is what it or an earlier one named, and lies below the cursor it leaves.\<close>

definition released :: "store \<Rightarrow> store \<Rightarrow> (int \<times> bytes) list \<Rightarrow> bool" where
  "released s s' gone \<longleftrightarrow> commitOff s \<le> commitOff s' \<and> (\<forall>x \<in> set gone. fst x \<le> commitOff s')"

lemma released_nil [simp]: "released s s' [] \<longleftrightarrow> commitOff s \<le> commitOff s'"
  by (simp add: released_def)

lemma acked_run_session:
  assumes i: "session_ok xx s" and c: "commitAckedRun xx s = (r, s')"
  shows "session_ok xx s' \<and> pending_of s' \<subseteq> pending_of s \<and> ready_of xx s' = ready_of xx s \<and>
    (\<exists>gone. log_of xx s = gone @ log_of xx s' \<and> fst ` set gone \<subseteq> pending_of s \<and> released s s' gone)"
proof (cases "ioErr s \<noteq> None \<or> ackedRunEnd s \<le> commitOff s")
  case True
  then have "s' = s" using c by (auto simp: commitAckedRun_def commitAckedRunDurable_def Let_def split: option.splits if_splits)
  then show ?thesis using i by (intro conjI exI [of _ "[]"]) simp_all
next
  case False
  note D = session_okD [OF i]
  note F = D(7) [unfolded ledger_fit_def]
  let ?t = "ackedRunEnd s"
  obtain r3 s3 where 3: "commitDurable xx ?t True s = (r3, s3)" by force
  have s': "s' = dropRetired s3" using c False 3 by (auto simp: commitAckedRun_def commitAckedRunDurable_def Let_def split: option.splits)
  have nc: "\<forall>r \<in> set (reserved s). \<not> r_corrupt r" using F by blast
  note C = commitDurable_spec [OF D(1) nc 3, unfolded committed_def]
  have tb: "?t \<le> headOff s" unfolding ackedRunEnd_def by (rule run_end_bound) (use F queue_okD(5) [OF D(2)] in blast)+
  let ?c = "commitOff s3"
  have cc: "commitOff s \<le> ?c" "?c \<le> ?t" "boundary xx s ?c" using C False by auto
  have h: "headOff s3 = headOff s" "unread xx s3 = unread xx s" "backlog xx s3 = from_off ?c (flat xx s)" "reserved s3 = reserved s"
    using C cc tb by (auto simp: unread_def)
  obtain gp where gp: "backlog xx s = gp @ from_off ?c (flat xx s)" "commitOff s + int (length (frames xx gp)) = ?c"
    by (rule backlog_cut [OF D(2) cc(3,1)])
  have lg: "log_of xx s = tokens (commitOff s) gp @ log_of xx s3"
    by (simp add: log_of_def h(3) gp(1) tokens_append [where xx = xx] gp(2))
  have gone: "e \<in> pending_of s \<and> e \<le> ?c" if e: "(e, p) \<in> set (tokens (commitOff s) gp)" for e p
  proof -
    obtain q where q: "(q, p) \<in> set (offs (commitOff s) gp)" "e = q + framedLen (length p)" using e by (auto simp: tokens_def)
    have ec: "e \<le> ?c" using offs_below [OF q(1), of xx] q(2) gp(2) by simp
    have fl: "(q, p) \<in> set (flat xx s)" "commitOff s \<le> q"
      using in_log [OF D(2), of q p] q(1) by (simp_all add: gp(1) offs_append [where xx = xx])
    obtain a where a: "ledger_chain a (reserved s)" using F by (auto simp: ledger_ok_def)
    have "q < run_end (commitOff s) (reserved s)"
      using ec q(2) cc(2) framedLen_gt0 [of "length p"] unfolding ackedRunEnd_def by linarith
    from run_end_covers [OF a fl(2) this] obtain x where
      x: "x \<in> set (reserved s)" "r_acked x" "commitOff s \<le> r_start x" "r_start x \<le> q" "q < r_end x" by blast
    obtain y where y: "(r_start x, y) \<in> set (offs (commitOff s) (backlog xx s))" "r_end x = r_start x + framedLen (length y)" using F x by blast
    have fy: "(r_start x, y) \<in> set (flat xx s)" using y(1) in_log [OF D(2)] by blast
    have "r_start x = q" using flat_after [OF D(2) fy x(3) fl(1)] x(4,5) y(2) by fastforce
    moreover obtain at where "chain (commitOff s) at (flat xx s) (writeOff s)" using flat_chain [OF D(2)] .
    ultimately have "y = p" using chain_unique fy fl(1) by metis
    then show ?thesis using x y(2) q(2) \<open>r_start x = q\<close> ec by (force simp: pending_of_def)
  qed
  have fit: "ledger_fit xx s3"
    unfolding ledger_fit_def h(1,4)
  proof (intro conjI ballI impI)
    fix x assume x: "x \<in> set (reserved s)"
    show "\<not> r_corrupt x" "r_end x \<le> headOff s" using F x by auto
    assume st: "?c \<le> r_start x"
    then obtain p where p: "(r_start x, p) \<in> set (offs (commitOff s) (backlog xx s))" "r_end x = r_start x + framedLen (length p)" using F x cc(1) by fastforce
    have "(r_start x, p) \<notin> set (offs (commitOff s) gp)"
      using offs_below [of "r_start x" p "commitOff s" gp xx] gp(2) st framedLen_gt0 [of "length p"] by (metis add_le_same_cancel1 not_le order.trans)
    then show "\<exists>p. (r_start x, p) \<in> set (offs ?c (backlog xx s3)) \<and> r_end x = r_start x + framedLen (length p)"
      using p gp(2) unfolding h(3) gp(1) offs_append [where xx = xx] by auto
  qed (use F in blast)
  have i3: "session_ok xx s3" using C fit session_options [of s3 s] D by (simp add: session_ok_def)
  have "ready_of xx s3 = ready_of xx s" "pending_of s3 = pending_of s" by (simp_all add: ready_of_def h pending_of_def)
  moreover have "fst ` set (tokens (commitOff s) gp) \<subseteq> pending_of s" "released s (dropRetired s3) (tokens (commitOff s) gp)"
    using gone cc(1) by (force simp: released_def dropRetired_def)+
  ultimately show ?thesis using session_drop [OF i3] lg unfolding s' by (metis (no_types, lifting))
qed

lemma ack_session:
  fixes fin
  assumes i: "session_ok xx s"
  defines "s' \<equiv> perform xx (DoAck fin) s"
  shows "session_ok xx s' \<and> pending_of s' \<subseteq> pending_of s \<union> {fin} \<and> ready_of xx s' = ready_of xx s \<and>
    (\<exists>gone. log_of xx s = gone @ log_of xx s' \<and> fst ` set gone \<subseteq> pending_of s \<union> {fin} \<and> released s s' gone)"
proof -
  note d = session_drop [OF i]
  let ?s1 = "dropRetired s"
  show ?thesis
  proof (cases "ioErr s = None \<and> \<not> fin \<le> commitOff s \<and> findReserved fin ?s1 \<noteq> None")
    case False
    then have "s' = s \<or> s' = ?s1" unfolding s'_def by (auto simp: ackTo_def Let_def split: option.splits)
    then have "log_of xx s = [] @ log_of xx s' \<and> commitOff s' = commitOff s" using d(3) by (auto simp: dropRetired_def)
    then show ?thesis using \<open>s' = s \<or> s' = ?s1\<close> i d by (intro conjI exI [of _ "[]"]) auto
  next
    case True
    then obtain n where n: "findReserved fin ?s1 = Some n" by blast
    have "ledger_ok (reserved ?s1)" using session_okD(7) [OF d(1)] by (simp add: ledger_fit_def)
    then have nn: "n < length (reserved ?s1)" "r_end (reserved ?s1 ! n) = fin"
      using n by (simp_all add: findReserved_def Let_def split: if_splits)
    note m = session_mark [OF d(1) nn]
    obtain r2 u where cu: "commitAckedRun xx (mark_acked n ?s1) = (r2, u)" by force
    have "s' = u" using True n cu unfolding s'_def by (auto simp: ackTo_def Let_def)
    then have c: "commitAckedRun xx (mark_acked n ?s1) = (r2, s')" using cu by simp
    have fr: "log_of xx (mark_acked n ?s1) = log_of xx s" "ready_of xx (mark_acked n ?s1) = ready_of xx s"
      using d(3,4) by (simp_all add: log_of_def ready_of_def mark_acked_def)
    have "pending_of (mark_acked n ?s1) \<subseteq> pending_of s \<union> {fin}" using m(2) d(2) by blast
    moreover have "commitOff (mark_acked n ?s1) = commitOff s" by (simp add: mark_acked_def dropRetired_def)
    ultimately show ?thesis using acked_run_session [OF m(1) c] unfolding fr released_def by auto
  qed
qed

subsection \<open>Rewinding\<close>

lemma rewind_session:
  assumes i: "session_ok xx s"
  defines "s' \<equiv> perform xx DoRewind s"
  shows "session_ok xx s' \<and> pending_of s' = {} \<and> commitOff s' = commitOff s \<and> log_of xx s' = log_of xx s \<and> ready_of xx s' = log_of xx s'"
proof -
  note D = session_okD [OF i]
  have s': "s' = (s\<lparr>headOff := commitOff s\<rparr>)\<lparr>reserved := []\<rparr>" by (simp add: s'_def rewindToCommit_def)
  have "queue_ok xx (s\<lparr>headOff := commitOff s\<rparr>)"
    using queue_ok_rewind [OF D(2) queue_okD(7) [OF D(2)] order_refl] queue_okD(5,6) [OF D(2)] by simp
  moreover have "backlog xx (s\<lparr>headOff := commitOff s\<rparr>) = backlog xx s" "unread xx (s\<lparr>headOff := commitOff s\<rparr>) = backlog xx s"
    by (simp_all add: backlog_def unread_def)
  ultimately show ?thesis unfolding s' using D
    by (simp add: session_ok_def commit_ok_alt pending_of_def log_of_def ready_of_def ledger_fit_def ledger_ok_def stagedBytes_def)
qed

section \<open>The interpretation\<close>

fun is_rewind :: "request \<Rightarrow> bool" where
  "is_rewind DoRewind \<longleftrightarrow> True"
| "is_rewind _ \<longleftrightarrow> False"

lemma perform_log:
  assumes i: "session_ok xx s" and e: "admits xx a s"
  shows "\<exists>gone new. log_of xx s @ new = gone @ log_of xx (perform xx a s) \<and> subseq (map snd new) (offer a) \<and>
    subseq (accepted xx a s) (map snd new) \<and> fst ` set gone \<subseteq> pending_of s \<union> acks_of a \<and> released s (perform xx a s) gone \<and> (gone = [] \<or> new = []) \<and>
    (\<not> is_rewind a \<longrightarrow> ready_of xx s @ new = handed xx a s @ ready_of xx (perform xx a s))"
proof (cases a)
  case (DoAppend p force)
  then obtain new where "log_of xx (perform xx a s) = log_of xx s @ new" "ready_of xx (perform xx a s) = ready_of xx s @ new"
    "subseq (map snd new) [p]" "subseq (accepted xx a s) (map snd new)" "commitOff (perform xx a s) = commitOff s"
    using append_session [OF i, of p force] e unfolding DoAppend by metis
  then show ?thesis using DoAppend by (intro exI [of _ "[]"] exI [of _ new]) (simp del: perform.simps accepted.simps)
next
  case DoReserve
  then show ?thesis using reserve_session [OF i] by (intro exI [of _ "[]"]) (simp del: handed.simps perform.simps)
next
  case (DoAck fin)
  then obtain gone where "log_of xx s = gone @ log_of xx (perform xx a s)" "fst ` set gone \<subseteq> pending_of s \<union> {fin}"
    "ready_of xx (perform xx a s) = ready_of xx s" "released s (perform xx a s) gone" using ack_session [OF i, of fin] by auto
  then show ?thesis using DoAck by (intro exI [of _ gone] exI [of _ "[]"]) (simp del: perform.simps)
next
  case DoRewind
  then show ?thesis using rewind_session [OF i] by (intro exI [of _ "[]"]) (simp del: perform.simps)
qed

lemma perform_ok:
  assumes i: "session_ok xx s" and e: "admits xx a s"
  shows "session_ok xx (perform xx a s)" "pending_of (perform xx a s) \<subseteq> pending_of s \<union> acks_of a"
  using append_session [OF i] reserve_session [OF i] ack_session [OF i] rewind_session [OF i] e
  by (cases a; simp del: perform.simps; fail)+

interpretation session: acked_log "session_ok xx" "admits xx" "perform xx" "log_of xx" "ready_of xx" pending_of offer "accepted xx" acks_of "handed xx" is_rewind
  for xx
proof
  fix s a assume i: "session_ok xx s" "admits xx a s"
  show "session_ok xx (perform xx a s)" "pending_of (perform xx a s) \<subseteq> pending_of s \<union> acks_of a" by (rule perform_ok [OF i])+
  show "\<exists>gone new. log_of xx s @ new = gone @ log_of xx (perform xx a s) \<and> subseq (map snd new) (offer a) \<and>
    subseq (accepted xx a s) (map snd new) \<and> fst ` set gone \<subseteq> pending_of s \<union> acks_of a \<and>
    (\<not> is_rewind a \<longrightarrow> ready_of xx s @ new = handed xx a s @ ready_of xx (perform xx a s))" using perform_log [OF i] by metis
  show "is_rewind a \<Longrightarrow> ready_of xx (perform xx a s) = log_of xx (perform xx a s)"
    using rewind_session [OF i(1)] by (cases a) simp_all
qed

section \<open>Properties\<close>

text \<open>
  C1: no record is lost and none is dropped unacknowledged.  Through any sequence of appends,
  reservations, acknowledgements in any order and rewinds, under every pattern of I/O failures,
  as long as no append leaves the queue stranded (the first finding; only an append that fails
  with everything committed can) and no record is within a header of the largest file size, the
  log stays well formed, its records leave only at the front, in order, and each one that left
  had its token acknowledged; what joined the log contains every record an append reported as
  appended and is a subsequence of what was offered, in the order it was offered.
\<close>

theorem session_no_loss:
  assumes "session_ok xx s" "enabled_run (admits xx) (perform xx) as s"
  shows "session_ok xx (fold (perform xx) as s) \<and>
    (\<exists>gone new. log_of xx s @ new = gone @ log_of xx (fold (perform xx) as s) \<and>
       subseq (map snd new) (concat (map offer as)) \<and> subseq (given_run (accepted xx) (perform xx) as s) (map snd new) \<and>
       fst ` set gone \<subseteq> pending_of s \<union> (\<Union>a \<in> set as. acks_of a))"
  using session.run_inv [OF assms] session.run_log [OF assms] by metis

text \<open>
  C8: delivery is first in, first out, for the sequences of operations of C1 (no append that leaves
  the queue stranded, no record within a header of the largest file size).  Between rewinds, what
  the reservations handed out, followed by what is still to be handed out, is what was to be
  handed out before followed by what joined the log, which contains every record an append
  reported as appended; and after a rewind every record that is not committed is handed out again.
\<close>

theorem session_fifo:
  assumes "session_ok xx s" "enabled_run (admits xx) (perform xx) as s" "\<forall>a \<in> set as. \<not> is_rewind a"
  shows "(\<exists>new. ready_of xx s @ new = given_run (handed xx) (perform xx) as s @ ready_of xx (fold (perform xx) as s) \<and>
       subseq (map snd new) (concat (map offer as)) \<and> subseq (given_run (accepted xx) (perform xx) as s) (map snd new)) \<and>
    ready_of xx (perform xx DoRewind (fold (perform xx) as s)) = log_of xx (fold (perform xx) as s)"
proof -
  have "session_ok xx (fold (perform xx) as s)" by (rule session.run_inv [OF assms(1,2)])
  then show ?thesis using session.run_log [OF assms(1,2)] assms(3) rewind_session by metis
qed

lemma sample_session: "session_ok (\<lambda>_. 5) sample_marked"
proof -
  have "stagedBytes sample_marked = 0" "segmentSize sample_marked = 4096" "pendingCorrupt sample_marked = 0"
    by (simp_all add: sample_marked_def upd_df_def sample_def new_store_def stagedBytes_def)
  then show ?thesis
    using sample_marked_ok by (simp add: session_ok_def ledger_fit_def ledger_ok_def headerSize_def)
qed

lemma admits_uncommitted:
  assumes i: "session_ok xx s" and w: "commitOff s < writeOff s" and l: "int headerSize + framedLen (length p) < 2 ^ 63"
  shows "admits xx (DoAppend p force) s"
proof -
  note D = session_okD [OF i]
  have seg: "segmentSize s < 2 ^ 63" using D(5) by (simp add: headerSize_def)
  have "append_outcome xx p s (fst (appendRecord xx p force s)) (snd (appendRecord xx p force s))"
    by (rule appendRecord_uncommitted [OF D(2) w D(4) seg]) simp
  then show ?thesis using l queue_not_stranded by (auto simp: append_outcome_def)
qed

lemma sample_admits: "admits (\<lambda>_. 5) (DoAppend [9, 9] False) sample_marked"
proof (rule admits_uncommitted [OF sample_session])
  show "commitOff sample_marked < writeOff sample_marked" by (simp add: sample_marked_def upd_df_def sample_fields)
  show "int headerSize + framedLen (length [9, 9 :: byte]) < 2 ^ 63" by code_simp
qed

theorem session_no_loss_witness:
  "session_ok (\<lambda>_. 5) sample_marked \<and>
   session_ok (\<lambda>_. 5) (fold (perform (\<lambda>_. 5)) [DoAppend [9, 9] False, DoReserve, DoAck 21, DoRewind, DoAck 11] sample_marked)"
proof -
  have "enabled_run (admits (\<lambda>_. 5)) (perform (\<lambda>_. 5)) [DoAppend [9, 9] False, DoReserve, DoAck 21, DoRewind, DoAck 11] sample_marked"
    using sample_admits by (simp del: perform.simps admits.simps(1))
  from session_no_loss [OF sample_session this] show ?thesis using sample_session by blast
qed

theorem session_fifo_witness:
  "session_ok (\<lambda>_. 5) sample_marked \<and>
   ready_of (\<lambda>_. 5) sample_marked = given_run (handed (\<lambda>_. 5)) (perform (\<lambda>_. 5)) [DoReserve, DoAck 21] sample_marked @
     ready_of (\<lambda>_. 5) (fold (perform (\<lambda>_. 5)) [DoReserve, DoAck 21] sample_marked)"
proof -
  have nil: "subseq (map snd (new :: (int \<times> bytes) list)) [] \<longleftrightarrow> new = []" for new by (cases new) simp_all
  from session_fifo [OF sample_session, of "[DoReserve, DoAck 21]"] show ?thesis
    using sample_session nil by (auto simp del: perform.simps handed.simps given_run.simps)
qed

end
