(* ===== verification/Fail_Stop.thy ===== *)
theory Fail_Stop
  imports Session
begin

text \<open>
  Fail-stop: once a durability failure is latched in \<open>ioErr\<close> the store writes nothing more.  Every
  append and acknowledgement returns the latched error, no byte of any file and no directory
  entry changes, and the log is what it was; reading what was acknowledged as durable goes on.
\<close>

definition stays :: "store \<Rightarrow> store \<Rightarrow> bool" where
  "stays s s' \<longleftrightarrow> (\<forall>e. ioErr s = Some e \<longrightarrow> ioErr s' = Some e)"

lemma stays_refl [simp]: "stays s s"
  by (simp add: stays_def)

lemma stays_trans: "stays a b \<Longrightarrow> stays b c \<Longrightarrow> stays a c"
  by (simp add: stays_def)

lemma stays_same: "ioErr s' = ioErr s \<Longrightarrow> stays s s'"
  by (simp add: stays_def)

lemma stays_list [simp]: "stays s (lruUnlink n s)" "stays s (lruPushMRU n s)" "stays s (upd_df n f s)"
  by (auto simp: stays_def lruUnlink_def lruPushMRU_def Let_def split: option.splits)

lemma stays_flushVictim: "stays s (snd (flushVictim n s))"
  by (auto simp: flushVictim_def flushSync_def stays_def os_run_def failIO_def Let_def
      split: option.splits prod.splits sum.splits)

lemma stays_os_run: "stays s (snd (os_run f s))"
  by (simp add: os_run_def stays_def split: prod.splits)

lemma stays_evict_one: "stays s (evict_one n s)"
proof -
  let ?s1 = "if noSync s then s else snd (flushVictim n s)"
  have 1: "stays s ?s1" using stays_flushVictim by simp
  have "stays ?s1 (snd (os_run os_close ?s1))" by (rule stays_os_run)
  then show ?thesis unfolding evict_one_def Let_def using stays_trans [OF 1] stays_trans stays_list by metis
qed

lemma stays_evict_loop: "stays s (evict_loop act keep s)"
proof (induction act keep s rule: evict_loop.induct)
  case (1 act keep s)
  then show ?case
    by (cases "evict_victim act keep s")
      (auto simp: evict_loop.simps [of act keep s] intro: stays_trans [OF stays_evict_one])
qed

lemma stays_ensureOpen: "ensureOpen n s = (r, s') \<Longrightarrow> stays s s'"
proof -
  have t: "stays s (trackOpen n s)" for s
    unfolding trackOpen_def evictOpen_def using stays_trans [OF stays_list(2) stays_evict_loop] by simp
  have o: "stays s (touchOpen n s)" for s
    unfolding touchOpen_def using stays_trans [OF stays_list(1,2)] by simp
  assume r: "ensureOpen n s = (r, s')"
  obtain r1 s1 where 1: "os_run (os_open n) s = (r1, s1)" by force
  have "stays s s1" using stays_os_run [of s "os_open n"] 1 by simp
  then have "stays s (trackOpen n (upd_df n (\<lambda>d. d\<lparr>df_open := True\<rparr>) s1))"
    using stays_trans stays_list(3) t by metis
  then show ?thesis using r 1 o \<open>stays s s1\<close> by (auto simp: ensureOpen_def split: if_splits sum.splits)
qed

text \<open>Taking the head only reads: the bytes and the directory stay, and so does a latched failure.\<close>

lemma read_head_spec:
  assumes ok: "queue_ok xx s" and r: "read (headOff s) s = (r, s')"
  shows "r = Inr None \<or> (\<exists>p next. r = Inr (Some (p, unat (xx p), next))) \<or> (\<exists>x. r = Inl (Errno x))"
proof (cases "headOff s = writeOff s")
  case True
  then show ?thesis using r by (auto simp: read_def)
next
  case False
  then obtain p where "(headOff s, p) \<in> set (flat xx s)" using queue_okD(8) [OF ok] by (auto simp: boundary_def)
  from read_spec [OF ok this r] show ?thesis by auto
qed

lemma read_stays:
  assumes "read q s = (r, s')" "block_ok s" "\<And>n. fileForOffset q s = Some n \<Longrightarrow> df_size (heap s n) < 2 ^ 63"
  shows "view s' = view s \<and> stays s s'"
proof (cases "q \<ge> writeOff s \<or> fileForOffset q s = None")
  case True
  then have "s' = s" using assms(1) by (auto simp: read_def split: if_splits)
  then show ?thesis by simp
next
  case False
  then obtain n where n: "fileForOffset q s = Some n" "\<not> q \<ge> writeOff s" by blast
  obtain r2 s2 where 2: "ensureOpen n s = (r2, s2)" by force
  have e: "view s2 = view s" "stays s s2" "block_ok s2"
    using ensureOpen_looks(1,2) [OF assms(2) 2] stays_ensureOpen [OF 2] by blast+
  obtain r3 s3 where 3: "recordAt n q s2 = (r3, s3)" by force
  have "df_size (heap s2 n) < 2 ^ 63" using assms(3) [OF n(1)] view_eq_df_fields [OF e(1)] by simp
  then have st: "read_step s2 s3" using recordAt_spec [OF e(3) _ 3] by simp
  have "s' = s2 \<or> s' = s3" using assms(1) n 2 3 by (auto simp: read_def split: if_splits sum.splits option.splits)
  then show ?thesis using e st stays_trans [OF e(2) stays_same] by (auto simp: read_step_def)
qed

lemma takeHead_reads:
  assumes ok: "queue_ok xx s" and pc: "pendingCorrupt s = 0" and t: "takeHead xx s = (r, s')"
  shows "inode (os s') = inode (os s) \<and> linked (os s') = linked (os s) \<and> stays s s'"
proof -
  obtain r1 s1 where 1: "read (headOff s) s = (r1, s1)" by force
  have "df_size (heap s n) < 2 ^ 63" if "fileForOffset (headOff s) s = Some n" for n
  proof -
    have "n \<in> set (files s)" using that nth_mem by (auto simp: fileForOffset_def Let_def split: if_splits)
    then show ?thesis using file_okD(1) [OF queue_okD(1) [OF ok]] by blast
  qed
  then have rd: "view s1 = view s \<and> stays s s1" by (rule read_stays [OF 1 queue_okD(9) [OF ok]])
  have "ioErr s' = ioErr s1 \<and> os s' = os s1"
    using t pc 1 read_head_spec [OF ok 1] by (auto simp: takeHead_def take_unreadable_def)
  then show ?thesis using rd view_eq_fields [of s1 s] by (simp add: stays_def)
qed

section \<open>Properties\<close>

lemma latched_step:
  fixes a
  assumes i: "session_ok xx s" and e: "ioErr s = Some x"
  defines "t \<equiv> perform xx a s"
  shows "session_ok xx t \<and> ioErr t = Some x \<and> inode (os t) = inode (os s) \<and> linked (os t) = linked (os s) \<and> log_of xx t = log_of xx s"
proof -
  note D = session_okD [OF i]
  show ?thesis
  proof (cases a)
    case (DoAppend p force)
    then have "t = s" using e by (simp add: t_def appendRecord_def)
    then show ?thesis using i e by simp
  next
    case DoReserve
    obtain r u where u: "takeHead xx s = (r, u)" by force
    have "session_ok xx t" "log_of xx t = log_of xx s"
      using reserve_session [OF i] DoReserve unfolding t_def by simp_all
    moreover have "ioErr t = ioErr u \<and> os t = os u"
      using DoReserve u by (auto simp: t_def trackReserve_def Let_def dropRetired_def split: sum.splits option.splits)
    ultimately show ?thesis using takeHead_reads [OF D(2,6) u] e by (simp add: stays_def)
  next
    case (DoAck fin)
    then have "t = s" using e by (simp add: t_def ackTo_def)
    then show ?thesis using i e by simp
  next
    case DoRewind
    then have "os t = os s" "ioErr t = ioErr s" by (simp_all add: t_def rewindToCommit_def)
    then show ?thesis using rewind_session [OF i] DoRewind e unfolding t_def by simp
  qed
qed

text \<open>
  C9: a durability failure stops the store.  After it is latched, through any sequence of
  appends, reservations, acknowledgements and rewinds, it stays the reported error, every append
  and every acknowledgement returns it and changes nothing, no byte of any file and no directory
  entry changes, and the log of uncommitted records is what it was when the failure happened.
\<close>

theorem fail_stop:
  assumes i: "session_ok xx s" and e: "ioErr s = Some x" and s': "s' = fold (perform xx) as s"
  shows "ioErr s' = Some x \<and> inode (os s') = inode (os s) \<and> linked (os s') = linked (os s) \<and> log_of xx s' = log_of xx s \<and>
    appendRecord xx p force s' = (Inl x, s') \<and> ackTo xx fin s' = ((True, Inl x), s')"
proof -
  have "ioErr s' = Some x \<and> inode (os s') = inode (os s) \<and> linked (os s') = linked (os s) \<and> log_of xx s' = log_of xx s"
    using i e unfolding s'
  proof (induction as arbitrary: s)
    case (Cons a as)
    note st = latched_step [OF Cons.prems(1,2), of a]
    then show ?case using Cons.IH [of "perform xx a s"] by simp
  qed simp
  then show ?thesis by (simp add: appendRecord_def ackTo_def)
qed

lemma sample_latched: "session_ok (\<lambda>_. 5) (sample_marked\<lparr>ioErr := Some (Wrap ErrIO (Errno EIO))\<rparr>)"
proof -
  let ?t = "sample_marked\<lparr>ioErr := Some (Wrap ErrIO (Errno EIO))\<rparr>"
  have q: "quiet sample_marked ?t" by simp
  have "commit_ok (\<lambda>_. 5) ?t"
    using session_okD(2,3) [OF sample_session] quiet_queue_ok [OF q] marks_ok_quiet [OF q] by (simp add: commit_ok_alt)
  then show ?thesis using sample_session by (simp add: session_ok_def ledger_fit_def stagedBytes_def quiet_flat(4) [OF q])
qed

theorem fail_stop_witness:
  "\<exists>s'. s' = fold (perform (\<lambda>_. 5)) [DoReserve, DoAck 21, DoRewind] (sample_marked\<lparr>ioErr := Some (Wrap ErrIO (Errno EIO))\<rparr>) \<and>
     inode (os s') = inode (os sample_marked) \<and> ackTo (\<lambda>_. 5) 21 s' = ((True, Inl (Wrap ErrIO (Errno EIO))), s')"
proof -
  let ?s = "sample_marked\<lparr>ioErr := Some (Wrap ErrIO (Errno EIO))\<rparr>"
  have "ioErr ?s = Some (Wrap ErrIO (Errno EIO))" by simp
  from fail_stop [OF sample_latched this refl] show ?thesis by (simp del: perform.simps fold.simps)
qed

end
