(* ===== verification/Reopen.thy ===== *)
theory Reopen
  imports Session Recovery_Walks
begin

text \<open>
  Opening a directory of sound segments: every segment's header describes whole records that are
  in its file, and says of each how many are committed.  The headers need not agree with each
  other, as after a crash in the middle of a commit that spans several segments.  The open path
  recovers exactly the records from the first one some header does not count as committed, in
  order, and makes the headers agree; when the disk fails it returns the error of the device and
  no record has been touched.
\<close>

section \<open>Images of a directory\<close>

text \<open>A segment's number, its payloads and how many of them its header counts as committed.\<close>

type_synonym image = "(nat \<times> bytes list \<times> nat) list"

definition hdr_says :: "hash \<Rightarrow> int \<Rightarrow> bytes \<Rightarrow> bytes list \<Rightarrow> nat \<Rightarrow> bool" where
  "hdr_says xx seg h ps k \<longleftrightarrow>
     length h = headerSize \<and> magic h = headerMagic \<and> headerChecksumOK xx h \<and> knownVersion (version h) \<and>
     hdrSegSize h = seg \<and> int (length (frames xx ps)) \<le> hdrCapacity h \<and> int headerSize + hdrCapacity h < 2 ^ 63 \<and>
     writeCursor h = int headerSize + int (length (frames xx ps)) \<and> writtenCount h = int (length ps) \<and>
     commitCursor h = int headerSize + int (length (frames xx (take k ps))) \<and> committedCount h = int k \<and> k \<le> length ps"

definition page :: "os \<Rightarrow> nat \<Rightarrow> bytes" where
  "page w n = take headerSize (inode w n)"

definition holds :: "hash \<Rightarrow> int \<Rightarrow> os \<Rightarrow> nat \<times> bytes list \<times> nat \<Rightarrow> bool" where
  "holds xx seg w x \<longleftrightarrow>
     (case x of (n, ps, k) \<Rightarrow> linked w n \<and> hdr_says xx seg (page w n) ps k \<and>
        (\<exists>rest. drop headerSize (inode w n) = frames xx ps @ rest))"

text \<open>What is not committed, and where it starts when the first segment starts at \<open>base\<close>.\<close>

fun payloads :: "image \<Rightarrow> bytes list" where
  "payloads [] = []"
| "payloads ((n, ps, k) # img) = ps @ payloads img"

fun uncommitted :: "image \<Rightarrow> bytes list" where
  "uncommitted [] = []"
| "uncommitted ((n, ps, k) # img) =
     (if k < length ps then drop k ps @ payloads img else uncommitted img)"

fun commit_pos :: "hash \<Rightarrow> int \<Rightarrow> image \<Rightarrow> int" where
  "commit_pos xx base [] = base"
| "commit_pos xx base ((n, ps, k) # img) =
     (if k < length ps then base + int (length (frames xx (take k ps)))
      else commit_pos xx (base + int (length (frames xx ps))) img)"

section \<open>Looking\<close>

text \<open>A step that only asks the operating system something.\<close>

definition looked :: "store \<Rightarrow> store \<Rightarrow> bool" where
  "looked s s' \<longleftrightarrow> s' = s\<lparr>os := os s'\<rparr> \<and> same_files (os s) (os s') \<and> stable (os s') = stable (os s) \<and>
     stable_dir (os s') = stable_dir (os s) \<and> (fault_free s \<longrightarrow> fault_free s')"

lemma looked_refl [simp]: "looked s s"
  by (simp add: looked_def)

lemma looked_trans: "looked a b \<Longrightarrow> looked b c \<Longrightarrow> looked a c"
  unfolding looked_def by (cases a, cases b, cases c) (auto intro: same_files_trans)

lemma looked_os_run:
  assumes "os_run f s = (r, s')" "same_files (os s) (snd (f (os s)))" "stable (snd (f (os s))) = stable (os s)"
    "stable_dir (snd (f (os s))) = stable_dir (os s)" "script (os s) = [] \<Longrightarrow> script (snd (f (os s))) = []"
  shows "looked s s'"
  using assms by (auto simp: os_run_def looked_def fault_free_def split: prod.splits)

lemma looked_fields:
  assumes "looked s s'"
  shows "heap s' = heap s" "files s' = files s" "segmentSize s' = segmentSize s" "inode (os s') = inode (os s)"
    "linked (os s') = linked (os s)" "fault_free s \<Longrightarrow> fault_free s'" "s' = s\<lparr>os := os s'\<rparr>" "stable (os s') = stable (os s)"
    "stable_dir (os s') = stable_dir (os s)" "dirOpen s' = dirOpen s" "noSync s' = noSync s"
proof -
  show e: "s' = s\<lparr>os := os s'\<rparr>" using assms by (simp add: looked_def)
  show "heap s' = heap s" "files s' = files s" "segmentSize s' = segmentSize s" "dirOpen s' = dirOpen s" "noSync s' = noSync s" by (subst e, simp)+
  show "inode (os s') = inode (os s)" "linked (os s') = linked (os s)" "fault_free s \<Longrightarrow> fault_free s'" "stable (os s') = stable (os s)"
    "stable_dir (os s') = stable_dir (os s)"
    using assms by (simp_all add: looked_def same_files_def)
qed

lemma stat_spec:
  assumes "os_run (os_stat n) s = (r, s1)" "linked (os s) n"
  shows "looked s s1 \<and> (r = Inr (int (length (inode (os s) n))) \<or> (\<exists>x. r = Inl (Errno x)) \<and> \<not> fault_free s)"
  using assms by (auto simp: os_run_def os_stat_def os_tick_def looked_def fault_free_def same_files_def
      split: list.splits verdict.splits)

lemma open_spec:
  assumes "os_run (os_open n) s = (r, s1)" "linked (os s) n"
  shows "looked s s1 \<and> (r = Inr () \<or> (\<exists>x. r = Inl (Errno x)) \<and> \<not> fault_free s)"
  using assms by (auto simp: os_run_def os_open_def os_tick_def looked_def fault_free_def same_files_def
      split: list.splits verdict.splits)

lemma plain_spec:
  assumes "os_run os_plain s = (r, s1)"
  shows "looked s s1 \<and> (r = Inr () \<or> (\<exists>x. r = Inl (Errno x)) \<and> \<not> fault_free s)"
  using assms by (auto simp: os_run_def os_plain_def os_tick_def looked_def fault_free_def same_files_def
      split: list.splits verdict.splits)

lemma pread_spec:
  assumes "os_run (os_pread n off len) s = ((bs, e), s1)" "off + len \<le> length (inode (os s) n)"
  shows "looked s s1 \<and> (e = None \<and> bs = slice off (off + len) (inode (os s) n) \<or> (\<exists>x. e = Some (Errno x)) \<and> \<not> fault_free s)"
  using assms by (auto simp: os_run_def os_pread_def os_tick_def looked_def fault_free_def same_files_def Let_def
      split: list.splits verdict.splits if_splits)

lemma readHeader_spec:
  assumes r: "readHeader n s = (r, s1)" and l: "linked (os s) n" "headerSize \<le> length (inode (os s) n)"
  shows "looked s s1 \<and> (r = Inr (page (os s) n) \<or> (\<exists>x. r = Inl (Errno x)) \<and> \<not> fault_free s)"
proof -
  obtain r2 s2 where 2: "os_run (os_open n) s = (r2, s2)" by force
  note o = open_spec [OF 2 l(1)]
  obtain h e s3 where 3: "os_run (os_pread n 0 headerSize) s2 = ((h, e), s3)" by (metis surj_pair)
  have f: "inode (os s2) = inode (os s)" "fault_free s \<Longrightarrow> fault_free s2" using o looked_fields by blast+
  then have p: "looked s2 s3 \<and> (e = None \<and> h = page (os s) n \<or> (\<exists>x. e = Some (Errno x)) \<and> \<not> fault_free s2)"
    using pread_spec [OF 3] l(2) by (simp add: page_def slice_def)
  obtain r4 s4 where 4: "os_run os_close s3 = (r4, s4)" by force
  have c: "looked s3 s4" using plain_spec 4 unfolding os_close_def by blast
  have t: "looked s s3" "looked s s4" using looked_trans o p c by blast+
  show ?thesis
    using r 2 3 4 o p t f(2) by (cases r2; cases e) (auto simp: readHeader_def Let_def isShortRead_def)
qed

section \<open>One segment\<close>

text \<open>The object the open path makes of a sound header \<open>h\<close> on a file of \<open>sz\<close> bytes.\<close>

definition loaded :: "nat \<Rightarrow> int \<Rightarrow> int \<Rightarrow> bytes \<Rightarrow> dataFile" where
  "loaded n base sz h =
     (zero_dataFile n)\<lparr>df_hdr := h, df_diskHeader := h, df_base := base, df_size := writeCursor h - int headerSize,
        df_capacity := hdrCapacity h, df_truncated := sz < int headerSize + hdrCapacity h,
        df_written := writtenCount h, df_committed := committedCount h\<rparr>"

lemma clamp_id: "lo \<le> v \<Longrightarrow> v \<le> hi \<Longrightarrow> clamp lo hi v = v"
  by (simp add: clamp_def Let_def)

lemma holdsD:
  assumes "holds xx seg w (n, ps, k)"
  shows "linked w n" "hdr_says xx seg (page w n) ps k" "headerSize + length (frames xx ps) \<le> length (inode w n)"
proof -
  show "linked w n" and h: "hdr_says xx seg (page w n) ps k" using assms by (simp_all add: holds_def)
  obtain rest where "drop headerSize (inode w n) = frames xx ps @ rest" using assms by (auto simp: holds_def)
  then have "length (inode w n) - headerSize = length (frames xx ps) + length rest" by (metis length_append length_drop)
  moreover have "length (page w n) = headerSize" using h by (simp add: hdr_says_def)
  ultimately show "headerSize + length (frames xx ps) \<le> length (inode w n)" by (simp add: page_def)
qed

lemma frames_take_le: "length (frames xx (take k ps)) \<le> length (frames xx ps)"
proof -
  have "frames xx ps = frames xx (take k ps) @ frames xx (drop k ps)" by (metis append_take_drop_id frames_simps(3))
  then show ?thesis by simp
qed

lemma load_believed_spec:
  assumes h: "hdr_says xx (segmentSize s) h ps k" and sz: "int headerSize + int (length (frames xx ps)) \<le> sz"
  shows "load_believed n base sz h s = (Inr (commitCursor h), upd_df n (\<lambda>_. loaded n base sz h) s)"
proof -
  note H = h [unfolded hdr_says_def]
  have full: "wrap64 (int headerSize + hdrCapacity h) = int headerSize + hdrCapacity h" "max (hdrCapacity h) 0 = hdrCapacity h"
    using H by (simp_all add: wrap64_id is_i64_def max_def)
  have w: "\<not> writeCursor h < int headerSize" "\<not> writeCursor h > int headerSize + hdrCapacity h" "\<not> writeCursor h > sz"
    using H sz by linarith+
  have c: "clamp (int headerSize) (int headerSize + (writeCursor h - int headerSize)) (commitCursor h) = commitCursor h"
    using H frames_take_le [of xx k ps] by (intro clamp_id) linarith+
  have d: "clamp 0 (writtenCount h) (committedCount h) = committedCount h" and m: "max (writtenCount h) 0 = writtenCount h"
    using H by (auto intro: clamp_id)
  let ?d = "(zero_dataFile n)\<lparr>df_hdr := h, df_diskHeader := h, df_base := base, df_size := writeCursor h - int headerSize,
      df_capacity := hdrCapacity h, df_truncated := sz < int headerSize + hdrCapacity h, df_written := writtenCount h\<rparr>"
  have lt: "(sz < int headerSize + hdrCapacity h \<and> writeCursor h > sz) = False" using w(3) by simp
  have seg: "(hdrSegSize h \<noteq> segmentSize s) = False" using H by simp
  have "load_believed n base sz h s = (Inr (clamp (int headerSize) (int headerSize + df_size ?d) (commitCursor h)),
      upd_df n (\<lambda>d. d\<lparr>df_committed := clamp 0 (df_written d) (committedCount h)\<rparr>) (upd_df n (\<lambda>_. ?d) s))"
    unfolding load_believed_def Let_def full(2) full(1) lt seg m by (simp only: if_False w sum.case prod.case) (simp add: upd_df_def)
  also have "\<dots> = (Inr (commitCursor h), upd_df n (\<lambda>_. loaded n base sz h) s)"
    using c d by (simp add: upd_df_def loaded_def)
  finally show ?thesis .
qed

lemma loadFile_spec:
  assumes h: "holds xx (segmentSize s) (os s) (n, ps, k)" and r: "loadFile xx n base tail s = (r, s')"
  defines "d \<equiv> loaded n base (int (length (inode (os s) n))) (page (os s) n)"
  shows "(r = Inr (Some (commitCursor (page (os s) n))) \<and> (\<exists>s1. looked s s1 \<and> s' = upd_df n (\<lambda>_. d) s1)) \<or>
    (\<exists>x. r = Inl (Errno x)) \<and> \<not> fault_free s \<and> looked s s'"
proof -
  note H = holdsD [OF h]
  obtain r1 s1 where 1: "os_run (os_stat n) s = (r1, s1)" by force
  note st = stat_spec [OF 1 H(1)]
  have f1: "linked (os s1) n" "inode (os s1) = inode (os s)" "segmentSize s1 = segmentSize s" "fault_free s \<Longrightarrow> fault_free s1"
    using st looked_fields [of s s1] H(1) by auto
  obtain r2 s2 where 2: "readHeader n s1 = (r2, s2)" by force
  have rd: "looked s1 s2 \<and> (r2 = Inr (page (os s) n) \<or> (\<exists>x. r2 = Inl (Errno x)) \<and> \<not> fault_free s1)"
    using readHeader_spec [OF 2] f1 H(3) by (simp add: page_def)
  have t: "looked s s2" using looked_trans st rd by blast
  have seg: "segmentSize s2 = segmentSize s" using looked_fields(3) [OF t] .
  have nz: "int (length (inode (os s) n)) \<noteq> 0" using H(3) by (auto simp: headerSize_def)
  note P = H(2) [unfolded hdr_says_def]
  show ?thesis
  proof (cases "r1 = Inr (int (length (inode (os s) n))) \<and> r2 = Inr (page (os s) n)")
    case True
    have "load_believed n base (int (length (inode (os s) n))) (page (os s) n) s2 =
        (Inr (commitCursor (page (os s) n)), upd_df n (\<lambda>_. d) s2)"
      using load_believed_spec [of xx s2 "page (os s) n" ps k] H(2,3) seg by (simp add: d_def)
    then have "loadFile xx n base tail s = (Inr (Some (commitCursor (page (os s) n))), upd_df n (\<lambda>_. d) s2)"
      using True 1 2 nz P by (simp add: loadFile_def kept_def)
    then show ?thesis using r t by auto
  next
    case False
    then show ?thesis using r 1 2 st rd nz t f1(4) by (auto simp: loadFile_def)
  qed
qed

section \<open>The segments in order\<close>

text \<open>
  \<open>laid\<close>: the objects of the segments, each starting where the one before ends, and the stored
  commit cursors the loop collected.
\<close>

fun laid :: "hash \<Rightarrow> store \<Rightarrow> int \<Rightarrow> image \<Rightarrow> int list \<Rightarrow> int \<Rightarrow> bool" where
  "laid xx s base [] ccs fin \<longleftrightarrow> ccs = [] \<and> fin = base"
| "laid xx s base ((n, ps, k) # img) ccs fin \<longleftrightarrow>
     heap s n = loaded n base (int (length (inode (os s) n))) (page (os s) n) \<and>
     (\<exists>cs. ccs = commitCursor (page (os s) n) # cs \<and> laid xx s (base + int (length (frames xx ps))) img cs fin)"

definition img_written :: "image \<Rightarrow> int" where
  "img_written img = int (length (payloads img))"

lemma laid_cong:
  "\<forall>n \<in> fst ` set img. heap s' n = heap s n \<and> inode (os s') n = inode (os s) n \<Longrightarrow>
   laid xx s' base img ccs fin = laid xx s base img ccs fin"
  by (induction xx s base img ccs fin rule: laid.induct) (auto simp: page_def)

text \<open>What the loop over the segments leaves alone.\<close>

definition loading :: "store \<Rightarrow> store \<Rightarrow> bool" where
  "loading s s' \<longleftrightarrow> same_files (os s) (os s') \<and> stable (os s') = stable (os s) \<and> stable_dir (os s') = stable_dir (os s) \<and> (fault_free s \<longrightarrow> fault_free s') \<and>
     s' = s\<lparr>heap := heap s', files := files s', nWritten := nWritten s', diskBytes := diskBytes s', os := os s'\<rparr>"

lemma loading_refl [simp]: "loading s s"
  by (simp add: loading_def)

lemma loading_trans: "loading a b \<Longrightarrow> loading b c \<Longrightarrow> loading a c"
  unfolding loading_def by (cases a, cases b, cases c) (auto intro: same_files_trans)

lemma loading_looked: "looked a b \<Longrightarrow> loading a b"
  unfolding loading_def looked_def by (cases a, cases b) auto

lemma loading_push: "loading s (upd_df n f s)" "loading s (s\<lparr>nWritten := a, files := b, diskBytes := c\<rparr>)"
  by (simp_all add: loading_def upd_df_def fault_free_def)

lemma loading_fields:
  assumes "loading s s'"
  shows "segmentSize s' = segmentSize s" "inode (os s') = inode (os s)" "linked (os s') = linked (os s)"
    "fault_free s \<Longrightarrow> fault_free s'" "ioErr s' = ioErr s" "nextNum s' = nextNum s" "reserved s' = reserved s"
    "blockFile s' = blockFile s" "lastFrameEnd s' = lastFrameEnd s" "pendingCorrupt s' = pendingCorrupt s"
    "inFlight s' = inFlight s" "pendingBytes s' = pendingBytes s" "options s' = options s"
    "stable (os s') = stable (os s)" "stable_dir (os s') = stable_dir (os s)" "dirOpen s' = dirOpen s"
  using assms unfolding loading_def same_files_def options_def by (cases s, cases s', auto)+

lemma load_loop_spec:
  assumes "\<forall>x \<in> set img. holds xx (segmentSize s) (os s) x" "distinct (map fst img)"
    "load_loop xx (map fst img) base s = (r, s')"
  shows "loading s s' \<and> (\<forall>m. m \<notin> fst ` set img \<longrightarrow> heap s' m = heap s m) \<and>
    ((\<exists>ccs fin. r = Inr (ccs, fin) \<and> files s' = files s @ map fst img \<and> nWritten s' = nWritten s + img_written img \<and>
        laid xx s' base img ccs fin) \<or>
     (\<exists>x. r = Inl (Errno x)) \<and> \<not> fault_free s)"
  using assms
proof (induction img arbitrary: base s r)
  case (Cons y img)
  obtain n ps k where y: "y = (n, ps, k)" by (cases y) auto
  have h: "holds xx (segmentSize s) (os s) (n, ps, k)" using Cons.prems(1) y by simp
  have nin: "n \<notin> fst ` set img" using Cons.prems(2) y by simp
  let ?pg = "page (os s) n" and ?d = "loaded n base (int (length (inode (os s) n))) (page (os s) n)"
  obtain r1 s1 where 1: "loadFile xx n base (map fst img = []) s = (r1, s1)" by force
  from loadFile_spec [OF h 1] show ?case
  proof
    assume "(\<exists>x. r1 = Inl (Errno x)) \<and> \<not> fault_free s \<and> looked s s1"
    then show ?thesis using Cons.prems(3) 1 y loading_looked looked_fields(1) [of s s1] by auto
  next
    assume "r1 = Inr (Some (commitCursor ?pg)) \<and> (\<exists>t. looked s t \<and> s1 = upd_df n (\<lambda>_. ?d) t)"
    then obtain t where r1: "r1 = Inr (Some (commitCursor ?pg))" and t: "looked s t" "s1 = upd_df n (\<lambda>_. ?d) t" by blast
    note tf = looked_fields [OF t(1)]
    let ?s2 = "s1\<lparr>nWritten := nWritten s1 + df_written (heap s1 n), files := files s1 @ [n],
        diskBytes := diskBytes s1 + wrap64 (int headerSize + df_capacity (heap s1 n))\<rparr>"
    have hn: "heap s1 n = ?d" and ho: "heap s1 m = heap s m" if "m \<noteq> n" for m using t(2) tf(1) that by simp_all
    have hn: "heap s1 n = ?d" using t(2) by simp
    have l1: "loading s s1" unfolding t(2) by (rule loading_trans [OF loading_looked [OF t(1)] loading_push(1)])
    have l2: "loading s ?s2" by (rule loading_trans [OF l1 loading_push(2)])
    have P: "hdr_says xx (segmentSize s) ?pg ps k" by (rule holdsD(2) [OF h])
    have dz: "df_size (heap s1 n) = int (length (frames xx ps))" "df_written (heap s1 n) = int (length ps)"
      using P by (simp_all add: hn loaded_def hdr_says_def)
    have "nWritten t = nWritten s" by (subst tf(7)) simp
    then have nw: "nWritten s1 = nWritten s" by (simp add: t(2) upd_df_def)
    have fs: "files s1 = files s" using t(2) tf(2) by simp
    obtain r3 where 3: "load_loop xx (map fst img) (base + df_size (heap s1 n)) ?s2 = (r3, s')"
      and r: "r = (case r3 of Inl e \<Rightarrow> Inl e | Inr (ccs, fin) \<Rightarrow> Inr (commitCursor ?pg # ccs, fin))"
      using Cons.prems(3) 1 r1 unfolding y by (auto simp: Let_def split: prod.splits sum.splits)
    note lf = loading_fields [OF l2]
    have hold2: "\<forall>x \<in> set img. holds xx (segmentSize ?s2) (os ?s2) x"
      using Cons.prems(1) lf(1,2,3) by (auto simp: holds_def page_def)
    have IH: "loading ?s2 s' \<and> (\<forall>m. m \<notin> fst ` set img \<longrightarrow> heap s' m = heap ?s2 m) \<and>
      ((\<exists>ccs fin. r3 = Inr (ccs, fin) \<and> files s' = files ?s2 @ map fst img \<and> nWritten s' = nWritten ?s2 + img_written img \<and>
        laid xx s' (base + df_size (heap s1 n)) img ccs fin) \<or> (\<exists>x. r3 = Inl (Errno x)) \<and> \<not> fault_free ?s2)"
      by (rule Cons.IH [OF hold2 _ 3]) (use Cons.prems(2) in simp)
    have lo: "loading s s'" using loading_trans [OF l2] IH by blast
    note lo_f = loading_fields [OF lo]
    have hs: "heap s' m = heap s m" if "m \<notin> fst ` set (y # img)" for m using IH ho [of m] that y by simp
    have hn': "heap s' n = ?d" using IH nin hn by simp
    from IH consider (ok) ccs fin where "r3 = Inr (ccs, fin)" "files s' = files ?s2 @ map fst img"
        "nWritten s' = nWritten ?s2 + img_written img" "laid xx s' (base + df_size (heap s1 n)) img ccs fin"
      | (bad) x where "r3 = Inl (Errno x)" "\<not> fault_free ?s2" by blast
    then show ?thesis
    proof cases
      case bad
      then show ?thesis using lo hs r lf(4) by auto
    next
      case ok
      have "laid xx s' base (y # img) (commitCursor ?pg # ccs) fin"
        using ok(4) hn' lo_f(2) dz(1) by (simp add: y page_def)
      moreover have "nWritten s' = nWritten s + img_written (y # img)" using ok(3) nw dz(2) by (simp add: img_written_def y)
      ultimately show ?thesis using lo hs r ok fs by (simp add: y)
    qed
  qed
qed (auto simp: img_written_def)

section \<open>The recovered cursor\<close>

text \<open>The cursor stands where the uncommitted records begin.\<close>

lemma commit_pos_cut:
  assumes "\<forall>(n, ps, k) \<in> set img. k \<le> length ps"
  obtains pre where "payloads img = pre @ uncommitted img" "commit_pos xx base img = base + int (length (frames xx pre))"
  using assms
proof (induction img arbitrary: base thesis)
  case (Cons y img)
  obtain n ps k where y: "y = (n, ps, k)" by (cases y) auto
  show ?case
  proof (cases "k < length ps")
    case True
    then show ?thesis using y by (intro Cons.prems(1) [of "take k ps"]) (simp_all add: append_assoc [symmetric] del: append_assoc)
  next
    case False
    obtain pre where "payloads img = pre @ uncommitted img"
      "commit_pos xx (base + int (length (frames xx ps))) img = base + int (length (frames xx ps)) + int (length (frames xx pre))"
      using Cons.IH [of "base + int (length (frames xx ps))"] Cons.prems(2) by auto
    then show ?thesis using y False by (intro Cons.prems(1) [of "ps @ pre"]) simp_all
  qed
qed simp

lemma length_frames_take:
  assumes "k \<le> length ps"
  shows "length (frames xx (take k ps)) < length (frames xx ps) \<longleftrightarrow> k < length ps"
proof (cases "k < length ps")
  case True
  then have "frames xx ps = frames xx (take k ps) @ frame xx (ps ! k) @ frames xx (drop (Suc k) ps)"
    by (metis Cons_nth_drop_Suc append_take_drop_id frames_simps(2,3))
  moreover have "0 < length (frame xx (ps ! k))" by simp
  ultimately show ?thesis using True by simp
qed (use assms in simp)

section \<open>The segments as a queue\<close>

lemma loaded_fields:
  assumes "hdr_says xx seg h ps k"
  shows "df_size (loaded n base sz h) = int (length (frames xx ps))" "df_written (loaded n base sz h) = int (length ps)"
    "df_committed (loaded n base sz h) = int k" "df_base (loaded n base sz h) = base" "df_hdr (loaded n base sz h) = h"
    "df_end (loaded n base sz h) = base + int (length (frames xx ps))" "mark_room (loaded n base sz h)"
    "df_capacity (loaded n base sz h) < 2 ^ 63" "df_resetCommit (loaded n base sz h) = False"
  using assms by (simp_all add: loaded_def hdr_says_def df_end_def mark_room_def zero_dataFile_def headerSize_def)

lemma laid_commit:
  assumes "laid xx s base img ccs fin" "\<forall>x \<in> set img. holds xx seg (os s) x"
  shows "(case find (\<lambda>(n, cc). df_resetCommit (heap s n) \<or> cc < int headerSize + df_size (heap s n)) (zip (map fst img) ccs) of
      None \<Rightarrow> fin | Some (n, cc) \<Rightarrow> df_base (heap s n) + (cc - int headerSize)) = commit_pos xx base img"
  using assms
proof (induction img arbitrary: base ccs)
  case (Cons y img)
  obtain n ps k where y: "y = (n, ps, k)" by (cases y) auto
  have h: "hdr_says xx seg (page (os s) n) ps k" using Cons.prems(2) y holdsD(2) by auto
  note f = loaded_fields [OF h]
  have k: "k \<le> length ps" and cc: "commitCursor (page (os s) n) = int headerSize + int (length (frames xx (take k ps)))"
    using h by (simp_all add: hdr_says_def)
  have l: "heap s n = loaded n base (int (length (inode (os s) n))) (page (os s) n)"
    using Cons.prems(1) y by simp
  obtain cs where cs: "ccs = commitCursor (page (os s) n) # cs" "laid xx s (base + int (length (frames xx ps))) img cs fin"
    using Cons.prems(1) y by auto
  show ?case
    using Cons.IH [OF cs(2)] Cons.prems(2) length_frames_take [OF k, of xx] by (simp add: y cs(1) cc l f)
qed simp

text \<open>One sound segment under its object, wherever it starts and whatever its committed count.\<close>

lemma seg_sound:
  assumes h: "holds xx seg (os s) (n, ps, k)" and d: "heap s n = (loaded n base sz (page (os s) n))\<lparr>df_committed := c\<rparr>"
  shows "file_ok xx s n" "recs_of xx s n = ps" "seg_flat xx s n = offs base ps" "mark_room (heap s n)"
    "df_base (heap s n) = base" "df_end (heap s n) = base + int (length (frames xx ps))" "data_of s n = frames xx ps"
    "df_size (heap s n) \<le> df_capacity (heap s n)"
proof -
  note H = holdsD [OF h] and f = loaded_fields [OF holdsD(2) [OF h]]
  note P = H(2) [unfolded hdr_says_def]
  obtain rest where rest: "drop headerSize (inode (os s) n) = frames xx ps @ rest" using h by (auto simp: holds_def)
  show data: "data_of s n = frames xx ps" by (simp add: data_of_alt d f rest)
  have small: "int (length (frames xx ps)) < 2 ^ 63" using P by (simp add: headerSize_def)
  then show r: "recs_of xx s n = ps" by (simp add: recs_of_def data records_frames)
  show b: "df_base (heap s n) = base" "df_end (heap s n) = base + int (length (frames xx ps))" "mark_room (heap s n)"
    using f by (simp_all add: d df_end_def mark_room_def)
  show "seg_flat xx s n = offs base ps" by (simp add: seg_flat_def r b)
  show "df_size (heap s n) \<le> df_capacity (heap s n)" using P f(1) by (simp add: d loaded_def)
  show "file_ok xx s n" unfolding file_ok_def r data using H(1) f small P by (simp add: d)
qed

text \<open>The same for all of them, with the committed counts replaced.\<close>

fun lies :: "hash \<Rightarrow> store \<Rightarrow> int \<Rightarrow> image \<Rightarrow> bool" where
  "lies xx s base [] \<longleftrightarrow> True"
| "lies xx s base ((n, ps, k) # img) \<longleftrightarrow>
     (\<exists>sz c. heap s n = (loaded n base sz (page (os s) n))\<lparr>df_committed := c\<rparr>) \<and>
     lies xx s (base + int (length (frames xx ps))) img"

lemma lies_flat:
  assumes "lies xx s base img" "\<forall>x \<in> set img. holds xx seg (os s) x"
  shows "concat (map (seg_flat xx s) (map fst img)) = offs base (payloads img)"
    "lay (heap s) c base (map fst img) (base + int (length (frames xx (payloads img))))"
    "\<forall>n \<in> fst ` set img. file_ok xx s n \<and> mark_room (heap s n) \<and> df_size (heap s n) \<le> df_capacity (heap s n)"
proof -
  have "concat (map (seg_flat xx s) (map fst img)) = offs base (payloads img) \<and>
    lay (heap s) c base (map fst img) (base + int (length (frames xx (payloads img)))) \<and>
    (\<forall>n \<in> fst ` set img. file_ok xx s n \<and> mark_room (heap s n) \<and> df_size (heap s n) \<le> df_capacity (heap s n))"
    using assms
  proof (induction img arbitrary: base)
    case (Cons y img)
    obtain n ps k where y: "y = (n, ps, k)" by (cases y) auto
    have h: "holds xx seg (os s) (n, ps, k)" using Cons.prems(2) y by simp
    obtain sz c where d: "heap s n = (loaded n base sz (page (os s) n))\<lparr>df_committed := c\<rparr>" using Cons.prems(1) y by auto
    have l: "lies xx s (base + int (length (frames xx ps))) img" "\<forall>x \<in> set img. holds xx seg (os s) x" using Cons.prems y by auto
    note g = seg_sound [OF h d]
    show ?case using Cons.IH [OF l] g by (simp add: y offs_append [where xx = xx] algebra_simps)
  qed simp
  then show "concat (map (seg_flat xx s) (map fst img)) = offs base (payloads img)"
    "lay (heap s) c base (map fst img) (base + int (length (frames xx (payloads img))))"
    "\<forall>n \<in> fst ` set img. file_ok xx s n \<and> mark_room (heap s n) \<and> df_size (heap s n) \<le> df_capacity (heap s n)" by blast+
qed

lemma laid_lies: "laid xx s base img ccs fin \<Longrightarrow> lies xx s base img \<and> fin = base + int (length (frames xx (payloads img)))"
proof (induction xx s base img ccs fin rule: laid.induct)
  case (2 xx s base n ps k img ccs fin)
  then have l: "lies xx s (base + int (length (frames xx ps))) img \<and> fin = base + int (length (frames xx ps)) + int (length (frames xx (payloads img)))"
    and d: "heap s n = loaded n base (int (length (inode (os s) n))) (page (os s) n)" by auto
  have "\<exists>sz c. heap s n = (loaded n base sz (page (os s) n))\<lparr>df_committed := c\<rparr>"
    by (intro exI [of _ "int (length (inode (os s) n))"] exI [of _ "df_committed (heap s n)"]) (simp add: d)
  then show ?case using l by simp
qed simp

section \<open>The counts\<close>

lemma reconcile_spec:
  assumes "distinct ns"
  shows "reconcile ns s = s\<lparr>heap := (\<lambda>m. if m \<in> set ns then (heap s m)\<lparr>df_committed := reconciled (heap s m) (commitOff s)\<rparr> else heap s m),
     nCommitted := nCommitted s + sum_list (map (\<lambda>m. reconciled (heap s m) (commitOff s)) ns)\<rparr>"
  using assms
proof (induction ns arbitrary: s)
  case (Cons n ns)
  define c where "c = reconciled (heap s n) (commitOff s)"
  define s1 where "s1 = (upd_df n (\<lambda>d. d\<lparr>df_committed := c\<rparr>) s)\<lparr>nCommitted := nCommitted s + c\<rparr>"
  have e: "reconcile (n # ns) s = reconcile ns s1" by (simp add: s1_def c_def Let_def upd_df_def)
  have h: "heap s1 m = heap s m" if "m \<in> set ns" for m using Cons.prems that by (auto simp: s1_def upd_df_def)
  have co: "commitOff s1 = commitOff s" and nc: "nCommitted s1 = nCommitted s + c" by (simp_all add: s1_def upd_df_def)
  have sm: "map (\<lambda>m. reconciled (heap s1 m) (commitOff s)) ns = map (\<lambda>m. reconciled (heap s m) (commitOff s)) ns" using h by simp
  have hp: "(\<lambda>m. if m \<in> set ns then (heap s1 m)\<lparr>df_committed := reconciled (heap s1 m) (commitOff s)\<rparr> else heap s1 m) =
      (\<lambda>m. if m \<in> set (n # ns) then (heap s m)\<lparr>df_committed := reconciled (heap s m) (commitOff s)\<rparr> else heap s m)"
    using Cons.prems h by (auto simp: s1_def c_def upd_df_def fun_eq_iff)
  have up: "s1\<lparr>heap := hh, nCommitted := z\<rparr> = s\<lparr>heap := hh, nCommitted := z\<rparr>" for hh z by (simp add: s1_def upd_df_def)
  have IH: "reconcile ns s1 = s1\<lparr>heap := (\<lambda>m. if m \<in> set ns then (heap s1 m)\<lparr>df_committed := reconciled (heap s1 m) (commitOff s1)\<rparr> else heap s1 m),
     nCommitted := nCommitted s1 + sum_list (map (\<lambda>m. reconciled (heap s1 m) (commitOff s1)) ns)\<rparr>"
    by (rule Cons.IH) (use Cons.prems in simp)
  show ?case unfolding e IH co up hp sm nc c_def by (simp add: add.assoc)
qed simp

text \<open>Where the cursor stands relative to one segment.\<close>

lemma lies_heap:
  assumes "lies xx s base img" "(n, ps, k) \<in> set img"
  shows "\<exists>b sz c. heap s n = (loaded n b sz (page (os s) n))\<lparr>df_committed := c\<rparr>"
  using assms by (induction xx s base img rule: lies.induct) auto

lemma commit_pos_bounds:
  assumes "\<forall>(n, ps, k) \<in> set img. k \<le> length ps"
  shows "base \<le> commit_pos xx base img" "commit_pos xx base img \<le> base + int (length (frames xx (payloads img)))"
  using commit_pos_cut [OF assms, of xx base] by fastforce+

lemma commit_pos_seg:
  assumes "lies xx s base img" "\<forall>x \<in> set img. holds xx seg (os s) x" "(n, ps, k) \<in> set img"
  shows "df_end (heap s n) \<le> commit_pos xx base img \<or> commit_pos xx base img \<le> df_base (heap s n) \<or>
    commit_pos xx base img = df_base (heap s n) + int (length (frames xx (take k ps)))"
  using assms
proof (induction img arbitrary: base)
  case (Cons y img)
  obtain m qs j where y: "y = (m, qs, j)" by (cases y) auto
  have h: "holds xx seg (os s) (m, qs, j)" using Cons.prems(2) y by simp
  obtain sz c where d: "heap s m = (loaded m base sz (page (os s) m))\<lparr>df_committed := c\<rparr>" using Cons.prems(1) y by auto
  have l: "lies xx s (base + int (length (frames xx qs))) img" "\<forall>x \<in> set img. holds xx seg (os s) x" using Cons.prems y by auto
  note g = seg_sound [OF h d]
  have ks: "\<forall>(n, ps, k) \<in> set img. k \<le> length ps" using l(2) holdsD(2) by (fastforce simp: hdr_says_def)
  note cb = commit_pos_bounds(1) [OF ks, of "base + int (length (frames xx qs))" xx]
  show ?case
  proof (cases "(n, ps, k) = y")
    case True
    then show ?thesis using g(5,6) cb by (auto simp: y)
  next
    case False
    then have m: "(n, ps, k) \<in> set img" using Cons.prems(3) by simp
    have nb: "base + int (length (frames xx qs)) \<le> df_base (heap s n)"
    proof -
      have "n \<in> set (map fst img)" using m by force
      moreover have "\<forall>x \<in> set (map fst img). 0 \<le> df_size (heap s x)" using lies_flat(3) [OF l] file_ok_size by auto
      ultimately show ?thesis using lay_mono_all [OF lies_flat(2) [OF l, of 0]] by blast
    qed
    show ?thesis
    proof (cases "j < length qs")
      case True
      then have "commit_pos xx base (y # img) \<le> df_base (heap s n)"
        using nb frames_take_le [of xx j qs] by (simp add: y)
      then show ?thesis by blast
    next
      case False
      then show ?thesis using Cons.IH [OF l m] by (simp add: y)
    qed
  qed
qed simp

lemma filter_offs:
  "b + int (length (frames xx ps)) \<le> c \<Longrightarrow> filter (\<lambda>x. fst x < c) (offs b ps) = offs b ps"
  "c \<le> b \<Longrightarrow> filter (\<lambda>x. fst x < c) (offs b ps) = []"
proof -
  assume "b + int (length (frames xx ps)) \<le> c"
  then have "fst x < c" if "x \<in> set (offs b ps)" for x
    using offs_below [of "fst x" "snd x" b ps xx] that framedLen_gt0 [of "length (snd x)"] by (simp del: framedLen_gt0)
  then show "filter (\<lambda>x. fst x < c) (offs b ps) = offs b ps" by (simp add: filter_True)
next
  assume "c \<le> b"
  then have "\<not> fst x < c" if "x \<in> set (offs b ps)" for x using offs_from [of "fst x" "snd x" b ps] that by simp
  then show "filter (\<lambda>x. fst x < c) (offs b ps) = []" by (simp add: filter_False)
qed

lemma filter_offs_take:
  assumes "k \<le> length ps"
  shows "filter (\<lambda>x. fst x < b + int (length (frames xx (take k ps)))) (offs b ps) = offs b (take k ps)"
proof -
  have ps: "offs b ps = offs b (take k ps) @ offs (b + int (length (frames xx (take k ps)))) (drop k ps)"
    using offs_append [of b "take k ps" "drop k ps" xx] by simp
  show ?thesis
    using filter_offs(1) [of b xx "take k ps" "b + int (length (frames xx (take k ps)))"] filter_offs(2) [of _ "b + int (length (frames xx (take k ps)))" "drop k ps"]
    by (subst ps) simp
qed

lemma length_offs [simp]: "length (offs b ps) = length ps"
  by (induction ps arbitrary: b) simp_all

text \<open>The reconciled count of a segment is the number of its records below the cursor.\<close>

lemma reconciled_done:
  assumes l: "lies xx s base img" "\<forall>x \<in> set img. holds xx seg (os s) x" "(n, ps, k) \<in> set img"
    and c: "df_committed (heap s n) = int k"
  shows "reconciled (heap s n) (commit_pos xx base img) = done_in xx s n (commit_pos xx base img)"
proof -
  let ?at = "commit_pos xx base img" and ?d = "heap s n"
  have h: "holds xx seg (os s) (n, ps, k)" using l by blast
  obtain b sz e where d: "heap s n = (loaded n b sz (page (os s) n))\<lparr>df_committed := e\<rparr>" using lies_heap [OF l(1,3)] by blast
  note g = seg_sound [OF h d]
  have k: "k \<le> length ps" using holdsD(2) [OF h] by (simp add: hdr_says_def)
  have w: "df_written ?d = int (length ps)" using loaded_fields(2) [OF holdsD(2) [OF h]] by (simp add: d)
  have sf: "seg_flat xx s n = offs b ps" by (rule g(3))
  consider (after) "df_end ?d \<le> ?at" | (before) "?at \<le> df_base ?d" "\<not> df_end ?d \<le> ?at"
    | (inside) "?at = df_base ?d + int (length (frames xx (take k ps)))" "\<not> df_end ?d \<le> ?at" "\<not> ?at \<le> df_base ?d"
    using commit_pos_seg [OF l] by blast
  then show ?thesis
  proof cases
    case after
    have "filter (\<lambda>x. fst x < ?at) (offs b ps) = offs b ps"
      by (rule filter_offs(1) [where xx = xx]) (use after g(6) in simp)
    then show ?thesis using after w by (simp add: reconciled_def done_in_def sf)
  next
    case before
    have "filter (\<lambda>x. fst x < ?at) (offs b ps) = []"
      by (rule filter_offs(2)) (use before g(5) in simp)
    then show ?thesis using before by (simp add: reconciled_def done_in_def sf)
  next
    case inside
    then show ?thesis using c filter_offs_take [OF k, of b xx] k g(5)
      by (simp add: reconciled_def done_in_def sf)
  qed
qed

section \<open>The store the segments make\<close>

lemma from_off_cut:
  "from_off (b + int (length (frames xx pre))) (offs b (pre @ post)) = post"
proof -
  let ?c = "b + int (length (frames xx pre))"
  have "\<not> ?c \<le> fst x" if "x \<in> set (offs b pre)" for x
    using offs_below [of "fst x" "snd x" b pre xx] that framedLen_gt0 [of "length (snd x)"] by (simp del: framedLen_gt0)
  then have 1: "filter (\<lambda>x. ?c \<le> fst x) (offs b pre) = []" by (simp add: filter_False)
  have 2: "filter (\<lambda>x. ?c \<le> fst x) (offs ?c post) = offs ?c post"
    using offs_from [of _ _ ?c post] by (auto simp: filter_id_conv)
  have 3: "map snd (offs x post) = post" for x by (induction post arbitrary: x) simp_all
  show ?thesis
    unfolding from_off_def offs_append [of b pre post xx] using 1 2 3 by (simp add: case_prod_unfold)
qed

lemma sum_done_in: "sum_list (map (\<lambda>n. done_in xx s n c) ns) = int (length (filter (\<lambda>x. fst x < c) (concat (map (seg_flat xx s) ns))))"
  by (induction ns) (simp_all add: done_in_def)

lemma holds_le: "holds xx seg w (n, ps, k) \<Longrightarrow> k \<le> length ps"
  using holdsD(2) [of xx seg w n ps k] by (simp add: hdr_says_def)

lemma lies_update:
  assumes "lies xx s base img" "os s' = os s" "\<forall>m. \<exists>c. heap s' m = (heap s m)\<lparr>df_committed := c\<rparr>"
  shows "lies xx s' base img"
  using assms
proof (induction xx s base img rule: lies.induct)
  case (2 xx s base n ps k img)
  obtain sz c where d: "heap s n = (loaded n base sz (page (os s) n))\<lparr>df_committed := c\<rparr>" using "2.prems"(1) by auto
  moreover obtain e where "heap s' n = (heap s n)\<lparr>df_committed := e\<rparr>" using "2.prems"(3) by blast
  then have "heap s' n = (loaded n base sz (page (os s') n))\<lparr>df_committed := e\<rparr>" by (simp add: "2.prems"(2) d)
  then show ?case using 2 by auto
qed simp

lemma laid_heap: "laid xx s base img ccs fin \<Longrightarrow> (n, ps, k) \<in> set img \<Longrightarrow> \<exists>b sz. heap s n = loaded n b sz (page (os s) n)"
  by (induction xx s base img ccs fin rule: laid.induct) auto

text \<open>What the open path knows of the segments before the repair pass.\<close>

definition standing :: "hash \<Rightarrow> image \<Rightarrow> store \<Rightarrow> bool" where
  "standing xx img s \<longleftrightarrow> queue_ok xx s \<and> files s = map fst img \<and> unread xx s = uncommitted img \<and> backlog xx s = uncommitted img \<and>
     store_count s = int (length (uncommitted img)) \<and>
     (\<forall>n \<in> set (files s). mark_room (heap s n) \<and> df_size (heap s n) \<le> df_capacity (heap s n) \<and>
        df_committed (heap s n) = done_in xx s n (commitOff s))"

lemma recovered_standing:
  assumes l: "laid xx s 0 img ccs fin" and h: "\<forall>x \<in> set img. holds xx seg (os s) x"
    and img: "img \<noteq> []" "sorted_wrt (<) (map fst img)" "\<forall>n \<in> fst ` set img. n < 2 ^ 64"
    and f: "files s = map fst img" "nWritten s = img_written img" "blockFile s = None" "lastFrameEnd s = 0"
      "nextNum s = (last (map fst img) + 1) mod 2 ^ 64" "\<forall>m. m \<notin> fst ` set img \<longrightarrow> df_size (heap s m) = 0"
  shows "standing xx img (recovered ccs fin s)" "\<exists>hh cc. recovered ccs fin s = s\<lparr>writeOff := fin, commitOff := cc, headOff := cc, heap := hh,
      nCommitted := nCommitted (recovered ccs fin s)\<rparr>"
proof -
  let ?at = "commit_pos xx 0 img"
  define t where "t = recovered ccs fin s"
  have dist: "distinct (map fst img)" using img(2) strict_sorted_iff by blast
  note ll = laid_lies [OF l]
  have fin: "fin = int (length (frames xx (payloads img)))" using ll by simp
  have at: "recover_commit ccs (s\<lparr>writeOff := fin\<rparr>) = ?at"
    using laid_commit [OF l h] by (simp add: recover_commit_def f(1) case_prod_unfold cong: option.case_cong)
  have t: "t = s\<lparr>writeOff := fin, commitOff := ?at, headOff := ?at,
      heap := (\<lambda>m. if m \<in> set (files s) then (heap s m)\<lparr>df_committed := reconciled (heap s m) ?at\<rparr> else heap s m),
      nCommitted := sum_list (map (\<lambda>m. reconciled (heap s m) ?at) (files s))\<rparr>"
    using reconcile_spec [of "files s" "s\<lparr>writeOff := fin, commitOff := ?at, headOff := ?at, nCommitted := 0\<rparr>"] dist f(1)
    by (simp add: t_def recovered_def at Let_def cong: if_cong)
  show "\<exists>hh cc. recovered ccs fin s = s\<lparr>writeOff := fin, commitOff := cc, headOff := cc, heap := hh, nCommitted := nCommitted (recovered ccs fin s)\<rparr>"
    using t unfolding t_def by (intro exI) (simp cong: if_cong)
  have tf: "writeOff t = fin" "commitOff t = ?at" "headOff t = ?at" "files t = map fst img" "os t = os s" "blockFile t = None"
    "lastFrameEnd t = 0" "nextNum t = nextNum s" "nWritten t = img_written img"
    by (simp_all add: t f)
  have hp: "heap t m = (if m \<in> fst ` set img then (heap s m)\<lparr>df_committed := reconciled (heap s m) ?at\<rparr> else heap s m)" for m
    by (simp add: t f(1))
  have up: "\<forall>m. \<exists>c. heap t m = (heap s m)\<lparr>df_committed := c\<rparr>"
  proof
    fix m show "\<exists>c. heap t m = (heap s m)\<lparr>df_committed := c\<rparr>"
      using hp [of m] by (cases "m \<in> fst ` set img") (auto intro: exI [of _ "df_committed (heap s m)"])
  qed
  have lt: "lies xx t 0 img" using lies_update ll tf(5) up by blast
  have ht: "\<forall>x \<in> set img. holds xx seg (os t) x" using h tf(5) by simp
  note L = lies_flat [OF lt ht]
  have ks: "\<forall>(n, ps, k) \<in> set img. k \<le> length ps" using h holds_le by fastforce
  obtain pre where pre: "payloads img = pre @ uncommitted img" "?at = 0 + int (length (frames xx pre))"
    by (rule commit_pos_cut [OF ks, of xx 0])
  have fl: "flat xx t = offs 0 (payloads img)" unfolding flat_def tf(4) by (rule L(1))
  have bl: "unread xx t = uncommitted img" "backlog xx t = uncommitted img"
    using from_off_cut [of 0 xx pre "uncommitted img"] pre(2) by (simp_all add: unread_def backlog_def tf fl pre(1))
  have atb: "0 \<le> ?at" "?at \<le> fin" using commit_pos_bounds [OF ks, where base = 0 and xx = xx] fin by simp_all
  have bd: "boundary xx t ?at"
  proof (cases "uncommitted img")
    case Nil
    then show ?thesis using pre fin by (simp add: boundary_def tf)
  next
    case (Cons p ps)
    have "flat xx t = offs 0 pre @ (?at, p) # offs (?at + framedLen (length p)) ps"
      using pre(2) by (simp add: fl pre(1) Cons offs_append [where xx = xx])
    then show ?thesis unfolding boundary_def by force
  qed
  have dn: "df_committed (heap t n) = done_in xx t n ?at" if n: "n \<in> fst ` set img" for n
  proof -
    obtain ps k where m: "(n, ps, k) \<in> set img" using n by auto
    obtain b sz where b: "heap s n = loaded n b sz (page (os s) n)" using laid_heap [OF l m] by blast
    have "holds xx seg (os s) (n, ps, k)" using h m by blast
    then have "df_committed (heap s n) = int k" unfolding b by (rule loaded_fields(3) [OF holdsD(2)])
    then have "reconciled (heap s n) ?at = done_in xx s n ?at"
      using reconciled_done [OF _ h m] ll by blast
    moreover have "df_base (heap t n) = df_base (heap s n)" "df_size (heap t n) = df_size (heap s n)" using hp [of n] n by simp_all
    then have "seg_flat xx t n = seg_flat xx s n" by (simp add: seg_flat_def recs_of_def data_of_alt tf(5))
    ultimately show ?thesis using hp [of n] n by (simp add: done_in_def)
  qed
  have "\<forall>n \<in> fst ` set img. n < nextNum t" if "nextNum t \<noteq> 0"
  proof -
    have le: "n \<le> last (map fst img)" if "n \<in> fst ` set img" for n
    proof -
      obtain i where i: "i < length img" "map fst img ! i = n" using \<open>n \<in> fst ` set img\<close> by (auto simp: in_set_conv_nth)
      have "last (map fst img) = map fst img ! (length img - 1)" using img(1) by (simp add: last_conv_nth)
      then show ?thesis using i sorted_wrt_nth_less [OF img(2), of i "length img - 1"] img(1) by (cases "i = length img - 1") (auto intro: less_imp_le)
    qed
    have "last (map fst img) \<in> fst ` set img" using img(1) by (metis last_in_set list.set_map map_is_Nil_conv)
    then have "last (map fst img) < 2 ^ 64" using img(3) by blast
    then have "nextNum t = last (map fst img) + 1" using that f(5) tf(8) by (cases "last (map fst img) + 1 = 2 ^ 64") simp_all
    then show ?thesis using le by (auto simp: less_Suc_eq_le)
  qed
  moreover have "df_size (heap t m) = 0" if "m \<ge> nextNum t" "nextNum t \<noteq> 0" for m
    using calculation [OF that(2)] that(1) f(6) hp [of m] by (cases "m \<in> fst ` set img") auto
  moreover have "nextNum t < 2 ^ 64" using f(5) tf(8) by simp
  ultimately have nums: "nums_ok t" using dist by (auto simp: nums_ok_def tf)
  have cov: "covered t"
  proof -
    obtain n ps k im where im: "img = (n, ps, k) # im" using img(1) by (metis prod_cases3 list.exhaust)
    have "df_base (heap t n) = 0" using lt by (auto simp: im loaded_def)
    then show ?thesis using L(2) [where c = ?at] atb(1) fin unfolding covered_def tf by (simp add: im)
  qed
  have fo: "\<forall>n \<in> set (files t). file_ok xx t n \<and> mark_room (heap t n) \<and> df_size (heap t n) \<le> df_capacity (heap t n)" using L(3) by (simp add: tf)
  have "queue_ok xx t"
    using fo cov nums atb bd by (simp add: queue_ok_def tf block_ok_def cache_ok_def)
  moreover have "store_count t = int (length (uncommitted img))"
  proof -
    have "nCommitted t = sum_list (map (\<lambda>n. done_in xx t n ?at) (map fst img))"
    proof -
      have "sum_list (map (\<lambda>m. reconciled (heap s m) ?at) (map fst img)) = sum_list (map (\<lambda>n. done_in xx t n ?at) (map fst img))"
        by (rule arg_cong [where f = sum_list], rule map_cong [OF refl]) (use dn hp in simp)
      then show ?thesis by (simp add: t f(1))
    qed
    also have "\<dots> = int (length (filter (\<lambda>x. fst x < ?at) (offs 0 (payloads img))))" using sum_done_in [of xx t ?at "map fst img"] L(1) by simp
    also have "\<dots> = int (length pre)"
    proof -
      have "filter (\<lambda>x. fst x < ?at) (offs 0 (take (length pre) (payloads img) @ drop (length pre) (payloads img))) = offs 0 pre"
        using filter_offs_take [of "length pre" "payloads img" 0 xx] pre by simp
      then show ?thesis by simp
    qed
    finally show ?thesis using pre(1) by (simp add: store_count_def tf img_written_def)
  qed
  ultimately show "standing xx img (recovered ccs fin s)"
    using bl fo dn by (simp add: standing_def t_def [symmetric] tf)
qed

section \<open>The repair pass\<close>

lemma preallocate_frame:
  assumes "preallocate n len w = (r, w')"
  shows "linked w' = linked w \<and> (\<forall>m. m \<noteq> n \<longrightarrow> inode w' m = inode w m) \<and>
    (\<exists>zs. inode w' n = inode w n @ zs \<or> inode w' n = take (nat len) (inode w n @ zs)) \<and> (script w = [] \<longrightarrow> script w' = [] \<and> r = Inr ())"
proof -
  have fa: "linked w1 = linked w \<and> (\<forall>m. m \<noteq> n \<longrightarrow> inode w1 m = inode w m) \<and> (\<exists>zs. inode w1 n = inode w n @ zs) \<and>
      (script w = [] \<longrightarrow> script w1 = [] \<and> r1 = Inr ()) \<and> (\<forall>e. r1 = Inl e \<longrightarrow> inode w1 = inode w)"
    if "os_fallocate n l w = (r1, w1)" for l r1 w1
    using that by (auto simp: os_fallocate_def os_tick_def split: list.splits verdict.splits intro: exI [of _ "[]"])
  have tr: "linked w1 = linked w2 \<and> (\<forall>m. m \<noteq> n \<longrightarrow> inode w1 m = inode w2 m) \<and>
      (\<exists>zs. inode w1 n = inode w2 n @ zs \<or> inode w1 n = take l (inode w2 n @ zs))"
    if t: "os_truncate n l w2 = (r1, w1)" for l r1 w1 w2
  proof -
    obtain v w3 where v: "os_tick w2 = (v, w3)" by force
    note same = os_tick_same [OF v, unfolded same_files_def]
    show ?thesis
    proof (cases v)
      case VOk
      then have "w1 = w3\<lparr>inode := (inode w3)(n := take l (inode w3 n @ replicate (l - length (inode w3 n)) 0))\<rparr>"
        using t v by (simp add: os_truncate_def)
      then show ?thesis using same by (auto simp del: take_append)
    next
      case (VFail e k)
      then show ?thesis using t v same by (auto simp: os_truncate_def intro: exI [of _ "[]"])
    qed
  qed
  obtain r1 w1 where 1: "os_fallocate n (nat len) w = (r1, w1)" by force
  show ?thesis
  proof (cases r1)
    case (Inr u)
    then show ?thesis using assms 1 fa [OF 1] by (auto simp: preallocate_def)
  next
    case (Inl e)
    note f = fa [OF 1]
    obtain r2 w2 where 2: "os_truncate n (nat len) w1 = (r2, w2)" by force
    have "(r, w') = (r2, w2) \<or> (r, w') = (Inl e, w1)" using assms 1 2 Inl by (auto simp: preallocate_def split: if_splits)
    then show ?thesis using f Inl tr [OF 2] by (auto intro: exI [of _ "[]"])
  qed
qed

lemma quiet_preallocate:
  assumes p: "os_run (preallocate n len) s = (r, s')" and f: "file_ok xx s n" and len: "int headerSize + df_size (heap s n) \<le> len"
  shows "quiet s s'"
proof -
  obtain w where w: "preallocate n len (os s) = (r, w)" "s' = s\<lparr>os := w\<rparr>" using p by (rule os_runE)
  note pf = preallocate_frame [OF w(1)]
  let ?z = "nat (df_size (heap s n))"
  have z: "0 \<le> df_size (heap s n)" "df_size (heap s n) = int (length (data_of s n))"
    using file_ok_size [OF f] file_ok_data(2) [OF f] by blast+
  have in_file: "?z = 0 \<or> headerSize + ?z \<le> length (inode (os s) n)"
    using z(2) by (simp add: data_of_alt) linarith
  have "take ?z (drop headerSize (inode w n)) = take ?z (drop headerSize (inode (os s) n))"
  proof (cases "?z = 0")
    case False
    have k: "headerSize + ?z \<le> nat len" using len z(1) by linarith
    obtain zs where "inode w n = inode (os s) n @ zs \<or> inode w n = take (nat len) (inode (os s) n @ zs)" using pf by blast
    then show ?thesis using in_file False k by (auto simp: drop_take min_def)
  qed simp
  then have "data_of (s\<lparr>os := w\<rparr>) m = data_of s m" for m using pf by (cases "m = n") (simp_all add: data_of_alt)
  then show ?thesis unfolding w(2) using pf by (intro quiet_os) auto
qed

definition mending :: "store \<Rightarrow> store \<Rightarrow> bool" where
  "mending r s \<longleftrightarrow> alike r s \<and> commitOff s = commitOff r \<and> nWritten s = nWritten r \<and> nCommitted s = nCommitted r \<and>
     (\<forall>m. df_committed (heap s m) = df_committed (heap r m))"

lemma mending_refl [simp]: "mending s s"
  by (simp add: mending_def)

lemma mending_trans: "mending a b \<Longrightarrow> mending b c \<Longrightarrow> mending a c"
  unfolding mending_def using alike_trans by metis

lemma mending_quiet: "quiet s s' \<Longrightarrow> mending s s'"
  using shape_eq_fields [of s' s] shape_eq_df_fields [of s' s] alike_quiet [of s s'] by (simp add: mending_def quiet_def)

lemma mending_truncated: "mending s (upd_df n (\<lambda>d. d\<lparr>df_truncated := b\<rparr>) s)"
proof -
  have "alike s (upd_df n (\<lambda>d. d\<lparr>df_truncated := b\<rparr>) s)" by (rule alike_df) simp_all
  then show ?thesis by (simp add: mending_def upd_df_def)
qed

lemma mending_file_ok: "mending r s \<Longrightarrow> file_ok xx s n = file_ok xx r n"
  using alike_flat(3) by (simp add: mending_def)

lemma mending_queue:
  assumes ok: "queue_ok xx r" and m: "mending r s"
  shows "queue_ok xx s" "unread xx s = unread xx r" "backlog xx s = backlog xx r"
proof -
  have a: "alike r s" and c: "commitOff s = commitOff r" using m by (simp_all add: mending_def)
  note af = alikeD(1-6) [OF a] alike_flat [OF a]
  have "queue_ok xx s \<and> unread xx s = unread xx r \<and> backlog xx s = backlog xx r"
    by (rule queue_ok_same [OF ok])
      (use af c alikeD(9,10) [OF a] queue_okD(9) [OF ok] in \<open>auto simp: same_seg_def\<close>)
  then show "queue_ok xx s" "unread xx s = unread xx r" "backlog xx s = backlog xx r" by blast+
qed

lemma repair_cursor_mark: "0 \<le> df_size d \<Longrightarrow> repair_cursor d c = mark_at d c"
  by (auto simp: repair_cursor_def mark_at_def df_end_def)

lemma repair_marks:
  fixes xx :: hash
  assumes len: "length hdr = headerSize" and b: "is_i64 a" "is_i64 w" "is_i64 c" "is_i64 k"
  defines "h \<equiv> header_mods xx [setWriteCursor a, setWrittenCount w, setCommitCursor c, setCommittedCount k] hdr"
  shows "commitCursor h = c" "committedCount h = k" "length h = headerSize" "writeCursor h = a" "writtenCount h = w"
    "headerChecksumOK xx h"
  using len b unfolding h_def header_mods_def by (simp_all add: hdr_laws)

lemma repairSegment_spec:
  assumes ok: "queue_ok xx r" and n: "n \<in> set (files r)" and room: "mark_room (heap r n)"
    and fits: "df_size (heap r n) \<le> df_capacity (heap r n)" and cm: "df_committed (heap r n) = done_in xx r n (commitOff r)" and m: "mending r s"
    and p: "repairSegment xx n s = (res, s')"
  shows "mending r s' \<and> (\<forall>k. marked xx (commitOff r) s k \<longrightarrow> marked xx (commitOff r) s' k) \<and>
    (res = Inr () \<longrightarrow> marked xx (commitOff r) s' n) \<and> (healthy s \<longrightarrow> healthy s' \<and> res = Inr ())"
proof -
  let ?c = "commitOff r"
  note M = m [unfolded mending_def]
  note af = alike_flat [OF conjunct1 [OF M]]
  have f: "file_ok xx s n" using mending_file_ok [OF m] queue_okD(1) [OF ok n] by simp
  have cs: "commitOff s = ?c" and rm: "mark_room (heap s n)" and dn: "df_committed (heap s n) = done_in xx s n ?c"
    using M room cm af by simp_all
  have rc: "repair_cursor (heap s n) ?c = mark_at (heap s n) ?c" by (rule repair_cursor_mark [OF file_ok_size [OF f]])
  show ?thesis
  proof (cases "needs_repair (heap s n) (mark_at (heap s n) ?c)")
    case False
    then have "marked xx ?c s n" using rm dn by (simp add: marked_def needs_repair_def)
    moreover have "res = Inr ()" "s' = s" using p False cs rc by (simp_all add: repairSegment_def)
    ultimately show ?thesis using m by simp
  next
    case True
    obtain r1 s1 where 1: "ensureOpen n s = (r1, s1)" by force
    have q1: "quiet s s1" by (rule quiet_ensureOpen [OF 1])
    have h1: "smooth s r1 s1" if "healthy s" by (rule smooth_ensureOpen [OF that file_okD(4) [OF f] 1])
    show ?thesis
    proof (cases r1)
      case (Inl e)
      then have "s' = s1" "res = Inl e" using p True cs rc 1 by (simp_all add: repairSegment_def)
      then show ?thesis using mending_trans [OF m mending_quiet [OF q1]] marked_quiet [OF q1] h1 Inl by (auto simp: smooth_def)
    next
      case (Inr u)
      have m1: "mending s s1" by (rule mending_quiet [OF q1])
      have f1: "file_ok xx s1 n" using mending_file_ok [OF m1] f by simp
      note a1 = alike_flat [OF alike_quiet [OF q1]]
      define g where "g = (\<lambda>d. header xx [setWriteCursor (int headerSize + df_size d), setWrittenCount (df_written d),
          setCommitCursor (mark_at (heap s n) ?c), setCommittedCount (df_committed d)] d)"
      define s2 where "s2 = upd_df n g s1"
      have rm1: "mark_room (heap s1 n)" and dn1: "df_committed (heap s1 n) = done_in xx s1 n ?c"
        and mk1: "mark_at (heap s1 n) ?c = mark_at (heap s n) ?c"
        using a1 rm dn m1 by (simp_all add: mending_def)
      have z1: "0 \<le> df_size (heap s1 n)" by (rule file_ok_size [OF f1])
      have i64: "is_i64 (int headerSize + df_size (heap s1 n))" "is_i64 (df_written (heap s1 n))" "is_i64 (mark_at (heap s n) ?c)"
        "is_i64 (df_committed (heap s1 n))"
      proof -
        have "df_written (heap s1 n) \<le> df_size (heap s1 n)"
        proof -
          have "int (length ps) \<le> int (length (frames xx ps))" for ps :: "bytes list"
          proof (induction ps)
            case (Cons p ps)
            have "0 < length (frame xx p)" by simp
            then have "1 \<le> int (length (frame xx p))" by linarith
            then show ?case using Cons by simp
          qed simp
          then show ?thesis using file_okD(3) [OF f1] file_ok_data [OF f1] by metis
        qed
        moreover have "0 \<le> df_written (heap s1 n)" using file_okD(3) [OF f1] by simp
        ultimately show "is_i64 (df_written (heap s1 n))" using z1 rm1 by (simp add: is_i64_def mark_room_def)
        show "is_i64 (int headerSize + df_size (heap s1 n))" using z1 rm1 by (simp add: is_i64_def mark_room_def)
        show "is_i64 (mark_at (heap s n) ?c)" using z1 rm1 unfolding mk1 [symmetric] by (auto simp: is_i64_def mark_room_def mark_at_def)
        show "is_i64 (df_committed (heap s1 n))"
          using done_in_bounds [OF f1, of ?c] rm1 unfolding dn1 by (auto simp: is_i64_def mark_room_def)
      qed
      note rmk = repair_marks [OF file_okD(5) [OF f1] i64, of xx]
      have a2: "alike s1 s2" unfolding s2_def
        by (rule alike_df) (simp_all add: g_def header_def rmk(3) file_okD(5) [OF f1])
      have m2: "mending s1 s2" using a2 by (simp add: mending_def s2_def upd_df_def g_def header_def)
      have k2: "marked xx ?c s2 n"
        unfolding marked_def alike_flat [OF a2] using rm1 dn1 mk1 rmk(1,2) by (simp add: s2_def upd_df_def g_def header_def)
      have o2: "marked xx ?c s2 k \<longleftrightarrow> marked xx ?c s k" if "k \<noteq> n" for k
        using that marked_quiet [OF q1] by (simp add: s2_def marked_upd_other)
      have all2: "mending r x \<and> (\<forall>k. marked xx ?c s k \<longrightarrow> marked xx ?c x k) \<and> marked xx ?c x n" if "quiet s2 x" for x
        using mending_trans [OF m mending_trans [OF m1 mending_trans [OF m2 mending_quiet [OF that]]]] marked_quiet [OF that] k2 o2 by metis
      obtain r3 s3 where 3: "writeHeader n s2 = (r3, s3)" by force
      have len2: "length (df_hdr (heap s2 n)) = headerSize" using rmk(3) by (simp add: s2_def upd_df_def g_def header_def)
      have q3: "quiet s2 s3" by (rule quiet_writeHeader [OF 3]) (simp add: len2)
      have lk: "linked (os s2) n" using file_okD(4) [OF f1] by (simp add: s2_def)
      have h3: "smooth s2 r3 s3" if "healthy s" using smooth_writeHeader [OF _ lk 3] h1 [OF that] by (simp add: smooth_def s2_def)
      obtain r4 s4 where 4: "flushFile n s3 = (r4, s4)" by force
      have q4: "quiet s2 s4" by (rule quiet_trans [OF q3 quiet_flushFile [OF 4]])
      have h4: "smooth s3 r4 s4" if "healthy s" using smooth_flushFile [OF _ _ 4] h3 [OF that] lk by (simp add: smooth_def)
      let ?len = "wrap64 (int headerSize + df_capacity (heap s4 n))"
      obtain r5 s5 where 5: "os_run (preallocate n ?len) s4 = (r5, s5)" by force
      have h5: "smooth s4 r5 s5" if "healthy s" using smooth_preallocate [OF _ 5] h4 [OF that] by (simp add: smooth_def)
      have e2: "repairSegment xx n s = (case r3 of Inl e \<Rightarrow> (Inl e, s3) | Inr _ \<Rightarrow> (case r4 of Inl e \<Rightarrow> (Inl e, s4) | Inr _ \<Rightarrow>
          if df_truncated (heap s4 n) then (Inr (), upd_df n (\<lambda>d. d\<lparr>df_truncated := False\<rparr>) s5) else (Inr (), s4)))"
        using True cs rc 1 Inr 3 [unfolded s2_def g_def] 4 5
        by (cases r3; cases r4; cases "df_truncated (heap s4 n)") (simp_all add: repairSegment_def Let_def)
      note p2 = e2 [unfolded p]
      have m4: "mending r s4" using all2 [OF q4] by blast
      have f4: "file_ok xx s4 n" using mending_file_ok [OF m4] queue_okD(1) [OF ok n] by simp
      have "df_size (heap s4 n) = df_size (heap r n)" "df_capacity (heap s4 n) = df_capacity (heap r n)"
        using m4 alike_flat(5,6) by (simp_all add: mending_def)
      then have "int headerSize + df_size (heap s4 n) \<le> ?len"
        using fits room file_ok_size [OF f4] by (simp add: wrap64_id is_i64_def mark_room_def headerSize_def)
      then have q5: "quiet s2 s5" using quiet_trans [OF q4 quiet_preallocate [OF 5 f4]] by blast
      let ?s6 = "upd_df n (\<lambda>d. d\<lparr>df_truncated := False\<rparr>) s5"
      have m6: "mending s5 ?s6" by (rule mending_truncated)
      have k6: "marked xx ?c ?s6 k = marked xx ?c s5 k" for k
        by (rule marked_cong) (use m6 in \<open>simp_all add: mending_def upd_df_def\<close>)
      have all6: "mending r ?s6 \<and> (\<forall>k. marked xx ?c s k \<longrightarrow> marked xx ?c ?s6 k) \<and> marked xx ?c ?s6 n"
        using all2 [OF q5] mending_trans [OF _ m6] k6 by blast
      have hl: "r3 = Inr () \<and> r4 = Inr () \<and> healthy s4 \<and> healthy ?s6" if "healthy s"
        using h3 [OF that] h4 [OF that] h5 [OF that] by (simp add: smooth_def)
      show ?thesis
      proof (cases r3)
        case (Inl e)
        then show ?thesis using p2 all2 [OF q3] hl by auto
      next
        case Inr3: (Inr u3)
        show ?thesis
        proof (cases r4)
          case (Inl e)
          then show ?thesis using p2 Inr3 all2 [OF q4] hl by auto
        next
          case (Inr u4)
          show ?thesis using p2 Inr3 Inr all2 [OF q4] all6 hl by (cases "df_truncated (heap s4 n)") auto
        qed
      qed
    qed
  qed
qed

lemma repair_loop_spec:
  assumes "queue_ok xx r" "mending r s" "set ns \<subseteq> set (files r)"
    "\<forall>n \<in> set (files r). mark_room (heap r n) \<and> df_size (heap r n) \<le> df_capacity (heap r n) \<and> df_committed (heap r n) = done_in xx r n (commitOff r)"
    "repair_loop xx ns s = (res, s')"
  shows "mending r s' \<and> (\<forall>k. marked xx (commitOff r) s k \<longrightarrow> marked xx (commitOff r) s' k) \<and>
    (res = Inr () \<longrightarrow> (\<forall>n \<in> set ns. marked xx (commitOff r) s' n)) \<and> (healthy s \<longrightarrow> healthy s' \<and> res = Inr ())"
  using assms
proof (induction ns arbitrary: s)
  case (Cons n ns)
  obtain r1 s1 where 1: "repairSegment xx n s = (r1, s1)" by force
  note sp = repairSegment_spec [OF Cons.prems(1) _ _ _ _ Cons.prems(2) 1]
  have S: "mending r s1 \<and> (\<forall>k. marked xx (commitOff r) s k \<longrightarrow> marked xx (commitOff r) s1 k) \<and>
    (r1 = Inr () \<longrightarrow> marked xx (commitOff r) s1 n) \<and> (healthy s \<longrightarrow> healthy s1 \<and> r1 = Inr ())"
    by (rule sp) (use Cons.prems in auto)
  show ?case
  proof (cases r1)
    case (Inl e)
    then show ?thesis using Cons.prems(5) 1 S by auto
  next
    case (Inr u)
    have "repair_loop xx ns s1 = (res, s')" using Cons.prems(5) 1 Inr by simp
    from Cons.IH [OF Cons.prems(1) _ _ Cons.prems(4) this] show ?thesis using S Inr Cons.prems(3) by auto
  qed
qed simp

lemma open_active_spec:
  assumes ok: "queue_ok xx s" and n: "files s \<noteq> []" and fit: "\<forall>n \<in> set (files s). mark_room (heap s n) \<and> df_size (heap s n) \<le> df_capacity (heap s n)"
    and r: "open_active s = (res, s')"
  shows "quiet s s' \<and> (healthy s \<longrightarrow> healthy s' \<and> res = Inr ())"
proof -
  define n where "n = the (active s)"
  have nf: "n \<in> set (files s)" using n by (simp add: n_def active_def)
  have f: "file_ok xx s n" by (rule queue_okD(1) [OF ok nf])
  obtain r1 s1 where 1: "ensureOpen n s = (r1, s1)" by force
  have q1: "quiet s s1" by (rule quiet_ensureOpen [OF 1])
  have h1: "smooth s r1 s1" if "healthy s" by (rule smooth_ensureOpen [OF that file_okD(4) [OF f] 1])
  obtain r2 s2 where 2: "os_run (preallocate n (wrap64 (int headerSize + df_capacity (heap s1 n)))) s1 = (r2, s2)" by force
  have f1: "file_ok xx s1 n" using quiet_file_ok [OF q1] f by simp
  have "df_size (heap s1 n) = df_size (heap s n)" "df_capacity (heap s1 n) = df_capacity (heap s n)"
    using q1 shape_eq_df_fields [of s1 s n] by (simp_all add: quiet_def)
  then have "int headerSize + df_size (heap s1 n) \<le> wrap64 (int headerSize + df_capacity (heap s1 n))"
    using fit nf file_ok_size [OF f1] by (subst wrap64_id) (fastforce simp: is_i64_def mark_room_def headerSize_def)+
  then have q2: "quiet s s2" using quiet_trans [OF q1 quiet_preallocate [OF 2 f1]] by blast
  have h2: "smooth s1 r2 s2" if "healthy s" using smooth_preallocate [OF _ 2] h1 [OF that] by (simp add: smooth_def)
  show ?thesis using r 1 2 q1 q2 h1 h2 by (cases r1) (auto simp: open_active_def n_def [symmetric] smooth_def)
qed

section \<open>Opening\<close>

definition image_of :: "hash \<Rightarrow> int \<Rightarrow> image \<Rightarrow> os \<Rightarrow> bool" where
  "image_of xx seg img w \<longleftrightarrow> img \<noteq> [] \<and> sorted_wrt (<) (map fst img) \<and> (\<forall>n < 2 ^ 64. linked w n \<longleftrightarrow> n \<in> fst ` set img) \<and>
     (\<forall>n \<in> fst ` set img. n < 2 ^ 64) \<and> (\<forall>x \<in> set img. holds xx seg w x)"

text \<open>Every record is still in its file and every file in the directory.\<close>

definition untouched :: "hash \<Rightarrow> image \<Rightarrow> os \<Rightarrow> bool" where
  "untouched xx img w \<longleftrightarrow> (\<forall>(n, ps, k) \<in> set img. linked w n \<and> (\<exists>rest. drop headerSize (inode w n) = frames xx ps @ rest))"

lemma image_untouched: "image_of xx seg img w \<Longrightarrow> same_files w w' \<Longrightarrow> untouched xx img w'"
  by (fastforce simp: image_of_def untouched_def holds_def same_files_def)

lemma core_close_files:
  "close_files ns e s = (e', s') \<Longrightarrow> core s' = core s"
proof (induction ns e s arbitrary: e' s' rule: close_files.induct)
  case (2 n ns first s)
  obtain first1 s1 where 1: "(if ioErr s = None then (case flushFile n s of (Inl e, t) \<Rightarrow> (if first = None then Some e else first, t)
      | (Inr _, t) \<Rightarrow> (first, t)) else (first, s)) = (first1, s1)" by force
  have c1: "core s1 = core s" using 1 by (auto split: if_splits prod.splits sum.splits dest!: core_flushFile)
  let ?s2 = "upd_df n (\<lambda>d. d\<lparr>df_dirty := False\<rparr>) s1"
  have c2: "core ?s2 = core s" using c1 by (simp add: core_upd_df)
  show ?case
  proof (cases "df_open (heap ?s2 n)")
    case False
    then show ?thesis using 2 1 c2 by (simp add: Let_def)
  next
    case True
    obtain r s3 where 3: "os_run os_close ?s2 = (r, s3)" by force
    have c3: "core (upd_df n (\<lambda>d. d\<lparr>df_open := False\<rparr>) (untrackOpen n s3)) = core s"
      using core_os_close [OF 3] c2 by (simp add: untrackOpen_def core_upd_df)
    show ?thesis using "2.IH"(2) [OF 1 [symmetric] refl refl _ 3 [symmetric]] "2.prems" 1 3 True c3 by (simp add: Let_def)
  qed
qed simp

lemma close_store_files:
  assumes "close_store s = (r, s')"
  shows "same_files (os s) (os s')"
proof -
  obtain e1 s1 where 1: "close_files (files s) (ioErr s) s = (e1, s1)" by force
  have f1: "same_files (os s) (os s1)" using core_eq_fields [OF core_close_files [OF 1]] by (simp add: same_files_def)
  obtain e2 s2 where 2: "(if e1 = None then (case syncDir s1 of (r, t) \<Rightarrow> (err_of r, t)) else (e1, s1)) = (e2, s2)" by force
  have f2: "same_files (os s1) (os s2)"
    using 2 by (auto simp: syncDir_def failIO_def os_run_def Let_def split: if_splits prod.splits sum.splits dest!: fsyncDir_same)
  let ?s4 = "(if e2 = None then s2\<lparr>unsynced := 0, unsyncedBytes := 0\<rparr> else s2)\<lparr>lruMRU := None, lruLRU := None, nOpen := 0\<rparr>"
  obtain r5 s5 where 5: "os_run os_close ?s4 = (r5, s5)" by force
  have o4: "os ?s4 = os s2" by simp
  obtain w where w: "os_close (os ?s4) = (r5, w)" "s5 = ?s4\<lparr>os := w\<rparr>" using 5 by (rule os_runE)
  then have "same_files (os s2) (os s5)" using os_close_same [of "os s2" r5 w] o4 by simp
  moreover have "os s' = os s2 \<or> os s' = os s5" using assms 1 2 5 unfolding close_store_def Let_def by (auto split: if_splits)
  ultimately show ?thesis using same_files_trans [OF f1 f2] same_files_trans by metis
qed

lemma scan_dir_looked: "looked s (snd (scan_dir es s))"
proof (induction es arbitrary: s)
  case (Cons e es)
  obtain name isDir where e: "e = (name, isDir)" by force
  have st: "looked s (snd (os_run (os_stat n) s))" for n
    by (rule looked_os_run [OF surjective_pairing]) (auto simp: os_stat_def os_tick_def same_files_def split: list.splits verdict.splits)
  have "\<exists>s1. looked s s1 \<and> snd (scan_dir (e # es) s) = snd (scan_dir es s1)"
  proof (cases "isDir \<or> take (length filePrefix) name \<noteq> filePrefix \<or> ParseUint (drop (length filePrefix) name) = None")
    case True
    then show ?thesis by (intro exI [of _ s]) (auto simp: e)
  next
    case False
    then obtain num where num: "ParseUint (drop (length filePrefix) name) = Some num" by auto
    obtain r s1 where 1: "os_run (os_stat num) s = (r, s1)" by force
    have "looked s s1" using st [of num] 1 by simp
    then show ?thesis using False num 1 by (intro exI [of _ "if name = filePath num then s else s1"]) (auto simp: e split: sum.splits prod.splits)
  qed
  then show ?case using looked_trans Cons.IH by metis
qed simp

lemma lock_spec:
  assumes "os_run tryLockDir s = (r, s1)"
  shows "looked s s1 \<and> (r = Inr () \<or> (\<exists>e. r = Inl e) \<and> \<not> fault_free s)"
  using assms by (auto simp: os_run_def tryLockDir_def os_plain_def os_tick_def looked_def fault_free_def same_files_def
      split: list.splits verdict.splits if_splits)

text \<open>The directory read, the segments loaded, the cursors recovered, the headers repaired, the last segment opened.\<close>

lemma mending_untouched:
  assumes st: "standing xx img r" and m: "mending r s" and h: "\<forall>(n, ps, k) \<in> set img. recs_of xx r n = ps"
  shows "untouched xx img (os s)"
proof -
  have "linked (os s) n \<and> (\<exists>rest. drop headerSize (inode (os s) n) = frames xx ps @ rest)" if x: "(n, ps, k) \<in> set img" for n ps k
  proof -
    have n: "n \<in> set (files r)" using st x by (force simp: standing_def)
    have f: "file_ok xx r n" using st n queue_okD(1) by (auto simp: standing_def)
    have "data_of s n = data_of r n" "linked (os s) n = linked (os r) n" using m alikeD(9) by (auto simp: mending_def same_seg_def)
    then have "data_of s n = frames xx ps" "linked (os s) n" using file_ok_data(1) [OF f] file_okD(4) [OF f] h x by auto
    then show ?thesis by (metis data_of_alt append_take_drop_id)
  qed
  then show ?thesis by (auto simp: untouched_def)
qed

text \<open>What the open path made of the directory before the repair pass, and that the pass succeeded.\<close>

definition opened :: "hash \<Rightarrow> image \<Rightarrow> os \<Rightarrow> store \<Rightarrow> store \<Rightarrow> bool" where
  "opened xx img w t s' \<longleftrightarrow> same_files w (os t) \<and> stable (os t) = stable w \<and> stable_dir (os t) = stable_dir w \<and> dirOpen t \<and> ioErr t = None \<and>
     (\<forall>(n, ps, k) \<in> set img. \<exists>b sz c. heap t n = (loaded n b sz (page w n))\<lparr>df_committed := c\<rparr>) \<and>
     (\<exists>u. repair_loop xx (rev (files t)) t = (Inr (), u) \<and> open_active u = (Inr (), s'))"

lemma load_spec:
  assumes im: "image_of xx (segmentSize s) img (os s)" and dir: "dir_lists ents (os s)"
    and new: "files s = []" "heap s = zero_dataFile" "nWritten s = 0" "blockFile s = None" "lastFrameEnd s = 0" "ioErr s = None" "dirOpen s"
    and r: "load xx ents s = (r, s')"
  shows "(r = Inr () \<and> (\<exists>t. standing xx img t \<and> mending t s' \<and> options t = options s \<and> reserved t = reserved s \<and>
      (\<forall>n \<in> set (files t). marked xx (commitOff t) s' n) \<and> opened xx img (os s) t s') \<and> (fault_free s \<longrightarrow> healthy s')) \<or>
    (\<exists>e. r = Inl e) \<and> \<not> fault_free s \<and> untouched xx img (os s')"
proof -
  note I = im [unfolded image_of_def]
  obtain r1 s1 where 1: "os_run os_plain s = (r1, s1)" by force
  note p1 = plain_spec [OF 1]
  show ?thesis
  proof (cases r1)
    case (Inl e)
    then have "r = Inl e" "s' = s1" using r 1 by (simp_all add: load_def)
    moreover have "untouched xx img (os s1)" using p1 image_untouched [OF im] by (simp add: looked_def)
    ultimately show ?thesis using p1 Inl by auto
  next
    case (Inr u)
    obtain raw s2 where 2: "scan_dir ents s1 = (raw, s2)" by force
    have l2: "looked s s2" using looked_trans p1 scan_dir_looked [of s1 ents] 2 by (metis snd_conv)
    note f1 = looked_fields [OF conjunct1 [OF p1]] and f2 = looked_fields [OF l2]
    have nums: "segment_nums raw = map fst img"
    proof -
      have "dir_lists ents (os s1)" using dir f1(5) by (simp add: dir_lists_def)
      then have "sorted (segment_nums raw) \<and> distinct (segment_nums raw) \<and> set (segment_nums raw) = {n. n < 2 ^ 64 \<and> linked (os s1) n}"
        using segment_nums_spec [of ents s1] 2 by simp
      moreover have "set (map fst img) = {n. n < 2 ^ 64 \<and> linked (os s1) n}" using I f1(5) by auto
      ultimately show ?thesis using I strict_sorted_iff sorted_distinct_set_unique by metis
    qed
    let ?s2 = "s2\<lparr>nextNum := (last (map fst img) + 1) mod 2 ^ 64\<rparr>"
    obtain r3 s3 where 3: "load_loop xx (map fst img) 0 ?s2 = (r3, s3)" by force
    have h2: "\<forall>x \<in> set img. holds xx (segmentSize ?s2) (os ?s2) x" using I f2 by (auto simp: holds_def page_def)
    have dist: "distinct (map fst img)" using I strict_sorted_iff by blast
    have nw: "nWritten s2 = 0" "blockFile s2 = None" "lastFrameEnd s2 = 0" "ioErr s2 = None" "options s2 = options s" "reserved s2 = reserved s"
      using new unfolding options_def by (subst f2(7), simp)+
    from load_loop_spec [OF h2 dist 3]
    have lo: "loading ?s2 s3" and hm: "\<forall>m. m \<notin> fst ` set img \<longrightarrow> heap s3 m = heap s m"
      and cs: "(\<exists>ccs fin. r3 = Inr (ccs, fin) \<and> files s3 = map fst img \<and> nWritten s3 = img_written img \<and> laid xx s3 0 img ccs fin) \<or>
         (\<exists>x. r3 = Inl (Errno x)) \<and> \<not> fault_free s"
      using f2 new nw(1) by (auto simp: fault_free_def)
    note lf = loading_fields [OF lo]
    have same3: "same_files (os s) (os s3)" using lf(2,3) f2(4,5) by (simp add: same_files_def)
    show ?thesis
    proof (cases r3)
      case Inl3: (Inl e)
      then have "r = Inl e" "s' = s3" using r 1 2 3 Inr nums I by (simp_all add: load_def)
      then show ?thesis using cs Inl3 image_untouched [OF im same3] by auto
    next
      case (Inr v)
      then obtain ccs fin where v: "r3 = Inr (ccs, fin)" "files s3 = map fst img" "nWritten s3 = img_written img" "laid xx s3 0 img ccs fin"
        using cs by auto
      have h3: "\<forall>x \<in> set img. holds xx (segmentSize s) (os s3) x" using I same3 by (auto simp: holds_def page_def same_files_def)
      let ?t = "recovered ccs fin s3"
      have st: "standing xx img ?t" and tt: "\<exists>hh cc. ?t = s3\<lparr>writeOff := fin, commitOff := cc, headOff := cc, heap := hh, nCommitted := nCommitted ?t\<rparr>"
      proof -
        have "\<forall>m. m \<notin> fst ` set img \<longrightarrow> df_size (heap s3 m) = 0" using hm new(2) by (simp add: zero_dataFile_def)
        moreover have "nextNum s3 = (last (map fst img) + 1) mod 2 ^ 64" using lf(6) by simp
        moreover have "blockFile s3 = None" "lastFrameEnd s3 = 0" using lf nw by simp_all
        ultimately show "standing xx img ?t" "\<exists>hh cc. ?t = s3\<lparr>writeOff := fin, commitOff := cc, headOff := cc, heap := hh, nCommitted := nCommitted ?t\<rparr>"
          using recovered_standing [OF v(4) h3 _ _ _ v(2,3)] I by blast+
      qed
      obtain hh cc where t: "?t = s3\<lparr>writeOff := fin, commitOff := cc, headOff := cc, heap := hh, nCommitted := nCommitted ?t\<rparr>" using tt by blast
      have tf: "options ?t = options s" "reserved ?t = reserved s" "os ?t = os s3" "ioErr ?t = None" "dirOpen ?t"
        using lf nw f2(10) new(7) unfolding options_def by (subst t, simp)+
      have hl: "healthy ?t" if "fault_free s" using that lf(4) f2(6) tf(3,4) by (simp add: healthy_def fault_free_def)
      note ST = st [unfolded standing_def]
      have objs: "recs_of xx ?t n = ps \<and> (\<exists>b sz c. heap ?t n = (loaded n b sz (page (os ?t) n))\<lparr>df_committed := c\<rparr>)"
        if m: "(n, ps, k) \<in> set img" for n ps k
      proof -
        obtain b sz where d: "heap s3 n = loaded n b sz (page (os s3) n)" using laid_heap [OF v(4) m] by blast
        have "n \<in> set (files s3)" using m v(2) by force
        then obtain c where "heap ?t n = (heap s3 n)\<lparr>df_committed := c\<rparr>"
          using reconcile_spec [of "files s3"] dist v(2) unfolding recovered_def Let_def by simp
        then have h: "heap ?t n = (loaded n b sz (page (os ?t) n))\<lparr>df_committed := c\<rparr>" using d tf(3) by simp
        moreover have "holds xx (segmentSize s) (os ?t) (n, ps, k)" using h3 m tf(3) by auto
        ultimately have "recs_of xx ?t n = ps" by (rule seg_sound(2) [rotated])
        then show ?thesis using h by blast
      qed
      then have recs: "\<forall>(n, ps, k) \<in> set img. recs_of xx ?t n = ps" by blast
      obtain r5 s5 where 5: "repair_loop xx (rev (files ?t)) ?t = (r5, s5)" by force
      have R: "mending ?t s5 \<and> (r5 = Inr () \<longrightarrow> (\<forall>n \<in> set (files ?t). marked xx (commitOff ?t) s5 n)) \<and> (healthy ?t \<longrightarrow> healthy s5 \<and> r5 = Inr ())"
        using repair_loop_spec [OF conjunct1 [OF ST] mending_refl _ _ 5] ST by simp
      have ld: "load xx ents s = (case r5 of Inl e \<Rightarrow> (Inl e, s5) | Inr _ \<Rightarrow> open_active s5)"
        using 1 2 3 \<open>r1 = Inr u\<close> nums I v(1,2) 5 by (cases r5) (simp_all add: load_def Let_def)
      show ?thesis
      proof (cases r5)
        case (Inl e)
        then have "r = Inl e" "s' = s5" using ld r by simp_all
        then show ?thesis using mending_untouched [OF st conjunct1 [OF R] recs] R Inl hl by auto
      next
        case Inr5: (Inr w5)
        have m5: "mending ?t s5" using R by blast
        note Q = mending_queue [OF conjunct1 [OF ST] m5]
        have a5: "alike ?t s5" using m5 by (simp add: mending_def)
        have fs: "files s5 = files ?t" "files s5 \<noteq> []" using alikeD(1) [OF a5] ST I by auto
        have fit: "\<forall>n \<in> set (files s5). mark_room (heap s5 n) \<and> df_size (heap s5 n) \<le> df_capacity (heap s5 n)"
          using ST fs alike_flat [OF a5] by simp
        have oa: "open_active s5 = (r, s')" using ld r Inr5 by simp
        note O = open_active_spec [OF Q(1) fs(2) fit oa]
        have m6: "mending ?t s'" using mending_trans [OF m5 mending_quiet] O by blast
        show ?thesis
        proof (cases r)
          case (Inl e)
          then show ?thesis using O R hl mending_untouched [OF st m6 recs] by auto
        next
          case (Inr w)
          have "\<forall>n \<in> set (files ?t). marked xx (commitOff ?t) s' n" using R Inr5 marked_quiet [OF conjunct1 [OF O]] by simp
          moreover have "opened xx img (os s) ?t s'"
          proof -
            have "same_files (os s) (os ?t)" "stable (os ?t) = stable (os s)" "stable_dir (os ?t) = stable_dir (os s)"
              using same3 lf(14,15) f2(8,9) by (simp_all add: tf(3))
            moreover from this have "page (os s) = page (os ?t)" by (simp add: page_def same_files_def fun_eq_iff)
            ultimately show ?thesis using tf(4,5) objs 5 oa Inr5 Inr unfolding opened_def by fastforce
          qed
          moreover have "fault_free s \<longrightarrow> healthy s'" using hl R O by blast
          ultimately show ?thesis using st m6 tf Inr by (intro disjI1 conjI exI [of _ ?t]) simp_all
        qed
      qed
    qed
  qed
qed

lemma openStore_stages:
  assumes im: "image_of xx seg img w" and dir: "dir_lists ents w" and seg: "int headerSize + seg < 2 ^ 63"
    and r: "openStore xx ents seg maxSegs nosync every maxOpen w = (r, s)"
  shows "(r = Inr () \<and> session_ok xx s \<and> backlog xx s = uncommitted img \<and> unread xx s = uncommitted img \<and>
      store_count s = int (length (uncommitted img)) \<and> reserved s = [] \<and>
      (\<exists>t. standing xx img t \<and> mending t s \<and> segmentSize t = seg \<and> opened xx img w t s) \<and> (script w = [] \<longrightarrow> healthy s)) \<or>
    (\<exists>e. r = Inl e) \<and> script w \<noteq> [] \<and> untouched xx img (os s)"
proof -
  let ?s0 = "new_store seg maxSegs nosync every maxOpen w"
  have w0: "os ?s0 = w" by (simp add: new_store_def)
  have ff0: "fault_free ?s0 \<longleftrightarrow> script w = []" by (simp add: fault_free_def w0)
  have un: "untouched xx img (os t)" if "looked ?s0 t" for t
    using image_untouched [OF im] that by (simp add: looked_def w0)
  obtain r1 s1 where 1: "os_run os_plain ?s0 = (r1, s1)" by force
  obtain r2 s2 where 2: "os_run os_plain s1 = (r2, s2)" by force
  obtain r3 s3 where 3: "os_run tryLockDir s2 = (r3, s3)" by force
  obtain r4 s4 where 4: "load xx ents (s3\<lparr>dirOpen := True\<rparr>) = (r4, s4)" by force
  obtain r5 s5 where 5: "os_run os_close s3 = (r5, s5)" by force
  obtain r6 s6 where 6: "close_store s4 = (r6, s6)" by force
  note p1 = plain_spec [OF 1] and p2 = plain_spec [OF 2] and p3 = lock_spec [OF 3]
  have p5: "looked s3 s5" using plain_spec 5 unfolding os_close_def by blast
  have l: "looked ?s0 s1" "looked ?s0 s2" "looked ?s0 s3" "looked ?s0 s5" using p1 p2 p3 p5 looked_trans by blast+
  have fl: "fault_free s1" "fault_free s2" "fault_free s3" if "script w = []"
    using l looked_fields(6) ff0 that by blast+
  have eq: "openStore xx ents seg maxSegs nosync every maxOpen w = (case r1 of Inl e \<Rightarrow> (Inl e, s1) | Inr _ \<Rightarrow> (case r2 of Inl e \<Rightarrow> (Inl e, s2) | Inr _ \<Rightarrow>
      (case r3 of Inl e \<Rightarrow> (Inl e, s5) | Inr _ \<Rightarrow> (case r4 of Inl e \<Rightarrow> (Inl e, s6) | Inr _ \<Rightarrow> (Inr (), s4)))))"
    using 1 2 3 4 5 6 by (cases r1; cases r2; cases r3; cases r4) (simp_all add: openStore_def Let_def)
  note out = eq [unfolded r]
  consider (fail) "r1 \<noteq> Inr () \<or> r2 \<noteq> Inr () \<or> r3 \<noteq> Inr ()" | (go) "r1 = Inr ()" "r2 = Inr ()" "r3 = Inr ()" by blast
  then show ?thesis
  proof cases
    case fail
    then have "\<exists>e. r = Inl e" "s \<in> {s1, s2, s5}" using out by (auto split: sum.splits)
    moreover have "script w \<noteq> []" using fail fl p1 p2 p3 ff0 by (metis fault_free_def)
    ultimately show ?thesis using un l by auto
  next
    case go
    let ?s = "s3\<lparr>dirOpen := True\<rparr>"
    note lf = looked_fields [OF l(3)]
    have new: "files ?s = []" "heap ?s = zero_dataFile" "nWritten ?s = 0" "blockFile ?s = None" "lastFrameEnd ?s = 0" "ioErr ?s = None" "dirOpen ?s"
      "segmentSize ?s = seg" "reserved ?s = []" "stagedBytes ?s = 0" "pendingCorrupt ?s = 0"
      unfolding stagedBytes_def by (subst lf(7), simp add: new_store_def)+
    have same: "inode (os s3) = inode w" "linked (os s3) = linked w" using lf(4,5) w0 by simp_all
    have im3: "image_of xx (segmentSize ?s) img (os ?s)" and dir3: "dir_lists ents (os ?s)"
      using im dir same new(8) by (auto simp: image_of_def holds_def page_def dir_lists_def)
    from load_spec [OF im3 dir3 new(1-7) 4] show ?thesis
    proof
      assume "r4 = Inr () \<and> (\<exists>t. standing xx img t \<and> mending t s4 \<and> options t = options ?s \<and> reserved t = reserved ?s \<and>
        (\<forall>n \<in> set (files t). marked xx (commitOff t) s4 n) \<and> opened xx img (os ?s) t s4) \<and> (fault_free ?s \<longrightarrow> healthy s4)"
      then obtain t where t: "r4 = Inr ()" "standing xx img t" "mending t s4" "options t = options ?s" "reserved t = reserved ?s"
        "\<forall>n \<in> set (files t). marked xx (commitOff t) s4 n" "opened xx img (os ?s) t s4" "fault_free ?s \<longrightarrow> healthy s4" by blast
      note T = t(2) [unfolded standing_def]
      note M = mending_queue [OF conjunct1 [OF T] t(3)]
      have a: "alike t s4" "commitOff s4 = commitOff t" "store_count s4 = store_count t"
        using t(3) by (simp_all add: mending_def store_count_def)
      have o: "options s4 = options ?s" "reserved s4 = []" using alikeD(7,8) [OF a(1)] t(4,5) new(9) by simp_all
      have "commit_ok xx s4" using M(1) t(6) a alikeD(1) [OF a(1)] by (simp add: commit_ok_def)
      moreover have "stagedBytes s4 = 0" "segmentSize s4 = seg" "pendingCorrupt s4 = 0"
        using o(1) new(8,10,11) by (simp_all add: options_def stagedBytes_def)
      ultimately have "session_ok xx s4" using o(2) seg by (simp add: session_ok_def ledger_fit_def ledger_ok_def)
      moreover have "opened xx img w t s4"
      proof -
        have "stable (os s3) = stable w" "stable_dir (os s3) = stable_dir w" "page (os s3) = page w" using lf(8,9) w0 same(1) by (simp_all add: page_def fun_eq_iff)
        then show ?thesis using t(7) same by (simp add: opened_def same_files_def)
      qed
      moreover have "script w = [] \<longrightarrow> healthy s4" using t(8) fl(3) by (simp add: fault_free_def)
      moreover have "segmentSize t = seg" using t(4) new(8) by (simp add: options_def)
      ultimately show ?thesis using out go t(1-3) M T a(3) o(2) by auto
    next
      assume b: "(\<exists>e. r4 = Inl e) \<and> \<not> fault_free ?s \<and> untouched xx img (os s4)"
      have "same_files (os s4) (os s6)" by (rule close_store_files [OF 6])
      then have "untouched xx img (os s6)" using b by (simp add: untouched_def same_files_def)
      moreover have "script w \<noteq> []" using b fl(3) by (auto simp: fault_free_def)
      ultimately show ?thesis using out go b by auto
    qed
  qed
qed

lemma openStore_core:
  assumes im: "image_of xx seg img w" and dir: "dir_lists ents w" and seg: "int headerSize + seg < 2 ^ 63"
    and r: "openStore xx ents seg maxSegs nosync every maxOpen w = (r, s)"
  shows "(r = Inr () \<and> session_ok xx s \<and> backlog xx s = uncommitted img \<and> unread xx s = uncommitted img \<and>
      store_count s = int (length (uncommitted img))) \<or>
    (\<exists>e. r = Inl e) \<and> script w \<noteq> [] \<and> untouched xx img (os s)"
  using openStore_stages [OF assms] by blast

section \<open>Properties\<close>

text \<open>
  C3: opening a directory of sound segments recovers the queue.  Whatever the headers say of
  how much is committed, also when they contradict each other as after a crash inside a commit,
  the opened store is well formed, its backlog and what it will deliver are exactly the records
  from the first one not counted as committed, in order, its count is their number, and its
  headers agree with its cursor; or, only when the disk failed, an error is returned and every
  record is still in its file and every file in the directory.
\<close>

theorem openStore_recovers:
  assumes im: "image_of xx seg img w" and dir: "dir_lists ents w" and seg: "int headerSize + seg < 2 ^ 63"
    and r: "openStore xx ents seg maxSegs nosync every maxOpen w = (r, s)"
  shows "(r = Inr () \<and> session_ok xx s \<and> backlog xx s = uncommitted img \<and> unread xx s = uncommitted img \<and>
      store_count s = int (length (uncommitted img))) \<or>
    (\<exists>e. r = Inl e) \<and> script w \<noteq> [] \<and> untouched xx img (os s)"
  using assms by (rule openStore_core)

text \<open>
  Two segments after a crash inside a commit: the header of the second already counts its record
  as committed, the header of the first counts one of its two.
\<close>

definition sample_header :: "int \<Rightarrow> int \<Rightarrow> int \<Rightarrow> int \<Rightarrow> bytes" where
  "sample_header wc w cc k = header_mods (\<lambda>_. 5) [initHeader, setWriteCursor wc, setWrittenCount w, setCommitCursor cc,
     setCommittedCount k, setHdrCapacity 4096, setHdrSegSize 4096] (replicate 64 0)"

definition sample_image :: image where
  "sample_image = [(1, [[1, 2], [3]], 1), (2, [[4]], 1)]"

definition sample_disk :: os where
  "sample_disk = os_empty\<lparr>linked := (\<lambda>n. n = 1 \<or> n = 2),
     inode := (\<lambda>n. if n = 1 then sample_header 85 2 75 1 @ frames (\<lambda>_. 5) [[1, 2], [3]]
                    else sample_header 74 1 74 1 @ frames (\<lambda>_. 5) [[4]])\<rparr>"

lemma sample_header_says:
  assumes "is_i64 wc" "is_i64 w" "is_i64 cc" "is_i64 k"
  shows "length (sample_header wc w cc k) = 64" "magic (sample_header wc w cc k) = headerMagic"
    "headerChecksumOK (\<lambda>_. 5) (sample_header wc w cc k)" "version (sample_header wc w cc k) = formatVersion"
    "hdrSegSize (sample_header wc w cc k) = 4096" "hdrCapacity (sample_header wc w cc k) = 4096"
    "writeCursor (sample_header wc w cc k) = wc" "writtenCount (sample_header wc w cc k) = w"
    "commitCursor (sample_header wc w cc k) = cc" "committedCount (sample_header wc w cc k) = k"
proof -
  have l: "length (replicate 64 0 :: bytes) = headerSize" "is_i64 4096" by (simp_all add: headerSize_def is_i64_def)
  show "length (sample_header wc w cc k) = 64" using l by (simp add: sample_header_def header_mods_def headerSize_def)
  show "magic (sample_header wc w cc k) = headerMagic"
    "headerChecksumOK (\<lambda>_. 5) (sample_header wc w cc k)" "version (sample_header wc w cc k) = formatVersion"
    "hdrSegSize (sample_header wc w cc k) = 4096" "hdrCapacity (sample_header wc w cc k) = 4096"
    "writeCursor (sample_header wc w cc k) = wc" "writtenCount (sample_header wc w cc k) = w"
    "commitCursor (sample_header wc w cc k) = cc" "committedCount (sample_header wc w cc k) = k"
    using l assms unfolding sample_header_def header_mods_def by (simp_all add: hdr_laws)
qed

lemma sample_image_of: "image_of (\<lambda>_. 5) 4096 sample_image sample_disk"
proof -
  have len: "length (frames (\<lambda>_. 5) [[1, 2], [3]]) = 21" "length (frames (\<lambda>_. 5) [[1, 2]]) = 11" "length (frames (\<lambda>_. 5) [[4]]) = 10"
    using length_frame [of "\<lambda>_. 5" "[1, 2]"] length_frame [of "\<lambda>_. 5" "[3]"] length_frame [of "\<lambda>_. 5" "[4]"]
    by (simp_all add: framedLen_def checksumSize_def)
  note says = sample_header_says [of 85 2 75 1] sample_header_says [of 74 1 74 1]
  have "holds (\<lambda>_. 5) 4096 sample_disk (1, [[1, 2], [3]], 1)"
    using says len by (simp add: holds_def hdr_says_def sample_disk_def page_def headerSize_def knownVersion_def is_i64_def del: frames_simps)
  moreover have "holds (\<lambda>_. 5) 4096 sample_disk (2, [[4]], 1)"
    using says len by (simp add: holds_def hdr_says_def sample_disk_def page_def headerSize_def knownVersion_def is_i64_def del: frames_simps)
  ultimately show ?thesis by (simp add: image_of_def sample_image_def) (auto simp: sample_disk_def)
qed

theorem openStore_recovers_witness:
  "\<exists>s. openStore (\<lambda>_. 5) [(filePath 1, False), (filePath 2, False)] 4096 0 False 1 3 sample_disk = (Inr (), s) \<and>
     session_ok (\<lambda>_. 5) s \<and> unread (\<lambda>_. 5) s = [[3], [4]] \<and> store_count s = 2"
proof -
  let ?ents = "[(filePath 1, False), (filePath 2, False)]"
  have "dir_lists ?ents sample_disk"
    using filePath_inj [of _ 1] filePath_inj [of _ 2] by (auto simp: dir_lists_def sample_disk_def)
  from openStore_recovers [OF sample_image_of this _ surjective_pairing, of 0 False 1 3]
  have "fst (openStore (\<lambda>_. 5) ?ents 4096 0 False 1 3 sample_disk) = Inr () \<and>
    session_ok (\<lambda>_. 5) (snd (openStore (\<lambda>_. 5) ?ents 4096 0 False 1 3 sample_disk)) \<and>
    unread (\<lambda>_. 5) (snd (openStore (\<lambda>_. 5) ?ents 4096 0 False 1 3 sample_disk)) = [[3], [4]] \<and>
    store_count (snd (openStore (\<lambda>_. 5) ?ents 4096 0 False 1 3 sample_disk)) = 2"
    by (simp add: sample_image_def headerSize_def) (simp add: sample_disk_def os_empty_def)
  then show ?thesis by (metis prod.collapse)
qed

end
