(* ===== verification/Reader.thy ===== *)
theory Reader
  imports Queue
begin

text \<open>
  The consumer operations of reader.go.  A Reader and the Queue it consumes from are passed
  together.  An operation that can block is one round of its loop: the result, or the channel it
  blocks on when there is nothing to read.  The deferred \<open>signalProgress\<close> runs on every exit.
\<close>

section \<open>Readers\<close>

record reader =
  r_err :: "err option"
  lastBytes :: int
  lastAge :: int

definition NewReader :: reader where
  "NewReader = \<lparr>r_err = None, lastBytes = 0, lastAge = 0\<rparr>"

text \<open>The payload without its stamp.\<close>

definition strip_stamp :: "queue \<Rightarrow> bytes \<Rightarrow> bytes result" where
  "strip_stamp q payload =
     (if \<not> stamp q then Inr payload
      else if length payload < stampLen then Inl (Wrap ErrCodec ErrShortStamp)
      else Inr (drop stampLen payload))"

definition decode :: "'v unmarshal \<Rightarrow> queue \<Rightarrow> bytes \<Rightarrow> 'v result" where
  "decode unmarshal q payload =
     (case strip_stamp q payload of
        Inl e \<Rightarrow> Inl e
      | Inr body \<Rightarrow> (case unmarshal body of Inl e \<Rightarrow> Inl (Wrap ErrCodec e) | Inr v \<Rightarrow> Inr v))"

definition TryPeek :: "hash \<Rightarrow> 'v unmarshal \<Rightarrow> queue \<Rightarrow> 'v option result \<times> queue" where
  "TryPeek xx unmarshal q =
     (if closed q then (Inl ErrClosed, q)
      else case on_store (peekHead xx) q of
             (Inl e, q1) \<Rightarrow> (Inl e, q1)
           | (Inr None, q1) \<Rightarrow> (Inr None, q1)
           | (Inr (Some payload), q1) \<Rightarrow>
               (case decode unmarshal q1 payload of Inl e \<Rightarrow> (Inl e, q1) | Inr v \<Rightarrow> (Inr (Some v), q1)))"

text \<open>
  \<open>Reader.read\<close>: the value and the offset past its record.  A record that is not handed over goes
  back to the head.
\<close>

definition reader_read ::
    "hash \<Rightarrow> 'v unmarshal \<Rightarrow> int \<Rightarrow> reader \<Rightarrow> queue \<Rightarrow> ('v \<times> int) option result \<times> reader \<times> queue" where
  "reader_read xx unmarshal now r q =
     (let start = headOff (st q)
      in case on_store (takeHead xx) q of
           (Inl e, q1) \<Rightarrow> (Inl e, r, q1)
         | (Inr None, q1) \<Rightarrow> (Inr None, r, q1)
         | (Inr (Some (payload, off)), q1) \<Rightarrow>
             (case decode unmarshal q1 payload of
                Inl e \<Rightarrow> (Inl e, r, q1\<lparr>st := rewindHead start (st q1)\<rparr>)
              | Inr v \<Rightarrow>
                  (Inr (Some (v, off)),
                   r\<lparr>lastBytes := lastFrameEnd (st q1) - lastFrameAt (st q1),
                     lastAge := (if stamp q1 then stampAge now payload else 0)\<rparr>, q1)))"

section \<open>Taking one record\<close>

definition TryReserve ::
    "hash \<Rightarrow> 'v unmarshal \<Rightarrow> int \<Rightarrow> reader \<Rightarrow> queue \<Rightarrow> ('v \<times> int) option result \<times> reader \<times> queue" where
  "TryReserve xx unmarshal now r q =
     (if closed q then (Inl ErrClosed, r, signalProgress q)
      else case reader_read xx unmarshal now r q of
             (Inr (Some (v, off)), r1, q1) \<Rightarrow>
               (Inr (Some (v, off)), r1, signalProgress (q1\<lparr>st := trackReserve (st q1)\<rparr>))
           | (res, r1, q1) \<Rightarrow> (res, r1, signalProgress q1))"

text \<open>\<open>TryTake\<close>: the item, when one was read, with the error of its commit.\<close>

definition TryTake ::
    "hash \<Rightarrow> 'v unmarshal \<Rightarrow> int \<Rightarrow> reader \<Rightarrow> queue \<Rightarrow> ('v option \<times> err option) \<times> reader \<times> queue" where
  "TryTake xx unmarshal now r q =
     (if closed q then ((None, Some ErrClosed), r, signalProgress q)
      else case reader_read xx unmarshal now r q of
             (Inl e, r1, q1) \<Rightarrow> ((None, Some e), r1, signalProgress q1)
           | (Inr None, r1, q1) \<Rightarrow> ((None, None), r1, signalProgress q1)
           | (Inr (Some (v, off)), r1, q1) \<Rightarrow>
               (case on_store (commitTo xx off) q1 of (c, q2) \<Rightarrow> ((Some v, err_of c), r1, signalProgress q2)))"

text \<open>One round of the loops of \<open>Reserve\<close> and \<open>Take\<close>: \<open>Inr\<close> the channel to block on.\<close>

definition reserve_round ::
    "hash \<Rightarrow> 'v unmarshal \<Rightarrow> int \<Rightarrow> reader \<Rightarrow> queue \<Rightarrow> (('v \<times> int) result + nat) \<times> reader \<times> queue" where
  "reserve_round xx unmarshal now r q =
     (if closed q then (Inl (Inl ErrClosed), r, signalProgress q)
      else case reader_read xx unmarshal now r q of
             (Inl e, r1, q1) \<Rightarrow> (Inl (Inl e), r1, signalProgress q1)
           | (Inr (Some (v, off)), r1, q1) \<Rightarrow>
               (Inl (Inr (v, off)), r1, signalProgress (q1\<lparr>st := trackReserve (st q1)\<rparr>))
           | (Inr None, r1, q1) \<Rightarrow> (case waitLocked q1 of (ch, q2) \<Rightarrow> (Inr ch, r1, q2)))"

definition take_round ::
    "hash \<Rightarrow> 'v unmarshal \<Rightarrow> int \<Rightarrow> reader \<Rightarrow> queue \<Rightarrow> (('v option \<times> err option) + nat) \<times> reader \<times> queue" where
  "take_round xx unmarshal now r q =
     (if closed q then (Inl (None, Some ErrClosed), r, signalProgress q)
      else case reader_read xx unmarshal now r q of
             (Inl e, r1, q1) \<Rightarrow> (Inl (None, Some e), r1, signalProgress q1)
           | (Inr (Some (v, off)), r1, q1) \<Rightarrow>
               (case on_store (commitTo xx off) q1 of
                  (c, q2) \<Rightarrow> (Inl (Some v, err_of c), r1, signalProgress q2))
           | (Inr None, r1, q1) \<Rightarrow> (case waitLocked q1 of (ch, q2) \<Rightarrow> (Inr ch, r1, q2)))"

section \<open>Retiring\<close>

definition Commit_offset :: "hash \<Rightarrow> int \<Rightarrow> queue \<Rightarrow> unit result \<times> queue" where
  "Commit_offset xx off q =
     (if closed q then (Inl ErrClosed, signalProgress q)
      else if off > headOff (st q) then (Inl ErrInvalidOffset, signalProgress q)
      else case on_store (commitTo xx off) q of (r, q1) \<Rightarrow> (r, signalProgress q1))"

definition Ack :: "hash \<Rightarrow> int \<Rightarrow> queue \<Rightarrow> unit result \<times> queue" where
  "Ack xx off q =
     (if closed q then (Inl ErrClosed, signalProgress q)
      else if off > headOff (st q) then (Inl ErrInvalidOffset, signalProgress q)
      else case on_store (ackTo xx off) q of
             ((found, r), q1) \<Rightarrow> (if \<not> found then Inl ErrInvalidOffset else r, signalProgress q1))"

text \<open>The loop of \<open>AckBatch\<close>: whether an offset was invalid.\<close>

fun ack_marks :: "int \<Rightarrow> int list \<Rightarrow> bool \<Rightarrow> store \<Rightarrow> bool \<times> store" where
  "ack_marks head [] invalid s = (invalid, s)"
| "ack_marks head (off # offs) invalid s =
     (if off > head then ack_marks head offs True s
      else if off \<le> commitOff s then ack_marks head offs invalid s
      else case findReserved off s of
             Some i \<Rightarrow> ack_marks head offs invalid (mark_acked i s)
           | None \<Rightarrow> ack_marks head offs True s)"

definition ackBatch_store :: "hash \<Rightarrow> int list \<Rightarrow> unit op" where
  "ackBatch_store xx offs s =
     (case ioErr s of
        Some e \<Rightarrow> (Inl e, s)
      | None \<Rightarrow>
          let s1 = dropRetired s
          in case ack_marks (headOff s1) offs False s1 of
               (invalid, s2) \<Rightarrow>
                 (case commitAckedRun xx s2 of
                    (Inl e, s3) \<Rightarrow> (Inl e, s3)
                  | (Inr _, s3) \<Rightarrow> (if invalid then Inl ErrInvalidOffset else Inr (), s3)))"

definition AckBatch :: "hash \<Rightarrow> int list \<Rightarrow> queue \<Rightarrow> unit result \<times> queue" where
  "AckBatch xx offs q =
     (if closed q then (Inl ErrClosed, signalProgress q)
      else case on_store (ackBatch_store xx offs) q of (r, q1) \<Rightarrow> (r, signalProgress q1))"

text \<open>\<open>Skip\<close>: whether a record was skipped, and the error.\<close>

definition skip_store :: "hash \<Rightarrow> store \<Rightarrow> (bool \<times> err option) \<times> store" where
  "skip_store xx s =
     (case takeHead xx s of
        (Inl e, s1) \<Rightarrow> ((False, Some e), s1)
      | (Inr None, s1) \<Rightarrow> ((False, None), s1)
      | (Inr (Some _), s1) \<Rightarrow>
          (case retireFrame xx (lastFrameAt s1) (lastFrameEnd s1) s1 of (r, s2) \<Rightarrow> ((True, err_of r), s2)))"

definition Skip :: "hash \<Rightarrow> queue \<Rightarrow> (bool \<times> err option) \<times> queue" where
  "Skip xx q =
     (if closed q then ((False, Some ErrClosed), signalProgress q)
      else case on_store (skip_store xx) q of (r, q1) \<Rightarrow> (r, signalProgress q1))"

section \<open>Iterating\<close>

text \<open>
  \<open>Reader.next\<close>.  An error that is corruption the store stepped past is remembered and the loop
  goes on; the measure is what \<open>progress\<close> observes, so the loop is bounded by fuel and the
  properties show how much is enough.  The outcome of a round: an item, the end of the
  iteration with its error, or the channel to block on.
\<close>

datatype 'v nextOut = Item 'v | Stop "err option" | Block nat | Again

definition next_round ::
    "hash \<Rightarrow> 'v unmarshal \<Rightarrow> int \<Rightarrow> bool \<Rightarrow> int \<Rightarrow> reader \<Rightarrow> queue \<Rightarrow> 'v nextOut \<times> reader \<times> queue" where
  "next_round xx unmarshal now follow fin r q =
     (if closed q then (Stop None, r, signalProgress q)
      else if \<not> follow \<and> drained fin (st q) then (Stop None, r, signalProgress q)
      else if follow \<and> store_empty (st q) then (case waitLocked q of (ch, q1) \<Rightarrow> (Block ch, r, q1))
      else
        let before = progress (st q)
        in case reader_read xx unmarshal now r q of
             (Inl e, r1, q1) \<Rightarrow>
               if \<not> err_is e ErrCodec \<and> err_is e ErrCorrupt \<and> progress (st q1) \<noteq> before
               then (Again, r1\<lparr>r_err := (if r_err r1 = None then Some e else r_err r1)\<rparr>, q1)
               else (Stop (Some e), r1, signalProgress q1)
           | (Inr None, r1, q1) \<Rightarrow> (Stop None, r1, signalProgress q1)
           | (Inr (Some (v, off)), r1, q1) \<Rightarrow>
               (case on_store (commitTo xx off) q1 of
                  (Inl e, q2) \<Rightarrow> (Stop (Some e), r1, signalProgress q2)
                | (Inr _, q2) \<Rightarrow> (Item v, r1, signalProgress q2)))"

fun next_item ::
    "nat \<Rightarrow> hash \<Rightarrow> 'v unmarshal \<Rightarrow> int \<Rightarrow> bool \<Rightarrow> int \<Rightarrow> reader \<Rightarrow> queue \<Rightarrow> 'v nextOut \<times> reader \<times> queue" where
  "next_item 0 xx unmarshal now follow fin r q = (Again, r, q)"
| "next_item (Suc k) xx unmarshal now follow fin r q =
     (case next_round xx unmarshal now follow fin r q of
        (Again, r1, q1) \<Rightarrow> next_item k xx unmarshal now follow fin r1 q1
      | x \<Rightarrow> x)"

text \<open>The loop of \<open>Drain\<close> with a consumer that never stops early: the items in order.\<close>

fun drain_loop ::
    "nat \<Rightarrow> nat \<Rightarrow> hash \<Rightarrow> 'v unmarshal \<Rightarrow> int \<Rightarrow> int \<Rightarrow> reader \<Rightarrow> queue \<Rightarrow> 'v list \<times> reader \<times> queue" where
  "drain_loop 0 k xx unmarshal now fin r q = ([], r, q)"
| "drain_loop (Suc n) k xx unmarshal now fin r q =
     (case next_item k xx unmarshal now False fin r q of
        (Item v, r1, q1) \<Rightarrow>
          (case drain_loop n k xx unmarshal now fin r1 q1 of (vs, r2, q2) \<Rightarrow> (v # vs, r2, q2))
      | (Stop (Some e), r1, q1) \<Rightarrow> ([], r1\<lparr>r_err := Some e\<rparr>, q1)
      | (_, r1, q1) \<Rightarrow> ([], r1, q1))"

definition Drain ::
    "nat \<Rightarrow> nat \<Rightarrow> hash \<Rightarrow> 'v unmarshal \<Rightarrow> int \<Rightarrow> reader \<Rightarrow> queue \<Rightarrow> 'v list \<times> reader \<times> queue" where
  "Drain n k xx unmarshal now r q =
     (let r0 = r\<lparr>r_err := None\<rparr>
      in if closed q then ([], r0, q) else drain_loop n k xx unmarshal now (writeOff (st q)) r0 q)"

section \<open>Rotating the head\<close>

definition requeue_store :: "hash \<Rightarrow> store \<Rightarrow> (bool \<times> err option \<times> bool) \<times> store" where
  "requeue_store xx s =
     (let start = headOff s
      in case takeHead xx s of
           (Inl e, s1) \<Rightarrow> ((False, Some e, False), s1)
         | (Inr None, s1) \<Rightarrow> ((False, None, False), s1)
         | (Inr (Some (payload, _)), s1) \<Rightarrow>
             let fstart = lastFrameAt s1; fend = lastFrameEnd s1
             in case appendRecord xx payload True s1 of
                  (Inl e, s2) \<Rightarrow> ((False, Some e, False), rewindHead start s2)
                | (Inr _, s2) \<Rightarrow>
                    (case retireFrame xx fstart fend s2 of (r, s3) \<Rightarrow> ((True, err_of r, True), s3)))"

text \<open>\<open>Requeue\<close> once the store is quiescent.  The last component says that the readers are woken.\<close>

definition Requeue :: "hash \<Rightarrow> queue \<Rightarrow> (bool \<times> err option) \<times> queue" where
  "Requeue xx q =
     (if closed q then ((False, Some ErrClosed), signalProgress q)
      else case on_store (requeue_store xx) q of
             ((ok, e, woke), q1) \<Rightarrow> ((ok, e), signalProgress (if woke then signal q1 else q1)))"

end
