(* ===== verification/Queue_Props.thy ===== *)
theory Queue_Props
  imports Fail_Stop Reopen Reader
begin

text \<open>
  What the operations of the public types promise over the store's guarantees: the segment size
  the options resolve to, opening a queue, a record the codec refuses, and the rotation of the
  head.
\<close>

section \<open>Segment sizes\<close>

definition seg_wf :: "int \<Rightarrow> bool" where
  "seg_wf c \<longleftrightarrow> segmentAlign \<le> c \<and> c mod segmentAlign = 0 \<and> c < 2 ^ 48"

lemma segmentCapacity_id:
  assumes "seg_wf c"
  shows "segmentCapacity c = c"
proof -
  obtain k where k: "c = 4096 * k" using assms by (auto simp: seg_wf_def segmentAlign_def)
  then have "k < 2 ^ 36" "1 \<le> k" using assms by (simp_all add: seg_wf_def segmentAlign_def)
  then have "c \<le> 2 ^ 48 - 4096" using k by simp
  then show ?thesis using assms by (simp add: segmentCapacity_def seg_wf_def segmentAlign_def Let_def push_bit_eq_mult)
qed

lemma segmentCapacity_range: "seg_wf (segmentCapacity v)"
proof -
  define c0 where "c0 = (if v \<le> 0 then 8388608 else v)"
  define c1 where "c1 = (if c0 < 4096 then 4096 else c0)"
  have c1: "4096 \<le> c1" by (simp add: c1_def)
  have e: "segmentCapacity v = (if c1 > 281474976706560 then 281474976706560 else if c1 mod 4096 \<noteq> 0 then (c1 div 4096 + 1) * 4096 else c1)"
    by (simp add: segmentCapacity_def segmentAlign_def c0_def c1_def Let_def push_bit_eq_mult)
  obtain k r where k: "c1 = 4096 * k + r" "0 \<le> r" "r < 4096" by (metis mult_div_mod_eq pos_mod_bound pos_mod_sign zero_less_numeral)
  then have dm: "c1 div 4096 = k" "c1 mod 4096 = r" by simp_all
  have k1: "1 \<le> k" using c1 k by linarith
  show ?thesis
  proof (cases "c1 > 281474976706560")
    case True
    then show ?thesis by (simp add: e seg_wf_def segmentAlign_def)
  next
    case False
    show ?thesis
    proof (cases "r = 0")
      case True
      then show ?thesis using False k k1 dm unfolding e seg_wf_def segmentAlign_def by simp
    next
      case r: False
      then have "k + 1 \<le> 68719476735" using False k by linarith
      moreover have "((k + 1) * 4096) mod 4096 = 0" by simp
      ultimately show ?thesis using False r dm k1 unfolding e seg_wf_def segmentAlign_def by simp
    qed
  qed
qed

text \<open>
  C29: the segment size a queue runs with is well formed whatever the option says: at least one
  4096-byte block, a multiple of the block, within the 48 bits of the header field, from which it
  reads back exactly; normalizing it again changes nothing, so a queue reopened with the size it
  ran with does not disagree with its own segments.
\<close>

theorem segmentCapacity_wf:
  "seg_wf (segmentCapacity v) \<and> segmentCapacity (segmentCapacity v) = segmentCapacity v \<and>
   int headerSize + segmentCapacity v < 2 ^ 63 \<and>
   hdrSegSize (header_mods xx [setHdrSegSize (segmentCapacity v)] (replicate headerSize 0)) = segmentCapacity v"
proof -
  have w: "seg_wf (segmentCapacity v)" by (rule segmentCapacity_range)
  then have "0 \<le> segmentCapacity v" "segmentCapacity v < 2 ^ 48" by (simp_all add: seg_wf_def segmentAlign_def)
  then show ?thesis
    using w segmentCapacity_id [OF w] by (simp add: header_mods_def hdr_laws headerSize_def)
qed

section \<open>Opening a queue\<close>

text \<open>The byte quota is not part of the queue.\<close>

lemma session_quota:
  assumes i: "session_ok xx s"
  shows "session_ok xx (s\<lparr>maxBytes := m\<rparr>)" "unread xx (s\<lparr>maxBytes := m\<rparr>) = unread xx s" "backlog xx (s\<lparr>maxBytes := m\<rparr>) = backlog xx s"
proof -
  let ?t = "s\<lparr>maxBytes := m\<rparr>"
  note D = session_okD [OF i]
  have sg: "same_seg s ?t n" for n by (simp add: same_seg_def data_of_def)
  have b: "block_ok ?t" using queue_okD(9) [OF D(2)] by (simp add: block_ok_def cong: option.case_cong)
  have q: "queue_ok xx ?t \<and> unread xx ?t = unread xx s \<and> backlog xx ?t = backlog xx s"
    by (rule queue_ok_same [OF D(2)]) (use sg b in simp_all)
  have "marks_ok xx ?t" using D(3) marked_fields [OF sg] by (simp add: marks_ok_def)
  then show "session_ok xx ?t" "unread xx ?t = unread xx s" "backlog xx ?t = backlog xx s"
    using q D by (simp_all add: session_ok_def commit_ok_alt stagedBytes_def ledger_fit_def)
qed

text \<open>
  C17: a queue created on a directory of sound segments of its resolved size starts with exactly
  the uncommitted records, in order, to be delivered again; it is open, nothing is staged, and a
  failure to open comes only from the disk.
\<close>

theorem New_recovers:
  assumes im: "image_of xx (segmentCapacity (SegmentSize opt)) img w" and dir: "dir_lists ents w"
  shows "case New xx ents opt w of
      Inr q \<Rightarrow> session_ok xx (st q) \<and> unread xx (st q) = uncommitted img \<and> backlog xx (st q) = uncommitted img \<and>
        \<not> closed q \<and> Backlog (stats (st q)) = int (length (uncommitted img)) \<and> 0 \<le> maxBytes (st q)
    | Inl e \<Rightarrow> script w \<noteq> []"
proof -
  obtain r s where o: "openStore xx ents (segmentCapacity (SegmentSize opt)) (resolveMaxSegments (MaxSegments opt))
      (NoSync opt) (SyncEvery opt) (MaxOpenFiles opt) w = (r, s)" by force
  have seg: "int headerSize + segmentCapacity (SegmentSize opt) < 2 ^ 63"
    using segmentCapacity_range [of "SegmentSize opt"] by (simp add: seg_wf_def headerSize_def)
  note R = openStore_core [OF im dir seg o]
  show ?thesis
  proof (cases r)
    case (Inl e)
    then show ?thesis using R o by (auto simp: New_def)
  next
    case (Inr u)
    define t where "t = s\<lparr>maxBytes := max (MaxBytes opt) 0\<rparr>"
    have N: "New xx ents opt w = Inr (new_queue (StampRecords opt) (SyncInterval opt > 0 \<and> \<not> NoSync opt) t)"
      using o Inr by (simp add: New_def t_def)
    have "session_ok xx t" "unread xx t = unread xx s" "backlog xx t = backlog xx s" "store_count t = store_count s" "maxBytes t = max (MaxBytes opt) 0"
      using session_quota [of xx s] R Inr by (auto simp: t_def store_count_def)
    then show ?thesis unfolding N using R Inr by (simp add: new_queue_def stats_def)
  qed
qed

definition sample_options :: Options where
  "sample_options = \<lparr>NoSync = False, SyncEvery = 1, SegmentSize = 4096, MaxSegments = 0, MaxBytes = 0, MaxOpenFiles = 3,
     SyncInterval = 0, StampRecords = False\<rparr>"

theorem New_recovers_witness:
  "\<exists>q. New (\<lambda>_. 5) [(filePath 1, False), (filePath 2, False)] sample_options sample_disk = Inr q \<and>
     unread (\<lambda>_. 5) (st q) = [[3], [4]] \<and> \<not> closed q"
proof -
  let ?ents = "[(filePath 1, False), (filePath 2, False)]"
  have "dir_lists ?ents sample_disk"
    using filePath_inj [of _ 1] filePath_inj [of _ 2] by (auto simp: dir_lists_def sample_disk_def)
  moreover have "segmentCapacity (SegmentSize sample_options) = 4096"
    by (simp add: sample_options_def segmentCapacity_id seg_wf_def segmentAlign_def)
  moreover have "script sample_disk = []" by (simp add: sample_disk_def os_empty_def)
  ultimately show ?thesis
    using New_recovers [of "\<lambda>_. 5" sample_options sample_image sample_disk ?ents] sample_image_of
    by (auto split: sum.splits simp: sample_image_def)
qed

section \<open>A record the codec refuses\<close>

lemma decode_error: "decode unmarshal q p = Inl e \<Longrightarrow> err_is e ErrCodec"
  by (auto simp: decode_def strip_stamp_def split: if_splits sum.splits)

lemma decode_cong: "stamp q' = stamp q \<Longrightarrow> decode unmarshal q' p = decode unmarshal q p"
  by (simp add: decode_def strip_stamp_def)

text \<open>Moving the read cursor back over a record that was taken and is not reserved.\<close>

lemma rewind_taken:
  assumes i: "session_ok xx s" and t: "takeHead xx s = (Inr (Some (p, n)), t)"
    and u: "session_ok xx u" "commitOff u = commitOff s" "headOff u = n" "set (reserved u) \<subseteq> set (reserved s)" "boundary xx u (headOff s)"
  shows "session_ok xx (rewindHead (headOff s) u)" "headOff (rewindHead (headOff s) u) = headOff s"
    "backlog xx (rewindHead (headOff s) u) = backlog xx u" "unread xx (rewindHead (headOff s) u) = from_off (headOff s) (flat xx u)"
proof -
  note D = session_okD [OF i] and U = session_okD [OF u(1)]
  have "n = headOff s + framedLen (length p)" using take_session [OF i t] by simp
  then have lt: "headOff s < headOff u" using u(3) by simp
  obtain k where k: "rewindHead (headOff s) u = u\<lparr>headOff := headOff s, nDelivered := k\<rparr>" using lt by (auto simp: rewindHead_def)
  have b: "commitOff u \<le> headOff s" "headOff s \<le> writeOff u" using queue_okD(5) [OF D(2)] queue_okD(6) [OF U(2)] u(2) lt by simp_all
  have q: "queue_ok xx (u\<lparr>headOff := headOff s\<rparr>)" by (rule queue_ok_rewind [OF U(2) u(5) b])
  let ?v = "rewindHead (headOff s) u"
  have "queue_ok xx ?v" using q unfolding k queue_ok_parts by simp
  moreover have bl: "backlog xx ?v = backlog xx u" by (simp add: k backlog_def)
  moreover have "marks_ok xx ?v" using U(3) by (simp add: k marks_ok_def marked_def done_in_def seg_flat_def recs_of_def)
  moreover have "ledger_fit xx ?v"
    using U(7) D(7) u(4) unfolding ledger_fit_def bl by (auto simp: k)
  ultimately show "session_ok xx ?v" using U by (simp add: session_ok_def commit_ok_alt k stagedBytes_def)
  show "headOff ?v = headOff s" "backlog xx ?v = backlog xx u" "unread xx ?v = from_off (headOff s) (flat xx u)"
    by (simp_all add: k backlog_def unread_def)
qed

text \<open>
  C16: a record the codec refuses is reported and kept.  When the head record does not decode,
  an attempt to read it returns an error that is \<open>ErrCodec\<close>, or the disk's; nothing is delivered,
  the read cursor is back where it was and the store is well formed with no record lost, so the
  next attempt finds the same record.
\<close>

theorem codec_error_keeps:
  assumes i: "session_ok xx (st q)" and u: "unread xx (st q) = p # ps" and bad: "decode unmarshal q p = Inl e"
    and r: "reader_read xx unmarshal now rd q = (res, rd', q')"
  shows "(res = Inl e \<and> err_is e ErrCodec \<or> (\<exists>x. res = Inl (Errno x)) \<and> \<not> fault_free (st q)) \<and> rd' = rd \<and>
    session_ok xx (st q') \<and> headOff (st q') = headOff (st q) \<and> unread xx (st q') = p # ps \<and> backlog xx (st q') = backlog xx (st q)"
proof -
  let ?s = "st q"
  note D = session_okD [OF i]
  obtain r1 t where t: "takeHead xx ?s = (r1, t)" by force
  note T = take_session [OF i t] and O = takeHead_outcome [OF D(2,6) t, unfolded u list.case]
  have os: "on_store (takeHead xx) q = (r1, q\<lparr>st := t\<rparr>)" by (simp add: on_store_def t)
  show ?thesis
  proof (cases "\<exists>x. r1 = Inl (Errno x)")
    case True
    then obtain x where x: "r1 = Inl (Errno x)" by blast
    then have "\<not> fault_free ?s" "unread xx t = p # ps" "headOff t = headOff ?s" using O u by auto
    moreover have "res = Inl (Errno x)" "rd' = rd" "st q' = t" using r os x by (auto simp: reader_read_def Let_def)
    ultimately show ?thesis using T by simp
  next
    case False
    then have r1: "r1 = Inr (Some (p, headOff ?s + framedLen (length p)))" using O by auto
    have d: "decode unmarshal (q\<lparr>st := t\<rparr>) p = Inl e" by (subst decode_cong [of _ q]) (simp_all add: bad)
    have q': "res = Inl e" "rd' = rd" "st q' = rewindHead (headOff ?s) t" using r os r1 d by (auto simp: reader_read_def Let_def)
    have fl: "flat xx t = flat xx ?s" and bd: "boundary xx t (headOff ?s)"
    proof -
      have "flat xx t = flat xx ?s \<and> writeOff t = writeOff ?s"
      proof (cases rule: takeHead_state [OF D(2,6) t, case_names got none])
        case (got s1 p' n k)
        then show ?thesis using quiet_flat(1) [OF got(1)] shape_eq_fields [of s1 ?s] by (simp add: quiet_def)
      next
        case none
        then show ?thesis using quiet_flat(1) [OF none(1)] shape_eq_fields [of t ?s] by (simp add: quiet_def)
      qed
      then show "flat xx t = flat xx ?s" "boundary xx t (headOff ?s)" using queue_okD(8) [OF D(2)] by (simp_all add: boundary_def)
    qed
    note w = rewind_taken [OF i t [unfolded r1], of t]
    have "session_ok xx (st q') \<and> headOff (st q') = headOff ?s \<and> unread xx (st q') = from_off (headOff ?s) (flat xx t) \<and> backlog xx (st q') = backlog xx t"
      unfolding q'(3) using w T r1 bd by simp
    moreover have "from_off (headOff ?s) (flat xx t) = p # ps" using u fl by (simp add: unread_def)
    ultimately have "session_ok xx (st q') \<and> headOff (st q') = headOff ?s \<and> unread xx (st q') = p # ps \<and> backlog xx (st q') = backlog xx ?s"
      using T by metis
    then show ?thesis using q'(1,2) decode_error [OF bad] by blast
  qed
qed

theorem codec_error_keeps_witness:
  "\<exists>res q'. reader_read (\<lambda>_. 5) (\<lambda>b. Inl (Caller 7) :: nat result) 0 NewReader (new_queue False False sample_marked) = (res, NewReader, q') \<and>
     res = Inl (Wrap ErrCodec (Caller 7)) \<and> unread (\<lambda>_. 5) (st q') = [[3]]"
proof -
  let ?q = "new_queue False False sample_marked" and ?um = "\<lambda>b. Inl (Caller 7) :: nat result"
  have st: "st ?q = sample_marked" by (simp add: new_queue_def)
  have u: "unread (\<lambda>_. 5) (st ?q) = [[3]]"
    using sample_marked_ok(2) by (simp add: st unread_def from_off_def) (simp add: sample_marked_def upd_df_def sample_fields)
  have bad: "decode ?um ?q [3] = Inl (Wrap ErrCodec (Caller 7))" by (simp add: decode_def strip_stamp_def new_queue_def)
  obtain res rd' q' where r: "reader_read (\<lambda>_. 5) ?um 0 NewReader ?q = (res, rd', q')" by (metis prod_cases3)
  have "fault_free (st ?q)" unfolding st by (simp add: fault_free_def sample_marked_def sample_fields)
  then show ?thesis using codec_error_keeps [OF _ u bad r] sample_session st r by auto
qed

section \<open>Rotating the head\<close>

lemma frames_cut_unique:
  assumes "xs @ as = ys @ bs" "length (frames xx xs) = length (frames xx ys)"
  shows "as = bs"
proof -
  obtain us where "xs = ys @ us \<and> us @ as = bs \<or> xs @ us = ys \<and> as = us @ bs"
    using assms(1) by (auto simp: append_eq_append_conv2)
  then have "frames xx us = [] \<and> (us @ as = bs \<or> as = us @ bs)" using assms(2) by auto
  then show ?thesis by auto
qed

text \<open>Behind an append the records from the old read cursor on are the unread ones and the new.\<close>

lemma unread_from_old:
  assumes s: "queue_ok xx s" and u: "queue_ok xx u" "commitOff u = commitOff s" "backlog xx u = backlog xx s @ new" "boundary xx u (headOff s)"
  shows "from_off (headOff s) (flat xx u) = unread xx s @ new"
proof -
  have c: "commitOff s \<le> headOff s" by (rule queue_okD(5) [OF s])
  obtain g where g: "backlog xx s = g @ unread xx s" "commitOff s + int (length (frames xx g)) = headOff s"
    using backlog_cut [OF s queue_okD(8) [OF s] c] by (auto simp: unread_def)
  obtain k where k: "backlog xx u = k @ from_off (headOff s) (flat xx u)" "commitOff u + int (length (frames xx k)) = headOff s"
    using backlog_cut [OF u(1,4)] c u(2) by auto
  show ?thesis
  proof (rule frames_cut_unique [of k _ g _ xx])
    show "k @ from_off (headOff s) (flat xx u) = g @ unread xx s @ new" using g(1) k(1) u(3) by simp
    show "length (frames xx k) = length (frames xx g)" using g(2) k(2) u(2) by simp
  qed
qed

text \<open>What the head record leaves room for: it is uncommitted, and its frame is in a file.\<close>

lemma head_room:
  assumes i: "session_ok xx s" and u: "unread xx s = p # ps"
  shows "(headOff s, p) \<in> set (offs (commitOff s) (backlog xx s))" "commitOff s < writeOff s" "int headerSize + framedLen (length p) < 2 ^ 63"
proof -
  note D = session_okD [OF i]
  have "(headOff s, p) \<in> set (filter (\<lambda>(x, p). headOff s \<le> x) (flat xx s))"
    using flat_from(1) [OF D(2) queue_okD(8) [OF D(2)] queue_okD(5) [OF D(2)]] u by (simp add: unread_def)
  then have fl: "(headOff s, p) \<in> set (flat xx s)" by simp
  then show "(headOff s, p) \<in> set (offs (commitOff s) (backlog xx s))" using in_log [OF D(2)] queue_okD(5) [OF D(2)] by simp
  obtain at where "chain (commitOff s) at (flat xx s) (writeOff s)" using flat_chain [OF D(2)] .
  from chain_bounds [OF this fl] show "commitOff s < writeOff s"
    using queue_okD(5) [OF D(2)] framedLen_gt0 [of "length p"] by (simp del: framedLen_gt0)
  obtain n rest where n: "n \<in> set (files s)" "headOff s + framedLen (length p) \<le> df_end (heap s n)" "df_base (heap s n) \<le> headOff s"
    using flat_locate [OF D(2) fl] by metis
  have "mark_room (heap s n)" using D(3) n(1) by (simp add: marks_ok_def marked_def)
  then show "int headerSize + framedLen (length p) < 2 ^ 63" using n by (simp add: mark_room_def df_end_def)
qed

lemma requeue_append:
  assumes i: "session_ok xx s" and t: "takeHead xx s = (Inr (Some (p, n)), t)" and a: "appendRecord xx p True t = (r, u)"
  shows "session_ok xx u" "commitOff u = commitOff s" "headOff u = n" "reserved u = reserved s"
    "\<exists>new. unread xx u = unread xx t @ new \<and> backlog xx u = backlog xx s @ new \<and>
       (new = [p] \<or> new = [] \<and> (\<exists>e. r = Inl e)) \<and> (new = [p] \<longrightarrow> r = Inr () \<or> ioErr u \<noteq> None \<or> batched s)"
proof -
  note T = take_session [OF i t, simplified]
  have hr: "commitOff s < writeOff s" "int headerSize + framedLen (length p) < 2 ^ 63" using head_room [OF i] T by blast+
  note D = session_okD [OF conjunct1 [OF T]]
  have cw: "commitOff t < writeOff t"
    using queue_okD(5,6) [OF D(2)] T queue_okD(5) [OF session_okD(2) [OF i]] framedLen_gt0 [of "length p"] by (simp del: framedLen_gt0)
  have seg: "segmentSize t < 2 ^ 63" using D(5) by (simp add: headerSize_def)
  have ad: "admits xx (DoAppend p True) t" by (rule admits_uncommitted [OF conjunct1 [OF T] cw hr(2)])
  show "session_ok xx u" using append_session [OF conjunct1 [OF T] ad] a by simp
  have "settings u = settings t" by (rule appendRecord_settings [OF D(2) D(4) seg a])
  then show "commitOff u = commitOff s" "headOff u = n" "reserved u = reserved s" using T by (simp_all add: settings_def)
  have b: "batched t = batched s" using T by (simp add: options_def batched_def)
  have o: "append_outcome xx p t r u" by (rule appendRecord_uncommitted [OF D(2) cw D(4) seg a])
  show "\<exists>new. unread xx u = unread xx t @ new \<and> backlog xx u = backlog xx s @ new \<and>
       (new = [p] \<or> new = [] \<and> (\<exists>e. r = Inl e)) \<and> (new = [p] \<longrightarrow> r = Inr () \<or> ioErr u \<noteq> None \<or> batched s)"
    using o T b by (cases r) (auto simp: append_outcome_def appended_def)
qed

text \<open>
  C15: rotating the head moves the record to the tail and never loses it.  When it reports the
  rotation, the head record stands at the end, the others have moved up, and what left the log
  was acknowledged or is the copy that was moved; when it does not, the log is what it was with
  the read cursor back at the record, except that a copy may stand at the end when a durability
  failure is latched or flushes are batched; in every case the store stays well formed.
\<close>

theorem requeue_rotates:
  assumes i: "session_ok xx s" and r: "requeue_store xx s = ((ok, e, woke), s')"
  shows "session_ok xx s' \<and>
    (if ok then \<exists>p ps x gone. unread xx s = p # ps \<and> unread xx s' = ps @ [p] \<and> log_of xx s @ [(x, p)] = gone @ log_of xx s' \<and>
         fst ` set gone \<subseteq> pending_of s \<union> {headOff s + framedLen (length p)}
     else \<exists>new. unread xx s' = unread xx s @ new \<and> backlog xx s' = backlog xx s @ new \<and> headOff s' = headOff s \<and>
         (new = [] \<or> new = take 1 (unread xx s) \<and> (ioErr s' \<noteq> None \<or> batched s)))"
proof -
  obtain r1 t where t: "takeHead xx s = (r1, t)" by force
  note T = take_session [OF i t]
  show ?thesis
  proof (cases "\<exists>p n. r1 = Inr (Some (p, n))")
    case False
    then have "\<not> ok" "s' = t" using r t by (auto simp: requeue_store_def Let_def split: sum.splits option.splits)
    then show ?thesis using T False by (auto split: sum.splits option.splits)
  next
    case True
    then obtain p n where r1: "r1 = Inr (Some (p, n))" by blast
    note tp = t [unfolded r1]
    have g: "unread xx s = p # unread xx t" "n = headOff s + framedLen (length p)" "lastFrameAt t = headOff s" "lastFrameEnd t = n"
      using T r1 by simp_all
    obtain r2 u where a: "appendRecord xx p True t = (r2, u)" by force
    note A = requeue_append [OF i tp a]
    obtain new where new: "unread xx u = unread xx t @ new" "backlog xx u = backlog xx s @ new" "new = [p] \<or> new = [] \<and> (\<exists>e. r2 = Inl e)"
      "new = [p] \<longrightarrow> r2 = Inr () \<or> ioErr u \<noteq> None \<or> batched s" using A(5) by blast
    note U = session_okD [OF A(1)] and D = session_okD [OF i]
    have hb: "(headOff s, p) \<in> set (offs (commitOff u) (backlog xx u))"
      using head_room(1) [OF i g(1)] A(2) by (simp add: new(2) offs_append [where xx = xx])
    then have bd: "boundary xx u (headOff s)" using in_log [OF U(2)] unfolding boundary_def by force
    show ?thesis
    proof (cases r2)
      case (Inl x)
      then have s': "\<not> ok" "s' = rewindHead (headOff s) u" using r tp a by (auto simp: requeue_store_def Let_def)
      note w = rewind_taken [OF i tp A(1,2,3) _ bd]
      have "unread xx s' = unread xx s @ new"
        using w(4) unread_from_old [OF D(2) U(2) A(2) new(2) bd] A(4) by (simp add: s'(2))
      moreover have "session_ok xx s' \<and> headOff s' = headOff s \<and> backlog xx s' = backlog xx s @ new" using w(1-3) A(4) new(2) by (simp add: s'(2))
      moreover have "ioErr s' = ioErr u" by (simp add: s'(2) rewindHead_def)
      ultimately show ?thesis using s'(1) new(3,4) Inl g(1) by auto
    next
      case (Inr v)
      then have n1: "new = [p]" using new(3) by auto
      let ?span = "(new_reservation (headOff s) n)\<lparr>r_acked := True\<rparr>"
      define v where "v = u\<lparr>reserved := reserved (dropRetired u) @ [?span]\<rparr>"
      have vok: "session_ok xx v"
        unfolding v_def g(2)
      proof (rule reserve_ledger [OF i g(1) A(1,2)])
        show "set (reserved u) \<subseteq> set (reserved s)" "headOff s + framedLen (length p) \<le> headOff u" using A(3,4) g(2) by simp_all
        show "x \<in> set (offs (commitOff u) (backlog xx u))" if "x \<in> set (offs (commitOff s) (backlog xx s))" for x
          using that A(2) by (simp add: new(2) offs_append [where xx = xx])
      qed
      obtain c w where c: "commitAckedRun xx v = (c, w)" by force
      have rf: "retireFrame xx (headOff s) n u = commitAckedRun xx v"
        by (simp add: retireFrame_def retireFrameDurable_def commitAckedRun_def v_def Let_def dropRetired_def)
      have s': "ok" "s' = w" using r tp a Inr g(3,4) rf c by (auto simp: requeue_store_def Let_def)
      note C = acked_run_session [OF vok c]
      have f: "log_of xx v = log_of xx u" "ready_of xx v = ready_of xx u" by (simp_all add: v_def log_of_def ready_of_def)
      have "pending_of v \<subseteq> pending_of s \<union> {n}"
        using retired_sub [of u] A(4) by (auto simp: v_def pending_of_def new_reservation_def)
      then obtain gone where gone: "log_of xx u = gone @ log_of xx w" "fst ` set gone \<subseteq> pending_of s \<union> {n}" using C f(1) by auto
      have "unread xx w = unread xx t @ [p]"
        using C f(2) new(1) n1 by (metis map_snd_tokens ready_of_def)
      moreover have "log_of xx u = log_of xx s @ tokens (commitOff s + int (length (frames xx (backlog xx s)))) [p]"
        by (simp add: log_of_def A(2) new(2) n1 tokens_append [where xx = xx])
      then have "\<exists>x. log_of xx s @ [(x, p)] = gone @ log_of xx w" using gone(1) by (simp add: tokens_def)
      ultimately show ?thesis using s' C gone(2) g(1,2) by auto
    qed
  qed
qed

theorem requeue_rotates_witness:
  "\<exists>ok e woke s'. requeue_store (\<lambda>_. 5) sample_marked = ((ok, e, woke), s') \<and> session_ok (\<lambda>_. 5) s' \<and>
     [3] \<in> set (unread (\<lambda>_. 5) s')"
proof -
  obtain ok e woke s' where r: "requeue_store (\<lambda>_. 5) sample_marked = ((ok, e, woke), s')" by (metis prod_cases3 prod.exhaust)
  have "unread (\<lambda>_. 5) sample_marked = [[3]]"
    using sample_marked_ok(2) by (simp add: unread_def from_off_def) (simp add: sample_marked_def upd_df_def sample_fields)
  then have "session_ok (\<lambda>_. 5) s' \<and> [3] \<in> set (unread (\<lambda>_. 5) s')"
    using requeue_rotates [OF sample_session r] by (cases ok) auto
  then show ?thesis using r by blast
qed

end
