(* ===== verification/Stranded.thy ===== *)
theory Stranded
  imports Queue_Props
begin

text \<open>
  What the proviso \<open>stranded\<close> of the other theories excludes, and why.  When the segment at the write
  cursor is reclaimed, an older one stays, and the segment that should follow cannot be created, the
  append fails and the queue is left with an active segment that ends before the write cursor.  An
  append that finds room there reports success, and its record cannot be read.  The first section
  proves it for every stranded queue, the second runs into it from a well formed one.
\<close>

section \<open>Appending to a stranded queue\<close>

text \<open>A publication that succeeds moves the cursors on and changes nothing else of the shape.\<close>

lemma publishAppend_done:
  assumes pub: "publishAppend xx n L s = (Inr u, s')" and len: "length (df_hdr (heap s n)) = headerSize"
  shows "quiet (advanceAppend xx n L 1 s) s'"
proof -
  define t where "t = advanceAppend xx n L 1 s"
  obtain u1 s1 where w: "writeHeader n t = (Inr u1, s1)"
    using pub by (cases "writeHeader n t") (auto simp: publishAppend_def t_def split: sum.splits)
  have q1: "quiet t s1" by (rule quiet_writeHeader [OF w]) (simp add: t_def advance_fields len)
  obtain r2 s2 where ds: "os_run (datasync n) s1 = (r2, s2)" by force
  have qd: "quiet s1 (upd_df n (\<lambda>d. d\<lparr>df_dirty := False\<rparr>) s2)"
    using quiet_datasync [OF ds] quiet_upd_df [of "\<lambda>d. d\<lparr>df_dirty := False\<rparr>" s2 n] by (auto intro: quiet_trans)
  have "quiet s1 s'"
    using pub w ds qd quiet_trans [OF quiet_fields(3) quiet_recordOp] failIO_result
    unfolding publishAppend_def t_def [symmetric] by (fastforce split: if_splits sum.splits)
  then show ?thesis using quiet_trans [OF q1] by (simp add: t_def)
qed

lemma append_write_done:
  assumes f: "file_ok xx s n" and a: "append_write xx p n s = (Inr u, s')"
  shows "\<exists>x. quiet s x \<and> quiet (advanceAppend xx n (framedLen (length p)) 1 x) s'"
proof -
  obtain u3 s3 where 3: "ensureOpen n s = (Inr u3, s3)"
    using a by (cases "ensureOpen n s") (auto simp: append_write_def split: sum.splits)
  have q3: "quiet s s3" by (rule quiet_ensureOpen [OF 3])
  have f3: "file_ok xx s3 n" using quiet_file_ok [OF q3] f by simp
  obtain r4 s4 where 4: "writeRecord xx n (df_size (heap s3 n)) p s3 = (r4, s4)" by force
  define s5 where "s5 = s4\<lparr>writeBuf := trimOver (writeBuf s4) (segmentSize s4)\<rparr>"
  have q5: "quiet s s5" unfolding s5_def
    by (rule quiet_trans [OF quiet_trans [OF q3 writeRecord_spec(1) [OF f3 order_refl 4]] quiet_fields(6)])
  obtain r6 s6 where 6: "os_run (datasync n) s5 = (r6, s6)" by force
  have q6: "quiet s s6" by (rule quiet_trans [OF q5 quiet_datasync [OF 6]])
  have "\<exists>x. quiet s x \<and> publishAppend xx n (framedLen (length p)) x = (Inr u, s')"
    using a 3 4 6 q5 q6 failIO_result
    by (fastforce simp: append_write_def s5_def [symmetric] Let_def split: sum.splits option.splits if_splits)
  then obtain x where x: "quiet s x" "publishAppend xx n (framedLen (length p)) x = (Inr u, s')" by blast
  have "length (df_hdr (heap x n)) = headerSize" using file_okD(5) [of xx x n] quiet_file_ok [OF x(1)] f by simp
  then show ?thesis using publishAppend_done [OF x(2)] x(1) by blast
qed

lemma fileForOffset_none:
  assumes "\<forall>n \<in> set (files s). df_end (heap s n) \<le> off"
  shows "fileForOffset off s = None"
proof (rule ccontr)
  assume "fileForOffset off s \<noteq> None"
  then obtain n where n: "fileForOffset off s = Some n" by blast
  then have "n \<in> set (files s)" by (auto simp: fileForOffset_def Let_def split: if_splits)
  then show False using assms fileForOffset_covers [OF n] by force
qed

text \<open>Every segment of a stranded queue ends before the write cursor, the last one truly so.\<close>

lemma stranded_ends:
  assumes l: "loose_ok xx s" and n: "stranded s" "m \<in> set (files s)"
  shows "df_end (heap s m) \<le> df_end (heap s (last (files s)))"
proof -
  have ne: "files s \<noteq> []" using n(1) by (simp add: stranded_def)
  then obtain at e where e: "lay (heap s) (commitOff s) at (files s) e"
    using loose_okD(2) [OF l] by (auto simp: loose_def split: list.splits simp del: lay.simps)
  have "0 \<le> df_size (heap s k)" if "k \<in> set (files s)" for k by (rule file_ok_size [OF loose_okD(1) [OF l that]])
  then have "df_end (heap s m) \<le> e" using lay_mono(2) [OF e _ n(2)] by blast
  then show ?thesis using lay_last [OF e ne] by simp
qed

lemma append_into_stranded:
  assumes l: "loose_ok xx s" and st: "stranded s" and room: "\<not> needsCycle (framedLen (length p)) s"
    and gap: "df_end (heap s (last (files s))) + framedLen (length p) \<le> writeOff s"
    and a: "appendRecord xx p force s = (Inr (), s')"
  shows "files s' = files s \<and> headOff s' = writeOff s \<and> writeOff s' = writeOff s + framedLen (length p) \<and>
    fileForOffset (writeOff s) s' = None \<and> peekHead xx s' = (Inl ErrCorrupt, s')"
proof -
  let ?L = "framedLen (length p)" and ?n = "last (files s)"
  have ne: "files s \<noteq> []" using st by (simp add: stranded_def)
  obtain r1 s1 where 1: "admitRecord ?L force s = (r1, s1)" by force
  then have "r1 = Inr ()" using a by (auto simp: appendRecord_def Let_def split: option.splits sum.splits)
  then have "admitRecord ?L force s = (Inr (), s)" using 1 admit_small by blast
  then have "append_write xx p ?n s = (Inr (), s')"
    using a room ne by (auto simp: appendRecord_alt Let_def active_def split: option.splits)
  from append_write_done [OF loose_okD(1) [OF l] this] obtain x where
    x: "quiet s x" "quiet (advanceAppend xx ?n ?L 1 x) s'" using ne by auto
  have sx: "shape x = shape s" "shape s' = shape (advanceAppend xx ?n ?L 1 x)" using x by (simp_all add: quiet_def)
  note F = shape_eq_fields(8,17,18) [OF sx(1)] shape_eq_fields(8,17,18) [OF sx(2)]
  note E = shape_eq_df_fields(3,4) [OF sx(1)] shape_eq_df_fields(3,4) [OF sx(2)]
  have end': "df_end (heap s' m) = df_end (heap s m) + (if m = ?n then ?L else 0)" for m
    by (cases "m = ?n") (simp_all add: df_end_def E advance_fields)
  have h: "headOff s = writeOff s" using stranded_empty(1) [OF l st] loose_okD(5,6) [OF l] by simp
  have f: "files s' = files s" "headOff s' = writeOff s" "writeOff s' = writeOff s + ?L" using F h by (simp_all add: advance_fields)
  have "df_end (heap s' m) \<le> writeOff s" if "m \<in> set (files s)" for m
    using stranded_ends [OF l st that] gap framedLen_gt0 [of "length p"] unfolding end' by (auto split: if_split simp del: framedLen_gt0)
  then have o: "fileForOffset (writeOff s) s' = None" by (intro fileForOffset_none) (simp add: f)
  moreover have "peekHead xx s' = (Inl ErrCorrupt, s')" using o f framedLen_gt0 [of "length p"] by (auto simp: peekHead_def read_def simp del: framedLen_gt0)
  ultimately show ?thesis using f by simp
qed

section \<open>A run into it\<close>

text \<open>
  An execution in which an older committed segment cannot be unlinked, the committed active one can,
  and the segment that should replace it cannot be created.  The next append then finds room in the
  older segment.
\<close>

definition two_done :: store where
  "two_done = (new_store 40 0 False 1 3
      (os_empty\<lparr>linked := (\<lambda>n. n = 5 \<or> n = 6),
         inode := (\<lambda>n. if n = 5 then replicate 64 0 @ frame (\<lambda>_. 5) [1, 2] else replicate 64 0 @ frame (\<lambda>_. 5) (replicate 25 3)),
         script := [VFail EACCES 0, VOk, VFail ENOSPC 0]\<rparr>))
     \<lparr>files := [5, 6], nextNum := 7, writeOff := 45, headOff := 45, commitOff := 45, nWritten := 2, nCommitted := 2,
      heap := zero_dataFile
        (5 := (zero_dataFile 5)\<lparr>df_size := 11, df_capacity := 40, df_written := 1, df_committed := 1\<rparr>,
         6 := (zero_dataFile 6)\<lparr>df_base := 11, df_size := 34, df_capacity := 40, df_written := 1, df_committed := 1\<rparr>)\<rparr>"

lemma two_done_fields:
  "files two_done = [5, 6]" "nextNum two_done = 7" "commitOff two_done = 45" "headOff two_done = 45" "writeOff two_done = 45"
  "lastFrameEnd two_done = 0" "blockFile two_done = None" "linked (os two_done) 5" "linked (os two_done) 6"
  "inode (os two_done) 5 = replicate 64 0 @ frames (\<lambda>_. 5) [[1, 2]]"
  "inode (os two_done) 6 = replicate 64 0 @ frames (\<lambda>_. 5) [replicate 25 3]"
  "heap two_done 5 = (zero_dataFile 5)\<lparr>df_size := 11, df_capacity := 40, df_written := 1, df_committed := 1\<rparr>"
  "heap two_done 6 = (zero_dataFile 6)\<lparr>df_base := 11, df_size := 34, df_capacity := 40, df_written := 1, df_committed := 1\<rparr>"
  "m \<ge> 7 \<Longrightarrow> heap two_done m = zero_dataFile m"
  by (simp_all add: two_done_def new_store_def os_empty_def)

lemma two_done_ok: "queue_ok (\<lambda>_. 5) two_done"
proof -
  note F = two_done_fields
  have len: "length (frames (\<lambda>_. 5) [[1, 2]]) = 11" "length (frames (\<lambda>_. 5) [replicate 25 3]) = 34"
    using length_frame [of "\<lambda>_. 5" "[1, 2]"] length_frame [of "\<lambda>_. 5" "replicate 25 3"] by (simp_all add: framedLen_def checksumSize_def)
  have d: "data_of two_done 5 = frames (\<lambda>_. 5) [[1, 2]]" "data_of two_done 6 = frames (\<lambda>_. 5) [replicate 25 3]"
    using len by (simp_all add: data_of_alt F headerSize_def del: frames_simps One_nat_def)
  then have r: "recs_of (\<lambda>_. 5) two_done 5 = [[1, 2]]" "recs_of (\<lambda>_. 5) two_done 6 = [replicate 25 3]"
    using records_frames [of "\<lambda>_. 5" "[[1, 2]]"] records_frames [of "\<lambda>_. 5" "[replicate 25 3]"] len
    by (simp_all add: recs_of_def del: frames_simps One_nat_def)
  have f: "file_ok (\<lambda>_. 5) two_done 5" "file_ok (\<lambda>_. 5) two_done 6"
    unfolding file_ok_def r d len by (simp_all add: F zero_dataFile_def del: One_nat_def)
  have "covered two_done" by (simp add: covered_def F df_end_def zero_dataFile_def del: One_nat_def)
  moreover have "nums_ok two_done" by (auto simp: nums_ok_def F zero_dataFile_def)
  moreover have "boundary (\<lambda>_. 5) two_done 45" by (simp add: boundary_def F)
  ultimately show ?thesis using f by (simp add: queue_ok_def block_ok_def cache_ok_def F del: One_nat_def)
qed

text \<open>
  The store is well formed before.  The attempt that fails leaves the older segment active, ending
  where the first record did while the write cursor stands past both records.
\<close>

definition after_try :: store where
  "after_try = snd (cycle (\<lambda>_. 5) 10 False two_done)"

lemmas stranded_evals = two_done_def new_store_def os_empty_def zero_dataFile_def needsCycle_def active_def stagedBytes_def
  cycle_def dropCommitted_def createFile_def os_run_def os_remove_def os_create_def os_tick_def dropBlock_def df_end_def
  headerSize_def Let_def admitRecord_def framedLen_def framedTooLarge_def maxFramedLen_def checksumSize_def maxInt64_def

lemma two_done_append: "appendRecord (\<lambda>_. 5) [7] False two_done = (Inl (Errno ENOSPC), after_try)"
  by (simp add: after_try_def appendRecord_def stranded_evals)

lemma after_try_fields:
  "ioErr after_try = None" "files after_try = [5]" "script (os after_try) = []" "linked (os after_try) 5"
  "writeOff after_try = 45" "headOff after_try = 45" "commitOff after_try = 45" "\<not> noSync after_try" "syncEvery after_try = 1"
  "segmentSize after_try = 40" "maxBytes after_try = 0" "writeBuf after_try = []" "lruMRU after_try = None" "lruLRU after_try = None"
  "maxOpenFiles after_try = 3" "nOpen after_try = 0" "pendingCorrupt after_try = 0" "pendingBytes after_try = 0" "inFlight after_try = 0"
  "heap after_try 5 = (zero_dataFile 5)\<lparr>df_size := 11, df_capacity := 40, df_written := 1, df_committed := 1\<rparr>"
  by (simp_all add: after_try_def stranded_evals capOpenFiles_def)

lemma after_try_append:
  "\<exists>s. appendRecord (\<lambda>_. 5) [7] False after_try = (Inr (), s) \<and> writeOff s = 55 \<and> headOff s = 45 \<and> commitOff s = 45 \<and>
     files s = [5] \<and> df_end (heap s 5) = 21 \<and> pendingCorrupt s = 0"
  by (simp add: appendRecord_def needsCycle_def active_def after_try_fields zero_dataFile_def admitRecord_def framedLen_def framedTooLarge_def
      maxFramedLen_def checksumSize_def maxInt64_def stagedBytes_def df_end_def ensureOpen_def os_run_def os_open_def os_tick_def
      trackOpen_def evictOpen_def lruPushMRU_def evict_loop.simps writeRecord_def os_pwrite_def datasync_def os_fsync_def
      publishAppend_def writeHeader_def advanceAppend_def header_def Let_def mark_dirty_def upd_df_def perOp_def batched_def)

lemma after_try_stranded:
  "loose_ok (\<lambda>_. 5) after_try" "stranded after_try" "\<not> needsCycle (framedLen (length [7 :: byte])) after_try"
proof -
  have "stagedBytes two_done = 0" "segmentSize two_done < 2 ^ 63" by (simp_all add: two_done_def new_store_def stagedBytes_def)
  note O = appendRecord_outcome [OF two_done_ok this two_done_append]
  show st: "stranded after_try" by (simp add: stranded_def after_try_fields df_end_def zero_dataFile_def)
  show "loose_ok (\<lambda>_. 5) after_try"
    using O st queue_not_stranded by (auto simp: append_outcome_def append_stranded_def)
  show "\<not> needsCycle (framedLen (length [7 :: byte])) after_try"
    by (simp add: needsCycle_def active_def after_try_fields zero_dataFile_def framedLen_def checksumSize_def stagedBytes_def)
qed

section \<open>Properties\<close>

text \<open>
  C40: why the claims on appending exclude stranded queues.  Take a queue that is well formed but
  for its last segment, which ends before the write cursor, at least the length of a record before
  it, and has room for that record.  An append of the record that reports success leaves it where
  it cannot be read: the write cursor moves past the record, the head stands at it, no live segment
  covers its offset, and peeking reports corruption.  In the witness such a queue comes from a well
  formed one by an append that failed with \<open>ENOSPC\<close>.
\<close>

theorem stranded_append:
  assumes "loose_ok xx s" "stranded s" "df_end (heap s (last (files s))) + framedLen (length p) \<le> writeOff s"
    and "\<not> needsCycle (framedLen (length p)) s" "appendRecord xx p force s = (Inr (), s')"
  shows "files s' = files s \<and> headOff s' = writeOff s \<and> writeOff s' = writeOff s + framedLen (length p) \<and>
    fileForOffset (writeOff s) s' = None \<and> peekHead xx s' = (Inl ErrCorrupt, s')"
  by (rule append_into_stranded [OF assms(1,2,4,3,5)])

theorem stranded_append_witness:
  "queue_ok (\<lambda>_. 5) two_done \<and>
   (\<exists>s1 s2. appendRecord (\<lambda>_. 5) [7] False two_done = (Inl (Errno ENOSPC), s1) \<and> stranded s1 \<and>
      appendRecord (\<lambda>_. 5) [7] False s1 = (Inr (), s2) \<and> headOff s2 = 45 \<and> writeOff s2 = 55 \<and>
      fst (takeHead (\<lambda>_. 5) s1) = Inr None \<and> peekHead (\<lambda>_. 5) s2 = (Inl ErrCorrupt, s2))"
proof -
  obtain s where s: "appendRecord (\<lambda>_. 5) [7] False after_try = (Inr (), s)" using after_try_append by blast
  have len: "framedLen (length [7 :: byte]) = 10" by code_simp
  have gap: "df_end (heap after_try (last (files after_try))) + framedLen (length [7 :: byte]) \<le> writeOff after_try"
    unfolding len by (simp add: after_try_fields df_end_def zero_dataFile_def)
  note A = after_try_stranded
  have "fst (takeHead (\<lambda>_. 5) after_try) = Inr None" by (simp add: takeHead_def read_def after_try_fields)
  then show ?thesis
    using stranded_append [OF A(1,2) gap A(3) s, unfolded len] two_done_ok two_done_append A(2) s
    by (intro conjI exI [of _ after_try] exI [of _ s]) (simp_all add: after_try_fields)
qed

end
