(* ===== verification/Calm.thy ===== *)
theory Calm
  imports Fail_Stop Reopen
begin

text \<open>
  What stable storage holds.  A step is calm when it changes no byte of a file and no header,
  and a file it flushes is flushed as it is: opening, evicting, flushing and reading are calm,
  and so is a failed header publication that was repaired.
\<close>

definition keep_df :: "dataFile \<Rightarrow> dataFile" where
  "keep_df d = core_df (d\<lparr>df_writeSeq := 0, df_pins := 0\<rparr>)"

definition flushed_as :: "store \<Rightarrow> store \<Rightarrow> nat \<Rightarrow> bool" where
  "flushed_as s s' n \<longleftrightarrow> stable (os s') n = inode (os s) n \<or>
     stable (os s') n = stable (os s) n \<and> (df_dirty (heap s n) \<longrightarrow> df_dirty (heap s' n))"

text \<open>The directory entries on stable storage are what they were, or those the directory has now.\<close>

definition dirs :: "store \<Rightarrow> store \<Rightarrow> bool" where
  "dirs s s' \<longleftrightarrow> dirOpen s' = dirOpen s \<and> linked (os s') = linked (os s) \<and>
     (stable_dir (os s') = stable_dir (os s) \<or> stable_dir (os s') = linked (os s))"

lemma dirs_refl [simp]: "dirs s s"
  by (simp add: dirs_def)

lemma dirs_trans: "dirs a b \<Longrightarrow> dirs b c \<Longrightarrow> dirs a c"
  by (auto simp: dirs_def)

lemma dirs_same: "dirOpen s' = dirOpen s \<Longrightarrow> linked (os s') = linked (os s) \<Longrightarrow> stable_dir (os s') = stable_dir (os s) \<Longrightarrow> dirs s s'"
  by (simp add: dirs_def)

lemma dirs_upd_df [simp]: "dirs s (upd_df n f s) \<longleftrightarrow> True" "dirs s (mark_dirty n s)"
  by (simp_all add: dirs_def upd_df_def mark_dirty_def)

definition calm :: "store \<Rightarrow> store \<Rightarrow> bool" where
  "calm s s' \<longleftrightarrow> files s' = files s \<and> segmentSize s' = segmentSize s \<and> noSync s' = noSync s \<and> syncEvery s' = syncEvery s \<and>
     (\<forall>n. keep_df (heap s' n) = keep_df (heap s n)) \<and> same_files (os s) (os s') \<and> stays s s' \<and> (\<forall>n. flushed_as s s' n) \<and> dirs s s'"

named_theorems calm_rules \<open>steps that change no byte of a file\<close>

lemma keep_df_simps [simp]:
  "keep_df (d\<lparr>df_open := a\<rparr>) = keep_df d" "keep_df (d\<lparr>df_lruPrev := b\<rparr>) = keep_df d" "keep_df (d\<lparr>df_lruNext := c\<rparr>) = keep_df d"
  "keep_df (d\<lparr>df_dirty := e\<rparr>) = keep_df d" "keep_df (d\<lparr>df_writeSeq := w\<rparr>) = keep_df d"
  "keep_df (d\<lparr>df_pins := p\<rparr>) = keep_df d"
  by (simp_all add: keep_df_def core_df_def)

lemma keep_df_fields:
  assumes "keep_df d' = keep_df d"
  shows "df_hdr d' = df_hdr d" "df_diskHeader d' = df_diskHeader d" "df_base d' = df_base d" "df_size d' = df_size d"
    "df_capacity d' = df_capacity d" "df_written d' = df_written d" "df_committed d' = df_committed d" "df_end d' = df_end d"
    "df_num d' = df_num d"
  using assms by (cases d'; cases d; simp add: keep_df_def core_df_def df_end_def)+

lemma calmI:
  assumes "files s' = files s" "segmentSize s' = segmentSize s" "noSync s' = noSync s" "syncEvery s' = syncEvery s"
    "\<And>n. keep_df (heap s' n) = keep_df (heap s n)" "same_files (os s) (os s')" "stays s s'" "\<And>n. flushed_as s s' n"
    "dirs s s'"
  shows "calm s s'"
  using assms by (simp add: calm_def)

lemma calm_fields:
  assumes "calm s s'"
  shows "files s' = files s" "segmentSize s' = segmentSize s" "noSync s' = noSync s" "syncEvery s' = syncEvery s" "perOp s' = perOp s"
    "df_hdr (heap s' n) = df_hdr (heap s n)" "df_diskHeader (heap s' n) = df_diskHeader (heap s n)" "df_base (heap s' n) = df_base (heap s n)"
    "df_size (heap s' n) = df_size (heap s n)" "df_capacity (heap s' n) = df_capacity (heap s n)"
    "df_committed (heap s' n) = df_committed (heap s n)" "inode (os s') = inode (os s)" "linked (os s') = linked (os s)"
    "ioErr s' = None \<Longrightarrow> ioErr s = None" "flushed_as s s' n" "recs_of xx s' n = recs_of xx s n"
    "df_written (heap s' n) = df_written (heap s n)" "df_num (heap s' n) = df_num (heap s n)" "dirs s s'"
proof -
  have k: "keep_df (heap s' n) = keep_df (heap s n)" using assms by (simp add: calm_def)
  note f = keep_df_fields [OF k]
  show "df_hdr (heap s' n) = df_hdr (heap s n)" "df_diskHeader (heap s' n) = df_diskHeader (heap s n)"
    "df_base (heap s' n) = df_base (heap s n)" "df_size (heap s' n) = df_size (heap s n)"
    "df_capacity (heap s' n) = df_capacity (heap s n)" "df_committed (heap s' n) = df_committed (heap s n)"
    "df_written (heap s' n) = df_written (heap s n)" "df_num (heap s' n) = df_num (heap s n)" by (rule f)+
  show "files s' = files s" "segmentSize s' = segmentSize s" "noSync s' = noSync s" "syncEvery s' = syncEvery s" "perOp s' = perOp s"
    and i: "inode (os s') = inode (os s)" "linked (os s') = linked (os s)"
    using assms by (simp_all add: calm_def same_files_def perOp_def batched_def)
  show "ioErr s' = None \<Longrightarrow> ioErr s = None" using assms by (cases "ioErr s") (simp_all add: calm_def stays_def)
  show "flushed_as s s' n" "dirs s s'" using assms by (simp_all add: calm_def)
  show "recs_of xx s' n = recs_of xx s n" by (simp add: recs_of_def data_of_alt f i)
qed

lemma calm_refl [simp]: "calm s s"
  by (simp add: calm_def flushed_as_def)

lemma calm_trans:
  assumes "calm a b" "calm b c"
  shows "calm a c"
proof (rule calmI)
  fix n
  show "flushed_as a c n" using assms calm_fields(12) [OF assms(1)] unfolding calm_def flushed_as_def by metis
qed (use assms in \<open>auto simp: calm_def intro: same_files_trans stays_trans dirs_trans\<close>)

lemma calm_cases:
  assumes "files s' = files s" "segmentSize s' = segmentSize s" "noSync s' = noSync s" "syncEvery s' = syncEvery s" "ioErr s' = ioErr s"
    "heap s' = heap s" "same_files (os s) (os s')" "stable (os s') = stable (os s)" "dirs s s'"
  shows "calm s s'"
  using assms by (simp add: calm_def stays_def flushed_as_def)

lemma calm_upd [simp]:
  assumes "\<And>d. keep_df (f d) = keep_df d" "\<And>d. df_dirty d \<Longrightarrow> df_dirty (f d)"
  shows "calm s (upd_df n f s)"
  using assms by (auto simp: calm_def upd_df_def flushed_as_def stays_def dirs_def)

lemma calm_simple [simp]:
  "calm s (s\<lparr>lruMRU := a\<rparr>)" "calm s (s\<lparr>lruLRU := a\<rparr>)" "calm s (s\<lparr>nOpen := k\<rparr>)" "calm s (s\<lparr>unsynced := u\<rparr>)" "calm s (s\<lparr>unsyncedBytes := u\<rparr>)"
  "calm s (s\<lparr>flushEpoch := v\<rparr>)" "calm s (s\<lparr>nHeaderWrites := u\<rparr>)" "calm s (s\<lparr>writeBuf := wb\<rparr>)" "calm s (s\<lparr>readBuf := wb\<rparr>)" "calm s (s\<lparr>nFull := u\<rparr>)"
  "calm s (s\<lparr>blockFile := bf\<rparr>)" "calm s (s\<lparr>blockOff := u\<rparr>)" "calm s (s\<lparr>blockLen := u\<rparr>)" "calm s (dropBlock s)"
  by (simp_all add: calm_cases dropBlock_def dirs_def)

lemma dirs_os_run:
  assumes "os_run f s = (r, s')" "linked (snd (f (os s))) = linked (os s)"
    "stable_dir (snd (f (os s))) = stable_dir (os s) \<or> stable_dir (snd (f (os s))) = linked (os s)"
  shows "dirs s s'"
  using assms by (auto simp: os_run_def dirs_def split: prod.splits)

lemma calm_os_run:
  assumes "os_run f s = (r, s')" "\<And>r w'. f (os s) = (r, w') \<Longrightarrow> same_files (os s) w' \<and> stable w' = stable (os s) \<and>
      (stable_dir w' = stable_dir (os s) \<or> stable_dir w' = linked (os s))"
  shows "calm s s'"
  using assms(1) assms(2) [of "fst (f (os s))" "snd (f (os s))"]
  by (intro calm_cases dirs_os_run [OF assms(1)]) (auto simp: os_run_def same_files_def split: prod.splits)

lemma calm_os [calm_rules]:
  "os_run (os_open n) s = (r, s') \<Longrightarrow> calm s s'" "os_run os_close s = (r, s') \<Longrightarrow> calm s s'"
  "os_run (os_pread n off len) s = (r2, s') \<Longrightarrow> calm s s'" "os_run fsyncDir s = (r, s') \<Longrightarrow> calm s s'"
  using os_open_same os_close_same os_pread_same fsyncDir_same fsyncDir_dir(1) by (blast intro: calm_os_run)+

lemma dirs_pwrite:
  assumes "os_run (os_pwrite n off bs) s = (r, s')"
  shows "dirs s s'"
  by (rule dirs_os_run [OF assms]) (auto simp: os_pwrite_def os_tick_def split: list.splits verdict.splits)

lemma calm_datasync [calm_rules]:
  assumes "os_run (datasync n) s = (r, s')"
  shows "calm s s'"
proof -
  obtain w where w: "datasync n (os s) = (r, w)" "s' = s\<lparr>os := w\<rparr>" using assms by (auto simp: os_run_def split: prod.splits)
  then show ?thesis using datasync_same [OF w(1)] datasync_stable [OF w(1)] datasync_dir [OF w(1)]
    by (intro calmI) (auto simp: flushed_as_def stays_def dirs_def same_files_def split: sum.splits)
qed

text \<open>A flush that succeeded: the content is stable, so the file may be called clean.\<close>

lemma datasync_done:
  assumes "os_run (datasync n) s = (Inr u, s')"
  shows "stable (os s') n = inode (os s) n" "heap s' = heap s" "inode (os s') = inode (os s)"
proof -
  obtain w where w: "datasync n (os s) = (Inr u, w)" "s' = s\<lparr>os := w\<rparr>" using assms by (auto simp: os_run_def split: prod.splits)
  then show "stable (os s') n = inode (os s) n" "heap s' = heap s" "inode (os s') = inode (os s)"
    using datasync_same [OF w(1)] datasync_stable [OF w(1)] by (simp_all add: same_files_def)
qed

lemma calm_clean:
  assumes "os_run (datasync n) s = (Inr u, s')"
  shows "calm s (upd_df n (\<lambda>d. d\<lparr>df_dirty := False\<rparr>) s')"
proof -
  have c: "calm s s'" by (rule calm_datasync [OF assms])
  show ?thesis
  proof (rule calmI)
    fix m
    show "keep_df (heap (upd_df n (\<lambda>d. d\<lparr>df_dirty := False\<rparr>) s') m) = keep_df (heap s m)"
      by (simp add: upd_df_def datasync_done(2) [OF assms])
    show "flushed_as s (upd_df n (\<lambda>d. d\<lparr>df_dirty := False\<rparr>) s') m"
      using c datasync_done [OF assms] by (cases "m = n") (simp_all add: flushed_as_def upd_df_def calm_def)
  qed (use c in \<open>simp_all add: calm_def stays_def upd_df_def dirs_def\<close>)
qed

lemma calm_failIO [calm_rules]: "failIO e s = (r, s') \<Longrightarrow> calm s s'"
  by (cases "ioErr s") (auto simp: failIO_def Let_def calm_def stays_def flushed_as_def dirs_def)

lemma calm_flushSync [calm_rules]: "flushSync n s = (r, s') \<Longrightarrow> calm s s'"
  by (auto simp: flushSync_def split: option.splits prod.splits sum.splits
      dest: calm_clean calm_trans [OF calm_datasync calm_failIO])

lemma calm_flushVictim [calm_rules]: "flushVictim n s = (r, s') \<Longrightarrow> calm s s'"
  by (auto simp: flushVictim_def split: if_splits dest: calm_flushSync)

lemma calm_lru [simp]: "calm s (lruUnlink n s)" "calm s (lruPushMRU n s)"
proof -
  have "keep_df (heap (lruUnlink n s) m) = keep_df (heap s m)" "keep_df (heap (lruPushMRU n s) m) = keep_df (heap s m)"
    "df_dirty (heap (lruUnlink n s) m) = df_dirty (heap s m)" "df_dirty (heap (lruPushMRU n s) m) = df_dirty (heap s m)" for m
    by (auto simp: lruUnlink_def lruPushMRU_def upd_df_def Let_def split: option.splits)
  moreover have "os (lruUnlink n s) = os s" "os (lruPushMRU n s) = os s" "ioErr (lruUnlink n s) = ioErr s" "ioErr (lruPushMRU n s) = ioErr s"
    "files (lruUnlink n s) = files s" "files (lruPushMRU n s) = files s" "segmentSize (lruUnlink n s) = segmentSize s"
    "segmentSize (lruPushMRU n s) = segmentSize s" "noSync (lruUnlink n s) = noSync s" "noSync (lruPushMRU n s) = noSync s"
    "syncEvery (lruUnlink n s) = syncEvery s" "syncEvery (lruPushMRU n s) = syncEvery s"
    "dirOpen (lruUnlink n s) = dirOpen s" "dirOpen (lruPushMRU n s) = dirOpen s"
    by (auto simp: lruUnlink_def lruPushMRU_def upd_df_def Let_def split: option.splits)
  ultimately show "calm s (lruUnlink n s)" "calm s (lruPushMRU n s)" by (simp_all add: calm_def flushed_as_def stays_def dirs_def)
qed

lemma calm_evict_one [simp]: "calm s (evict_one n s)"
proof -
  let ?s1 = "if noSync s then s else snd (flushVictim n s)"
  have "calm s (snd (flushVictim n s))" using calm_flushVictim by (metis prod.collapse)
  then have 1: "calm s ?s1" by simp
  have 2: "calm ?s1 (snd (os_run os_close ?s1))" using calm_os(2) by (metis prod.collapse)
  have "calm s (upd_df n (\<lambda>d. d\<lparr>df_open := False\<rparr>) (snd (os_run os_close ?s1)))"
    by (rule calm_trans [OF calm_trans [OF 1 2] calm_upd]) simp_all
  then show ?thesis unfolding evict_one_def Let_def by (rule calm_trans) simp
qed

lemma calm_evict_loop [simp]: "calm s (evict_loop act keep s)"
proof (induction act keep s rule: evict_loop.induct)
  case (1 act keep s)
  then show ?case
    by (cases "evict_victim act keep s") (auto simp: evict_loop.simps [of act keep s] intro: calm_trans [OF calm_evict_one])
qed

lemma calm_trackOpen [simp]: "calm s (trackOpen n s)"
  unfolding trackOpen_def evictOpen_def using calm_trans [OF calm_lru(2) calm_evict_loop] by simp

lemma calm_ensureOpen [calm_rules]:
  assumes "ensureOpen n s = (r, s')"
  shows "calm s s'"
proof -
  obtain r1 s1 where 1: "os_run (os_open n) s = (r1, s1)" by force
  have c: "calm s s1" by (rule calm_os(1) [OF 1])
  have "calm s (trackOpen n (upd_df n (\<lambda>d. d\<lparr>df_open := True\<rparr>) s1))"
    by (rule calm_trans [OF calm_trans [OF c calm_upd] calm_trackOpen]) simp_all
  moreover have "calm s (touchOpen n s)" unfolding touchOpen_def using calm_trans [OF calm_lru(1,2)] by simp
  ultimately show ?thesis using assms 1 c by (auto simp: ensureOpen_def split: if_splits sum.splits)
qed

lemma calm_flushFile [calm_rules]:
  assumes "flushFile n s = (r, s')"
  shows "calm s s'"
  using assms calm_trans [OF calm_ensureOpen calm_flushSync] unfolding flushFile_def
  by (auto split: if_splits prod.splits sum.splits dest: calm_ensureOpen calm_flushSync)

lemma calm_flush_all: "flush_all ns e s = (r, s') \<Longrightarrow> calm s s'"
proof (induction ns e s rule: flush_all.induct)
  case (2 n ns errs s)
  obtain r1 s1 where f: "flushFile n s = (r1, s1)" by force
  then have "calm s s1" by (rule calm_flushFile)
  moreover have "calm s1 s'" using 2 f by auto
  ultimately show ?case by (rule calm_trans)
qed simp

lemma calm_syncDir [calm_rules]: "syncDir s = (r, s') \<Longrightarrow> calm s s'"
  unfolding syncDir_def
  by (auto split: if_splits prod.splits sum.splits dest: calm_os(4) calm_trans [OF calm_os(4) calm_failIO])

lemma calm_flushBatch [calm_rules]:
  assumes "flushBatch s = (r, s')"
  shows "calm s s'"
proof -
  obtain e s1 where 1: "flush_all (files s) None s = (e, s1)" by force
  obtain r2 s2 where 2: "syncDir s1 = (r2, s2)" by force
  have c: "calm s s1" "calm s s2" using calm_trans [OF calm_flush_all [OF 1] calm_syncDir [OF 2]] calm_flush_all [OF 1] by simp_all
  have "calm s2 (s2\<lparr>unsynced := 0, unsyncedBytes := 0, flushEpoch := Suc (flushEpoch s2)\<rparr>)" by (rule calm_cases) (simp_all add: dirs_def)
  then have "calm s (s2\<lparr>unsynced := 0, unsyncedBytes := 0, flushEpoch := Suc (flushEpoch s2)\<rparr>)" by (rule calm_trans [OF c(2)])
  then show ?thesis using assms 1 2 c unfolding flushBatch_def by (auto split: option.splits sum.splits)
qed

lemma calm_recordOp [calm_rules]: "recordOp s = (r, s') \<Longrightarrow> calm s s'"
  unfolding recordOp_def recordOps_def Let_def
  by (auto split: if_splits dest!: calm_flushBatch intro: calm_trans [OF calm_simple(4)])

section \<open>Reading\<close>

lemma calm_readBlock [calm_rules]:
  assumes "readBlock df off want s = (r, s')"
  shows "calm s s'"
proof -
  let ?have = "if blockFile s = Some df \<and> blockOff s = off then blockLen s else 0"
  define s1 where "s1 = (if ?have > 0 then s\<lparr>readBuf := growKeeping (readBuf s) (nat want) (nat ?have)\<rparr>
    else let d = dropBlock s in d\<lparr>readBuf := growBuf (readBuf d) (nat want)\<rparr>)"
  have c1: "calm s s1" by (simp add: s1_def Let_def dropBlock_def calm_cases dirs_def)
  obtain bs e s2 where 2: "os_run (os_pread df (headerSize + nat (off + ?have)) (nat (want - ?have))) s1 = ((bs, e), s2)" by (metis surj_pair)
  have c2: "calm s s2" by (rule calm_trans [OF c1 calm_os(3) [OF 2]])
  have "calm s2 (s2\<lparr>readBuf := a\<rparr>)" "calm s2 (s2\<lparr>readBuf := a, blockFile := b, blockOff := c, blockLen := d\<rparr>)" for a b c d
    by (simp_all add: calm_cases dirs_def)
  note c3 = calm_trans [OF c2 this(1)] calm_trans [OF c2 this(2)]
  show ?thesis using assms 2 c3 unfolding readBlock_def Let_def s1_def [unfolded Let_def, symmetric]
    by (auto split: if_splits option.splits)
qed

lemma calm_fillBlock [calm_rules]:
  assumes "fillBlock df off avail need s = (r, s')"
  shows "calm s s'"
  using assms unfolding fillBlock_def Let_def
  by (auto split: if_splits prod.splits sum.splits dest!: calm_readBlock intro: calm_trans calm_trans [OF _ calm_simple(14)])

lemma calm_frameHeader [calm_rules]:
  assumes "frameHeader df off avail s = (r, s')"
  shows "calm s s'"
  using assms unfolding frameHeader_def Let_def
  by (auto split: if_splits prod.splits sum.splits dest!: calm_fillBlock)

lemma calm_recordAt [calm_rules]:
  assumes "recordAt df off s = (r, s')"
  shows "calm s s'"
proof -
  let ?o = "off - df_base (heap s df)" and ?a = "df_size (heap s df) - (off - df_base (heap s df))"
  obtain r1 s1 where 1: "frameHeader df ?o ?a s = (r1, s1)" by force
  have c1: "calm s s1" by (rule calm_frameHeader [OF 1])
  have c2: "calm s t" if "fillBlock df ?o ?a k s1 = (r2, t)" for k r2 t by (rule calm_trans [OF c1 calm_fillBlock [OF that]])
  show ?thesis using assms 1 c1 c2 unfolding recordAt_def Let_def
    by (fastforce split: if_splits prod.splits sum.splits option.splits)
qed

lemma calm_recordLen [calm_rules]: "recordLen df off s = (r, s') \<Longrightarrow> calm s s'"
  unfolding recordLen_def Let_def by (auto split: if_splits prod.splits sum.splits option.splits dest!: calm_frameHeader)

lemma calm_frameEnd [calm_rules]: "frameEnd df off s = (r, s') \<Longrightarrow> calm s s'"
  unfolding frameEnd_def by (auto split: if_splits dest: calm_recordLen)

lemma calm_read [calm_rules]:
  assumes "read q s = (r, s')"
  shows "calm s s'"
  using assms unfolding read_def
  by (auto split: if_splits prod.splits sum.splits option.splits dest!: calm_ensureOpen calm_recordAt intro: calm_trans)

section \<open>Publishing a header\<close>

text \<open>A header publication that worked: the page of one file is the header the store keeps for it.\<close>

definition headed :: "nat \<Rightarrow> store \<Rightarrow> store \<Rightarrow> bool" where
  "headed n s s' \<longleftrightarrow> files s' = files s \<and> segmentSize s' = segmentSize s \<and> noSync s' = noSync s \<and> syncEvery s' = syncEvery s \<and>
     ioErr s' = ioErr s \<and> heap s' = (heap s)(n := heap s' n) \<and>
     keep_df (heap s' n) = keep_df ((heap s n)\<lparr>df_diskHeader := df_hdr (heap s n)\<rparr>) \<and> df_dirty (heap s' n) \<and>
     inode (os s') = (inode (os s))(n := df_hdr (heap s n) @ drop headerSize (inode (os s) n)) \<and>
     linked (os s') = linked (os s) \<and> stable (os s') = stable (os s) \<and> dirs s s'"

lemma page_parts: "take k xs = take k ys \<Longrightarrow> drop k xs = drop k ys \<Longrightarrow> xs = ys"
  by (metis append_take_drop_id)

lemma restoreHeader_calm:
  assumes r: "restoreHeader n s = (Inr u, s')" and t: "calm t (s\<lparr>os := (os s)\<lparr>inode := inode (os t)\<rparr>\<rparr>)"
    and i: "inode (os s) = (inode (os t))(n := overwrite 0 bs (inode (os t) n))" "length bs \<le> headerSize" and sy: "in_sync t n"
  shows "calm t s'"
proof -
  have hd: "df_diskHeader (heap s n) = df_diskHeader (heap t n)" using calm_fields(7) [OF t, of n] by simp
  have len: "length (df_diskHeader (heap s n)) = headerSize" "headerSize \<le> length (inode (os t) n)"
    using sy hd by (auto simp: in_sync_def dest: arg_cong [where f = length])
  have room: "headerSize \<le> length (inode (os s) n)" using i len by (simp add: length_overwrite)
  have page: "take headerSize (inode (os s') n) = df_diskHeader (heap t n)"
    using restoreHeader_restores [OF r len(1) room] hd by simp
  have base: "files s = files t" "segmentSize s = segmentSize t" "noSync s = noSync t" "syncEvery s = syncEvery t"
    "keep_df (heap s m) = keep_df (heap t m)" "stays t s" "linked (os s) = linked (os t)"
    "flushed_as t (s\<lparr>os := (os s)\<lparr>inode := inode (os t)\<rparr>\<rparr>) m" "dirs t s" for m
    using t by (simp_all add: calm_def same_files_def stays_def dirs_def)
  obtain cur e s1 where p: "os_run (os_pread n 0 headerSize) s = ((cur, e), s1)" by (metis surj_pair)
  have e: "e = None" using r p by (auto simp: restoreHeader_def split: option.splits)
  have s1: "heap s1 = heap s" "inode (os s1) = inode (os s)" "linked (os s1) = linked (os s)" "stable (os s1) = stable (os s)"
    "files s1 = files s" "segmentSize s1 = segmentSize s" "noSync s1 = noSync s" "syncEvery s1 = syncEvery s" "ioErr s1 = ioErr s"
    "dirOpen s1 = dirOpen s" "stable_dir (os s1) = stable_dir (os s)"
    using p os_pread_same [of n 0 headerSize "os s"] by (auto simp: os_run_def same_files_def split: prod.splits)
  have dr: "drop headerSize (inode (os s) n) = drop headerSize (inode (os t) n)" using i by (simp add: drop_overwrite_head)
  let ?d = "df_diskHeader (heap s1 n)" and ?k = "changed_len headerSize cur (df_diskHeader (heap s1 n))"
  show ?thesis
  proof (cases "?k = 0")
    case True
    then have s': "s' = s1" using r p e by (simp add: restoreHeader_def Let_def)
    have "inode (os s) n = inode (os t) n"
      by (rule page_parts [of headerSize]) (use page sy dr in \<open>simp_all add: s' s1 in_sync_def\<close>)
    then have "inode (os s) = inode (os t)" using i by (simp add: fun_upd_idem)
    then show ?thesis unfolding s' using base
      by (intro calmI) (simp_all add: s1 same_files_def stays_def flushed_as_def dirs_def)
  next
    case False
    obtain r2 s2 where w: "os_run (os_pwrite n 0 (take ?k ?d)) (mark_dirty n s1) = (r2, s2)" by force
    have r2: "r2 = Inr ()" and ds: "os_run (datasync n) s2 = (Inr u, s')"
      using r p e w False by (auto simp: restoreHeader_def Let_def split: sum.splits)
    note dd = datasync_done [OF ds] and c2 = calm_datasync [OF ds]
    from w show ?thesis
    proof (cases rule: pwrite_cases)
      case (1 w' j)
      have kl: "length (take j (take ?k ?d)) \<le> headerSize" using changed_len_le [of headerSize cur ?d] by simp
      have i2: "inode (os s2) = (inode (os s))(n := overwrite 0 (take j (take ?k ?d)) (inode (os s) n))"
        "stable (os s2) = stable (os s)" "linked (os s2) = linked (os t)"
        using 1 s1 base by (simp_all add: mark_dirty_def upd_df_def)
      have "inode (os s2) n = inode (os t) n"
      proof (rule page_parts [of headerSize])
        show "take headerSize (inode (os s2) n) = take headerSize (inode (os t) n)" using page sy dd(3) by (simp add: in_sync_def)
        show "drop headerSize (inode (os s2) n) = drop headerSize (inode (os t) n)" using kl dr by (simp add: i2 drop_overwrite_head)
      qed
      then have "inode (os s2) = inode (os t)" using i2(1) i(1) by (auto simp: fun_eq_iff)
      then have "(os s2)\<lparr>inode := inode (os t)\<rparr> = os s2" by (cases "os s2") simp
      then have "s2\<lparr>os := (os s2)\<lparr>inode := inode (os t)\<rparr>\<rparr> = s2" by simp
      moreover have "calm t (s2\<lparr>os := (os s2)\<lparr>inode := inode (os t)\<rparr>\<rparr>)"
      proof (rule calmI)
        have "dirs s1 s2" by (rule dirs_trans [OF dirs_upd_df(2) dirs_pwrite [OF w]])
        moreover have "dirs s s1" by (simp add: dirs_def s1)
        ultimately have "dirs t s2" using base(9) dirs_trans by blast
        then show "dirs t (s2\<lparr>os := (os s2)\<lparr>inode := inode (os t)\<rparr>\<rparr>)" by (simp add: dirs_def)
      qed (use base 1 s1 in \<open>auto simp: mark_dirty_def upd_df_def same_files_def stays_def flushed_as_def\<close>)
      ultimately have "calm t s2" by simp
      then show ?thesis using c2 by (rule calm_trans)
    qed
  qed
qed

lemma ensureOpen_linked:
  assumes "ensureOpen n s = (Inl e, s')" "linked (os s) n"
  shows "\<exists>x. e = Errno x"
  using ensureOpen_error assms by blast

lemma writeHeader_cases:
  assumes s: "in_sync s n" and len: "length (df_hdr (heap s n)) = headerSize" and l: "linked (os s) n" and w: "writeHeader n s = (r, s')"
  obtains (fine) t where "r = Inr ()" "calm s t" "headed n t s'"
  | (failed) x where "r = Inl (Errno x)" "calm s s'"
  | (latched) e where "r = Inl e" "ioErr s' \<noteq> None"
proof -
  obtain r1 s1 where 1: "(if df_open (heap s n) then (Inr (), s) else ensureOpen n s) = (r1, s1)" by force
  have c1: "calm s s1" using 1 by (auto split: if_splits dest: calm_ensureOpen)
  note f1 = calm_fields [OF c1]
  have sy1: "in_sync s1 n" using s by (simp add: in_sync_def f1)
  show ?thesis
  proof (cases "ioErr s1 = None")
    case False
    then show ?thesis using w 1 l c1 that by (cases r1) (auto simp: writeHeader_def split: if_splits dest: ensureOpen_linked)
  next
    case noerr: True
    show ?thesis
    proof (cases r1)
      case (Inl e)
      then show ?thesis using w 1 l c1 that by (auto simp: writeHeader_def split: if_splits dest: ensureOpen_linked)
    next
      case r1: (Inr u)
      obtain r2 s2 where 2: "os_run (os_pwrite n 0 (df_hdr (heap s1 n))) s1 = (r2, s2)" by force
      from 2 show ?thesis
      proof (cases rule: pwrite_cases)
        case p: (1 w' k)
        let ?bs = "take k (df_hdr (heap s1 n))"
        have len1: "length (df_hdr (heap s1 n)) = headerSize" using len by (simp add: f1)
        show ?thesis
        proof (cases r2)
          case (Inr u2)
          have bs: "?bs = df_hdr (heap s1 n)" using p Inr by simp
          have ov: "overwrite 0 (df_hdr (heap s1 n)) xs = df_hdr (heap s1 n) @ drop headerSize xs" for xs
            using len1 by (simp add: overwrite_def)
          have "r = Inr ()" and s': "s' = (let s3 = upd_df n (\<lambda>d. d\<lparr>df_diskHeader := df_hdr d\<rparr>) s2 in mark_dirty n (s3\<lparr>nHeaderWrites := nHeaderWrites s3 + 1\<rparr>))"
            using w 1 r1 noerr 2 Inr by (auto simp: writeHeader_def Let_def)
          moreover have "headed n s1 s'" unfolding s' headed_def Let_def using p bs ov dirs_pwrite [OF 2]
            by (simp add: mark_dirty_def upd_df_def) (simp add: dirs_def)
          ultimately show ?thesis using c1 that(1) by blast
        next
          case (Inl e)
          obtain x where e: "e = Errno x" using p Inl by blast
          obtain r3 s3 where 3: "restoreHeader n s2 = (r3, s3)" by force
          have out: "(r, s') = (case r3 of
              Inl re \<Rightarrow> (case failIO re s3 of (fr :: unit result, s4) \<Rightarrow> (as_result (err_join (Some e) (err_of fr)), s4))
            | Inr _ \<Rightarrow> (Inl e, s3))"
            using w 1 r1 noerr 2 3 Inl e by (auto simp: writeHeader_def split: sum.splits)
          show ?thesis
          proof (cases r3)
            case i: (Inl re)
            obtain fr s4 where f4: "(failIO re s3 :: unit result \<times> store) = (fr, s4)" by force
            then have "ioErr s' \<noteq> None" "\<exists>y. r = Inl y"
              using out i by (auto dest!: failIO_result simp: as_result_def err_join_def split: option.splits)
            then show ?thesis using that(3) by blast
          next
            case i: (Inr u3)
            have "calm s1 (s2\<lparr>os := (os s2)\<lparr>inode := inode (os s1)\<rparr>\<rparr>)"
              using p dirs_pwrite [OF 2] by (intro calm_cases) (simp_all add: same_files_def, simp add: dirs_def)
            then have "calm s1 s3" by (rule restoreHeader_calm [OF 3 [unfolded i] _ _ _ sy1]) (use p len1 in auto)
            then show ?thesis using out i e calm_trans [OF c1] that(2) by auto
          qed
        qed
      qed
    qed
  qed
qed

end
