(* ===== verification/Durable.thy ===== *)
theory Durable
  imports Calm
begin

text \<open>
  What is on disk.  While no failure is latched, the header page of every live segment says what
  the store knows of it, and what the last flush of the file made stable is a sound segment with
  the same records, of which no more are counted as committed.  Every operation keeps this.
\<close>

section \<open>The invariant\<close>

definition hv where
  "hv xx h = ((length h, magic h, headerChecksumOK xx h, version h), (hdrSegSize h, hdrCapacity h),
     (writeCursor h, writtenCount h), (commitCursor h, committedCount h))"

definition told :: "hash \<Rightarrow> store \<Rightarrow> nat \<Rightarrow> bool" where
  "told xx s n \<longleftrightarrow> df_num (heap s n) = n \<and> hdrCapacity (df_hdr (heap s n)) = df_capacity (heap s n) \<and>
     (\<exists>k. hdr_says xx (segmentSize s) (df_hdr (heap s n)) (recs_of xx s n) k)"

definition on_disk :: "hash \<Rightarrow> store \<Rightarrow> nat \<Rightarrow> bool" where
  "on_disk xx s n \<longleftrightarrow> in_sync s n \<and> hv xx (df_diskHeader (heap s n)) = hv xx (df_hdr (heap s n))"

text \<open>Bytes that are a sound segment of the records \<open>ps\<close>, at most \<open>b\<close> of them committed.\<close>

definition snap :: "hash \<Rightarrow> int \<Rightarrow> bytes list \<Rightarrow> int \<Rightarrow> bytes \<Rightarrow> bool" where
  "snap xx seg ps b c \<longleftrightarrow> (\<exists>k. int k \<le> b \<and> hdr_says xx seg (take headerSize c) ps k) \<and> (\<exists>rest. drop headerSize c = frames xx ps @ rest)"

definition flushed :: "hash \<Rightarrow> store \<Rightarrow> nat \<Rightarrow> bool" where
  "flushed xx s n \<longleftrightarrow> (perOp s \<or> \<not> df_dirty (heap s n) \<longrightarrow>
     snap xx (segmentSize s) (recs_of xx s n) (committedCount (df_hdr (heap s n))) (stable (os s) n))"

definition sound :: "hash \<Rightarrow> store \<Rightarrow> nat \<Rightarrow> bool" where
  "sound xx s n \<longleftrightarrow> told xx s n \<and> on_disk xx s n \<and> flushed xx s n"

definition placed :: "store \<Rightarrow> bool" where
  "placed s \<longleftrightarrow> 0 \<le> segmentSize s \<and> segmentSize s < 2 ^ 48 \<and> sorted_wrt (<) (files s) \<and> (\<forall>n \<in> set (files s). n < 2 ^ 64)"

text \<open>The directory is open, and unless the store does not flush the entries of its segments are on stable storage.\<close>

definition entered :: "store \<Rightarrow> bool" where
  "entered s \<longleftrightarrow> dirOpen s \<and> (noSync s \<or> (\<forall>n \<in> set (files s). stable_dir (os s) n))"

lemma entered_dirs:
  assumes "dirs s s'" "set (files s') \<subseteq> set (files s)" "noSync s' = noSync s" "\<And>n. n \<in> set (files s) \<Longrightarrow> linked (os s) n" "entered s"
  shows "entered s'"
  using assms by (auto simp: entered_def dirs_def)

definition lasting :: "hash \<Rightarrow> store \<Rightarrow> bool" where
  "lasting xx s \<longleftrightarrow> placed s \<and> (ioErr s = None \<longrightarrow> entered s \<and> (\<forall>n \<in> set (files s). sound xx s n))"

lemma lastingI:
  assumes "placed s" "ioErr s = None \<Longrightarrow> entered s" "\<And>n. ioErr s = None \<Longrightarrow> n \<in> set (files s) \<Longrightarrow> sound xx s n"
  shows "lasting xx s"
  using assms by (simp add: lasting_def)

lemma lastingD:
  assumes "lasting xx s"
  shows "placed s" "ioErr s = None \<Longrightarrow> entered s" "ioErr s = None \<Longrightarrow> n \<in> set (files s) \<Longrightarrow> sound xx s n"
  using assms by (simp_all add: lasting_def)

lemma placed_same: "files s' = files s \<Longrightarrow> segmentSize s' = segmentSize s \<Longrightarrow> placed s' = placed s"
  by (simp add: placed_def)

lemma hdr_says_hv: "hv xx h = hv xx h' \<Longrightarrow> hdr_says xx seg h ps k = hdr_says xx seg h' ps k"
  by (simp add: hv_def hdr_says_def)

lemma snap_mono: "snap xx seg ps b c \<Longrightarrow> b \<le> b' \<Longrightarrow> snap xx seg ps b' c"
  unfolding snap_def using order_trans by blast

text \<open>The file as it is now is a sound segment.\<close>

lemma data_prefix:
  assumes "data_of s n = frames xx ps"
  shows "\<exists>rest. drop headerSize (inode (os s) n) = frames xx ps @ rest"
proof -
  have "drop headerSize (inode (os s) n) = data_of s n @ drop (nat (df_size (heap s n))) (drop headerSize (inode (os s) n))"
    unfolding data_of_alt by (rule append_take_drop_id [symmetric])
  then show ?thesis using assms by auto
qed

lemma snap_now:
  assumes f: "data_of s n = frames xx (recs_of xx s n)" and t: "told xx s n" and d: "on_disk xx s n"
  shows "snap xx (segmentSize s) (recs_of xx s n) (committedCount (df_hdr (heap s n))) (inode (os s) n)"
proof -
  obtain k where k: "int k = committedCount (df_hdr (heap s n))" "hdr_says xx (segmentSize s) (df_hdr (heap s n)) (recs_of xx s n) k"
    using t by (auto simp: told_def hdr_says_def)
  have "hdr_says xx (segmentSize s) (take headerSize (inode (os s) n)) (recs_of xx s n) k"
    using d k(2) hdr_says_hv [of xx "df_diskHeader (heap s n)"] by (simp add: on_disk_def in_sync_def)
  then show ?thesis unfolding snap_def using k(1) [THEN eq_refl] data_prefix [OF f] by blast
qed

lemma sound_snap: "data_of s n = frames xx (recs_of xx s n) \<Longrightarrow> sound xx s n \<Longrightarrow> snap xx (segmentSize s) (recs_of xx s n) (committedCount (df_hdr (heap s n))) (inode (os s) n)"
  by (simp add: sound_def snap_now)

lemma flushed_calm:
  assumes c: "calm s s'" and d: "snap xx (segmentSize s) (recs_of xx s n) (committedCount (df_hdr (heap s n))) (inode (os s) n)" and f: "flushed xx s n"
  shows "flushed xx s' n"
  using d f calm_fields(15) [OF c, of n] unfolding flushed_def calm_fields(2,5,6,16) [OF c] flushed_as_def by metis

lemma told_calm: "calm s s' \<Longrightarrow> told xx s' n = told xx s n"
  by (simp add: told_def calm_fields)

lemma on_disk_calm: "calm s s' \<Longrightarrow> on_disk xx s' n = on_disk xx s n"
  by (simp add: on_disk_def in_sync_def calm_fields)

lemma sound_calm:
  assumes "calm s s'" "data_of s n = frames xx (recs_of xx s n)" "sound xx s n"
  shows "sound xx s' n"
  using assms flushed_calm [OF assms(1) sound_snap [OF assms(2,3)]] by (simp add: sound_def told_calm on_disk_calm)

lemma lasting_calm:
  assumes c: "calm s s'" and ok: "queue_ok xx s" and l: "lasting xx s"
  shows "lasting xx s'"
proof (rule lastingI)
  note f = calm_fields [OF c]
  show "placed s'" using lastingD(1) [OF l] placed_same [OF f(1,2)] by simp
  show "entered s'" if "ioErr s' = None"
    by (rule entered_dirs [OF f(19) _ f(3)]) (use lastingD(2) [OF l f(14)] that f(1) file_okD(4) [OF queue_okD(1) [OF ok]] in simp_all)
  show "sound xx s' n" if "ioErr s' = None" "n \<in> set (files s')" for n
    using sound_calm [OF c] file_ok_data(1) [OF queue_okD(1) [OF ok]] lastingD(3) [OF l f(14)] f(1) that by simp
qed

text \<open>Only the fields of the segment and the content of its file matter.\<close>

lemma sound_cong:
  assumes "heap s' n = heap s n" "inode (os s') n = inode (os s) n" "stable (os s') n = stable (os s) n"
    "segmentSize s' = segmentSize s" "perOp s' = perOp s"
  shows "sound xx s' n = sound xx s n"
  using assms by (simp add: sound_def told_def on_disk_def in_sync_def flushed_def recs_of_def data_of_def)

lemma lasting_cong:
  assumes "heap s' = heap s" "os s' = os s" "segmentSize s' = segmentSize s" "noSync s' = noSync s" "syncEvery s' = syncEvery s"
    "ioErr s' = ioErr s" "files s' = files s" "dirOpen s' = dirOpen s"
  shows "lasting xx s' = lasting xx s"
  using assms sound_cong [of s' _ s] placed_same [of s' s] by (simp add: lasting_def entered_def perOp_def batched_def)

section \<open>Headers\<close>

lemma headed_fields:
  assumes "headed n s s'"
  shows "files s' = files s" "segmentSize s' = segmentSize s" "perOp s' = perOp s" "ioErr s' = ioErr s" "noSync s' = noSync s"
    "m \<noteq> n \<Longrightarrow> heap s' m = heap s m" "m \<noteq> n \<Longrightarrow> inode (os s') m = inode (os s) m" "stable (os s') = stable (os s)"
    "df_hdr (heap s' n) = df_hdr (heap s n)" "df_diskHeader (heap s' n) = df_hdr (heap s n)" "df_dirty (heap s' n)"
    "df_size (heap s' n) = df_size (heap s n)" "df_capacity (heap s' n) = df_capacity (heap s n)"
    "df_committed (heap s' n) = df_committed (heap s n)" "inode (os s') n = df_hdr (heap s n) @ drop headerSize (inode (os s) n)"
    "linked (os s') = linked (os s)" "df_num (heap s' n) = df_num (heap s n)" "dirs s s'"
proof -
  have k: "keep_df (heap s' n) = keep_df ((heap s n)\<lparr>df_diskHeader := df_hdr (heap s n)\<rparr>)" using assms by (simp add: headed_def)
  show "df_hdr (heap s' n) = df_hdr (heap s n)" "df_diskHeader (heap s' n) = df_hdr (heap s n)"
    "df_size (heap s' n) = df_size (heap s n)" "df_capacity (heap s' n) = df_capacity (heap s n)"
    "df_committed (heap s' n) = df_committed (heap s n)" "df_num (heap s' n) = df_num (heap s n)" using keep_df_fields [OF k] by simp_all
  have "heap s' = (heap s)(n := heap s' n)" using assms unfolding headed_def by blast
  then show "m \<noteq> n \<Longrightarrow> heap s' m = heap s m" by (metis fun_upd_other)
qed (use assms in \<open>simp_all add: headed_def perOp_def batched_def\<close>)

lemma headed_data:
  assumes h: "headed n s s'" and len: "length (df_hdr (heap s n)) = headerSize"
  shows "data_of s' m = data_of s m" "recs_of xx s' m = recs_of xx s m"
proof -
  show d: "data_of s' m = data_of s m" using len by (cases "m = n") (simp_all add: data_of_alt headed_fields [OF h])
  then show "recs_of xx s' m = recs_of xx s m" by (simp add: recs_of_def)
qed

lemma sound_headed:
  assumes h: "headed n s s'" and len: "length (df_hdr (heap s n)) = headerSize"
    and n: "told xx s n" "perOp s \<Longrightarrow> snap xx (segmentSize s) (recs_of xx s n) (committedCount (df_hdr (heap s n))) (stable (os s) n)"
  shows "sound xx s' n" "m \<noteq> n \<Longrightarrow> sound xx s m \<Longrightarrow> sound xx s' m"
proof -
  note f = headed_fields [OF h]
  show "sound xx s' n" using n len
    by (simp add: sound_def told_def on_disk_def in_sync_def flushed_def f headed_data [OF h len])
  show "m \<noteq> n \<Longrightarrow> sound xx s m \<Longrightarrow> sound xx s' m" using sound_cong [of s' m s xx] by (simp add: f)
qed

section \<open>Appending\<close>

lemma hdr_says_room:
  assumes "hdr_says xx seg h ps k"
  shows "is_i64 (writeCursor h)" "is_i64 (writtenCount h)" "is_i64 (commitCursor h)" "is_i64 (committedCount h)"
proof -
  note H = assms [unfolded hdr_says_def]
  have "int (length ps) \<le> int (length (frames xx ps))" "length (frames xx (take k ps)) \<le> length (frames xx ps)"
    using length_frames_ge [of ps xx] frames_take_le [of xx k ps] by simp_all
  then show "is_i64 (writeCursor h)" "is_i64 (writtenCount h)" "is_i64 (commitCursor h)" "is_i64 (committedCount h)"
    using H by (auto simp: is_i64_def headerSize_def)
qed

lemma hdr_says_append:
  assumes h: "hdr_says xx seg h ps k" and c: "int (length (frames xx (ps @ [p]))) \<le> hdrCapacity h"
  shows "hdr_says xx seg (header_mods xx [setWriteCursor (int headerSize + int (length (frames xx (ps @ [p])))),
      setWrittenCount (int (length ps) + 1)] h) (ps @ [p]) k"
proof -
  note H = h [unfolded hdr_says_def]
  have "length (ps @ [p]) \<le> length (frames xx (ps @ [p]))" by (rule length_frames_ge)
  then have i: "is_i64 (int headerSize + int (length (frames xx (ps @ [p]))))" "is_i64 (int (length ps) + 1)"
    using c H by (auto simp: is_i64_def headerSize_def)
  have "take k (ps @ [p]) = take k ps" using H by simp
  then show ?thesis using H c i by (simp add: hdr_says_def header_mods_def hdr_laws)
qed

lemma hv_back:
  assumes "length h = headerSize" "headerChecksumOK xx h" "is_i64 (writeCursor h)" "is_i64 (writtenCount h)" "a = writeCursor h" "b = writtenCount h"
  shows "hv xx (header_mods xx [setWriteCursor a, setWrittenCount b] (header_mods xx [setWriteCursor a', setWrittenCount b'] h)) = hv xx h"
  using assms by (simp add: hv_def header_mods_def hdr_laws)

lemma advance_df:
  "df_hdr (heap (advanceAppend xx n b k s) n) =
     header_mods xx [setWriteCursor (int headerSize + (df_size (heap s n) + b)), setWrittenCount (df_written (heap s n) + k)] (df_hdr (heap s n))"
  "df_diskHeader (heap (advanceAppend xx n b k s) n) = df_diskHeader (heap s n)"
  "df_committed (heap (advanceAppend xx n b k s) n) = df_committed (heap s n)"
  "df_dirty (heap (advanceAppend xx n b k s) n) = df_dirty (heap s n)"
  "segmentSize (advanceAppend xx n b k s) = segmentSize s" "perOp (advanceAppend xx n b k s) = perOp s"
  "df_num (heap (advanceAppend xx n b k s) m) = df_num (heap s m)"
  by (simp_all add: advanceAppend_def Let_def upd_df_def header_def perOp_def batched_def)

lemma told_advance:
  assumes f: "file_ok xx s n" and t: "told xx s n" and wr: "written_at s n (df_size (heap s n)) (frame xx p)"
    and cap: "df_size (heap s n) + framedLen (length p) \<le> df_capacity (heap s n)"
  defines "s' \<equiv> advanceAppend xx n (framedLen (length p)) 1 s"
  shows "told xx s' n" "data_of s' n = frames xx (recs_of xx s' n)" "recs_of xx s' n = recs_of xx s n @ [p]"
proof -
  note af = advance_df [of xx n "framedLen (length p)" 1 s, folded s'_def] advance_fields [where xx = xx and n = n and b = "framedLen (length p)" and k = 1 and s = s, folded s'_def]
  obtain k where k: "int k = committedCount (df_hdr (heap s n))" "hdr_says xx (segmentSize s) (df_hdr (heap s n)) (recs_of xx s n) k"
    "hdrCapacity (df_hdr (heap s n)) = df_capacity (heap s n)" using t by (auto simp: told_def hdr_says_def)
  have d: "data_of s' n = frames xx (recs_of xx s n @ [p])"
    unfolding s'_def using advance_data [OF wr file_ok_size [OF f]] file_ok_data(1) [OF f] by (simp add: length_frame)
  have sz: "int (length (frames xx (recs_of xx s n @ [p]))) = df_size (heap s n) + framedLen (length p)"
    using file_ok_data [OF f] by (simp add: length_frame)
  have "df_capacity (heap s n) < 2 ^ 63" by (rule file_okD(2) [OF f])
  then show r: "recs_of xx s' n = recs_of xx s n @ [p]"
    unfolding recs_of_def [of xx s'] d using records_frames [of xx "recs_of xx s n @ [p]"] cap sz by simp
  show "data_of s' n = frames xx (recs_of xx s' n)" by (simp add: d r)
  have "hdr_says xx (segmentSize s) (df_hdr (heap s' n)) (recs_of xx s n @ [p]) k"
    using hdr_says_append [OF k(2), of p] cap sz k(3) file_okD(3) [OF f] by (simp add: af)
  moreover have "hdrCapacity (df_hdr (heap s' n)) = df_capacity (heap s' n)"
    using k(3) file_okD(5) [OF f] by (simp add: af header_mods_def hdr_laws)
  moreover have "df_num (heap s' n) = n" using t by (simp add: told_def af)
  ultimately show "told xx s' n" using k(1) unfolding told_def r by (auto simp: af)
qed

text \<open>A publication that failed without a latched failure leaves the segment as it was.\<close>

lemma sound_rollback:
  assumes f: "file_ok xx s n" and so: "sound xx s n" and c: "calm (advanceAppend xx n b k s) s1" and b: "0 \<le> b"
  defines "s' \<equiv> advanceAppend xx n (- b) (- k) s1"
  shows "sound xx s' n"
proof -
  let ?t = "advanceAppend xx n b k s"
  note tf = advance_df [of xx n b k s] advance_fields [where xx = xx and n = n and b = b and k = k and s = s]
  note cf = calm_fields [OF c]
  note sf = advance_df [of xx n "- b" "- k" s1, folded s'_def] advance_fields [where xx = xx and n = n and b = "- b" and k = "- k" and s = s1, folded s'_def]
  have g: "segmentSize s' = segmentSize s" "perOp s' = perOp s" "df_size (heap s' n) = df_size (heap s n)"
    "df_capacity (heap s' n) = df_capacity (heap s n)" "df_committed (heap s' n) = df_committed (heap s n)"
    "df_diskHeader (heap s' n) = df_diskHeader (heap s n)" "inode (os s') = inode (os s)" "df_dirty (heap s' n) = df_dirty (heap s1 n)"
    "stable (os s') = stable (os s1)" using sf cf tf by simp_all
  have r: "recs_of xx s' n = recs_of xx s n" by (simp add: recs_of_def data_of_alt g)
  obtain j where j: "int j = committedCount (df_hdr (heap s n))" "hdr_says xx (segmentSize s) (df_hdr (heap s n)) (recs_of xx s n) j"
    "hdrCapacity (df_hdr (heap s n)) = df_capacity (heap s n)" using so by (auto simp: sound_def told_def hdr_says_def)
  note J = j(2) [unfolded hdr_says_def]
  have sz: "df_size (heap s n) = int (length (frames xx (recs_of xx s n)))" "df_written (heap s n) = int (length (recs_of xx s n))"
    using file_ok_data [OF f] file_okD(3) [OF f] by simp_all
  have hdr: "df_hdr (heap s' n) = header_mods xx [setWriteCursor (writeCursor (df_hdr (heap s n))), setWrittenCount (writtenCount (df_hdr (heap s n)))]
      (header_mods xx [setWriteCursor (int headerSize + (df_size (heap s n) + b)), setWrittenCount (df_written (heap s n) + k)] (df_hdr (heap s n)))"
    using J sz by (simp add: sf cf tf)
  have "hv xx (df_hdr (heap s' n)) = hv xx (df_hdr (heap s n))"
    unfolding hdr by (rule hv_back) (use J hdr_says_room [OF j(2)] in simp_all)
  note hs = hdr_says_hv [OF this] this
  have "hdrCapacity (df_hdr (heap s' n)) = hdrCapacity (df_hdr (heap s n))" using hs(2) by (simp add: hv_def)
  moreover have "df_num (heap s' n) = n" using so by (simp add: sound_def told_def sf cf tf)
  ultimately have "told xx s' n" using j hs(1) by (auto simp: told_def g r)
  moreover have "on_disk xx s' n" using so hs(2) by (simp add: sound_def on_disk_def in_sync_def g)
  moreover have "flushed xx s' n"
  proof -
    have cc: "committedCount (df_hdr (heap s' n)) = committedCount (df_hdr (heap s n))" using hs(2) by (simp add: hv_def)
    have "stable (os s1) n = inode (os s) n \<or> stable (os s1) n = stable (os s) n \<and> (df_dirty (heap s n) \<longrightarrow> df_dirty (heap s1 n))"
      using calm_fields(15) [OF c, of n] by (simp add: flushed_as_def tf)
    then show ?thesis using so sound_snap [OF file_ok_data(1) [OF f] so] unfolding sound_def flushed_def g r cc by metis
  qed
  ultimately show ?thesis by (simp add: sound_def)
qed

lemma stays_None: "stays s s' \<Longrightarrow> ioErr s' = None \<Longrightarrow> ioErr s = None"
  by (cases "ioErr s") (simp_all add: stays_def)

lemma stays_calm: "calm s s' \<Longrightarrow> stays s s'"
  by (simp add: calm_def)

lemma sound_publishAppend:
  assumes ok: "queue_ok xx s" and n: "n \<in> set (files s)" and all: "\<forall>m \<in> set (files s). sound xx s m"
    and wr: "written_at s n (df_size (heap s n)) (frame xx p)" and cap: "df_size (heap s n) + framedLen (length p) \<le> df_capacity (heap s n)"
    and pub: "publishAppend xx n (framedLen (length p)) s = (r, s')" and lat: "ioErr s' = None" and m: "m \<in> set (files s)"
  shows "sound xx s' m"
proof -
  let ?L = "framedLen (length p)"
  define t where "t = advanceAppend xx n ?L 1 s"
  note tf = advance_df [of xx n ?L 1 s, folded t_def] advance_fields [where xx = xx and n = n and b = ?L and k = 1 and s = s, folded t_def]
  have f: "file_ok xx s n" by (rule queue_okD(1) [OF ok n])
  have so: "sound xx s n" using all n by simp
  have ton: "told xx s n" using so by (simp add: sound_def)
  note ta = told_advance [OF f ton wr cap, folded t_def]
  have oth: "sound xx t x \<and> data_of t x = frames xx (recs_of xx t x)" if "x \<in> set (files s)" "x \<noteq> n" for x
  proof -
    have "sound xx t x" using sound_cong [of t x s xx] all that by (simp add: tf)
    moreover have "data_of t x = data_of s x" using that by (simp add: data_of_def tf)
    moreover from this have "recs_of xx t x = recs_of xx s x" by (simp add: recs_of_def)
    ultimately show ?thesis using file_ok_data(1) [OF queue_okD(1) [OF ok that(1)]] by simp
  qed
  have sy: "in_sync t n" using so by (simp add: sound_def on_disk_def in_sync_def tf)
  have lt: "length (df_hdr (heap t n)) = headerSize" "linked (os t) n" using file_okD(4,5) [OF f] by (simp_all add: tf header_mods_def)
  obtain r1 s1 where w: "writeHeader n t = (r1, s1)" by force
  from sy lt w show ?thesis
  proof (cases rule: writeHeader_cases)
    case (latched e)
    then have "ioErr s' \<noteq> None" using pub w by (auto simp: publishAppend_def t_def rollbackAppend_def advance_fields)
    then show ?thesis using lat by simp
  next
    case (failed x)
    have s': "s' = advanceAppend xx n (- ?L) (- 1) s1" using failed pub w by (simp add: publishAppend_def t_def rollbackAppend_def)
    show ?thesis
    proof (cases "m = n")
      case True
      then show ?thesis unfolding s' using sound_rollback [OF f so failed(2) [unfolded t_def]] framedLen_gt0 [of "length p"] by (simp del: framedLen_gt0)
    next
      case False
      have "sound xx s1 m" using oth [OF m False] sound_calm [OF failed(2)] by blast
      then show ?thesis unfolding s' using sound_cong [of s' m s1 xx] False by (simp add: s' advance_fields advance_df)
    qed
  next
    case (fine u)
    note cu = calm_fields [OF fine(2)] and hu = headed_fields [OF fine(3)]
    have lu: "length (df_hdr (heap u n)) = headerSize" using lt by (simp add: cu)
    have tu: "told xx u n" using ta(1) told_calm [OF fine(2)] by simp
    note hd = headed_data [OF fine(3) lu]
    have du: "data_of u x = data_of t x" for x by (simp add: data_of_alt cu)
    have s1o: "sound xx s1 x" "data_of s1 x = frames xx (recs_of xx s1 x)" if x: "x \<in> set (files s)" "x \<noteq> n" for x
    proof -
      have "sound xx u x" using oth [OF x] sound_calm [OF fine(2)] by blast
      then show "sound xx s1 x" using sound_cong [of s1 x u xx] x(2) by (simp add: hu)
      show "data_of s1 x = frames xx (recs_of xx s1 x)" using oth [OF x] hd(2) by (simp add: hd(1) du cu)
    qed
    have s1n: "told xx s1 n" "on_disk xx s1 n" "data_of s1 n = frames xx (recs_of xx s1 n)"
    proof -
      show "told xx s1 n" using tu by (simp add: told_def hu hd)
      show "on_disk xx s1 n" using lu by (simp add: on_disk_def in_sync_def hu)
      show "data_of s1 n = frames xx (recs_of xx s1 n)" using ta(2) hd(2) by (simp add: hd(1) du cu)
    qed
    note out = pub [unfolded publishAppend_def, folded t_def, unfolded w fine(1), simplified]
    show ?thesis
    proof (cases "perOp s1")
      case False
      have "sound xx s1 n" using s1n False hu(11) by (simp add: sound_def flushed_def)
      then have all1: "sound xx s1 m" using s1o m by (cases "m = n") simp_all
      let ?v = "s1\<lparr>unsyncedBytes := unsyncedBytes s1 + ?L\<rparr>"
      have v: "sound xx ?v m" "data_of ?v m = frames xx (recs_of xx ?v m)"
        using all1 sound_cong [of ?v m s1 xx] s1o(2) [OF m] s1n(3) by (cases "m = n"; simp add: perOp_def batched_def data_of_def recs_of_def)+
      have "s' = ?v \<or> recordOp ?v = (r, s')" using out False by (auto simp: perOp_def split: if_splits)
      then show ?thesis using v sound_calm [OF calm_recordOp] by blast
    next
      case True
      obtain r2 s2 where ds: "os_run (datasync n) s1 = (r2, s2)" by force
      show ?thesis
      proof (cases r2)
        case (Inl e)
        then have "ioErr s' \<noteq> None" using out ds True by (auto simp: perOp_def dest!: failIO_result)
        then show ?thesis using lat by simp
      next
        case (Inr y)
        have s': "s' = upd_df n (\<lambda>d. d\<lparr>df_dirty := False\<rparr>) s2" using out ds True Inr by (auto simp: perOp_def)
        have c: "calm s1 s'" unfolding s' by (rule calm_clean) (use ds Inr in simp)
        show ?thesis
        proof (cases "m = n")
          case False
          then show ?thesis using sound_calm [OF c] s1o [OF m] by blast
        next
          case True
          have "stable (os s') n = inode (os s1) n" using datasync_done(1) [of n s1 y s2] ds Inr by (simp add: s' upd_df_def)
          then have "flushed xx s' n" using snap_now [OF s1n(3,1,2)] by (simp add: flushed_def calm_fields [OF c])
          then show ?thesis using s1n told_calm [OF c] on_disk_calm [OF c] True by (simp add: sound_def)
        qed
      qed
    qed
  qed
qed

end
