(* ===== verification/Durable_Append.thy ===== *)
theory Durable_Append
  imports Durable
begin

text \<open>
  Appending keeps what is on disk: writing a record past the extent, publishing it, reclaiming
  committed segments and starting a new one.
\<close>

section \<open>Writing a record\<close>

lemma take_overwrite_later: "k \<le> off \<Longrightarrow> k \<le> length xs \<Longrightarrow> take k (overwrite off ys xs) = take k xs"
  by (simp add: overwrite_def)

lemma sound_writeRecord:
  assumes f: "file_ok xx s n" and off: "df_size (heap s n) \<le> off" and w: "writeRecord xx n off p s = (r, s')"
    and so: "sound xx s m"
  shows "sound xx s' m"
proof -
  have sh: "shape s' = shape s" using writeRecord_spec(1) [OF f off w] by (simp add: quiet_def)
  have r: "recs_of xx s' m = recs_of xx s m" by (simp add: recs_of_def data_of_def shape_eq_df_fields [OF sh])
  have k: "sound xx s' m" if h: "heap s' x = (if x = n \<and> b then (heap s x)\<lparr>df_dirty := True, df_writeSeq := c\<rparr> else heap s x)"
    and i: "inode (os s') = (inode (os s))(n := overwrite (headerSize + nat off) bs (inode (os s) n))" and st: "stable (os s') = stable (os s)"
    and g: "segmentSize s' = segmentSize s" "perOp s' = perOp s" and x: "x = m" for x b c bs
  proof -
    have hd: "df_num (heap s' m) = df_num (heap s m)" "df_hdr (heap s' m) = df_hdr (heap s m)" "df_diskHeader (heap s' m) = df_diskHeader (heap s m)"
      "df_capacity (heap s' m) = df_capacity (heap s m)" "df_committed (heap s' m) = df_committed (heap s m)"
      "df_dirty (heap s m) \<Longrightarrow> df_dirty (heap s' m)" using h x by auto
    have "take headerSize (inode (os s') m) = take headerSize (inode (os s) m)"
    proof (cases "m = n")
      case True
      have "headerSize \<le> length (inode (os s) n)"
        using so True by (auto simp: sound_def on_disk_def in_sync_def dest: arg_cong [where f = length])
      then show ?thesis using True by (simp add: i take_overwrite_later)
    qed (simp add: i)
    then show ?thesis using so hd g r st by (auto simp: sound_def told_def on_disk_def in_sync_def flushed_def)
  qed
  from w show ?thesis
  proof (cases rule: writeRecord_cases)
    case big
    then show ?thesis using so by simp
  next
    case (fail x j w b)
    show ?thesis by (rule k [of m False undefined]) (use fail in \<open>simp_all add: perOp_def batched_def\<close>)
  next
    case (ok w b)
    show ?thesis by (rule k [of m True "Suc (df_writeSeq (heap s n))"]) (use ok in \<open>simp_all add: mark_dirty_def upd_df_def perOp_def batched_def\<close>)
  qed
qed

lemma stays_restoreHeader:
  assumes "restoreHeader n s = (r, s')"
  shows "stays s s'"
proof -
  have o: "stays t u" if "os_run f t = (r', u)" for f t r' and u using stays_os_run [of t f] that by simp
  have d: "stays t (mark_dirty n t)" for t by (simp add: mark_dirty_def)
  obtain cur e s1 where p: "os_run (os_pread n 0 headerSize) s = ((cur, e), s1)" by (metis surj_pair)
  have s1: "stays s s1" by (rule o [OF p])
  have w: "stays s s2" if "os_run (os_pwrite n 0 bs) (mark_dirty n s1) = (r2, s2)" for bs r2 s2
    by (rule stays_trans [OF stays_trans [OF s1 d] o [OF that]])
  show ?thesis using assms p s1 w stays_trans [OF w o] unfolding restoreHeader_def Let_def
    by (fastforce split: option.splits if_splits prod.splits sum.splits)
qed

lemma stays_writeHeader:
  assumes "writeHeader n s = (r, s')"
  shows "stays s s'"
proof -
  obtain r1 s1 where 1: "(if df_open (heap s n) then (Inr (), s) else ensureOpen n s) = (r1, s1)" by force
  have s1: "stays s s1" using 1 by (auto split: if_splits dest: stays_ensureOpen)
  obtain r2 s2 where 2: "os_run (os_pwrite n 0 (df_hdr (heap s1 n))) s1 = (r2, s2)" by force
  have s2: "stays s s2" using stays_trans [OF s1] stays_os_run [of s1 "os_pwrite n 0 (df_hdr (heap s1 n))"] 2 by simp
  obtain r3 s3 where 3: "restoreHeader n s2 = (r3, s3)" by force
  have s3: "stays s s3" by (rule stays_trans [OF s2 stays_restoreHeader [OF 3]])
  have s4: "stays s s4" if "(failIO e s3 :: unit result \<times> store) = (fr, s4)" for e fr s4
    by (rule stays_trans [OF s3 stays_calm [OF calm_failIO [OF that]]])
  have "ioErr (upd_df n f s2) = ioErr s2" for f by (simp add: upd_df_def)
  then have s5: "stays s (mark_dirty n ((upd_df n f s2)\<lparr>nHeaderWrites := k\<rparr>))" for f k
    using s2 by (simp add: stays_def mark_dirty_def)
  show ?thesis using assms 1 2 3 s1 s2 s3 s4 s5 unfolding writeHeader_def Let_def
    by (auto split: option.splits if_splits prod.splits sum.splits)
qed

lemma dirs_restoreHeader:
  assumes "restoreHeader n s = (r, s')"
  shows "dirs s s'"
proof -
  obtain cur e s1 where p: "os_run (os_pread n 0 headerSize) s = ((cur, e), s1)" by (metis surj_pair)
  have s1: "dirs s s1" by (rule calm_fields(19) [OF calm_os(3) [OF p]])
  have w: "dirs s s2" if "os_run (os_pwrite n 0 bs) (mark_dirty n s1) = (r2, s2)" for bs r2 s2
    by (rule dirs_trans [OF dirs_trans [OF s1 dirs_upd_df(2)] dirs_pwrite [OF that]])
  show ?thesis using assms p s1 w dirs_trans [OF w calm_fields(19) [OF calm_datasync]] unfolding restoreHeader_def Let_def
    by (fastforce split: option.splits if_splits prod.splits sum.splits)
qed

lemma dirs_writeHeader:
  assumes "writeHeader n s = (r, s')"
  shows "dirs s s'"
proof -
  obtain r1 s1 where 1: "(if df_open (heap s n) then (Inr (), s) else ensureOpen n s) = (r1, s1)" by force
  have s1: "dirs s s1" using 1 by (auto split: if_splits dest: calm_fields(19) [OF calm_ensureOpen])
  obtain r2 s2 where 2: "os_run (os_pwrite n 0 (df_hdr (heap s1 n))) s1 = (r2, s2)" by force
  have s2: "dirs s s2" by (rule dirs_trans [OF s1 dirs_pwrite [OF 2]])
  obtain r3 s3 where 3: "restoreHeader n s2 = (r3, s3)" by force
  have s3: "dirs s s3" by (rule dirs_trans [OF s2 dirs_restoreHeader [OF 3]])
  have s4: "dirs s s4" if "(failIO e s3 :: unit result \<times> store) = (fr, s4)" for e fr s4
    by (rule dirs_trans [OF s3 calm_fields(19) [OF calm_failIO [OF that]]])
  have s5: "dirs s (mark_dirty n ((upd_df n f s2)\<lparr>nHeaderWrites := k\<rparr>))" for f k
    using s2 by (simp add: dirs_def mark_dirty_def upd_df_def)
  show ?thesis using assms 1 2 3 s1 s2 s3 s4 s5 unfolding writeHeader_def Let_def
    by (auto split: option.splits if_splits prod.splits sum.splits)
qed

lemma dirs_writeRecord:
  assumes w: "writeRecord xx n off p s = (r, s')"
  shows "dirs s s'"
proof -
  have "dirs (s\<lparr>writeBuf := b\<rparr>) s2" if "os_run (os_pwrite n k bs) (s\<lparr>writeBuf := b\<rparr>) = (r2, s2)" for b k bs r2 s2
    by (rule dirs_pwrite [OF that])
  then have "dirs s s2" "dirs s (mark_dirty n s2)" if "os_run (os_pwrite n k bs) (s\<lparr>writeBuf := b\<rparr>) = (r2, s2)" for b k bs r2 s2
    using that by (simp_all add: dirs_def mark_dirty_def upd_df_def)
  then show ?thesis using w unfolding writeRecord_def Let_def
    by (auto split: if_splits prod.splits sum.splits) (simp add: dirs_def)?
qed

lemma publishAppend_setup:
  assumes len: "length (df_hdr (heap s n)) = headerSize" and p: "publishAppend xx n b s = (r, s')"
  shows "files s' = files s" "segmentSize s' = segmentSize s" "stays s s'" "noSync s' = noSync s" "dirs s s'"
proof -
  let ?t = "advanceAppend xx n b 1 s"
  have adv: "dirs u (advanceAppend xx n c k u)" "noSync (advanceAppend xx n c k u) = noSync u" for u c k
    by (simp_all add: dirs_def advanceAppend_def Let_def upd_df_def)
  obtain r1 s1 where w: "writeHeader n ?t = (r1, s1)" by force
  have q: "quiet ?t s1" by (rule quiet_writeHeader [OF w]) (simp add: advance_fields(21) [OF len])
  have s1: "files s1 = files s" "segmentSize s1 = segmentSize s" "stays s s1" "noSync s1 = noSync s" "dirs s s1"
    using q shape_eq_fields [of s1 ?t] stays_writeHeader [OF w] dirs_trans [OF adv(1) dirs_writeHeader [OF w]] adv(2) [of b 1 s]
    by (simp_all add: quiet_def advance_fields advance_df stays_def)
  have rest: "files u = files s \<and> segmentSize u = segmentSize s \<and> stays s u \<and> noSync u = noSync s \<and> dirs s u" if "calm s1 u" for u
    using calm_fields(1-3) [OF that] s1 stays_trans [OF s1(3) stays_calm [OF that]] dirs_trans [OF s1(5) calm_fields(19) [OF that]] by simp
  have "files s' = files s \<and> segmentSize s' = segmentSize s \<and> stays s s' \<and> noSync s' = noSync s \<and> dirs s s'"
  proof (cases r1)
    case (Inl e)
    then have "s' = advanceAppend xx n (- b) (- 1) s1" using p w by (simp add: publishAppend_def rollbackAppend_def)
    then show ?thesis using s1 dirs_trans [OF s1(5) adv(1)] by (simp add: advance_fields advance_df stays_def)
  next
    case (Inr u)
    let ?v = "s1\<lparr>unsyncedBytes := unsyncedBytes s1 + b\<rparr>"
    have "calm s1 s'" if "recordOp ?v = (r, s')" by (rule calm_trans [OF calm_simple(5) calm_recordOp [OF that]])
    moreover have "calm s1 s'" if "os_run (datasync n) s1 = (Inl e, s2)" "failIO e s2 = (r, s')" for e s2
      by (rule calm_trans [OF calm_datasync [OF that(1)] calm_failIO [OF that(2)]])
    ultimately have "calm s1 s'" using p w Inr calm_clean [of n s1] unfolding publishAppend_def
      by (auto split: if_splits prod.splits sum.splits)
    then show ?thesis by (rule rest)
  qed
  then show "files s' = files s" "segmentSize s' = segmentSize s" "stays s s'" "noSync s' = noSync s" "dirs s s'" by simp_all
qed

lemma lasting_append_write:
  assumes ok: "queue_ok xx s" and room: "has_room (framedLen (length p)) s n" and l: "lasting xx s"
    and a: "append_write xx p n s = (r, s')"
  shows "lasting xx s'"
proof -
  have n: "n \<in> set (files s)" using room by (auto simp: has_room_def active_def split: if_splits)
  obtain r3 s3 where 3: "ensureOpen n s = (r3, s3)" by force
  have c3: "calm s s3" and q3: "quiet s s3" by (rule calm_ensureOpen [OF 3], rule quiet_ensureOpen [OF 3])
  have l3: "lasting xx s3" by (rule lasting_calm [OF c3 ok l])
  have ok3: "queue_ok xx s3" by (rule quiet_queue_ok [OF q3 ok])
  have f3: "file_ok xx s3 n" using queue_okD(1) [OF ok3] n calm_fields(1) [OF c3] by simp
  obtain r4 s4 where 4: "writeRecord xx n (df_size (heap s3 n)) p s3 = (r4, s4)" by force
  note w4 = writeRecord_spec [OF f3 order_refl 4]
  define s5 where "s5 = s4\<lparr>writeBuf := trimOver (writeBuf s4) (segmentSize s4)\<rparr>"
  have c5: "calm s4 s5" by (simp add: s5_def)
  have q5: "quiet s3 s5" unfolding s5_def by (rule quiet_trans [OF w4(1) quiet_fields(6)])
  have ok5: "queue_ok xx s5" by (rule quiet_queue_ok [OF q5 ok3])
  have set5: "segmentSize s5 = segmentSize s3" "files s5 = files s3" "ioErr s5 = ioErr s3"
    using q5 shape_eq_fields [of s5 s3] w4(4) by (simp_all add: quiet_def s5_def)
  have lk3: "linked (os s3) m" if "m \<in> set (files s3)" for m by (rule file_okD(4) [OF queue_okD(1) [OF ok3 that]])
  have ns5: "noSync s5 = noSync s3" using q5 shape_eq_fields(5) [of s5 s3] by (simp add: quiet_def)
  have d5: "dirs s3 s5" by (rule dirs_trans [OF dirs_writeRecord [OF 4] calm_fields(19) [OF c5]])
  have l5: "lasting xx s5"
  proof (rule lastingI)
    show "placed s5" using lastingD(1) [OF l3] placed_same [OF set5(2,1)] by simp
    show "entered s5" if "ioErr s5 = None"
      by (rule entered_dirs [OF d5 _ ns5 lk3]) (use lastingD(2) [OF l3] that set5 in simp_all)
    have "sound xx s5 m" if "ioErr s3 = None" "m \<in> set (files s3)" for m
    proof -
      have "sound xx s3 m" using l3 that by (simp add: lasting_def)
      from sound_writeRecord [OF f3 order_refl 4 this] show ?thesis using sound_cong [of s5 m s4 xx] by (simp add: s5_def perOp_def batched_def)
    qed
    then show "sound xx s5 m" if "ioErr s5 = None" "m \<in> set (files s5)" for m using that set5 by simp
  qed
  obtain r6 s6 where 6: "os_run (datasync n) s5 = (r6, s6)" by force
  have c6: "calm s5 s6" and q6: "quiet s5 s6" by (rule calm_datasync [OF 6], rule quiet_datasync [OF 6])
  have l6: "lasting xx s6" by (rule lasting_calm [OF c6 ok5 l5])
  have pub: "lasting xx s'" if q: "quiet s3 x" and lx: "lasting xx x" and w: "written_at x n (df_size (heap s3 n)) (frame xx p)"
      and e: "stays s3 x" and pb: "publishAppend xx n (framedLen (length p)) x = (r, s')" for x
  proof -
    have okx: "queue_ok xx x" by (rule quiet_queue_ok [OF q ok3])
    have fx: "files x = files s" "df_size (heap x n) = df_size (heap s3 n)"
      using q calm_fields(1) [OF c3] shape_eq_fields(7) [of x s3] shape_eq_df_fields(4) [of x s3 n] shape_eq_fields [of x s3] by (simp_all add: quiet_def)
    have hr: "has_room (framedLen (length p)) x n" by (rule has_room_quiet [OF quiet_trans [OF q3 q] room])
    have "length (df_hdr (heap x n)) = headerSize" using file_okD(5) [OF queue_okD(1) [OF okx]] n fx by simp
    note sh = publishAppend_setup [OF this pb]
    show ?thesis
    proof (rule lastingI)
      show "placed s'" using lx placed_same [OF sh(1,2)] by (simp add: lasting_def)
      show "entered s'" if "ioErr s' = None"
        by (rule entered_dirs [OF sh(5) _ sh(4)]) (use lastingD(2) [OF lx stays_None [OF sh(3) that]] sh(1) file_okD(4) [OF queue_okD(1) [OF okx]] in simp_all)
      fix m assume e: "ioErr s' = None" and m: "m \<in> set (files s')"
      have "ioErr x = None" using sh(3) e stays_None by blast
      then have "\<forall>m \<in> set (files x). sound xx x m" using lx by (simp add: lasting_def)
      from sound_publishAppend [OF okx _ this _ _ pb e] m n fx hr sh w
      show "sound xx s' m" by (simp add: has_room_def)
    qed
  qed
  have w: "written_at s5 n (df_size (heap s3 n)) (frame xx p) \<and> written_at s6 n (df_size (heap s3 n)) (frame xx p)" if "r4 = Inr u" for u
    using w4(2) [OF that] written_at_quiet [OF core_datasync [OF 6]] by (simp add: s5_def written_at_def)
  have st: "stays s3 s5" "stays s3 s6" using set5 stays_trans [OF stays_same stays_calm [OF c6]] by (simp_all add: stays_same)
  have fl: "lasting xx s'" if "(failIO e s6 :: unit result \<times> store) = (r, s')" for e
    by (rule lasting_calm [OF calm_failIO [OF that] quiet_queue_ok [OF q6 ok5] l6])
  show ?thesis
    using a 3 4 6 l3 l5 fl pub [OF q5 l5 _ st(1)] pub [OF quiet_trans [OF q5 q6] l6 _ st(2)] w
    by (auto simp: append_write_def s5_def [symmetric] Let_def split: sum.splits option.splits if_splits)
qed

section \<open>Reclaiming segments\<close>

text \<open>A step that may only unlink files.\<close>

definition still :: "store \<Rightarrow> store \<Rightarrow> bool" where
  "still s s' \<longleftrightarrow> segmentSize s' = segmentSize s \<and> noSync s' = noSync s \<and> syncEvery s' = syncEvery s \<and> ioErr s' = ioErr s \<and>
     inode (os s') = inode (os s) \<and> stable (os s') = stable (os s) \<and> stable_dir (os s') = stable_dir (os s) \<and> dirOpen s' = dirOpen s \<and>
     (\<forall>n. keep_df (heap s' n) = keep_df (heap s n) \<and> df_dirty (heap s' n) = df_dirty (heap s n))"

lemma still_refl [simp]: "still s s"
  by (simp add: still_def)

lemma still_trans: "still a b \<Longrightarrow> still b c \<Longrightarrow> still a c"
  by (simp add: still_def)

lemma still_simple [simp]:
  "still s (s\<lparr>unreclaimed := u\<rparr>)" "still s (s\<lparr>nWritten := a, nCommitted := b, diskBytes := c\<rparr>)" "still s (s\<lparr>files := fs\<rparr>)"
  "still s (dropBlock (s\<lparr>lastFrameAt := a, lastFrameEnd := b\<rparr>))"
  by (simp_all add: still_def dropBlock_def)

lemma still_untrack: "still s (untrackOpen n (upd_df n (\<lambda>d. d\<lparr>df_open := False\<rparr>) s))"
proof -
  have "keep_df (heap (lruUnlink n s) m) = keep_df (heap s m)" "df_dirty (heap (lruUnlink n s) m) = df_dirty (heap s m)" for m s
    by (auto simp: lruUnlink_def upd_df_def Let_def split: option.splits)
  moreover have "os (lruUnlink n s) = os s" "ioErr (lruUnlink n s) = ioErr s" "segmentSize (lruUnlink n s) = segmentSize s"
    "noSync (lruUnlink n s) = noSync s" "syncEvery (lruUnlink n s) = syncEvery s" "dirOpen (lruUnlink n s) = dirOpen s" for s
    by (auto simp: lruUnlink_def upd_df_def Let_def split: option.splits)
  ultimately show ?thesis by (simp add: still_def untrackOpen_def upd_df_def)
qed

lemma still_os_run:
  assumes "os_run f s = (r, s')" "inode (snd (f (os s))) = inode (os s)" "stable (snd (f (os s))) = stable (os s)"
    "stable_dir (snd (f (os s))) = stable_dir (os s)"
  shows "still s s'"
  using assms by (auto simp: os_run_def still_def split: prod.splits)

lemma still_close: "os_run os_close s = (r, s') \<Longrightarrow> still s s'"
  by (erule still_os_run) (auto simp: os_close_def os_plain_def os_tick_def split: list.splits verdict.splits)

lemma still_remove: "os_run (os_remove n) s = (r, s') \<Longrightarrow> still s s'"
  by (erule still_os_run) (auto simp: os_remove_def os_tick_def split: list.splits verdict.splits)

lemma still_drop_loop: "drop_loop keep ns s = (sv, rest, s') \<Longrightarrow> still s s'"
proof (induction keep ns s arbitrary: sv rest s' rule: drop_loop.induct)
  case (2 keep n ns s)
  define s1 where "s1 = (if df_open (heap s n) then untrackOpen n (upd_df n (\<lambda>d. d\<lparr>df_open := False\<rparr>) (snd (os_run os_close s))) else s)"
  obtain r0 s0 where 0: "os_run os_close s = (r0, s0)" by force
  have 1: "still s s1" using still_trans [OF still_close [OF 0] still_untrack] 0 by (simp add: s1_def)
  obtain r2 s2 where r: "os_run (os_remove n) s1 = (r2, s2)" by force
  have st2: "still s s2" by (rule still_trans [OF 1 still_remove [OF r]])
  have a: "still s t" if "still s2' t" "s2' = s2\<lparr>unreclaimed := unreclaimed s2 + 1\<rparr>" for s2' t
    using still_trans [OF still_trans [OF st2 still_simple(1)]] that by blast
  have b: "still s t" if "still s2' t" "s2' = s2\<lparr>nWritten := nWritten s2 - df_written (heap s2 n), nCommitted := nCommitted s2 - df_committed (heap s2 n),
        diskBytes := diskBytes s2 - (int headerSize + df_capacity (heap s2 n))\<rparr>" for s2' t
    using still_trans [OF still_trans [OF st2 still_simple(2)]] that by blast
  show ?case using 2 r a b by (auto simp: Let_def s1_def split: if_splits prod.splits sum.splits)
qed simp

lemma still_dropCommitted: "still s (dropCommitted keep s)"
proof -
  let ?t = "dropBlock (s\<lparr>lastFrameAt := 0, lastFrameEnd := 0\<rparr>)"
  obtain sv rest s2 where 2: "drop_loop keep (files ?t) ?t = (sv, rest, s2)" by (metis prod_cases3)
  have "still s s2" by (rule still_trans [OF still_simple(4) still_drop_loop [OF 2]])
  then show ?thesis using 2 still_trans [OF _ still_simple(3)] by (auto simp: dropCommitted_def Let_def)
qed

lemma sound_still:
  assumes "still s s'"
  shows "sound xx s' n = sound xx s n"
proof -
  have k: "keep_df (heap s' n) = keep_df (heap s n)" using assms by (simp add: still_def)
  have g: "segmentSize s' = segmentSize s" "perOp s' = perOp s" "inode (os s') = inode (os s)" "stable (os s') = stable (os s)"
    "df_dirty (heap s' n) = df_dirty (heap s n)" using assms by (simp_all add: still_def perOp_def batched_def)
  have "recs_of xx s' n = recs_of xx s n" by (simp add: recs_of_def data_of_alt g keep_df_fields [OF k])
  then show ?thesis by (simp add: sound_def told_def on_disk_def in_sync_def flushed_def g keep_df_fields [OF k])
qed

lemma lasting_still:
  assumes "still s s'" "files s' = filter Q (files s)" "lasting xx s"
  shows "lasting xx s'"
proof -
  have "placed s'" using assms by (auto simp: lasting_def placed_def still_def sorted_wrt_filter)
  then show ?thesis using assms sound_still [OF assms(1)] by (auto simp: lasting_def still_def entered_def)
qed

lemma dropCommitted_filter:
  assumes "distinct (files s)"
  shows "\<exists>Q. files (dropCommitted keep s) = filter Q (files s)"
proof -
  let ?t = "dropBlock (s\<lparr>lastFrameAt := 0, lastFrameEnd := 0\<rparr>)"
  obtain sv rest s2 where 2: "drop_loop keep (files ?t) ?t = (sv, rest, s2)" by (metis prod_cases3)
  have d: "distinct (files ?t)" "files ?t = files s" using assms by (simp_all add: dropBlock_def)
  then obtain pre where "scanned keep ?t (files ?t) (sv, rest, s2) pre" using drop_loop_scanned 2 by metis
  then have f: "files s = pre @ rest" "sv = filter (\<lambda>n. n \<in> set sv) pre" using d(2) by (auto simp: scanned_def)
  have "filter (\<lambda>n. n \<in> set sv \<or> n \<in> set rest) pre = filter (\<lambda>n. n \<in> set sv) pre"
    by (rule filter_cong) (use assms f(1) in auto)
  then have "sv @ rest = filter (\<lambda>n. n \<in> set sv \<or> n \<in> set rest) (files s)" using f by simp
  moreover have "\<exists>Q. files s = filter Q (files s)" by (intro exI [of _ "\<lambda>_. True"]) simp
  ultimately show ?thesis using 2 unfolding dropCommitted_def Let_def by (cases "files s = [] \<or> Some (hd (files s)) = keep \<or> df_end (heap s (hd (files s))) > commitOff s") auto
qed

lemma lasting_drop: "distinct (files s) \<Longrightarrow> lasting xx s \<Longrightarrow> lasting xx (dropCommitted keep s)"
  using lasting_still [OF still_dropCommitted] dropCommitted_filter by blast

section \<open>Starting a segment\<close>

text \<open>A step that touches one file only.\<close>

definition apart :: "nat \<Rightarrow> store \<Rightarrow> store \<Rightarrow> bool" where
  "apart n s s' \<longleftrightarrow> segmentSize s' = segmentSize s \<and> noSync s' = noSync s \<and> syncEvery s' = syncEvery s \<and> files s' = files s \<and> stays s s' \<and> dirOpen s' = dirOpen s \<and>
     (\<forall>m. m \<noteq> n \<longrightarrow> heap s' m = heap s m \<and> inode (os s') m = inode (os s) m \<and> stable (os s') m = stable (os s) m \<and>
        stable_dir (os s') m = stable_dir (os s) m)"

lemma apart_refl [simp]: "apart n s s"
  by (simp add: apart_def)

lemma apart_trans: "apart n a b \<Longrightarrow> apart n b c \<Longrightarrow> apart n a c"
  unfolding apart_def using stays_trans [of a b c] by simp

lemma apart_simple [simp]: "apart n s (upd_df n f s)" "apart n s (s\<lparr>nHeaderWrites := k\<rparr>)" "apart n s (mark_dirty n s)"
  by (simp_all add: apart_def upd_df_def mark_dirty_def stays_def)

lemma apart_os_run:
  assumes "os_run f s = (r, s')" "\<And>m. m \<noteq> n \<Longrightarrow> inode (snd (f (os s))) m = inode (os s) m \<and> stable (snd (f (os s))) m = stable (os s) m \<and>
      stable_dir (snd (f (os s))) m = stable_dir (os s) m"
  shows "apart n s s'"
  using assms by (auto simp: os_run_def apart_def stays_def split: prod.splits)

lemma apart_os:
  "os_run (os_create n) s = (r, s') \<Longrightarrow> apart n s s'" "os_run (os_remove k) s = (r, s') \<Longrightarrow> apart n s s'"
  "os_run os_close s = (r, s') \<Longrightarrow> apart n s s'" "os_run (os_fsync n) s = (r, s') \<Longrightarrow> apart n s s'"
  "os_run (os_pread k off len) s = (r2, s') \<Longrightarrow> apart n s s'" "os_run (os_pwrite n off bs) s = (r, s') \<Longrightarrow> apart n s s'"
  "os_run (datasync n) s = (r, s') \<Longrightarrow> apart n s s'"
  by ((erule apart_os_run, simp add: os_op_defs os_tick_def Let_def split: list.splits verdict.splits prod.splits if_splits sum.splits)+)

lemma apart_preallocate: "os_run (preallocate n k) s = (r, s') \<Longrightarrow> apart n s s'"
  by (erule apart_os_run) (simp add: preallocate_def os_fallocate_def os_truncate_def os_tick_def split: list.splits verdict.splits prod.splits sum.splits if_splits)

lemma apart_failIO: "failIO e s = (r, s') \<Longrightarrow> apart n s s'"
  by (cases "ioErr s") (auto simp: failIO_def Let_def apart_def stays_def)

lemma apart_restoreHeader:
  assumes "restoreHeader n s = (r, s')"
  shows "apart n s s'"
proof -
  obtain cur e s1 where p: "os_run (os_pread n 0 headerSize) s = ((cur, e), s1)" by (metis surj_pair)
  have s1: "apart n s s1" by (rule apart_os(5) [OF p])
  have w: "apart n s s2" if "os_run (os_pwrite n 0 bs) (mark_dirty n s1) = (r2, s2)" for bs r2 s2
    by (rule apart_trans [OF apart_trans [OF s1 apart_simple(3)] apart_os(6) [OF that]])
  show ?thesis using assms p s1 w apart_trans [OF w apart_os(7)] unfolding restoreHeader_def Let_def
    by (fastforce split: option.splits if_splits prod.splits sum.splits)
qed

lemma writeHeader_open:
  assumes o: "df_open (heap s n)" and w: "writeHeader n s = (r, s')"
  shows "apart n s s'" "r = Inr u \<Longrightarrow> length (df_hdr (heap s n)) = headerSize \<Longrightarrow> headed n s s'"
proof -
  obtain r2 s2 where 2: "os_run (os_pwrite n 0 (df_hdr (heap s n))) s = (r2, s2)" by force
  have s2: "apart n s s2" by (rule apart_os(6) [OF 2])
  obtain r3 s3 where 3: "restoreHeader n s2 = (r3, s3)" by force
  have s3: "apart n s s3" by (rule apart_trans [OF s2 apart_restoreHeader [OF 3]])
  have s4: "apart n s s4" if "(failIO e s3 :: unit result \<times> store) = (fr, s4)" for e fr s4
    by (rule apart_trans [OF s3 apart_failIO [OF that]])
  have s5: "apart n s (mark_dirty n ((upd_df n f s2)\<lparr>nHeaderWrites := k\<rparr>))" for f k
    using apart_trans [OF apart_trans [OF apart_trans [OF s2 apart_simple(1)] apart_simple(2)] apart_simple(3)] .
  show "apart n s s'" using w o 2 3 s2 s3 s4 s5 unfolding writeHeader_def Let_def
    by (auto split: option.splits if_splits prod.splits sum.splits)
  assume r: "r = Inr u" and len: "length (df_hdr (heap s n)) = headerSize"
  have e: "ioErr s = None" using w o r by (auto simp: writeHeader_def split: option.splits)
  have r2: "r2 = Inr ()"
    using w o r 2 3 e by (auto simp: writeHeader_def as_result_def err_join_def failIO_def Let_def split: if_splits sum.splits prod.splits option.splits)
  have s': "s' = (let s3 = upd_df n (\<lambda>d. d\<lparr>df_diskHeader := df_hdr d\<rparr>) s2 in mark_dirty n (s3\<lparr>nHeaderWrites := nHeaderWrites s3 + 1\<rparr>))"
    using w o r 2 e r2 by (auto simp: writeHeader_def Let_def)
  from 2 show "headed n s s'"
  proof (cases rule: pwrite_cases)
    case p: (1 w' k)
    have ov: "overwrite 0 (df_hdr (heap s n)) xs = df_hdr (heap s n) @ drop headerSize xs" for xs using len by (simp add: overwrite_def)
    show ?thesis unfolding s' headed_def Let_def using p r2 ov dirs_pwrite [OF 2]
      by (simp add: mark_dirty_def upd_df_def) (simp add: dirs_def)
  qed
qed

lemma fresh_header:
  assumes "0 \<le> seg" "seg < 2 ^ 48" "0 \<le> cap" "int headerSize + cap < 2 ^ 63"
    and d: "d = header xx (create_mods cap seg) ((zero_dataFile n)\<lparr>df_open := a, df_base := b, df_capacity := cap\<rparr>)"
  shows "hdr_says xx seg (df_hdr d) [] 0" "hdrCapacity (df_hdr d) = cap"
proof -
  have "slice i (i + 8) (replicate headerSize (0 :: byte)) = replicate 8 0" if "i + 8 \<le> 64" for i
    using that by (simp add: slice_def headerSize_def min_def)
  from this [of 24] this [of 32]
  have z: "slice 24 32 (replicate headerSize (0 :: byte)) = replicate 8 0" "slice 32 40 (replicate headerSize (0 :: byte)) = replicate 8 0" by simp_all
  have "le_nat (replicate k 0) = 0" for k by (induction k) simp_all
  then have c: "committedCount (replicate headerSize 0) = 0" "writtenCount (replicate headerSize 0) = 0"
    using z by (simp_all add: committedCount_def writtenCount_def to_i64_def)
  have i: "is_i64 (int headerSize)" "is_i64 cap" using assms(3,4) by (simp_all add: is_i64_def headerSize_def)
  show "hdr_says xx seg (df_hdr d) [] 0" "hdrCapacity (df_hdr d) = cap"
    using assms(1-4) c i unfolding d hdr_says_def header_def header_mods_def create_mods_def
    by (simp_all add: zero_dataFile_def hdr_laws knownVersion_def)
qed

lemma apart_create_fail: "create_fail n e s = (r, s') \<Longrightarrow> apart n s s'"
proof -
  assume c: "create_fail n e s = (r, s')"
  obtain r1 s1 r2 s2 where 1: "os_run os_close s = (r1, s1)" "os_run (os_remove n) s1 = (r2, s2)" by (metis surj_pair)
  have "apart n s (upd_df n (\<lambda>d. d\<lparr>df_open := False\<rparr>) s2)"
    by (rule apart_trans [OF apart_trans [OF apart_os(3) [OF 1(1)] apart_os(2) [OF 1(2)]] apart_simple(1)])
  then show ?thesis using c 1 by (simp add: create_fail_def Let_def)
qed

lemma createFile_sound:
  assumes c: "createFile xx n base cap s = (r, s')" and z: "0 \<le> segmentSize s" "segmentSize s < 2 ^ 48" "0 \<le> cap" "int headerSize + cap < 2 ^ 63"
  shows "apart n s s' \<and> (\<forall>k. r = Inr k \<longrightarrow> sound xx s' n)"
proof (cases "n = 0")
  case True
  then show ?thesis using c by (auto simp: createFile_def)
next
  case False
  obtain r1 s1 where 1: "os_run (os_create n) s = (r1, s1)" by force
  note o1 = apart_os(1) [OF 1]
  show ?thesis
  proof (cases r1)
    case (Inl e)
    then show ?thesis using c False 1 o1 by (auto simp: createFile_def)
  next
    case i1: (Inr u1)
    obtain r2 s2 where 2: "os_run (preallocate n (int headerSize + cap)) s1 = (r2, s2)" by force
    note o2 = apart_trans [OF o1 apart_preallocate [OF 2]]
    show ?thesis
    proof (cases r2)
      case (Inl e)
      then have "create_fail n e s2 = (r, s')" using c False 1 i1 2 by (simp add: createFile_def)
      then show ?thesis using Inl apart_trans [OF o2 apart_create_fail] by (auto simp: create_fail_def Let_def)
    next
      case i2: (Inr u2)
      define d where "d = header xx (create_mods cap (segmentSize s2)) ((zero_dataFile n)\<lparr>df_open := True, df_base := base, df_capacity := cap\<rparr>)"
      define s3 where "s3 = upd_df n (\<lambda>_. d) s2"
      have o3: "apart n s s3" unfolding s3_def by (rule apart_trans [OF o2 apart_simple(1)])
      have seg: "segmentSize s2 = segmentSize s" "segmentSize s3 = segmentSize s" using o2 o3 by (simp_all add: apart_def)
      have hn: "heap s3 n = d" by (simp add: s3_def)
      note fh = fresh_header [OF z [folded seg(1)] d_def]
      have dz: "df_num d = n" "df_size d = 0" "df_capacity d = cap" "df_committed d = 0" "df_open d" by (simp_all add: d_def header_def zero_dataFile_def)
      have r0: "recs_of xx t n = []" if "df_size (heap t n) = 0" for t
        using that records_frames [of xx "[]"] by (simp add: recs_of_def data_of_alt)
      have t3: "told xx s3 n" unfolding told_def hn r0 [of s3, unfolded hn, OF dz(2)] seg(2) using fh dz seg(1)
        by (intro conjI exI [of _ 0]) simp_all
      have len: "length (df_hdr (heap s3 n)) = headerSize" using fh(1) by (simp add: hn hdr_says_def)
      have op: "df_open (heap s3 n)" using dz(5) by (simp add: hn)
      obtain r4 s4 where 4: "writeHeader n s3 = (r4, s4)" by force
      note o4 = apart_trans [OF o3 writeHeader_open(1) [OF op 4]]
      have out: "(r, s') = (case r4 of Inl e \<Rightarrow> create_fail n e s4 | Inr _ \<Rightarrow>
          if \<not> noSync s4 then (case os_run (os_fsync n) s4 of
             (Inl e, s5) \<Rightarrow> create_fail n e s5
           | (Inr _, s5) \<Rightarrow> (Inr n, upd_df n (\<lambda>d. d\<lparr>df_dirty := False\<rparr>) s5))
          else (Inr n, s4))"
        using c False 1 i1 2 i2 4 by (simp add: createFile_def s3_def d_def Let_def split: sum.splits)
      have fail: "apart n s s' \<and> (\<forall>k. r = Inr k \<longrightarrow> sound xx s' n)" if "create_fail n e t = (r, s')" "apart n s t" for e t
        using apart_trans [OF that(2) apart_create_fail [OF that(1)]] that(1) by (auto simp: create_fail_def Let_def)
      show ?thesis
      proof (cases r4)
        case (Inl e)
        then show ?thesis using out fail [OF _ o4] by simp
      next
        case i4: (Inr u4)
        have hd: "headed n s3 s4" using writeHeader_open(2) [OF op 4 i4 len] .
        note hf = headed_fields [OF hd]
        have s4: "told xx s4 n" "on_disk xx s4 n" "data_of s4 n = frames xx (recs_of xx s4 n)"
        proof -
          show "told xx s4 n" using t3 headed_data(2) [OF hd len] by (simp add: told_def hf)
          show "on_disk xx s4 n" using len by (simp add: on_disk_def in_sync_def hf)
          have "df_size (heap s4 n) = 0" using dz hn hf by simp
          then show "data_of s4 n = frames xx (recs_of xx s4 n)" by (simp add: r0) (simp add: data_of_alt)
        qed
        show ?thesis
        proof (cases "noSync s4")
          case True
          then have "sound xx s4 n" using s4 hf(11) by (simp add: sound_def flushed_def perOp_def)
          then show ?thesis using out i4 o4 True by auto
        next
          case ns: False
          obtain r5 s5 where 5: "os_run (os_fsync n) s4 = (r5, s5)" by force
          note o5 = apart_trans [OF o4 apart_os(4) [OF 5]]
          show ?thesis
          proof (cases r5)
            case (Inl e)
            then show ?thesis using out i4 ns 5 fail [OF _ o5] by simp
          next
            case i5: (Inr u5)
            have s': "s' = upd_df n (\<lambda>d. d\<lparr>df_dirty := False\<rparr>) s5" "r = Inr n" using out i4 ns 5 i5 by simp_all
            have f5: "s5 = s4\<lparr>os := os s5\<rparr>" "inode (os s5) = inode (os s4)" "stable (os s5) n = inode (os s4) n"
              using 5 i5 by (auto simp: os_run_def os_fsync_def os_tick_def split: list.splits verdict.splits prod.splits)
            have h5: "heap s5 = heap s4" "segmentSize s5 = segmentSize s4" by (subst f5(1), simp)+
            have g: "df_num (heap s' n) = df_num (heap s4 n)" "segmentSize s' = segmentSize s4" "df_hdr (heap s' n) = df_hdr (heap s4 n)" "df_diskHeader (heap s' n) = df_diskHeader (heap s4 n)"
              "df_size (heap s' n) = df_size (heap s4 n)" "df_capacity (heap s' n) = df_capacity (heap s4 n)" "df_committed (heap s' n) = df_committed (heap s4 n)"
              "inode (os s') = inode (os s4)" "stable (os s') n = inode (os s4) n"
              using h5 f5(2,3) by (simp_all add: s' upd_df_def)
            have rr: "recs_of xx s' n = recs_of xx s4 n" by (simp add: recs_of_def data_of_alt g)
            have "sound xx s' n" using s4(1,2) snap_now [OF s4(3,1,2)]
              by (simp add: sound_def told_def on_disk_def in_sync_def flushed_def g rr)
            then show ?thesis using apart_trans [OF o5 apart_simple(1)] s' by simp
          qed
        qed
      qed
    qed
  qed
qed

text \<open>A directory flush that latched no failure put every entry on stable storage.\<close>

lemma syncDir_done:
  assumes "syncDir s = (r, s')" "dirOpen s" "ioErr s' = None"
  shows "stable_dir (os s') = linked (os s)"
proof -
  obtain r1 s1 where 1: "os_run fsyncDir s = (r1, s1)" by force
  obtain w where w: "fsyncDir (os s) = (r1, w)" "s1 = s\<lparr>os := w\<rparr>" using 1 by (auto simp: os_run_def split: prod.splits)
  have "s' = s1 \<and> (r1 = Inr () \<or> (\<exists>e. r1 = Inl e \<and> dirSyncUnsupported e))"
    using assms 1 by (auto simp: syncDir_def split: sum.splits if_splits dest!: failIO_result)
  then show ?thesis using fsyncDir_dir(2) [OF w(1)] w(2) by auto
qed

lemma lasting_cycle:
  assumes ok: "queue_ok xx s" and l: "lasting xx s" and need: "0 \<le> need" "int headerSize + need < 2 ^ 63"
    and c: "cycle xx need force s = (r, s')"
  shows "lasting xx s'"
proof -
  define s1 where "s1 = dropCommitted None s"
  note d = dropCommitted_loose [OF ok, of None, folded s1_def]
  have l1: "lasting xx s1" unfolding s1_def by (rule lasting_drop [OF _ l]) (use queue_okD(3) [OF ok] in \<open>simp add: nums_ok_def\<close>)
  have sz: "0 \<le> segmentSize s1" "segmentSize s1 < 2 ^ 48" and pl1: "placed s1" using l1 by (simp_all add: lasting_def placed_def)
  show ?thesis
  proof (cases "\<not> force \<and> maxSegments s1 > 0 \<and> int (length (files s1)) \<ge> maxSegments s1")
    case True
    then have "s' = s1" using c by (simp_all add: cycle_def s1_def Let_def)
    then show ?thesis using l1 by simp
  next
    case go: False
    let ?cap = "max (segmentSize s1) need"
    have cap: "0 \<le> ?cap" "int headerSize + ?cap < 2 ^ 63" using need sz by (auto simp: headerSize_def max_def)
    obtain r2 s2 where 2: "createFile xx (nextNum s1) (writeOff s1) ?cap s1 = (r2, s2)" by force
    note cs = createFile_sound [OF 2 sz cap]
    have nf: "nextNum s1 \<notin> set (files s1) \<or> nextNum s1 = 0" using loose_okD(3) [OF d(1)] by (auto simp: nums_ok_def)
    have keep: "sound xx s2 m" if "ioErr s2 = None" "m \<in> set (files s1)" "nextNum s1 \<noteq> 0" for m
    proof -
      have "m \<noteq> nextNum s1" using nf that by auto
      moreover have "ioErr s1 = None" using cs stays_None that(1) by (auto simp: apart_def)
      moreover have "sound xx s1 m" using l1 that calculation by (simp add: lasting_def)
      ultimately show ?thesis using cs sound_cong [of s2 m s1 xx] by (simp add: apart_def perOp_def batched_def)
    qed
    have seg2: "segmentSize s2 = segmentSize s1" "files s2 = files s1" "noSync s2 = noSync s1" "dirOpen s2 = dirOpen s1" using cs by (simp_all add: apart_def)
    have ent2: "entered s2" if "ioErr s2 = None" "nextNum s1 \<noteq> 0"
    proof -
      have "entered s1" using lastingD(2) [OF l1] cs stays_None that(1) by (auto simp: apart_def)
      moreover have "stable_dir (os s2) m = stable_dir (os s1) m" if "m \<in> set (files s1)" for m
      proof -
        have "m \<noteq> nextNum s1" using nf \<open>nextNum s1 \<noteq> 0\<close> that by auto
        then show ?thesis using cs by (simp add: apart_def)
      qed
      ultimately show ?thesis by (simp add: entered_def seg2)
    qed
    show ?thesis
    proof (cases "nextNum s1 = 0")
      case True
      then have "s' = s1" using c go by (simp add: cycle_def s1_def [symmetric] Let_def createFile_def)
      then show ?thesis using l1 by simp
    next
      case nz: False
      show ?thesis
      proof (cases r2)
        case (Inl e)
        then have "s' = s2" using c go 2 by (simp_all add: cycle_def s1_def [symmetric] Let_def)
        then show ?thesis using keep nz pl1 placed_same [OF seg2(2,1)] ent2 by (simp add: lasting_def seg2)
      next
        case (Inr n)
        then have n: "n = nextNum s1" "sound xx s2 n" "new_seg n (writeOff s1) ?cap s2" using cs createFile_spec [OF 2] by auto
        define s3 where "s3 = s2\<lparr>nextNum := (nextNum s2 + 1) mod 2 ^ 64, files := files s2 @ [n],
                         diskBytes := diskBytes s2 + (int headerSize + df_capacity (heap s2 n))\<rparr>"
        have s3: "sound xx s3 m" if "ioErr s3 = None" "m \<in> set (files s3)" for m
          using keep [of m] n(1,2) nz that sound_cong [of s3 m s2 xx] by (auto simp: s3_def seg2 perOp_def batched_def)
        have d3: "data_of s3 m = frames xx (recs_of xx s3 m)" if "m \<in> set (files s3)" for m
        proof -
          have "data_of s2 m = frames xx (recs_of xx s2 m)"
          proof (cases "m = n")
            case True
            have "?cap < 2 ^ 63" using cap by (simp add: headerSize_def)
            then show ?thesis using True file_ok_data(1) [OF conjunct1 [OF new_seg_file_ok [OF n(3), of xx]]] by simp
          next
            case False
            then have m: "m \<in> set (files s1)" using that by (simp add: s3_def seg2)
            have dm: "data_of s2 m = data_of s1 m" using cs n(1) False by (simp add: data_of_def apart_def)
            then have "recs_of xx s2 m = recs_of xx s1 m" by (simp add: recs_of_def)
            with dm show ?thesis using file_ok_data(1) [OF loose_okD(1) [OF d(1) m]] by simp
          qed
          moreover have "data_of s3 m = data_of s2 m" by (simp add: s3_def data_of_def)
          moreover have "recs_of xx s3 m = recs_of xx s2 m" by (simp add: s3_def data_of_def recs_of_def)
          ultimately show ?thesis by simp
        qed
        have pl3: "placed s3"
          using pl1 loose_okD(3) [OF d(1)] nz by (auto simp: placed_def s3_def seg2 n(1) nums_ok_def sorted_wrt_append)
        have lk3: "linked (os s3) m" if "m \<in> set (files s3)" for m
        proof (cases "m = n")
          case True
          then show ?thesis using n(3) by (simp add: s3_def new_seg_def)
        next
          case False
          then have m: "m \<in> set (files s1)" using that by (simp add: s3_def seg2)
          have "same_seg s1 s2 m" using loose_only_fresh(2) [OF d(1) conjunct1 [OF createFile_spec [OF 2]] nz m] .
          then show ?thesis using file_okD(4) [OF loose_okD(1) [OF d(1) m]] by (simp add: s3_def same_seg_def)
        qed
        have fin: "lasting xx t" if "calm s3 t" and et: "ioErr t = None \<Longrightarrow> entered t" for t
        proof -
          have "sound xx t m" if "ioErr t = None" "m \<in> set (files t)" for m
            using sound_calm [OF \<open>calm s3 t\<close> d3 s3] that calm_fields(1,14) [OF \<open>calm s3 t\<close>] by simp
          then show ?thesis using pl3 placed_same [of t s3] calm_fields(1,2) [OF that(1)] et by (simp add: lasting_def)
        qed
        show ?thesis
        proof (cases "ioErr (trackOpen n s3) = None \<and> \<not> noSync (trackOpen n s3)")
          case True
          then have sd: "syncDir (trackOpen n s3) = (r, s')"
            using c go 2 Inr by (simp add: cycle_def s1_def [symmetric] Let_def s3_def)
          have ct: "calm s3 (trackOpen n s3)" by simp
          have cs': "calm s3 s'" by (rule calm_trans [OF ct calm_syncDir [OF sd]])
          have "entered s'" if e: "ioErr s' = None"
          proof -
            have "ioErr s2 = None" using calm_fields(14) [OF cs' e] by (simp add: s3_def)
            then have "dirOpen s2" using ent2 nz by (simp add: entered_def)
            then have do: "dirOpen (trackOpen n s3)" using calm_fields(19) [OF ct] by (simp add: s3_def dirs_def)
            have "stable_dir (os s') = linked (os (trackOpen n s3))" by (rule syncDir_done [OF sd do e])
            moreover have "dirOpen s'" using do calm_fields(19) [OF calm_syncDir [OF sd]] by (simp add: dirs_def)
            ultimately show ?thesis using lk3 calm_fields(1) [OF cs'] calm_fields(13) [OF ct] by (simp add: entered_def)
          qed
          then show ?thesis by (rule fin [OF cs'])
        next
          case False
          then have "s' = trackOpen n s3"
            using c go 2 Inr by (auto simp: cycle_def s1_def [symmetric] Let_def s3_def split: option.splits if_splits)
          moreover from this have "ioErr s' = None \<Longrightarrow> noSync s'" using False by simp
          moreover have "ioErr s' = None \<Longrightarrow> dirOpen s'"
            using ent2 nz calm_fields(14,19) [OF calm_trackOpen [of s3 n]] calculation(1) by (simp add: entered_def dirs_def s3_def)
          ultimately show ?thesis using fin calm_trackOpen by (auto simp: entered_def)
        qed
      qed
    qed
  qed
qed

section \<open>Appending\<close>

lemma lasting_append:
  assumes ok: "queue_ok xx s" and staged: "stagedBytes s = 0" and l: "lasting xx s"
    and len: "int headerSize + framedLen (length p) < 2 ^ 63" and a: "appendRecord xx p force s = (r, s')"
  shows "lasting xx s'"
proof -
  have cnt: "lasting xx (t\<lparr>nFull := k\<rparr>) = lasting xx t" for t k by (rule lasting_cong) simp_all
  show ?thesis
  proof (cases "ioErr s = None \<and> admitRecord (framedLen (length p)) force s = (Inr (), s)")
    case False
    obtain r1 s1 where 1: "admitRecord (framedLen (length p)) force s = (r1, s1)" by force
    have "lasting xx s1" using 1 l cnt by (auto simp: admitRecord_def split: if_splits)
    moreover have "s' = s \<or> s' = s1"
      using a False 1 admit_small [of "framedLen (length p)" force s "()" s1] by (auto simp: appendRecord_def Let_def split: option.splits sum.splits)
    ultimately show ?thesis using l by auto
  next
    case True
    let ?L = "framedLen (length p)"
    have L: "0 \<le> ?L" "int headerSize + ?L < 2 ^ 63" "?L < 2 ^ 63" using len framedLen_gt0 [of "length p"] by linarith+
    have seg: "segmentSize s < 2 ^ 63" using l by (simp add: lasting_def placed_def)
    obtain r2 s2 where 2: "(if needsCycle ?L s then cycle xx ?L force s else (Inr (), s)) = (r2, s2)" by force
    have c: "r2 = Inr u \<Longrightarrow> queue_ok xx s2" "lasting xx s2" for u
      using 2 cycle_spec [OF ok seg L(3)] lasting_cycle [OF ok l L(1,2)] ok l by (auto split: if_splits)
    note out = a [unfolded appendRecord_alt Let_def]
    show ?thesis
    proof (cases r2)
      case (Inl e)
      then have "s' = s2 \<or> s' = s2\<lparr>nFull := nFull s2 + 1\<rparr>" using out True 2 by (auto split: if_splits)
      then show ?thesis using c cnt by auto
    next
      case (Inr u)
      obtain n where room: "has_room ?L s2 n"
      proof (cases "needsCycle ?L s")
        case True
        then have "cycled ?L s2" using cycle_spec [OF ok seg L(3)] 2 Inr by simp
        then show ?thesis using that by (auto simp: cycled_def new_seg_def has_room_def)
      next
        case False
        then show ?thesis using that 2 staged by (auto simp: needsCycle_def has_room_def split: option.splits)
      qed
      then have "append_write xx p n s2 = (r, s')" using out True 2 Inr by (simp add: has_room_def)
      then show ?thesis by (rule lasting_append_write [OF c(1) [OF Inr] room c(2)])
    qed
  qed
qed

end
