(* ===== verification/Durable_Commit.thy ===== *)
theory Durable_Commit
  imports Durable_Append
begin

text \<open>
  Committing keeps what is on disk.  The interface \<open>commit_keeps\<close> lists what a predicate on
  stores must withstand to survive a commit: opening a segment, finding the end of a record,
  counting it as committed, publishing a header, flushing a batch, reclaiming.  Its lemmas carry
  such a predicate through the walk and through \<open>commitDurable\<close>.
\<close>

section \<open>What survives a commit\<close>

locale commit_keeps =
  fixes xx :: hash and P :: "store \<Rightarrow> bool"
  assumes keep_open: "queue_ok xx s0 \<Longrightarrow> alike s0 s \<Longrightarrow> P s \<Longrightarrow> ensureOpen n s = (r, s') \<Longrightarrow> P s'"
    and keep_frame: "queue_ok xx s0 \<Longrightarrow> alike s0 s \<Longrightarrow> P s \<Longrightarrow> frameEnd n q s = (re, s') \<Longrightarrow> P s'"
    and keep_count: "queue_ok xx s0 \<Longrightarrow> alike s0 s \<Longrightarrow> P s \<Longrightarrow>
      P (upd_df n (\<lambda>d. d\<lparr>df_committed := df_committed d + 1\<rparr>) (s\<lparr>commitOff := z, nCommitted := k, nCommittedTotal := k'\<rparr>))"
    and keep_persist: "queue_ok xx s0 \<Longrightarrow> alike s0 s \<Longrightarrow> boundary xx s0 (commitOff s) \<Longrightarrow> unmarked xx s0 c a s \<Longrightarrow> P s \<Longrightarrow> persistCommit xx c perop s = (r, s') \<Longrightarrow> P s'"
    and keep_batch: "queue_ok xx s0 \<Longrightarrow> alike s0 s \<Longrightarrow> P s \<Longrightarrow> recordOp s = (r, s') \<Longrightarrow> P s'"
    and keep_head: "P s \<Longrightarrow> P (s\<lparr>headOff := h\<rparr>)"
    and keep_drop: "distinct (files s) \<Longrightarrow> P s \<Longrightarrow> P (dropCommitted keep s)"
begin

lemma step_keeps:
  assumes ok: "queue_ok xx s0" and w: "walking xx off s0 w s" and lt: "commitOff s < off" "off \<le> writeOff s0"
    and nc: "\<forall>r \<in> set (reserved s0). \<not> r_corrupt r" and c: "commit_step xx off perop w s = (fl, s')" and P: "P s"
  shows "P s'"
proof (rule commit_step_parts [OF ok w lt nc c])
  fix n r1 s1
  assume n: "n \<in> set (files s0)" and 1: "walk_turn xx n perop (w_cur w) s = (r1, s1)"
    and t: "alike s0 s1" "boundary xx s0 (commitOff s1)" "commitOff s0 \<le> commitOff s1" "commitOff s1 \<le> commitOff s"
      "marks_of xx s0 (if w_cur w = Some n then Some n else None) s1"
    and out: "(\<exists>e. r1 = Inl e \<and> w_cur w \<noteq> Some n \<and> fl = Break (w\<lparr>w_df := Some n, w_cur := None\<rparr>) (Some e) \<and> s' = s1) \<or>
     r1 = Inr () \<and> (\<exists>p resv w3. (commitOff s1, p) \<in> set (flat xx s0) \<and> fileForOffset (commitOff s1) s0 = Some n \<and> w_df w3 = Some n \<and>
       w_cur w3 = (if w_cur w = Some n then Some n else None) \<and> walk_record xx off n resv w3 s1 = (fl, s'))"
  have a: "alike s0 s" and b: "boundary xx s0 (commitOff s)" using w by (simp_all add: walking_def)
  have P1: "P s1"
  proof (cases "\<exists>c. w_cur w = Some c \<and> c \<noteq> n")
    case True
    then obtain c at where "w_cur w = Some c" "c \<noteq> n" "unmarked xx s0 c at s" using w by (auto simp: walking_def marks_of_def)
    then show ?thesis using keep_persist [OF ok a b _ P] 1 by (simp add: walk_turn_def)
  next
    case False
    then show ?thesis using 1 P by (auto simp: walk_turn_def split: option.splits)
  qed
  from out show ?thesis
  proof (elim disjE conjE exE)
    fix p resv w3
    assume 3: "(commitOff s1, p) \<in> set (flat xx s0)" "fileForOffset (commitOff s1) s0 = Some n" "w_df w3 = Some n"
      "w_cur w3 = (if w_cur w = Some n then Some n else None)" "walk_record xx off n resv w3 s1 = (fl, s')"
    have w3: "walking xx off s0 w3 s1" unfolding walking_def 3(3,4) using t lt n by auto
    obtain r2 s2 where 2: "ensureOpen n s1 = (r2, s2)" by force
    have P2: "P s2" by (rule keep_open [OF ok t(1) P1 2])
    have q2: "quiet s1 s2" by (rule quiet_ensureOpen [OF 2])
    have a2: "alike s0 s2" by (rule alike_trans [OF t(1) alike_quiet [OF q2]])
    have c2: "commitOff s2 = commitOff s1" using q2 shape_eq_fields [of s2 s1] by (simp add: quiet_def)
    from ok w3 3(1,2) n 3(5) 2 show ?thesis
    proof (cases rule: walk_record_parts)
      case (shut e)
      then show ?thesis using P2 by simp
    next
      case (looked stop r4 s4)
      then show ?thesis using keep_frame [OF ok a2 P2] by simp
    next
      case (moved r4 s4)
      have "quiet s2 s4" using frameEnd_spec [OF ok a2 3(1,2)] moved(1) c2 by simp
      then have "alike s0 s4" by (rule alike_trans [OF a2 alike_quiet])
      then show ?thesis unfolding moved(5) using keep_count [OF ok] keep_frame [OF ok a2 P2 moved(1)] by blast
    qed
  qed (use P1 in simp)
qed

lemma run_keeps:
  assumes "walk_run xx off perop w s x" "queue_ok xx s0" "off \<le> writeOff s0" "\<forall>r \<in> set (reserved s0). \<not> r_corrupt r" "walking xx off s0 w s" "P s"
  shows "P (snd x)"
  using assms
proof (induction rule: walk_run.induct)
  case (walk_break s w w1 stop s1)
  then show ?case using step_keeps [OF _ _ _ _ _ walk_break(2)] by simp
next
  case (walk_go s w w1 s1 x)
  then show ?case using step_keeps [OF _ _ _ _ _ walk_go(2)] commit_step_spec [OF _ _ _ _ _ walk_go(2)] by (auto simp: step_outcome_def)
qed simp

lemma commit_keeps_all:
  assumes ok: "commit_ok xx s" and nc: "\<forall>r \<in> set (reserved s). \<not> r_corrupt r" and c: "commitDurable xx off0 durable s = (r, s')" and P: "P s"
  shows "P s'"
proof (cases "ioErr s \<noteq> None \<or> off0 \<le> commitOff s")
  case True
  then have "s' = s" using c by (auto simp: commitDurable_def split: option.splits if_splits)
  then show ?thesis using P by simp
next
  case False
  have q: "queue_ok xx s" using ok by (simp add: commit_ok_def)
  let ?off = "min off0 (writeOff s)" and ?w = "\<lparr>w_df = None, w_cur = None, w_idx = 0\<rparr>"
  define perop where "perop = (durable \<and> perOp s)"
  obtain w stop s1 where 1: "commit_walk (nat (?off - commitOff s)) xx ?off perop ?w s = ((w, stop), s1)" by (metis prod_cases3 surj_pair)
  have w0: "walking xx ?off s ?w s"
    using ok queue_okD(5-7) [OF q] False by (auto simp: walking_def marks_of_def all_marked_def commit_ok_def)
  note run = commit_walk_run [OF _ order_refl, of ?off s xx perop ?w, unfolded 1]
  have w: "walking xx ?off s w s1" and P1: "P s1"
    using walk_run_spec [OF run q _ nc w0] run_keeps [OF run q _ nc w0 P] by auto
  have a1: "alike s s1" and b1: "boundary xx s (commitOff s1)" using w by (simp_all add: walking_def)
  obtain stop2 s2 where 2: "(case w_cur w of Some c \<Rightarrow> (case persistCommit xx c perop s1 of (r, t) \<Rightarrow> (if stop = None then err_of r else stop, t))
      | None \<Rightarrow> (stop, s1)) = (stop2, s2)" by force
  have s2: "alike s s2 \<and> P s2"
  proof (cases "w_cur w")
    case (Some x)
    then obtain at where u: "unmarked xx s x at s1" using w by (auto simp: walking_def marks_of_def)
    obtain r3 where 3: "persistCommit xx x perop s1 = (r3, s2)" using 2 Some by (auto split: prod.splits)
    show ?thesis using persistCommit_spec [OF q a1 u 3] keep_persist [OF q a1 b1 u P1 3] by simp
  qed (use 2 a1 P1 in simp)
  note out = c [unfolded commitDurable_def Let_def, folded perop_def]
  show ?thesis
  proof (cases "commitOff s2 = commitOff s")
    case True
    then have "s' = s2" using out False 1 2 by (auto split: option.splits)
    then show ?thesis using s2 by simp
  next
    case moved: False
    obtain stop3 s3 where 3: "(if durable \<and> batched s2 then (case recordOp s2 of (r, t) \<Rightarrow> (if stop2 = None then err_of r else stop2, t))
        else (stop2, s2)) = (stop3, s3)" by force
    have P3: "P s3" using 3 s2 keep_batch [OF q] by (auto split: if_splits prod.splits)
    define s4 where "s4 = (if headOff s3 < commitOff s3 then s3\<lparr>headOff := commitOff s3\<rparr> else s3)"
    have P4: "P s4" using P3 keep_head by (simp add: s4_def)
    have s': "s' = dropCommitted (active s4) s4" using out False 1 2 moved 3 by (auto simp: s4_def split: option.splits)
    have "quiet s2 s3" using 3 quiet_recordOp [of s2] by (auto split: if_splits prod.splits)
    then have "files s4 = files s" using shape_eq_fields [of s3 s2] alikeD(1) [of s s2] s2 by (auto simp: quiet_def s4_def)
    then have "distinct (files s4)" using queue_okD(3) [OF q] by (simp add: nums_ok_def)
    then show ?thesis unfolding s' by (rule keep_drop [OF _ P4])
  qed
qed

end

section \<open>What is on disk survives\<close>

text \<open>The invariant needs only the bytes of the published extents, not the cursors.\<close>

lemma lasting_calm_alike:
  assumes ok: "queue_ok xx s0" and a: "alike s0 s" and l: "lasting xx s" and c: "calm s s'"
  shows "lasting xx s'"
proof -
  have fo: "file_ok xx s n" if "n \<in> set (files s)" for n
    using queue_okD(1) [OF ok] that alikeD(1) [OF a] alike_flat(3) [OF a] by simp
  note f = calm_fields [OF c]
  have "entered s'" if "ioErr s' = None"
    by (rule entered_dirs [OF f(19) _ f(3)]) (use lastingD(2) [OF l f(14)] that f(1) file_okD(4) [OF fo] in simp_all)
  then show ?thesis using l sound_calm [OF c file_ok_data(1) [OF fo]] f(1,2,14) placed_same [of s' s] by (auto simp: lasting_def)
qed

lemma lasting_count:
  assumes "lasting xx s"
  shows "lasting xx (upd_df n (\<lambda>d. d\<lparr>df_committed := df_committed d + 1\<rparr>) (s\<lparr>commitOff := z, nCommitted := k, nCommittedTotal := k'\<rparr>))"
proof -
  let ?t = "upd_df n (\<lambda>d. d\<lparr>df_committed := df_committed d + 1\<rparr>) (s\<lparr>commitOff := z, nCommitted := k, nCommittedTotal := k'\<rparr>)"
  have g: "df_num (heap ?t m) = df_num (heap s m)" "df_hdr (heap ?t m) = df_hdr (heap s m)" "df_diskHeader (heap ?t m) = df_diskHeader (heap s m)" "df_capacity (heap ?t m) = df_capacity (heap s m)"
    "df_dirty (heap ?t m) = df_dirty (heap s m)" "recs_of xx ?t m = recs_of xx s m" for m
    by (simp_all add: upd_df_def recs_of_def data_of_alt)
  have o: "os ?t = os s" "segmentSize ?t = segmentSize s" "perOp ?t = perOp s" "ioErr ?t = ioErr s" "files ?t = files s"
    "noSync ?t = noSync s" "dirOpen ?t = dirOpen s"
    by (simp_all add: upd_df_def perOp_def batched_def)
  have "sound xx ?t m" if sm: "sound xx s m" for m
  proof -
    have "told xx ?t m" using sm unfolding sound_def told_def o g by blast
    moreover have "on_disk xx ?t m" using sm unfolding sound_def on_disk_def in_sync_def o g by blast
    moreover have "flushed xx ?t m" using sm unfolding sound_def flushed_def o g by blast
    ultimately show ?thesis by (simp add: sound_def)
  qed
  then show ?thesis using assms placed_same [OF o(5,2)] by (simp add: lasting_def entered_def o)
qed

text \<open>Publishing a commit: on success the header says what the store counts, on failure it says what it said.\<close>

lemma hdr_says_commit:
  assumes h: "hdr_says xx seg h ps k" and j: "j \<le> length ps" and a: "a = int headerSize + int (length (frames xx (take j ps)))" "b = int j"
  shows "hdr_says xx seg (header_mods xx [setCommitCursor a, setCommittedCount b] h) ps j"
proof -
  note H = h [unfolded hdr_says_def]
  have "int (length ps) \<le> int (length (frames xx ps))" "length (frames xx (take j ps)) \<le> length (frames xx ps)"
    using length_frames_ge [of ps xx] frames_take_le [of xx j ps] by simp_all
  then have i: "is_i64 a" "is_i64 b" using H a j by (auto simp: is_i64_def headerSize_def)
  show ?thesis using H i j a by (simp add: hdr_says_def header_mods_def hdr_laws)
qed

lemma mark_take:
  assumes ok: "queue_ok xx s" and n: "n \<in> set (files s)" and c: "boundary xx s c"
  shows "\<exists>k. done_in xx s n c = int k \<and> k \<le> length (recs_of xx s n) \<and>
    mark_at (heap s n) c = int headerSize + int (length (frames xx (take k (recs_of xx s n))))"
proof -
  let ?b = "df_base (heap s n)" and ?ps = "recs_of xx s n"
  have f: "file_ok xx s n" by (rule queue_okD(1) [OF ok n])
  have sz: "df_size (heap s n) = int (length (frames xx ?ps))" using file_ok_data [OF f] by simp
  have sf: "seg_flat xx s n = offs ?b ?ps" by (simp add: seg_flat_def)
  consider (before) "c \<le> ?b" | (after) "df_end (heap s n) \<le> c" | (inside) "?b < c" "c < df_end (heap s n)" by linarith
  then show ?thesis
  proof cases
    case before
    have "filter (\<lambda>x. fst x < c) (offs ?b ?ps) = []" by (rule filter_offs(2) [OF before])
    then show ?thesis using before file_ok_size [OF f] by (intro exI [of _ 0]) (simp add: done_in_def sf mark_at_def)
  next
    case after
    have "filter (\<lambda>x. fst x < c) (offs ?b ?ps) = offs ?b ?ps"
      by (rule filter_offs(1) [where xx = xx]) (use after sz in \<open>simp add: df_end_def\<close>)
    then show ?thesis using after sz by (intro exI [of _ "length ?ps"]) (simp add: done_in_def sf mark_at_def df_end_def)
  next
    case inside
    obtain at where "lay (heap s) (commitOff s) at (files s) (writeOff s)" using covered_lay [OF queue_okD(2) [OF ok]] n by fastforce
    from lay_mono(2) [OF this queue_size [OF ok] n] have "c \<noteq> writeOff s" using inside by auto
    then obtain p where p: "(c, p) \<in> set (flat xx s)" using c by (auto simp: boundary_def)
    obtain m where m0: "m \<in> set (files s)" "(c, p) \<in> set (seg_flat xx s m)" using p by (auto simp: flat_def)
    have m: "df_base (heap s m) \<le> c" "c < df_end (heap s m)"
      using seg_flat_bounds [OF queue_okD(1) [OF ok m0(1)] m0(2)] framedLen_gt0 [of "length p"] by linarith+
    have "m = n" using segs_apart [OF ok n m0(1)] inside m by (cases "m = n") auto
    then obtain as bs where ab: "?ps = as @ p # bs" "c = ?b + int (length (frames xx as))"
      using m0(2) offs_mem unfolding seg_flat_def by blast
    have "filter (\<lambda>x. fst x < c) (offs ?b ?ps) = offs ?b (take (length as) ?ps)"
      using filter_offs_take [of "length as" ?ps ?b xx] ab by simp
    moreover have "c - ?b \<le> df_size (heap s n)" using inside by (simp add: df_end_def)
    ultimately show ?thesis using ab by (intro exI [of _ "length as"]) (simp add: done_in_def sf mark_at_def)
  qed
qed

lemma hv_commit_back:
  assumes "length h = headerSize" "headerChecksumOK xx h" "is_i64 (commitCursor h)" "is_i64 (committedCount h)" "a = commitCursor h" "b = committedCount h"
  shows "hv xx (header_mods xx [setCommitCursor a, setCommittedCount b] (header_mods xx [setCommitCursor a', setCommittedCount b'] h)) = hv xx h"
  using assms by (simp add: hv_def header_mods_def hdr_laws)

lemma persist_told:
  assumes ok: "queue_ok xx s0" and a: "alike s0 s" and u: "unmarked xx s0 c at s" and b: "boundary xx s0 (commitOff s)" and t: "told xx s c"
  defines "h \<equiv> header_mods xx [setCommitCursor (int headerSize + min (commitOff s - df_base (heap s c)) (df_size (heap s c))),
    setCommittedCount (df_committed (heap s c))] (df_hdr (heap s c))"
  shows "\<exists>k. hdr_says xx (segmentSize s) h (recs_of xx s c) k" "hdrCapacity h = hdrCapacity (df_hdr (heap s c))"
    "committedCount (df_hdr (heap s c)) \<le> committedCount h"
proof -
  have U: "c \<in> set (files s0)" "at \<le> commitOff s" "df_base (heap s0 c) \<le> at" "commitOff s \<le> df_end (heap s0 c)"
    "df_committed (heap s c) = done_in xx s0 c (commitOff s)" "committedCount (df_hdr (heap s c)) = done_in xx s0 c at"
    using u by (simp_all add: unmarked_def)
  obtain k where k: "done_in xx s0 c (commitOff s) = int k" "k \<le> length (recs_of xx s0 c)"
    "mark_at (heap s0 c) (commitOff s) = int headerSize + int (length (frames xx (take k (recs_of xx s0 c))))"
    using mark_take [OF ok U(1) b] by blast
  have r: "recs_of xx s0 c = recs_of xx s c" using alikeD(9) [OF a, of c] by (simp add: same_seg_def recs_of_def)
  have f: "df_base (heap s c) = df_base (heap s0 c)" "df_size (heap s c) = df_size (heap s0 c)" using alike_flat(4,5) [OF a] by simp_all
  obtain j where j: "hdr_says xx (segmentSize s) (df_hdr (heap s c)) (recs_of xx s c) j" using t by (auto simp: told_def)
  have cur: "int headerSize + min (commitOff s - df_base (heap s c)) (df_size (heap s c)) = int headerSize + int (length (frames xx (take k (recs_of xx s c))))"
    using k(3) U(2,3) by (simp add: mark_at_def f r)
  have hk: "hdr_says xx (segmentSize s) h (recs_of xx s c) k"
    unfolding h_def by (rule hdr_says_commit [OF j _ cur]) (use k U(5) r in simp_all)
  then show "\<exists>k. hdr_says xx (segmentSize s) h (recs_of xx s c) k" by blast
  have len: "length (df_hdr (heap s c)) = headerSize" using j by (simp add: hdr_says_def)
  show "hdrCapacity h = hdrCapacity (df_hdr (heap s c))" using len by (simp add: h_def header_mods_def hdr_laws)
  have "done_in xx s0 c at \<le> done_in xx s0 c (commitOff s)"
  proof -
    have "length (filter (\<lambda>x. fst x < at) xs) \<le> length (filter (\<lambda>x. fst x < commitOff s) xs)" for xs :: "(int \<times> bytes) list"
      by (induction xs) (use U(2) in auto)
    then show ?thesis by (simp add: done_in_def)
  qed
  then show "committedCount (df_hdr (heap s c)) \<le> committedCount h" using hk k(1) U(6) by (simp add: hdr_says_def)
qed

lemma sound_persist:
  assumes ok: "queue_ok xx s0" and a: "alike s0 s" and b: "boundary xx s0 (commitOff s)" and u: "unmarked xx s0 c at s"
    and all: "\<forall>m \<in> set (files s). sound xx s m"
    and p: "persistCommit xx c perop s = (r, s')" and lat: "ioErr s' = None" and m: "m \<in> set (files s)"
  shows "sound xx s' m"
proof -
  have f: "file_ok xx s x" if "x \<in> set (files s)" for x using queue_okD(1) [OF ok] alike_flat(3) [OF a] that alikeD(1) [OF a] by simp
  have c: "c \<in> set (files s)" using u alikeD(1) [OF a] by (simp add: unmarked_def)
  define h1 where "h1 = header_mods xx [setCommitCursor (int headerSize + min (commitOff s - df_base (heap s c)) (df_size (heap s c))),
    setCommittedCount (df_committed (heap s c))] (df_hdr (heap s c))"
  define s1 where "s1 = upd_df c (\<lambda>d. header xx [setCommitCursor (int headerSize + min (commitOff s - df_base d) (df_size d)),
                  setCommittedCount (df_committed d)] d) s"
  have g: "df_hdr (heap s1 c) = h1" "df_diskHeader (heap s1 x) = df_diskHeader (heap s x)" "df_capacity (heap s1 x) = df_capacity (heap s x)"
    "df_dirty (heap s1 x) = df_dirty (heap s x)" "recs_of xx s1 x = recs_of xx s x"
    "data_of s1 x = data_of s x" "x \<noteq> c \<Longrightarrow> heap s1 x = heap s x" "df_num (heap s1 x) = df_num (heap s x)" for x
    by (simp_all add: s1_def h1_def upd_df_def header_def recs_of_def data_of_alt)
  have o: "os s1 = os s" "segmentSize s1 = segmentSize s" "perOp s1 = perOp s" "files s1 = files s"
    by (simp_all add: s1_def upd_df_def perOp_def batched_def)
  have sc: "told xx s c" "on_disk xx s c" "flushed xx s c" using all c by (simp_all add: sound_def)
  note pt = persist_told [OF ok a u b sc(1), folded h1_def]
  have t1: "told xx s1 c" using pt sc(1) by (simp add: told_def g o)
  obtain j where j: "hdr_says xx (segmentSize s) (df_hdr (heap s c)) (recs_of xx s c) j" using sc(1) by (auto simp: told_def)
  note J = j [unfolded hdr_says_def]
  have len: "length (df_hdr (heap s1 c)) = headerSize" using pt(1) by (auto simp: g hdr_says_def)
  have sy: "in_sync s1 c" using sc(2) by (simp add: on_disk_def in_sync_def g o)
  have li: "linked (os s1) c" using file_okD(4) [OF f [OF c]] o by simp
  have data: "data_of s1 x = frames xx (recs_of xx s1 x)" if "x \<in> set (files s)" for x
    unfolding g by (rule file_ok_data(1) [OF f [OF that]])
  have oth: "sound xx s1 x" if "x \<in> set (files s)" "x \<noteq> c" for x using all that sound_cong [of s1 x s xx] by (simp add: g o)
  obtain r2 s2 where w: "writeHeader c s1 = (r2, s2)" by force
  note out = p [unfolded persistCommit_def Let_def, folded s1_def, unfolded w, simplified]
  from sy len li w show ?thesis
  proof (cases rule: writeHeader_cases)
    case (latched e)
    then have "ioErr s' \<noteq> None" using out by (auto simp: upd_df_def split: if_splits)
    then show ?thesis using lat by simp
  next
    case (failed x)
    define s3 where "s3 = s2\<lparr>commitOff := df_base (heap s2 c) + commitCursor (df_hdr (heap s c)) - int headerSize,
        nCommitted := nCommitted s2 - (df_committed (heap s2 c) - committedCount (df_hdr (heap s c))),
        nCommittedTotal := nCommittedTotal s2 - (df_committed (heap s2 c) - committedCount (df_hdr (heap s c)))\<rparr>"
    have s': "s' = upd_df c (\<lambda>d. header xx [setCommitCursor (commitCursor (df_hdr (heap s c))), setCommittedCount (committedCount (df_hdr (heap s c)))]
        (d\<lparr>df_committed := committedCount (df_hdr (heap s c))\<rparr>)) s3"
      using out failed(1) by (simp add: s3_def)
    note c2 = calm_fields [OF failed(2)]
    show ?thesis
    proof (cases "m = c")
      case False
      then have "sound xx s2 m" using sound_calm [OF failed(2) data oth] m by blast
      then show ?thesis using sound_cong [of s' m s2 xx] False by (simp add: s' s3_def upd_df_def perOp_def batched_def)
    next
      case True
      have g': "df_hdr (heap s' c) = header_mods xx [setCommitCursor (commitCursor (df_hdr (heap s c))), setCommittedCount (committedCount (df_hdr (heap s c)))] h1"
        "df_diskHeader (heap s' c) = df_diskHeader (heap s c)" "df_capacity (heap s' c) = df_capacity (heap s c)" "df_size (heap s' c) = df_size (heap s1 c)"
        "df_dirty (heap s' c) = df_dirty (heap s2 c)" "os s' = os s2" "segmentSize s' = segmentSize s" "perOp s' = perOp s"
        "df_num (heap s' c) = df_num (heap s c)"
        using c2 g o by (simp_all add: s' s3_def upd_df_def header_def perOp_def batched_def)
      have r': "recs_of xx s' c = recs_of xx s c" unfolding g(5) [symmetric] by (simp add: recs_of_def data_of_alt g' c2)
      have hv: "hv xx (df_hdr (heap s' c)) = hv xx (df_hdr (heap s c))"
        unfolding g'(1) h1_def by (rule hv_commit_back) (use J hdr_says_room [OF j] in simp_all)
      have "told xx s' c" using sc(1) hv hdr_says_hv [OF hv] by (simp add: told_def g' r' hv_def)
      moreover have "on_disk xx s' c" using sc(2) hv by (simp add: on_disk_def in_sync_def g' c2 o)
      moreover have "flushed xx s' c"
      proof -
        have cc: "committedCount (df_hdr (heap s' c)) = committedCount (df_hdr (heap s c))" using hv by (simp add: hv_def)
        have "stable (os s2) c = inode (os s) c \<or> stable (os s2) c = stable (os s) c \<and> (df_dirty (heap s c) \<longrightarrow> df_dirty (heap s2 c))"
          using calm_fields(15) [OF failed(2), of c] by (simp add: flushed_as_def g o)
        then show ?thesis
          using sc(3) snap_now [OF file_ok_data(1) [OF f [OF c]] sc(1,2)] unfolding flushed_def cc g'(2-8) r' by metis
      qed
      ultimately show ?thesis using True by (simp add: sound_def)
    qed
  next
    case (fine t)
    note ct = calm_fields [OF fine(2)]
    have lt: "length (df_hdr (heap t c)) = headerSize" using len by (simp add: ct)
    have tt: "told xx t c" using t1 told_calm [OF fine(2)] by simp
    have st: "snap xx (segmentSize t) (recs_of xx t c) (committedCount (df_hdr (heap t c))) (stable (os t) c)" if "perOp t"
    proof -
      have po: "perOp s" using that by (simp add: ct o)
      have old: "snap xx (segmentSize s) (recs_of xx s c) (committedCount h1) (stable (os s) c)"
        "snap xx (segmentSize s) (recs_of xx s c) (committedCount h1) (inode (os s) c)"
        using snap_mono [OF _ pt(3)] sc(3) po snap_now [OF file_ok_data(1) [OF f [OF c]] sc(1,2)] unfolding flushed_def by blast+
      have "stable (os t) c = inode (os s) c \<or> stable (os t) c = stable (os s) c"
        using calm_fields(15) [OF fine(2), of c] by (auto simp: flushed_as_def o)
      then show ?thesis using old by (auto simp: ct g o)
    qed
    have s2c: "sound xx s2 c" by (rule sound_headed(1) [OF fine(3) lt tt st])
    have s2o: "sound xx s2 x" if "x \<in> set (files s)" "x \<noteq> c" for x
      using sound_headed(2) [OF fine(3) lt tt st that(2)] sound_calm [OF fine(2) data oth] that by blast
    have d2: "data_of s2 x = frames xx (recs_of xx s2 x)" if "x \<in> set (files s)" for x
    proof -
      have "data_of t x = data_of s1 x" by (simp add: data_of_alt ct)
      then show ?thesis using data [OF that] headed_data [OF fine(3) lt] by (simp add: ct)
    qed
    have all2: "sound xx s2 m" using s2c s2o m by (cases "m = c") simp_all
    have "s' = s2 \<or> flushFile c s2 = (r, s')" using out fine(1) by (auto split: if_splits)
    then show ?thesis using all2 sound_calm [OF calm_flushFile d2 [OF m]] by blast
  qed
qed

lemma stays_persist:
  assumes "persistCommit xx c perop s = (r, s')"
  shows "stays s s'"
proof -
  define s1 where "s1 = upd_df c (\<lambda>d. header xx [setCommitCursor (int headerSize + min (commitOff s - df_base d) (df_size d)),
                  setCommittedCount (df_committed d)] d) s"
  obtain r2 s2 where w: "writeHeader c s1 = (r2, s2)" by force
  have "stays s s1" by (simp add: s1_def)
  then have 2: "stays s s2" using stays_writeHeader [OF w] by (rule stays_trans)
  have 3: "stays s s3" if "flushFile c s2 = (r3, s3)" for r3 s3 by (rule stays_trans [OF 2 stays_calm [OF calm_flushFile [OF that]]])
  have 4: "stays s (upd_df c f (s2\<lparr>commitOff := a, nCommitted := b, nCommittedTotal := d\<rparr>))" for f a b d
    using 2 by (simp add: stays_def upd_df_def)
  show ?thesis using assms w 2 3 4 unfolding persistCommit_def Let_def s1_def [symmetric] by (auto split: if_splits sum.splits)
qed

lemma dirs_persist:
  assumes "persistCommit xx c perop s = (r, s')"
  shows "dirs s s'"
proof -
  define s1 where "s1 = upd_df c (\<lambda>d. header xx [setCommitCursor (int headerSize + min (commitOff s - df_base d) (df_size d)),
                  setCommittedCount (df_committed d)] d) s"
  obtain r2 s2 where w: "writeHeader c s1 = (r2, s2)" by force
  have "dirs s s1" by (simp add: s1_def)
  then have 2: "dirs s s2" using dirs_writeHeader [OF w] by (rule dirs_trans)
  have 3: "dirs s s3" if "flushFile c s2 = (r3, s3)" for r3 s3 by (rule dirs_trans [OF 2 calm_fields(19) [OF calm_flushFile [OF that]]])
  have 4: "dirs s (upd_df c f (s2\<lparr>commitOff := a, nCommitted := b, nCommittedTotal := d\<rparr>))" for f a b d
    using 2 by (simp add: dirs_def upd_df_def)
  show ?thesis using assms w 2 3 4 unfolding persistCommit_def Let_def s1_def [symmetric] by (auto split: if_splits sum.splits)
qed

interpretation on_disk: commit_keeps xx "lasting xx" for xx
proof unfold_locales
  fix s0 s s' n and r :: "unit result"
  assume a: "queue_ok xx s0" "alike s0 s" "lasting xx s"
  show "ensureOpen n s = (r, s') \<Longrightarrow> lasting xx s'" by (rule lasting_calm_alike [OF a calm_ensureOpen])
  show "recordOp s = (r, s') \<Longrightarrow> lasting xx s'" by (rule lasting_calm_alike [OF a calm_recordOp])
  show "frameEnd n q s = (re, s') \<Longrightarrow> lasting xx s'" for q re by (rule lasting_calm_alike [OF a calm_frameEnd])
  show "lasting xx (upd_df n (\<lambda>d. d\<lparr>df_committed := df_committed d + 1\<rparr>) (s\<lparr>commitOff := z, nCommitted := k, nCommittedTotal := k'\<rparr>))" for z k k'
    by (rule lasting_count [OF a(3)])
next
  fix s0 s s' c at perop and r :: "unit result"
  assume a: "queue_ok xx s0" "alike s0 s" "boundary xx s0 (commitOff s)" "unmarked xx s0 c at s" "lasting xx s" and p: "persistCommit xx c perop s = (r, s')"
  have al: "files s' = files s" "segmentSize s' = segmentSize s" and ns: "noSync s' = noSync s"
    using persistCommit_spec [OF a(1,2,4) p] alikeD(1,8) [of s0 s'] alikeD(1,8) [OF a(2)] by (simp_all add: options_def)
  have lk: "linked (os s) m" if "m \<in> set (files s)" for m
  proof (rule file_okD(4))
    show "file_ok xx s m" using queue_okD(1) [OF a(1)] that alikeD(1) [OF a(2)] alike_flat(3) [OF a(2)] by simp
  qed
  show "lasting xx s'" unfolding lasting_def al
  proof (intro conjI impI ballI)
    show "entered s'" if "ioErr s' = None"
      by (rule entered_dirs [OF dirs_persist [OF p] _ ns lk])
        (use lastingD(2) [OF a(5) stays_None [OF stays_persist [OF p] that]] al in simp_all)
    fix m assume e: "ioErr s' = None" and m: "m \<in> set (files s)"
    have "ioErr s = None" by (rule stays_None [OF stays_persist [OF p] e])
    then have "\<forall>m \<in> set (files s). sound xx s m" using a(5) by (simp add: lasting_def)
    then show "sound xx s' m" by (rule sound_persist [OF a(1-4) _ p e m])
  qed (use a(5) placed_same [OF al] in \<open>simp add: lasting_def\<close>)
next
  fix s and h :: int assume "lasting xx s"
  then show "lasting xx (s\<lparr>headOff := h\<rparr>)" using lasting_cong [of "s\<lparr>headOff := h\<rparr>" s xx] by simp
next
  fix s keep assume "distinct (files s)" "lasting xx s"
  then show "lasting xx (dropCommitted keep s)" by (rule lasting_drop)
qed

end
