(* ===== verification/Durable_Open.thy ===== *)
theory Durable_Open
  imports Durable_Commit
begin

text \<open>
  Opening puts the queue on disk.  Recovery believes the headers it finds, corrects those that
  contradict the recovered cursor and flushes every correction before it goes on, whatever the
  durability options say; so an opened store satisfies the invariant of \<open>Durable\<close> again, and a
  crash right after opening loses nothing either.
\<close>

section \<open>The repair pass\<close>

lemma hdr_says_repair:
  assumes h: "hdr_says xx seg h ps j" and k: "k \<le> length ps"
    and a: "a = int headerSize + int (length (frames xx ps))" "w = int (length ps)"
      "c = int headerSize + int (length (frames xx (take k ps)))" "d = int k"
  shows "hdr_says xx seg (header_mods xx [setWriteCursor a, setWrittenCount w, setCommitCursor c, setCommittedCount d] h) ps k"
proof -
  note H = h [unfolded hdr_says_def]
  have "int (length ps) \<le> int (length (frames xx ps))" "length (frames xx (take k ps)) \<le> length (frames xx ps)"
    using length_frames_ge [of ps xx] frames_take_le [of xx k ps] by simp_all
  then have "is_i64 a" "is_i64 w" "is_i64 c" "is_i64 d" using H a k by (auto simp: is_i64_def headerSize_def)
  then show ?thesis using H a k by (simp add: hdr_says_def header_mods_def hdr_laws)
qed

text \<open>Only the header page of the file and its records matter.\<close>

lemma sound_page:
  assumes "df_num (heap s' n) = df_num (heap s n)" "df_hdr (heap s' n) = df_hdr (heap s n)" "df_diskHeader (heap s' n) = df_diskHeader (heap s n)"
    "df_capacity (heap s' n) = df_capacity (heap s n)" "df_dirty (heap s' n) = df_dirty (heap s n)" "recs_of xx s' n = recs_of xx s n"
    "take headerSize (inode (os s') n) = take headerSize (inode (os s) n)" "stable (os s') n = stable (os s) n"
    "segmentSize s' = segmentSize s" "perOp s' = perOp s"
  shows "sound xx s' n = sound xx s n"
  unfolding sound_def told_def on_disk_def in_sync_def flushed_def assms by (rule refl)

lemma sound_preallocate:
  assumes p: "os_run (preallocate n len) s = (r, s')" and f: "file_ok xx s n" and len: "int headerSize + df_size (heap s n) \<le> len"
    and so: "sound xx s m"
  shows "sound xx s' m"
proof -
  obtain w where w: "preallocate n len (os s) = (r, w)" "s' = s\<lparr>os := w\<rparr>" using p by (rule os_runE)
  have q: "shape s' = shape s" using quiet_preallocate [OF p f len] by (simp add: quiet_def)
  have r: "recs_of xx s' m = recs_of xx s m" by (simp add: recs_of_def data_of_def shape_eq_df_fields [OF q])
  have st: "stable w = stable (os s)"
    using w(1) by (auto simp: preallocate_def os_fallocate_def os_truncate_def os_tick_def split: list.splits verdict.splits prod.splits sum.splits if_splits)
  have "headerSize \<le> nat len" using len file_ok_size [OF f] by linarith
  moreover have "headerSize \<le> length (inode (os s) m)"
    using so by (auto simp: sound_def on_disk_def in_sync_def dest: arg_cong [where f = length])
  ultimately have "take headerSize (inode w m) = take headerSize (inode (os s) m)"
    using w(1) by (auto simp: preallocate_def os_fallocate_def os_truncate_def os_tick_def min_def
        split: list.splits verdict.splits prod.splits sum.splits if_splits)
  then have "sound xx s' m = sound xx s m" using r st w(2) by (intro sound_page) (simp_all add: perOp_def batched_def)
  then show ?thesis using so by simp
qed

text \<open>A flush of a dirty file that worked made it stable.\<close>

lemma flushFile_done:
  assumes f: "flushFile n s = (Inr u, s')" and d: "df_dirty (heap s n)"
  shows "stable (os s') n = inode (os s) n"
proof -
  obtain s1 u1 where 1: "(if df_open (heap s n) then (Inr (), s) else ensureOpen n s) = (Inr u1, s1)" "flushSync n s1 = (Inr u, s')"
    using f d by (auto simp: flushFile_def split: prod.splits sum.splits)
  have c: "calm s s1" using 1(1) by (auto split: if_splits dest: calm_ensureOpen)
  obtain u2 s2 where 2: "os_run (datasync n) s1 = (Inr u2, s2)" "os s' = os s2"
    using 1(2) by (auto simp: flushSync_def upd_df_def split: option.splits prod.splits sum.splits dest: failIO_result)
  then show ?thesis using datasync_done(1) [OF 2(1)] calm_fields(12) [OF c] by simp
qed

lemma dirs_preallocate:
  assumes "os_run (preallocate n len) s = (r, s')"
  shows "dirs s s'"
  by (rule dirs_os_run [OF assms])
    (auto simp: preallocate_def os_fallocate_def os_truncate_def os_tick_def split: list.splits verdict.splits prod.splits sum.splits if_splits)

lemma dirs_repairSegment:
  assumes "repairSegment xx n s = (r, s')"
  shows "dirs s s'"
proof -
  obtain r1 s1 where 1: "ensureOpen n s = (r1, s1)" by force
  define s2 where "s2 = upd_df n (\<lambda>d. header xx [setWriteCursor (int headerSize + df_size d), setWrittenCount (df_written d),
      setCommitCursor (repair_cursor (heap s n) (commitOff s)), setCommittedCount (df_committed d)] d) s1"
  obtain r3 s3 where 3: "writeHeader n s2 = (r3, s3)" by force
  obtain r4 s4 where 4: "flushFile n s3 = (r4, s4)" by force
  obtain r5 s5 where 5: "os_run (preallocate n (wrap64 (int headerSize + df_capacity (heap s4 n)))) s4 = (r5, s5)" by force
  have d1: "dirs s s1" by (rule calm_fields(19) [OF calm_ensureOpen [OF 1]])
  have d3: "dirs s s3" by (rule dirs_trans [OF dirs_trans [OF d1] dirs_writeHeader [OF 3]]) (simp add: s2_def)
  have d4: "dirs s s4" by (rule dirs_trans [OF d3 calm_fields(19) [OF calm_flushFile [OF 4]]])
  have d5: "dirs s (upd_df n f s5)" for f by (rule dirs_trans [OF dirs_trans [OF d4 dirs_preallocate [OF 5]]]) simp
  show ?thesis using assms 1 3 4 5 d1 d3 d4 d5 by (auto simp: repairSegment_def s2_def [symmetric] Let_def split: if_splits sum.splits)
qed

lemma dirs_repair_loop: "repair_loop xx ns s = (r, s') \<Longrightarrow> dirs s s'"
proof (induction xx ns s rule: repair_loop.induct)
  case (2 xx n ns s)
  then show ?case using dirs_repairSegment dirs_trans by (fastforce split: prod.splits sum.splits)
qed simp

lemma dirs_open_active:
  assumes "open_active s = (r, s')"
  shows "dirs s s'"
proof -
  obtain r1 s1 where 1: "ensureOpen (the (active s)) s = (r1, s1)" by force
  have d1: "dirs s s1" by (rule calm_fields(19) [OF calm_ensureOpen [OF 1]])
  have "dirs s1 (snd (os_run (preallocate n len) s1))" for n len by (rule dirs_preallocate [OF surjective_pairing])
  then show ?thesis using assms 1 d1 dirs_trans [OF d1] by (auto simp: open_active_def Let_def split: sum.splits)
qed

lemma sound_repairSegment:
  assumes ok: "queue_ok xx r" and n: "n \<in> set (files r)" and room: "mark_room (heap r n)"
    and fits: "df_size (heap r n) \<le> df_capacity (heap r n)" and cm: "df_committed (heap r n) = done_in xx r n (commitOff r)"
    and me: "mending r s" and all: "\<forall>m \<in> set (files r). sound xx s m"
    and p: "repairSegment xx n s = (Inr u, s')"
  shows "\<forall>m \<in> set (files r). sound xx s' m"
proof (cases "needs_repair (heap s n) (repair_cursor (heap s n) (commitOff s))")
  case False
  then show ?thesis using p all by (simp add: repairSegment_def)
next
  case True
  note M = me [unfolded mending_def]
  obtain u1 s1 where 1: "ensureOpen n s = (Inr u1, s1)"
    using p True by (cases "ensureOpen n s") (auto simp: repairSegment_def split: sum.splits)
  have c1: "calm s s1" and me1: "mending r s1" using calm_ensureOpen [OF 1] mending_trans [OF me mending_quiet [OF quiet_ensureOpen [OF 1]]] by blast+
  note f1 = calm_fields [OF c1]
  have fo: "file_ok xx t m" if "mending r t" "m \<in> set (files r)" for t m
    using mending_file_ok [OF that(1)] queue_okD(1) [OF ok that(2)] by simp
  have data: "data_of t m = frames xx (recs_of xx t m)" if "mending r t" "m \<in> set (files r)" for t m
    by (rule file_ok_data(1) [OF fo [OF that]])
  have all1: "\<forall>m \<in> set (files r). sound xx s1 m" using all data [OF me] sound_calm [OF c1] by blast
  define cc where "cc = repair_cursor (heap s n) (commitOff s)"
  define s2 where "s2 = upd_df n (\<lambda>d. header xx [setWriteCursor (int headerSize + df_size d), setWrittenCount (df_written d),
      setCommitCursor cc, setCommittedCount (df_committed d)] d) s1"
  obtain u3 s3 where 3: "writeHeader n s2 = (Inr u3, s3)"
    using p True 1 by (cases "writeHeader n s2") (auto simp: repairSegment_def s2_def cc_def Let_def split: sum.splits)
  obtain u4 s4 where 4: "flushFile n s3 = (Inr u4, s4)"
    using p True 1 3 by (cases "flushFile n s3") (auto simp: repairSegment_def s2_def cc_def Let_def split: sum.splits)
  have s': "s' = (if df_truncated (heap s4 n) then upd_df n (\<lambda>d. d\<lparr>df_truncated := False\<rparr>)
      (snd (os_run (preallocate n (wrap64 (int headerSize + df_capacity (heap s4 n)))) s4)) else s4)"
    using p True 1 3 4 by (auto simp: repairSegment_def s2_def cc_def Let_def split: if_splits)
  note f1n = fo [OF me1 n]
  have o2: "os s2 = os s1" "segmentSize s2 = segmentSize s1" "perOp s2 = perOp s1" "m \<noteq> n \<Longrightarrow> heap s2 m = heap s1 m"
    "recs_of xx s2 m = recs_of xx s1 m" "data_of s2 m = data_of s1 m" for m
    by (simp_all add: s2_def upd_df_def perOp_def batched_def recs_of_def data_of_alt header_def)
  have told2: "told xx s2 n"
  proof -
    have tn: "told xx s1 n" using all1 n by (simp add: sound_def)
    then obtain j where j: "hdr_says xx (segmentSize s1) (df_hdr (heap s1 n)) (recs_of xx s1 n) j" by (auto simp: told_def)
    have al: "alike r s1" "commitOff s1 = commitOff r" "df_committed (heap s1 n) = df_committed (heap r n)" using me1 by (simp_all add: mending_def)
    have re: "recs_of xx r n = recs_of xx s1 n" using alikeD(9) [OF al(1), of n] by (simp add: same_seg_def recs_of_def)
    obtain k where k: "done_in xx r n (commitOff r) = int k" "k \<le> length (recs_of xx r n)"
      "mark_at (heap r n) (commitOff r) = int headerSize + int (length (frames xx (take k (recs_of xx r n))))"
      using mark_take [OF ok n queue_okD(7) [OF ok]] by blast
    have "cc = mark_at (heap s n) (commitOff s)" unfolding cc_def by (rule repair_cursor_mark [OF file_ok_size [OF fo [OF me n]]])
    then have cur: "cc = int headerSize + int (length (frames xx (take k (recs_of xx s1 n))))"
      using k(3) alike_flat(9) [of r s n "commitOff r"] M by (simp add: re)
    have "hdr_says xx (segmentSize s1) (df_hdr (heap s2 n)) (recs_of xx s1 n) k"
      unfolding s2_def upd_df_def header_def
      by (simp, rule hdr_says_repair [OF j _ _ _ cur])
        (use k(1,2) cm re al(3) file_ok_data [OF f1n] file_okD(3) [OF f1n] in simp_all)
    moreover have "hdrCapacity (df_hdr (heap s2 n)) = df_capacity (heap s2 n)"
      using tn file_okD(5) [OF f1n] by (simp add: told_def s2_def upd_df_def header_def header_mods_def hdr_laws)
    moreover have "df_num (heap s2 n) = n" using tn by (simp add: told_def s2_def upd_df_def header_def)
    ultimately show ?thesis unfolding told_def o2 by blast
  qed
  have oth2: "sound xx s2 m" if "m \<in> set (files r)" "m \<noteq> n" for m
    using all1 that sound_cong [of s2 m s1 xx] by (simp add: o2)
  have sy2: "in_sync s2 n" using all1 n by (simp add: sound_def on_disk_def in_sync_def s2_def upd_df_def header_def)
  have len2: "length (df_hdr (heap s2 n)) = headerSize" using told2 by (auto simp: told_def hdr_says_def)
  have lk2: "linked (os s2) n" using file_okD(4) [OF f1n] by (simp add: o2)
  have data2: "data_of s2 m = frames xx (recs_of xx s2 m)" if "m \<in> set (files r)" for m
    unfolding o2 by (rule data [OF me1 that])
  from sy2 len2 lk2 3 obtain t where t: "calm s2 t" "headed n t s3"
    by (cases rule: writeHeader_cases) auto
  note ft = calm_fields [OF t(1)] and h3 = headed_fields [OF t(2)]
  have lt: "length (df_hdr (heap t n)) = headerSize" using len2 by (simp add: ft)
  note hd = headed_data [OF t(2) lt]
  have "data_of t m = data_of s2 m" for m by (simp add: data_of_alt ft)
  then have data3: "data_of s3 m = frames xx (recs_of xx s3 m)" if "m \<in> set (files r)" for m
    using data2 [OF that] hd by (simp add: ft)
  have t3: "told xx s3 n" "on_disk xx s3 n"
    using told2 told_calm [OF t(1)] lt by (simp_all add: told_def h3 hd on_disk_def in_sync_def)
  have c4: "calm s3 s4" by (rule calm_flushFile [OF 4])
  note f4 = calm_fields [OF c4]
  have s4: "sound xx s4 m" if m: "m \<in> set (files r)" for m
  proof (cases "m = n")
    case True
    have "stable (os s4) n = inode (os s3) n" by (rule flushFile_done [OF 4 h3(11)])
    then have "flushed xx s4 n" using snap_now [OF data3 [OF n] t3] by (simp add: flushed_def f4)
    then show ?thesis using t3 told_calm [OF c4] on_disk_calm [OF c4] True by (simp add: sound_def)
  next
    case False
    have "sound xx t m" using sound_calm [OF t(1) data2 oth2] m False by blast
    then have "sound xx s3 m" using sound_cong [of s3 m t xx] False by (simp add: h3)
    then show ?thesis using sound_calm [OF c4 data3 [OF m]] by blast
  qed
  show ?thesis
  proof (cases "df_truncated (heap s4 n)")
    case False
    then show ?thesis using s' s4 by simp
  next
    case True
    obtain r5 s5 where 5: "os_run (preallocate n (wrap64 (int headerSize + df_capacity (heap s4 n)))) s4 = (r5, s5)" by force
    have wr: "df_written (heap s3 n) = df_written (heap t n)"
      using t(2) keep_df_fields(6) [of "heap s3 n" "(heap t n)\<lparr>df_diskHeader := df_hdr (heap t n)\<rparr>"] by (simp add: headed_def)
    have d4: "df_size (heap s4 n) = df_size (heap s1 n)" "df_capacity (heap s4 n) = df_capacity (heap s1 n)" "df_written (heap s4 n) = df_written (heap s1 n)"
      "linked (os s4) n" "length (df_hdr (heap s4 n)) = headerSize"
      using lk2 lt by (simp_all add: f4 h3 ft wr) (simp_all add: s2_def upd_df_def header_def o2)
    have "data_of s4 n = data_of s3 n" by (simp add: data_of_alt f4)
    then have dr: "data_of s4 n = data_of s1 n" "recs_of xx s4 n = recs_of xx s1 n"
      using \<open>\<And>m. data_of t m = data_of s2 m\<close> hd by (simp_all add: f4 ft o2)
    have f4n: "file_ok xx s4 n" using f1n d4(4,5) unfolding file_ok_def d4(1-3) dr by blast
    have "df_size (heap s1 n) = df_size (heap r n)" "df_capacity (heap s1 n) = df_capacity (heap r n)"
      using me1 alike_flat(5,6) by (simp_all add: mending_def)
    then have "int headerSize + df_size (heap s4 n) \<le> wrap64 (int headerSize + df_capacity (heap s4 n))"
      using fits room file_ok_size [OF f1n] d4 by (subst wrap64_id) (simp_all add: is_i64_def mark_room_def headerSize_def)
    then have "sound xx s5 m" if "m \<in> set (files r)" for m
      using sound_preallocate [OF 5 f4n _ s4 [OF that]] by blast
    moreover have "sound xx (upd_df n (\<lambda>d. d\<lparr>df_truncated := False\<rparr>) s5) m = sound xx s5 m" for m
      by (rule sound_page) (simp_all add: upd_df_def recs_of_def data_of_alt perOp_def batched_def)
    ultimately show ?thesis using s' 5 True by simp
  qed
qed

lemma sound_repair_loop:
  assumes "queue_ok xx r" "set ns \<subseteq> set (files r)"
    "\<forall>n \<in> set (files r). mark_room (heap r n) \<and> df_size (heap r n) \<le> df_capacity (heap r n) \<and> df_committed (heap r n) = done_in xx r n (commitOff r)"
    "mending r s" "\<forall>m \<in> set (files r). sound xx s m" "repair_loop xx ns s = (Inr u, s')"
  shows "\<forall>m \<in> set (files r). sound xx s' m"
  using assms
proof (induction ns arbitrary: s)
  case (Cons n ns)
  obtain u1 s1 where 1: "repairSegment xx n s = (Inr u1, s1)" "repair_loop xx ns s1 = (Inr u, s')"
    using Cons.prems(6) by (cases "repairSegment xx n s") (auto split: sum.splits)
  have n: "n \<in> set (files r)" using Cons.prems(2) by simp
  have "\<forall>m \<in> set (files r). sound xx s1 m"
    by (rule sound_repairSegment [OF Cons.prems(1) n _ _ _ Cons.prems(4,5) 1(1)]) (use Cons.prems(3) n in auto)
  moreover have "mending r s1" using repairSegment_spec [OF Cons.prems(1) n _ _ _ Cons.prems(4) 1(1)] Cons.prems(3) n by blast
  ultimately show ?case using Cons.IH [OF Cons.prems(1) _ Cons.prems(3) _ _ 1(2)] Cons.prems(2) by simp
qed simp

section \<open>Opening\<close>

text \<open>A segment as the open path finds it: what is on disk is what it believes.\<close>

lemma sound_loaded:
  assumes h: "holds xx (segmentSize t) (os t) (n, ps, k)" and d: "heap t n = (loaded n b sz (page (os t) n))\<lparr>df_committed := c\<rparr>"
    and st: "snap xx (segmentSize t) ps (int k) (stable (os t) n)"
  shows "sound xx t n"
proof -
  note H = holdsD [OF h] and g = seg_sound [OF h d]
  have l: "df_num (heap t n) = n" "df_hdr (heap t n) = page (os t) n" "df_diskHeader (heap t n) = page (os t) n" "df_capacity (heap t n) = hdrCapacity (page (os t) n)"
    by (simp_all add: d loaded_def zero_dataFile_def)
  have "length (page (os t) n) = headerSize" "committedCount (page (os t) n) = int k" using H(2) by (simp_all add: hdr_says_def)
  then show ?thesis using H(2) by (auto simp: sound_def told_def on_disk_def in_sync_def flushed_def l g(2) st page_def)
qed

lemma opened_lasting:
  assumes im: "image_of xx seg img w" and st: "standing xx img t" and me: "mending t s" and sg: "segmentSize t = seg" "0 \<le> seg" "seg < 2 ^ 48"
    and op: "opened xx img w t s" and ca: "\<forall>(n, ps, k) \<in> set img. snap xx seg ps (int k) (stable w n) \<and> stable_dir w n"
  shows "lasting xx s"
proof -
  note I = im [unfolded image_of_def] and S = st [unfolded standing_def] and O = op [unfolded opened_def same_files_def]
  have fs: "files t = map fst img" using S by blast
  have pg: "page (os t) = page w" using O by (simp add: page_def fun_eq_iff)
  have all: "\<forall>m \<in> set (files t). sound xx t m"
  proof
    fix n assume "n \<in> set (files t)"
    then obtain ps k where m: "(n, ps, k) \<in> set img" using fs by auto
    have "holds xx (segmentSize t) (os t) (n, ps, k)" using I m sg(1) O pg by (fastforce simp: holds_def)
    moreover obtain b sz c where "heap t n = (loaded n b sz (page (os t) n))\<lparr>df_committed := c\<rparr>" using O m pg by fastforce
    moreover have "snap xx (segmentSize t) ps (int k) (stable (os t) n)" using ca m O sg(1) by auto
    ultimately show "sound xx t n" by (rule sound_loaded)
  qed
  obtain u where u: "repair_loop xx (rev (files t)) t = (Inr (), u)" "open_active u = (Inr (), s)" using O by blast
  have allu: "\<forall>m \<in> set (files t). sound xx u m"
    by (rule sound_repair_loop [OF _ _ _ mending_refl all u(1)]) (use S in auto)
  have mu: "mending t u" using repair_loop_spec [OF _ mending_refl _ _ u(1)] S by auto
  have fu: "files u = files t" using mu alikeD(1) by (simp add: mending_def)
  define n where "n = the (active u)"
  have "files u \<noteq> []" using I fs fu by simp
  then have n: "n \<in> set (files t)" using fu last_in_set [of "files u"] by (simp add: n_def active_def)
  obtain u1 s1 where 1: "ensureOpen n u = (Inr u1, s1)"
    using u(2) by (cases "ensureOpen n u") (auto simp: open_active_def n_def Let_def split: sum.splits)
  obtain r2 s2 where 2: "os_run (preallocate n (wrap64 (int headerSize + df_capacity (heap s1 n)))) s1 = (r2, s2)" by force
  have s: "s = s2" using u(2) 1 2 by (simp add: open_active_def n_def [symmetric])
  have m1: "mending t s1" using mending_trans [OF mu mending_quiet [OF quiet_ensureOpen [OF 1]]] .
  have fo: "file_ok xx v m" if "mending t v" "m \<in> set (files t)" for v m
    using mending_file_ok [OF that(1)] queue_okD(1) S that(2) by blast
  have all1: "sound xx s1 m" if "m \<in> set (files t)" for m
    using sound_calm [OF calm_ensureOpen [OF 1] file_ok_data(1) [OF fo [OF mu that]]] allu that by blast
  have "df_size (heap s1 n) = df_size (heap t n)" "df_capacity (heap s1 n) = df_capacity (heap t n)"
    using m1 alike_flat(5,6) by (simp_all add: mending_def)
  then have "int headerSize + df_size (heap s1 n) \<le> wrap64 (int headerSize + df_capacity (heap s1 n))"
    using S n file_ok_size [OF fo [OF m1 n]] by (subst wrap64_id) (fastforce simp: is_i64_def mark_room_def headerSize_def)+
  then have "sound xx s m" if "m \<in> set (files t)" for m
    unfolding s using sound_preallocate [OF 2 fo [OF m1 n] _ all1 [OF that]] by blast
  moreover have fst': "files s = files t" "segmentSize s = seg" using me alikeD(1,8) sg(1) by (auto simp: mending_def options_def)
  moreover have "entered s"
  proof -
    have d: "dirs t s" using dirs_trans [OF dirs_repair_loop [OF u(1)] dirs_open_active [OF u(2)]] .
    have "linked w m \<and> stable_dir w m" if "m \<in> set (files t)" for m
      using I ca fs that by (fastforce simp: holds_def)
    then show ?thesis using d O fst'(1) by (auto simp: entered_def dirs_def)
  qed
  ultimately show ?thesis using I sg fs by (simp add: lasting_def placed_def)
qed

text \<open>An empty directory gets its first segment.\<close>

lemma startFresh_spec:
  assumes r: "startFresh xx num s = (Inr v, s')" and num: "num \<noteq> 0" "num < 2 ^ 64" and seg: "0 \<le> segmentSize s" "segmentSize s < 2 ^ 48"
    and new: "files s = []" "heap s = zero_dataFile" "writeOff s = 0" "headOff s = 0" "commitOff s = 0" "lastFrameEnd s = 0" "block_ok s" "dirOpen s"
  shows "queue_ok xx s' \<and> marks_ok xx s' \<and> lasting xx s' \<and> files s' = [num] \<and> unread xx s' = [] \<and> backlog xx s' = [] \<and>
    commitOff s' = 0 \<and> settings s' = settings s"
proof -
  obtain n s2 where 2: "createFile xx num (writeOff s) (segmentSize s) s = (Inr n, s2)"
    using r by (cases "createFile xx num (writeOff s) (segmentSize s) s") (auto simp: startFresh_def split: sum.splits)
  have cap: "int headerSize + segmentSize s < 2 ^ 63" "segmentSize s < 2 ^ 63" using seg by (simp_all add: headerSize_def)
  have cf: "only_fresh num s s2" "n = num" "new_seg num 0 (segmentSize s) s2" using createFile_spec [OF 2] new(3) by auto
  have so: "apart num s s2" "sound xx s2 num" using createFile_sound [OF 2 seg seg(1) cap(1)] by auto
  have z: "df_size (heap s num) = 0" by (simp add: new zero_dataFile_def)
  note f = only_fresh_fields [OF cf(1) z]
  define u where "u = s2\<lparr>nextNum := num\<rparr>"
  define s3 where "s3 = s2\<lparr>nextNum := (num + 1) mod 2 ^ 64, files := files s2 @ [num],
                         diskBytes := diskBytes s2 + (int headerSize + df_capacity (heap s2 num))\<rparr>"
  have u: "files u = []" "writeOff u = 0" "nextNum u = num" "commitOff u = 0" "headOff u = 0" by (simp_all add: u_def f new)
  have "df_size (heap u m) = 0" for m using f(17) [of m] by (simp add: u_def new zero_dataFile_def)
  then have "queue_ok xx u" using f(7,18) new num(2) u
    by (simp add: queue_ok_def covered_def nums_ok_def boundary_def cache_ok_def flat_def block_ok_def u_def cong: option.case_cong)
  moreover have "new_seg num (writeOff u) (segmentSize s) u" using cf(3) u(2) by (simp add: new_seg_def u_def)
  moreover have "s3 = u\<lparr>nextNum := (nextNum u + 1) mod 2 ^ 64, files := files u @ [num],
      diskBytes := diskBytes s2 + (int headerSize + df_capacity (heap s2 num))\<rparr>"
    by (simp add: s3_def u_def)
  ultimately have q3: "queue_ok xx s3" "flat xx s3 = flat xx u"
    using queue_ok_add_seg [of xx u num "segmentSize s" "(nextNum u + 1) mod 2 ^ 64"] num(1) cap(2) u(3) by auto
  have fl: "flat xx s3 = []" using q3(2) u(1) by (simp add: flat_def)
  have s3: "files s3 = [num]" "commitOff s3 = 0" "settings s3 = settings s"
    using settings_fresh [OF cf(1) z] by (simp_all add: s3_def f new settings_defs)
  have "marked xx 0 s2 num" by (rule marked_new [OF cf(3) _ cap(1)]) simp
  moreover have "marked xx 0 s3 num = marked xx 0 s2 num" by (simp add: s3_def marked_def done_in_def seg_flat_def recs_of_def data_of_def)
  ultimately have m3: "marks_ok xx s3" by (simp add: marks_ok_def s3)
  have "sound xx s3 num" using so(2) sound_cong [of s3 num s2 xx] by (simp add: s3_def perOp_def batched_def)
  moreover have "segmentSize s3 = segmentSize s" by (simp add: s3_def f)
  ultimately have l3: "placed s3" "sound xx s3 num" using seg num(2) by (simp_all add: placed_def s3(1))
  have out: "noSync (trackOpen num s3) \<and> s' = trackOpen num s3 \<or> syncDir (trackOpen num s3) = (Inr v, s')"
    using r 2 cf(2) by (auto simp: startFresh_def s3_def Let_def split: if_splits)
  then have c: "calm s3 s'" and q: "quiet s3 s'"
    using calm_trans [OF calm_trackOpen calm_syncDir] quiet_trans [OF quiet_trackOpen quiet_syncDir] quiet_trackOpen by (auto simp: calm_trackOpen)
  have l': "lasting xx s'"
  proof (rule lastingI)
    show "placed s'" using l3(1) placed_same [OF calm_fields(1,2) [OF c]] by simp
    have "data_of s3 num = frames xx (recs_of xx s3 num)" by (rule file_ok_data(1) [OF queue_okD(1) [OF q3(1)]]) (simp add: s3)
    then show "sound xx s' n" if "n \<in> set (files s')" for n
      using sound_calm [OF c _ l3(2)] that calm_fields(1) [OF c] s3(1) by simp
    have ct: "calm s3 (trackOpen num s3)" by simp
    have "dirOpen s3" using so(1) new(8) by (simp add: apart_def s3_def)
    then have do: "dirOpen (trackOpen num s3)" using calm_fields(19) [OF ct] by (simp add: dirs_def)
    show "entered s'" if e: "ioErr s' = None"
      using out
    proof
      assume "noSync (trackOpen num s3) \<and> s' = trackOpen num s3"
      then show ?thesis using do by (simp add: entered_def)
    next
      assume sd: "syncDir (trackOpen num s3) = (Inr v, s')"
      have "stable_dir (os s') = linked (os s3)" using syncDir_done [OF sd do e] calm_fields(13) [OF ct] by simp
      moreover have "dirOpen s'" using do calm_fields(19) [OF calm_syncDir [OF sd]] by (simp add: dirs_def)
      moreover have "linked (os s3) num" using cf(3) by (simp add: s3_def new_seg_def)
      ultimately show ?thesis using calm_fields(1) [OF c] s3(1) by (simp add: entered_def)
    qed
  qed
  have sh: "shape s' = shape s3" using q by (simp add: quiet_def)
  have "unread xx s3 = []" "backlog xx s3 = []" by (simp_all add: unread_def backlog_def fl from_off_def)
  then show ?thesis
    using quiet_queue_ok [OF q q3(1)] marks_ok_quiet [OF q] m3 l' calm_fields(1) [OF c] s3
      quiet_flat(3,4) [OF q] settings_quiet [OF q] shape_eq_fields(19) [OF sh] by simp
qed

lemma openStore_fresh:
  assumes em: "\<forall>n < 2 ^ 64. \<not> linked w n" and dir: "dir_lists ents w" and seg: "0 \<le> seg" "seg < 2 ^ 48"
    and r: "openStore xx ents seg maxSegs nosync every maxOpen w = (Inr v, s)"
  shows "session_ok xx s \<and> lasting xx s \<and> backlog xx s = [] \<and> unread xx s = [] \<and> reserved s = [] \<and> segmentSize s = seg \<and> files s = [1]"
proof -
  let ?new = "new_store seg maxSegs nosync every maxOpen w"
  obtain r1 s1 r2 s2 r3 s3 r4 s4 where o: "os_run os_plain ?new = (r1, s1)" "os_run os_plain s1 = (r2, s2)" "os_run tryLockDir s2 = (r3, s3)"
    "load xx ents (s3\<lparr>dirOpen := True\<rparr>) = (r4, s4)" by (metis surj_pair)
  have ld: "load xx ents (s3\<lparr>dirOpen := True\<rparr>) = (Inr v, s)"
    using r o by (auto simp: openStore_def Let_def split: sum.splits)
  let ?at = "s3\<lparr>dirOpen := True\<rparr>"
  obtain v5 s5 where 5: "os_run os_plain ?at = (Inr v5, s5)" using ld by (cases "os_run os_plain ?at") (auto simp: load_def split: sum.splits)
  obtain raw s6 where 6: "scan_dir ents s5 = (raw, s6)" by force
  have l3: "looked ?new s3" 
    using looked_trans [OF looked_trans [OF conjunct1 [OF plain_spec [OF o(1)]] conjunct1 [OF plain_spec [OF o(2)]]] conjunct1 [OF lock_spec [OF o(3)]]] .
  have l5: "looked ?at s5" by (rule conjunct1 [OF plain_spec [OF 5]])
  have l6: "looked ?at s6" using looked_trans [OF l5] scan_dir_looked [of s5 ents] 6 by simp
  have e3: "s3 = ?new\<lparr>os := os s3\<rparr>" by (rule looked_fields(7) [OF l3])
  have e6: "s6 = ?new\<lparr>dirOpen := True, os := os s6\<rparr>" using looked_fields(7) [OF l6] by (subst (asm) e3) simp
  have li: "linked (os s5) = linked w" using looked_fields(5) [OF l3] looked_fields(5) [OF l5] by (simp add: new_store_def)
  then have "dir_lists ents (os s5)" using dir by (simp add: dir_lists_def)
  from segment_nums_spec [OF this] have "set (segment_nums raw) = {}" using em li 6 by auto
  then have "segment_nums raw = []" by (simp only: set_empty)
  then have st: "startFresh xx 1 s6 = (Inr v, s)" using ld 5 6 by (simp add: load_def)
  have new: "files s6 = []" "heap s6 = zero_dataFile" "writeOff s6 = 0" "headOff s6 = 0" "commitOff s6 = 0" "lastFrameEnd s6 = 0" "block_ok s6" "dirOpen s6"
    "segmentSize s6 = seg" "settings s6 = settings ?new"
    unfolding settings_defs block_ok_def by (subst e6, simp add: new_store_def)+
  have S: "queue_ok xx s \<and> marks_ok xx s \<and> lasting xx s \<and> files s = [1] \<and> unread xx s = [] \<and> backlog xx s = [] \<and>
    commitOff s = 0 \<and> settings s = settings s6"
    by (rule startFresh_spec [OF st]) (use new seg in simp_all)
  then have "settings s = settings ?new" using new by simp
  then have "stagedBytes s = 0" "segmentSize s = seg" "pendingCorrupt s = 0" "reserved s = []"
    by (simp_all add: settings_defs new_store_def stagedBytes_def)
  moreover from this have "session_ok xx s"
    unfolding session_ok_def commit_ok_alt ledger_fit_def ledger_ok_def using S seg by (simp add: headerSize_def)
  ultimately show ?thesis using S by blast
qed

end
