(* ===== verification/Crash.thy ===== *)
theory Crash
  imports Durable_Open
begin

text \<open>
  Stopping and starting again.  A crash leaves of every live segment either its content as the
  program last wrote it or, where the store relies on it, its content as the last flush left
  it; the two may differ from segment to segment.  Opening the directory then recovers every
  record that was not committed, in order.
\<close>

section \<open>Every operation keeps what is on disk\<close>

lemma lasting_ledger [simp]: "lasting xx (s\<lparr>reserved := rs\<rparr>) = lasting xx s"
  by (rule lasting_cong) simp_all

lemma takeHead_lasting:
  assumes ok: "queue_ok xx s" and pc: "pendingCorrupt s = 0" and l: "lasting xx s" and t: "takeHead xx s = (r, s')"
  shows "lasting xx s'"
proof -
  obtain r1 s1 where 1: "read (headOff s) s = (r1, s1)" by force
  have l1: "lasting xx s1" by (rule lasting_calm [OF calm_read [OF 1] ok l])
  have "lasting xx (s1\<lparr>lastFrameAt := a, lastFrameEnd := b, headOff := c, nDelivered := d\<rparr>) = lasting xx s1" for a b c d
    by (rule lasting_cong) simp_all
  then show ?thesis using t pc 1 l1 read_head_spec [OF ok 1] by (auto simp: takeHead_def take_unreadable_def)
qed

lemma perform_lasting:
  assumes i: "session_ok xx s" and l: "lasting xx s" and a: "admits xx a s"
  shows "lasting xx (perform xx a s)"
proof -
  note D = session_okD [OF i]
  show ?thesis
  proof (cases a)
    case (DoAppend p force)
    obtain r t where t: "appendRecord xx p force s = (r, t)" by force
    have "int headerSize + framedLen (length p) < 2 ^ 63" using a DoAppend by simp
    from lasting_append [OF D(2,4) l this t] show ?thesis using DoAppend t by simp
  next
    case DoReserve
    obtain r t where t: "takeHead xx s = (r, t)" by force
    have "lasting xx t" by (rule takeHead_lasting [OF D(2,6) l t])
    then show ?thesis using DoReserve t by (auto simp: trackReserve_def Let_def dropRetired_def split: sum.splits option.splits)
  next
    case (DoAck fin)
    note d = session_drop [OF i]
    let ?s1 = "dropRetired s"
    have l1: "lasting xx ?s1" using l by (simp add: dropRetired_def)
    have "lasting xx u" if n: "findReserved fin ?s1 = Some n" and c: "commitAckedRun xx (mark_acked n ?s1) = (r, u)" for n r u
    proof -
      have "ledger_ok (reserved ?s1)" using session_okD(7) [OF d(1)] by (simp add: ledger_fit_def)
      then have nn: "n < length (reserved ?s1)" "r_end (reserved ?s1 ! n) = fin"
        using n by (simp_all add: findReserved_def Let_def split: if_splits)
      let ?m = "mark_acked n ?s1"
      note M = session_okD [OF session_mark(1) [OF d(1) nn]]
      have lm: "lasting xx ?m" using l1 by (simp add: mark_acked_def)
      have nc: "\<forall>r \<in> set (reserved ?m). \<not> r_corrupt r" using M(7) by (simp add: ledger_fit_def)
      obtain r3 s3 where 3: "commitDurable xx (ackedRunEnd ?m) True ?m = (r3, s3)" by force
      have "lasting xx s3" by (rule on_disk.commit_keeps_all [OF M(1) nc 3 lm])
      then have "lasting xx (dropRetired s3)" by (simp add: dropRetired_def)
      then show ?thesis using c lm 3 by (auto simp: commitAckedRun_def commitAckedRunDurable_def Let_def split: option.splits if_splits)
    qed
    then have "lasting xx (snd (commitAckedRun xx (mark_acked n ?s1)))" if "findReserved fin ?s1 = Some n" for n
      using that by (metis prod.collapse)
    then show ?thesis using DoAck l l1 by (auto simp: ackTo_def Let_def split: option.splits prod.splits)
  next
    case DoRewind
    have "lasting xx (s\<lparr>headOff := h\<rparr>) = lasting xx s" for h by (rule lasting_cong) simp_all
    then show ?thesis using DoRewind l by (simp add: rewindToCommit_def)
  qed
qed

lemma session_lasting:
  "session_ok xx s \<Longrightarrow> lasting xx s \<Longrightarrow> enabled_run (admits xx) (perform xx) as s \<Longrightarrow>
   session_ok xx (fold (perform xx) as s) \<and> lasting xx (fold (perform xx) as s)"
proof (induction as arbitrary: s)
  case (Cons a as)
  then have "session_ok xx (perform xx a s)" "lasting xx (perform xx a s)"
    using perform_lasting [of xx s a] session.step_inv [of xx s a] by simp_all
  then show ?case using Cons by simp
qed simp

section \<open>What a crash leaves\<close>

text \<open>
  The store relies on what the last flush of a segment left when every operation is flushed, or
  when the segment was not written since.  After the crash such a segment may read as it was
  flushed; what is on stable storage is what reads back, or still the last flush.  Past the
  records the header counts anything may follow, so the stop may come while a record is being
  written and before its header is.  The directory entry of a live segment may be gone unless the
  last directory flush put it on stable storage, or the store does not flush and only the process
  stopped; no segment that was removed comes back.
\<close>

definition flush_counts :: "store \<Rightarrow> nat \<Rightarrow> bool" where
  "flush_counts s n \<longleftrightarrow> perOp s \<or> \<not> df_dirty (heap s n)"

definition dir_left :: "store \<Rightarrow> os \<Rightarrow> bool" where
  "dir_left s w \<longleftrightarrow> (\<forall>n < 2 ^ 64. (linked w n \<longrightarrow> n \<in> set (files s) \<and> stable_dir w n) \<and>
     (n \<in> set (files s) \<and> (noSync s \<or> stable_dir (os s) n) \<longrightarrow> linked w n))"

text \<open>While no failure is latched, every live segment is still in the directory.\<close>

lemma dir_left_all:
  assumes "lasting xx s" "ioErr s = None" "dir_left s w"
  shows "\<forall>n < 2 ^ 64. linked w n \<longleftrightarrow> n \<in> set (files s)" "\<forall>n \<in> set (files s). linked w n \<and> stable_dir w n"
proof -
  have e: "entered s" and p: "placed s" using lastingD(1,2) [OF assms(1)] assms(2) by simp_all
  show a: "\<forall>n < 2 ^ 64. linked w n \<longleftrightarrow> n \<in> set (files s)" using e assms(3) by (auto simp: entered_def dir_left_def)
  show "\<forall>n \<in> set (files s). linked w n \<and> stable_dir w n" using a p assms(3) by (auto simp: placed_def dir_left_def)
qed

definition reads_as :: "store \<Rightarrow> nat \<Rightarrow> bytes \<Rightarrow> bytes \<Rightarrow> bool" where
  "reads_as s n c c' \<longleftrightarrow> take (headerSize + nat (df_size (heap s n))) c = take (headerSize + nat (df_size (heap s n))) c'"

definition crashed :: "store \<Rightarrow> os \<Rightarrow> bool" where
  "crashed s w \<longleftrightarrow> dir_left s w \<and> (\<forall>n \<in> set (files s).
     (reads_as s n (inode w n) (inode (os s) n) \<or> flush_counts s n \<and> reads_as s n (inode w n) (stable (os s) n)) \<and>
     (reads_as s n (stable w n) (inode w n) \<or> flush_counts s n \<and> reads_as s n (stable w n) (stable (os s) n)))"

lemma reads_as_snap:
  assumes r: "reads_as s n c c'" and f: "file_ok xx s n" and sn: "snap xx seg (recs_of xx s n) b c'"
  shows "snap xx seg (recs_of xx s n) b c"
proof -
  let ?fr = "frames xx (recs_of xx s n)"
  obtain k rest where k: "int k \<le> b" "hdr_says xx seg (take headerSize c') (recs_of xx s n) k" "drop headerSize c' = ?fr @ rest"
    using sn by (auto simp: snap_def)
  have z: "nat (df_size (heap s n)) = length ?fr" using file_ok_data [OF f] by simp
  have t: "take (headerSize + length ?fr) c = take (headerSize + length ?fr) c'" using r by (simp add: reads_as_def z)
  have "take headerSize c = take headerSize c'" using arg_cong [OF t, of "take headerSize"] by simp
  moreover have "take (length ?fr) (drop headerSize c) = ?fr"
    using arg_cong [OF t, of "drop headerSize"] k(3) by (simp add: take_drop_eq drop_take)
  then have "drop headerSize c = ?fr @ drop (length ?fr) (drop headerSize c)" by (metis append_take_drop_id)
  ultimately show ?thesis using k(1,2) unfolding snap_def by metis
qed

text \<open>The process stopped, the machine did not.\<close>

definition stopped :: "store \<Rightarrow> os \<Rightarrow> bool" where
  "stopped s w \<longleftrightarrow> crashed s w \<and> (\<forall>n \<in> set (files s). reads_as s n (inode w n) (inode (os s) n))"

text \<open>How many records the recovered cursor passes.\<close>

fun skipped :: "image \<Rightarrow> nat" where
  "skipped [] = 0"
| "skipped ((n, ps, k) # img) = (if k < length ps then k else length ps + skipped img)"

lemma uncommitted_skipped:
  "\<forall>(n, ps, k) \<in> set img. k \<le> length ps \<Longrightarrow> uncommitted img = drop (skipped img) (payloads img)"
  by (induction img rule: skipped.induct) auto

lemma chain_sorted: "chain c at fl w \<Longrightarrow> sorted_wrt (\<lambda>x y. fst x < fst y) fl"
proof (induction fl arbitrary: at)
  case (Cons x fl)
  obtain q p where x: "x = (q, p)" by force
  have c: "chain c (q + framedLen (length p)) fl w" using Cons.prems x by simp
  have "q < q'" if "(q', p') \<in> set fl" for q' p'
    using chain_bounds [OF c that] framedLen_gt0 [of "length p"] by linarith
  then show ?case using Cons.IH [OF c] x by auto
qed simp

lemma sorted_cut:
  "sorted_wrt (\<lambda>x y. fst x < fst y) fl \<Longrightarrow> fl = filter (\<lambda>x. fst x < (c :: int)) fl @ filter (\<lambda>x. c \<le> fst x) fl"
proof (induction fl)
  case (Cons x fl)
  show ?case
  proof (cases "fst x < c")
    case True
    then show ?thesis using Cons by simp
  next
    case False
    then have "filter (\<lambda>x. fst x < c) fl = []" "filter (\<lambda>x. c \<le> fst x) fl = fl"
      using Cons.prems by (auto simp: filter_empty_conv filter_id_conv)
    then show ?thesis using False by simp
  qed
qed simp

lemma skipped_below:
  "\<forall>n \<in> set ns. int (K n) \<le> done_in xx s n c \<Longrightarrow>
   skipped (map (\<lambda>n. (n, recs_of xx s n, K n)) ns) \<le> length (filter (\<lambda>x. fst x < c) (concat (map (seg_flat xx s) ns)))"
proof (induction ns)
  case (Cons n ns)
  let ?D = "length (filter (\<lambda>x. fst x < c) (seg_flat xx s n))"
  have len: "length (recs_of xx s n) = length (seg_flat xx s n)" by (simp add: seg_flat_def)
  have k: "K n \<le> ?D" using Cons.prems by (simp add: done_in_def)
  have "?D = length (recs_of xx s n)" if "\<not> K n < length (recs_of xx s n)"
    using that k length_filter_le [of "\<lambda>x. fst x < c" "seg_flat xx s n"] len by linarith
  moreover have "skipped (map (\<lambda>n. (n, recs_of xx s n, K n)) ns) \<le> length (filter (\<lambda>x. fst x < c) (concat (map (seg_flat xx s) ns)))"
    using Cons by simp
  ultimately show ?case using k by auto
qed simp

lemma skipped_exact:
  assumes "sorted_wrt (\<lambda>x y. fst x < fst y) (concat (map (seg_flat xx s) ns))" "\<forall>n \<in> set ns. int (K n) = done_in xx s n c"
  shows "skipped (map (\<lambda>n. (n, recs_of xx s n, K n)) ns) = length (filter (\<lambda>x. fst x < c) (concat (map (seg_flat xx s) ns)))"
  using assms
proof (induction ns)
  case (Cons n ns)
  let ?D = "length (filter (\<lambda>x. fst x < c) (seg_flat xx s n))" and ?R = "concat (map (seg_flat xx s) ns)"
  have len: "length (recs_of xx s n) = length (seg_flat xx s n)" by (simp add: seg_flat_def)
  have so: "sorted_wrt (\<lambda>x y. fst x < fst y) ?R" using Cons.prems by (simp add: sorted_wrt_append)
  have k: "K n = ?D" using Cons.prems by (simp add: done_in_def)
  have IH: "skipped (map (\<lambda>n. (n, recs_of xx s n, K n)) ns) = length (filter (\<lambda>x. fst x < c) ?R)"
    using Cons.IH so Cons.prems by simp
  show ?case
  proof (cases "K n < length (recs_of xx s n)")
    case True
    then have "?D < length (seg_flat xx s n)" using k len by simp
    then obtain x where x: "x \<in> set (seg_flat xx s n)" "\<not> fst x < c"
      using filter_True [of "seg_flat xx s n" "\<lambda>x. fst x < c"] by fastforce
    have "\<not> fst y < c" if "y \<in> set ?R" for y
    proof -
      have "\<forall>x \<in> set (seg_flat xx s n). \<forall>y \<in> set ?R. fst x < fst y"
        using Cons.prems(1) unfolding list.map concat.simps sorted_wrt_append by blast
      then have "fst x < fst y" using x(1) that by blast
      then show ?thesis using x(2) by simp
    qed
    then have "filter (\<lambda>x. fst x < c) ?R = []" by (simp only: filter_empty_conv) blast
    then show ?thesis using True k by simp
  next
    case False
    then have "?D = length (recs_of xx s n)" using k length_filter_le [of "\<lambda>x. fst x < c" "seg_flat xx s n"] len by linarith
    then show ?thesis using IH False by simp
  qed
qed simp

lemma payloads_map: "payloads (map (\<lambda>n. (n, recs_of xx s n, K n)) ns) = map snd (concat (map (seg_flat xx s) ns))"
  by (induction ns) (simp_all add: seg_flat_def)

lemma marked_says:
  assumes "marked xx c s n" "hdr_says xx seg (df_hdr (heap s n)) ps k"
  shows "int k = done_in xx s n c"
  using assms by (simp add: marked_def hdr_says_def)

lemma crash_image:
  assumes i: "session_ok xx s" and l: "lasting xx s" and e: "ioErr s = None" and ne: "files s \<noteq> []" and w: "crashed s w"
  obtains img extra where "image_of xx (segmentSize s) img w" "uncommitted img = extra @ backlog xx s" "stopped s w \<longrightarrow> extra = []"
    "\<forall>(n, ps, k) \<in> set img. snap xx (segmentSize s) ps (int k) (stable w n) \<and> stable_dir w n"
proof -
  note D = session_okD [OF i]
  let ?c = "commitOff s" and ?seg = "segmentSize s"
  have ok: "file_ok xx s n" and so: "sound xx s n" and mk: "marked xx ?c s n" if "n \<in> set (files s)" for n
    using that queue_okD(1) [OF D(2)] l e D(3) by (simp_all add: lasting_def marks_ok_def)
  have "\<exists>k. int k \<le> done_in xx s n ?c \<and> holds xx ?seg w (n, recs_of xx s n, k) \<and> (reads_as s n (inode w n) (inode (os s) n) \<longrightarrow> int k = done_in xx s n ?c) \<and>
      snap xx ?seg (recs_of xx s n) (int k) (stable w n)"
    if n: "n \<in> set (files s)" for n
  proof -
    let ?S = "snap xx ?seg (recs_of xx s n)" and ?b = "committedCount (df_hdr (heap s n))"
    have cr: "reads_as s n (inode w n) (inode (os s) n) \<or> flush_counts s n \<and> reads_as s n (inode w n) (stable (os s) n)"
      "reads_as s n (stable w n) (inode w n) \<or> flush_counts s n \<and> reads_as s n (stable w n) (stable (os s) n)"
      using w n by (simp_all add: crashed_def)
    have now: "?S ?b (inode (os s) n)" by (rule sound_snap [OF file_ok_data(1) [OF ok [OF n]] so [OF n]])
    have fl: "flush_counts s n \<Longrightarrow> ?S ?b (stable (os s) n)" using so [OF n] by (simp add: sound_def flushed_def flush_counts_def)
    note tr = reads_as_snap [OF _ ok [OF n]]
    have sn: "?S ?b (inode w n)" using cr(1) now tr [of "inode w n" "inode (os s) n"] tr [of "inode w n" "stable (os s) n"] fl by blast
    then obtain k rest where k: "int k \<le> ?b" "hdr_says xx ?seg (take headerSize (inode w n)) (recs_of xx s n) k"
      "drop headerSize (inode w n) = frames xx (recs_of xx s n) @ rest" by (auto simp: snap_def)
    have self: "?S (int k) (inode w n)" using k(2,3) by (auto simp: snap_def)
    have cc: "?b = done_in xx s n ?c" using mk [OF n] by (simp add: marked_def)
    have "linked w n" using dir_left_all(2) [OF l e] w n by (simp add: crashed_def)
    moreover have ex: "int k = done_in xx s n ?c" if "reads_as s n (inode w n) (inode (os s) n)"
    proof -
      have "take headerSize (inode w n) = take headerSize (inode (os s) n)"
        using arg_cong [OF that [unfolded reads_as_def], of "take headerSize"] by simp
      then have "take headerSize (inode w n) = df_diskHeader (heap s n)" "hv xx (df_diskHeader (heap s n)) = hv xx (df_hdr (heap s n))"
        using so [OF n] by (simp_all add: sound_def on_disk_def in_sync_def)
      then have "hdr_says xx ?seg (df_hdr (heap s n)) (recs_of xx s n) k" using k(2) hdr_says_hv by metis
      then show ?thesis by (rule marked_says [OF mk [OF n]])
    qed
    moreover have "?S (int k) (stable w n)"
    proof (cases "reads_as s n (stable w n) (inode w n)")
      case True
      then show ?thesis using tr self by blast
    next
      case False
      then have st: "flush_counts s n" "reads_as s n (stable w n) (stable (os s) n)" using cr(2) by simp_all
      then have "?S ?b (stable w n)" using tr fl by blast
      moreover have "int k = ?b" if "reads_as s n (inode w n) (inode (os s) n)" using ex [OF that] cc by simp
      moreover have "reads_as s n (stable w n) (inode w n)" if "reads_as s n (inode w n) (stable (os s) n)"
        using that st(2) by (simp add: reads_as_def)
      ultimately show ?thesis using False cr(1) by metis
    qed
    ultimately show ?thesis using k cc by (auto simp: holds_def page_def)
  qed
  then obtain K where K: "\<And>n. n \<in> set (files s) \<Longrightarrow> int (K n) \<le> done_in xx s n ?c \<and> holds xx ?seg w (n, recs_of xx s n, K n) \<and>
      (reads_as s n (inode w n) (inode (os s) n) \<longrightarrow> int (K n) = done_in xx s n ?c) \<and> snap xx ?seg (recs_of xx s n) (int (K n)) (stable w n)" by metis
  define img where "img = map (\<lambda>n. (n, recs_of xx s n, K n)) (files s)"
  have fst: "map fst img = files s" by (simp add: img_def comp_def)
  then have fs: "fst ` set img = set (files s)" by (metis list.set_map)
  have im: "image_of xx ?seg img w"
    unfolding image_of_def fst fs using l dir_left_all(1) [OF l e] w ne K by (auto simp: lasting_def placed_def crashed_def img_def)
  obtain at where "chain ?c at (flat xx s) (writeOff s)" using flat_chain [OF D(2)] .
  then have sorted: "sorted_wrt (\<lambda>x y. fst x < fst y) (concat (map (seg_flat xx s) (files s)))"
    using chain_sorted unfolding flat_def by blast
  let ?lo = "filter (\<lambda>x. fst x < ?c) (flat xx s)" and ?hi = "filter (\<lambda>x. ?c \<le> fst x) (flat xx s)"
  have cut: "flat xx s = ?lo @ ?hi" by (rule sorted_cut) (use sorted in \<open>simp add: flat_def\<close>)
  have bl: "backlog xx s = map snd ?hi" by (simp add: backlog_def from_off_def case_prod_unfold)
  have pay: "payloads img = map snd ?lo @ map snd ?hi" unfolding img_def payloads_map flat_def [symmetric] by (subst cut) simp
  have "skipped img \<le> length ?lo" unfolding img_def flat_def by (rule skipped_below) (use K in simp)
  moreover have kl: "K n \<le> length (recs_of xx s n)" if "n \<in> set (files s)" for n using K [OF that] holds_le by blast
  have "uncommitted img = drop (skipped img) (payloads img)"
    by (rule uncommitted_skipped) (use kl in \<open>auto simp: img_def\<close>)
  ultimately have un: "uncommitted img = drop (skipped img) (map snd ?lo) @ backlog xx s" by (simp add: pay bl)
  have "skipped img = length ?lo" if "stopped s w"
    unfolding img_def flat_def by (rule skipped_exact [OF sorted]) (use K that in \<open>auto simp: stopped_def\<close>)
  moreover have "\<forall>(n, ps, k) \<in> set img. snap xx ?seg ps (int k) (stable w n) \<and> stable_dir w n"
    using K dir_left_all(2) [OF l e] w by (auto simp: img_def crashed_def)
  ultimately show ?thesis using that [OF im un] by simp
qed

section \<open>Opening after a crash\<close>

lemma crash_untouched:
  assumes "untouched xx img w" "(n, ps, k) \<in> set img"
  shows "linked w n \<and> (\<exists>rest. drop headerSize (inode w n) = frames xx ps @ rest)"
  using assms by (auto simp: untouched_def)

lemma reopen_core:
  assumes i: "session_ok xx s" and l: "lasting xx s" and e: "ioErr s = None" and w: "crashed s w" and dir: "dir_lists ents w"
    and r: "openStore xx ents (segmentSize s) maxSegs nosync every maxOpen w = (r, t)"
  shows "(r = Inr () \<and> session_ok xx t \<and> lasting xx t \<and> reserved t = [] \<and> unread xx t = backlog xx t \<and>
      (\<exists>extra. backlog xx t = extra @ backlog xx s \<and> (stopped s w \<longrightarrow> extra = []))) \<or>
    (\<exists>e. r = Inl e) \<and> (files s = [] \<or> script w \<noteq> [])"
proof (cases "files s = []")
  case True
  then have em: "\<forall>n < 2 ^ 64. \<not> linked w n" using w by (simp add: crashed_def dir_left_def)
  have seg: "0 \<le> segmentSize s" "segmentSize s < 2 ^ 48" using l by (simp_all add: lasting_def placed_def)
  have "backlog xx s = []" using True by (simp add: backlog_def flat_def from_off_def)
  then show ?thesis using openStore_fresh [OF em dir seg, of xx maxSegs nosync every maxOpen _ t] r True
    by (cases r) auto
next
  case False
  obtain img extra where im: "image_of xx (segmentSize s) img w" "uncommitted img = extra @ backlog xx s" "stopped s w \<longrightarrow> extra = []"
    "\<forall>(n, ps, k) \<in> set img. snap xx (segmentSize s) ps (int k) (stable w n) \<and> stable_dir w n"
    by (rule crash_image [OF i l e False w])
  have seg: "0 \<le> segmentSize s" "segmentSize s < 2 ^ 48" "int headerSize + segmentSize s < 2 ^ 63"
    using l session_okD(5) [OF i] by (simp_all add: lasting_def placed_def)
  from openStore_stages [OF im(1) dir seg(3) r] show ?thesis
  proof
    assume a: "r = Inr () \<and> session_ok xx t \<and> backlog xx t = uncommitted img \<and> unread xx t = uncommitted img \<and>
      store_count t = int (length (uncommitted img)) \<and> reserved t = [] \<and>
      (\<exists>u. standing xx img u \<and> mending u t \<and> segmentSize u = segmentSize s \<and> opened xx img w u t) \<and> (script w = [] \<longrightarrow> healthy t)"
    then obtain u where "standing xx img u" "mending u t" "segmentSize u = segmentSize s" "opened xx img w u t" by blast
    then have "lasting xx t" using opened_lasting [OF im(1) _ _ _ seg(1,2)] im(4) by blast
    then show ?thesis using a im(2,3) by auto
  qed blast
qed

section \<open>Properties\<close>

text \<open>
  C4: a crash loses no record that was not acknowledged.  Start from a well formed queue whose
  segments are sound on disk (\<open>lasting\<close>: what counts as flushed really is on stable storage, entries
  included, as after opening a directory whose files and entries were flushed, or an empty one).
  Run any sequence of appends,
  reservations, acknowledgements and rewinds, under any pattern of I/O failures that latched no
  durability failure, as long as no append leaves the queue stranded (the first finding) and no
  record is within a header of the largest file size; then stop.  Every segment reads back as it
  was last written or, where flushes count, as it was last flushed, each segment independently of
  the others, and that is what stable storage holds; an entry the last directory flush did not
  put there may be gone, unless the store does not flush; a removed segment stays removed.  So in
  the modes that flush late, segments not flushed since they were written are taken to read as
  written, and a crash of the machine is covered for per-operation durability.  Opening the
  directory then gives a well formed queue that holds every record of the log, in order: what had
  left the log had been acknowledged, every record an append reported as appended had joined it,
  and at most some records that were already committed come first again.  None does when only the
  process stopped.  Opening can only fail when the disk does or no segment was left.
\<close>

theorem crash_recovers:
  fixes xx s as
  defines "s' \<equiv> fold (perform xx) as s"
  assumes "session_ok xx s" "lasting xx s" "enabled_run (admits xx) (perform xx) as s"
    and "ioErr s' = None" "crashed s' w" "dir_lists ents w"
    and "openStore xx ents (segmentSize s') maxSegs nosync every maxOpen w = (r, t)"
  shows "(r = Inr () \<and> session_ok xx t \<and> lasting xx t \<and>
      (\<exists>gone new extra. log_of xx s @ new = gone @ log_of xx s' \<and> subseq (map snd new) (concat (map offer as)) \<and>
         subseq (given_run (accepted xx) (perform xx) as s) (map snd new) \<and> fst ` set gone \<subseteq> pending_of s \<union> (\<Union>a \<in> set as. acks_of a) \<and>
         unread xx t = extra @ map snd (log_of xx s') \<and> (stopped s' w \<longrightarrow> extra = []))) \<or>
    (\<exists>e. r = Inl e) \<and> (files s' = [] \<or> script w \<noteq> [])"
proof -
  have k: "session_ok xx s'" "lasting xx s'" using session_lasting [OF assms(2-4)] by (simp_all add: s'_def)
  obtain gone new where g: "log_of xx s @ new = gone @ log_of xx s'" "subseq (map snd new) (concat (map offer as))"
    "subseq (given_run (accepted xx) (perform xx) as s) (map snd new)" "fst ` set gone \<subseteq> pending_of s \<union> (\<Union>a \<in> set as. acks_of a)"
    using session.run_log [OF assms(2,4)] unfolding s'_def by metis
  have "map snd (log_of xx s') = backlog xx s'" by (simp add: log_of_def)
  then show ?thesis using reopen_core [OF k assms(5-8)] g by metis
qed

text \<open>The two segments of \<open>sample_disk\<close>, flushed; their opened store; one append; what is then on disk.\<close>

definition sample_flushed :: os where
  "sample_flushed = sample_disk\<lparr>stable := inode sample_disk, stable_dir := linked sample_disk\<rparr>"

definition sample_entries :: "(string \<times> bool) list" where
  "sample_entries = [(filePath 1, False), (filePath 2, False)]"

definition sample_open :: "bool \<Rightarrow> store" where
  "sample_open nosync = snd (openStore (\<lambda>_. 5) sample_entries 4096 0 nosync 1 3 sample_flushed)"

abbreviation sample_opened :: store where
  "sample_opened \<equiv> sample_open False"

lemma sample_open_ok:
  fixes nosync :: bool
  defines "o1 \<equiv> sample_open nosync"
  shows "session_ok (\<lambda>_. 5) o1" "lasting (\<lambda>_. 5) o1" "healthy o1" "backlog (\<lambda>_. 5) o1 = [[3], [4]]"
  "segmentSize o1 = 4096" "files o1 = [1, 2]" "df_size (heap o1 2) = 10" "df_capacity (heap o1 2) = 4096"
proof -
  have same: "inode sample_flushed = inode sample_disk" "linked sample_flushed = linked sample_disk" "stable sample_flushed = inode sample_disk"
    "script sample_flushed = []" "stable_dir sample_flushed = linked sample_disk" by (simp_all add: sample_flushed_def sample_disk_def os_empty_def)
  have im: "image_of (\<lambda>_. 5) 4096 sample_image sample_flushed"
    using sample_image_of by (simp add: image_of_def holds_def page_def same)
  have dir: "dir_lists sample_entries sample_flushed"
    using filePath_inj [of _ 1] filePath_inj [of _ 2] by (auto simp: dir_lists_def sample_flushed_def sample_disk_def sample_entries_def)
  have "snap (\<lambda>_. 5) 4096 ps (int k) (stable sample_flushed n)" if "(n, ps, k) \<in> set sample_image" for n ps k
  proof -
    have "holds (\<lambda>_. 5) 4096 sample_flushed (n, ps, k)" using im that by (auto simp: image_of_def)
    then show ?thesis using holdsD(2) [of "\<lambda>_. 5" 4096 sample_flushed n ps k] by (auto simp: snap_def holds_def page_def same)
  qed
  moreover have "stable_dir sample_flushed n" if "(n, ps, k) \<in> set sample_image" for n ps k
    using im that by (auto simp: image_of_def holds_def same)
  ultimately have st: "\<forall>(n, ps, k) \<in> set sample_image. snap (\<lambda>_. 5) 4096 ps (int k) (stable sample_flushed n) \<and> stable_dir sample_flushed n"
    by blast
  from openStore_stages [OF im dir _ surjective_pairing, of 0 nosync 1 3, folded sample_open_def, folded o1_def]
  obtain u where u: "session_ok (\<lambda>_. 5) o1" "backlog (\<lambda>_. 5) o1 = uncommitted sample_image" "healthy o1"
    "standing (\<lambda>_. 5) sample_image u" "mending u o1" "segmentSize u = 4096" "opened (\<lambda>_. 5) sample_image sample_flushed u o1"
    by (auto simp: same headerSize_def)
  show "session_ok (\<lambda>_. 5) o1" "healthy o1" by (rule u)+
  show "backlog (\<lambda>_. 5) o1 = [[3], [4]]" by (simp add: u(2) sample_image_def)
  show "lasting (\<lambda>_. 5) o1" by (rule opened_lasting [OF im u(4-6) _ _ u(7) st]) simp_all
  have al: "alike u o1" using u(5) by (simp add: mending_def)
  show "segmentSize o1 = 4096" using alikeD(8) [OF al] u(6) by (simp add: options_def)
  show "files o1 = [1, 2]" using alikeD(1) [OF al] u(4) by (simp add: standing_def sample_image_def)
  obtain b sz c where "heap u 2 = (loaded 2 b sz (page sample_flushed 2))\<lparr>df_committed := c\<rparr>"
    using u(7) by (auto simp: opened_def sample_image_def)
  moreover have "page sample_flushed 2 = sample_header 74 1 74 1"
    using sample_header_says(1) [of 74 1 74 1] by (simp add: page_def same sample_disk_def headerSize_def is_i64_def)
  ultimately have "df_size (heap u 2) = 10" "df_capacity (heap u 2) = 4096"
    using sample_header_says [of 74 1 74 1] by (simp_all add: loaded_def headerSize_def is_i64_def)
  then show "df_size (heap o1 2) = 10" "df_capacity (heap o1 2) = 4096" using alike_flat(5,6) [OF al] by simp_all
qed

lemmas sample_opened_ok = sample_open_ok [of False]

lemma sample_appended:
  fixes nosync :: bool
  defines "s' \<equiv> perform (\<lambda>_. 5) (DoAppend [9, 9] True) (sample_open nosync)"
  shows "admits (\<lambda>_. 5) (DoAppend [9, 9] True) (sample_open nosync)" "healthy s'" "backlog (\<lambda>_. 5) s' = [[3], [4], [9, 9]]"
proof -
  note S = sample_open_ok [of nosync]
  note D = session_okD [OF S(1)]
  have "0 < int (length (frames (\<lambda>_. 5) (backlog (\<lambda>_. 5) (sample_open nosync))))" by (simp add: S(4) length_frame framedLen_gt0 add_pos_pos)
  then have cw: "commitOff (sample_open nosync) < writeOff (sample_open nosync)" using token_frames(1) [OF D(2)] by linarith
  have len: "framedLen (length [9, 9 :: byte]) = 11" "framedLen (length [9, 9 :: byte]) \<le> maxFramedLen" by code_simp+
  then show "admits (\<lambda>_. 5) (DoAppend [9, 9] True) (sample_open nosync)" by (intro admits_uncommitted [OF S(1) cw]) (simp add: headerSize_def)
  have "\<not> needsCycle (framedLen (length [9, 9 :: byte])) (sample_open nosync)"
    using S(6-8) D(4) len(1) by (simp add: needsCycle_def active_def)
  then show "healthy s'" "backlog (\<lambda>_. 5) s' = [[3], [4], [9, 9]]"
    using append_live [OF D(2,4) _ S(3) len(2), of True] S(4,5) by (auto simp: s'_def)
qed

definition sample_after :: store where
  "sample_after = perform (\<lambda>_. 5) (DoAppend [9, 9] True) sample_opened"

definition sample_listed :: "(string \<times> bool) list" where
  "sample_listed = map (\<lambda>n. (filePath n, False)) (files sample_after)"

definition sample_left :: os where
  "sample_left = (os sample_after)\<lparr>linked := (\<lambda>n. n \<in> set (files sample_after)), stable := inode (os sample_after),
     stable_dir := (\<lambda>n. n \<in> set (files sample_after))\<rparr>"

lemma sample_stopped:
  "enabled_run (admits (\<lambda>_. 5)) (perform (\<lambda>_. 5)) [DoAppend [9, 9] True] sample_opened" "ioErr sample_after = None" "crashed sample_after sample_left"
  "stopped sample_after sample_left" "dir_lists sample_listed sample_left" "script sample_left = []" "files sample_after \<noteq> []"
  "backlog (\<lambda>_. 5) sample_after = [[3], [4], [9, 9]]"
proof -
  note A = sample_appended [of False, folded sample_after_def]
  show en: "enabled_run (admits (\<lambda>_. 5)) (perform (\<lambda>_. 5)) [DoAppend [9, 9] True] sample_opened" using A(1) by (simp del: perform.simps admits.simps)
  have "placed sample_after"
    using session_lasting [OF sample_opened_ok(1,2) en] by (simp add: lasting_def sample_after_def del: perform.simps)
  then show "dir_lists sample_listed sample_left"
    using filePath_inj by (force simp: dir_lists_def placed_def sample_listed_def sample_left_def)
  show "crashed sample_after sample_left" "stopped sample_after sample_left"
    by (simp_all add: stopped_def crashed_def dir_left_def reads_as_def sample_left_def)
  show "ioErr sample_after = None" "script sample_left = []" using A(2) by (simp_all add: healthy_def sample_left_def)
  show "backlog (\<lambda>_. 5) sample_after = [[3], [4], [9, 9]]" by (rule A(3))
  then show "files sample_after \<noteq> []" by (auto simp: backlog_def flat_def from_off_def)
qed

theorem crash_recovers_witness:
  "\<exists>t. openStore (\<lambda>_. 5) sample_listed (segmentSize sample_after) 0 False 1 3 sample_left = (Inr (), t) \<and>
    session_ok (\<lambda>_. 5) t \<and> lasting (\<lambda>_. 5) t \<and> unread (\<lambda>_. 5) t = [[3], [4], [9, 9]]"
proof -
  note S = sample_stopped
  have f: "fold (perform (\<lambda>_. 5)) [DoAppend [9, 9] True] sample_opened = sample_after" by (simp add: sample_after_def del: perform.simps)
  have "map snd (log_of (\<lambda>_. 5) sample_after) = [[3], [4], [9, 9]]" using S(8) by (simp add: log_of_def)
  then show ?thesis
    using crash_recovers [OF sample_opened_ok(1,2) S(1), unfolded f, OF S(2,3,5) surjective_pairing, of 0 False 1 3] S(4,6,7)
    by (auto simp: prod_eq_iff)
qed

end
