(* ===== verification/Lifetime.thy ===== *)
theory Lifetime
  imports Crash
begin

text \<open>
  The life of a queue directory: sessions of operations with crashes and restarts between them.
  The relation \<open>life\<close> is the set of states one life can reach; its indices collect what was
  offered and what was acknowledged, the acknowledgements with the number of their session,
  since offsets start anew when the directory is opened.
\<close>

section \<open>The tokens of a log\<close>

lemma tokens_above: "x \<in> set (tokens b ps) \<Longrightarrow> b < fst x"
proof -
  assume "x \<in> set (tokens b ps)"
  then obtain q p where "(q, p) \<in> set (offs b ps)" "x = (q + framedLen (length p), p)" by (auto simp: tokens_def)
  then show ?thesis using offs_from [of q p b ps] framedLen_gt0 [of "length p"] by (simp del: framedLen_gt0)
qed

lemma tokens_distinct: "distinct (map fst (tokens b ps))"
proof (induction ps arbitrary: b)
  case (Cons p ps)
  have "tokens b (p # ps) = (b + framedLen (length p), p) # tokens (b + framedLen (length p)) ps" by (simp add: tokens_def)
  moreover have "b + framedLen (length p) \<notin> fst ` set (tokens (b + framedLen (length p)) ps)" using tokens_above by fastforce
  ultimately show ?case using Cons by simp
qed (simp add: tokens_def)

text \<open>What one step lets go carries tokens above the old cursor, all different.\<close>

lemma perform_released:
  assumes "session_ok xx s" "admits xx a s"
  obtains gone new :: "(int \<times> bytes) list" where "backlog xx s @ map snd new = map snd gone @ backlog xx (perform xx a s)" "subseq (map snd new) (offer a)" "subseq (accepted xx a s) (map snd new)"
    "fst ` set gone \<subseteq> pending_of s \<union> acks_of a" "distinct (map fst gone)" "commitOff s \<le> commitOff (perform xx a s)"
    "\<forall>x \<in> set gone. commitOff s < fst x \<and> fst x \<le> commitOff (perform xx a s)"
proof -
  obtain gone new where g: "log_of xx s @ new = gone @ log_of xx (perform xx a s)" "subseq (map snd new) (offer a)"
    "fst ` set gone \<subseteq> pending_of s \<union> acks_of a" "subseq (accepted xx a s) (map snd new)" "released s (perform xx a s) gone" "gone = [] \<or> new = []"
    using perform_log [OF assms] by metis
  have "map snd (log_of xx s @ new) = map snd (gone @ log_of xx (perform xx a s))" using g(1) by simp
  then have b: "backlog xx s @ map snd new = map snd gone @ backlog xx (perform xx a s)" by (simp add: log_of_def)
  have pre: "gone = [] \<or> (\<exists>rest. tokens (commitOff s) (backlog xx s) = gone @ rest)" using g(1,6) by (auto simp: log_of_def)
  then have "distinct (map fst gone)" using tokens_distinct [of "commitOff s" "backlog xx s"] by auto
  moreover have "\<forall>x \<in> set gone. commitOff s < fst x" 
  proof
    fix x assume "x \<in> set gone"
    then have "x \<in> set (tokens (commitOff s) (backlog xx s))" using pre by auto
    then show "commitOff s < fst x" by (rule tokens_above)
  qed
  moreover have "commitOff s \<le> commitOff (perform xx a s)" "\<forall>x \<in> set gone. fst x \<le> commitOff (perform xx a s)"
    using g(5) by (simp_all add: released_def)
  ultimately show ?thesis using that [OF b g(2,4,3)] by blast
qed

section \<open>Lives\<close>

inductive life :: "hash \<Rightarrow> store \<Rightarrow> bytes list \<Rightarrow> bytes list \<Rightarrow> (nat \<times> int) set \<Rightarrow> nat \<Rightarrow> store \<Rightarrow> bool" for xx s0 where
  start: "life xx s0 [] [] (Pair 0 ` pending_of s0) 0 s0"
| oper: "life xx s0 off acc A i s \<Longrightarrow> admits xx a s \<Longrightarrow>
    life xx s0 (off @ offer a) (acc @ accepted xx a s) (A \<union> Pair i ` acks_of a) i (perform xx a s)"
| restart: "life xx s0 off acc A i s \<Longrightarrow> ioErr s = None \<Longrightarrow> crashed s w \<Longrightarrow> dir_lists ents w \<Longrightarrow>
    openStore xx ents (segmentSize s) maxSegs nosync every maxOpen w = (Inr (), t) \<Longrightarrow> life xx s0 off acc A (Suc i) t"

text \<open>What has left the queue for good, what it keeps, and what comes again.\<close>

definition balanced :: "bytes list \<Rightarrow> bytes list \<Rightarrow> bytes list \<Rightarrow> (nat \<times> int) set \<Rightarrow> nat \<Rightarrow> int \<Rightarrow> bytes list \<Rightarrow> bool" where
  "balanced first off acc A i c now \<longleftrightarrow> (\<exists>new gone kept extra. first @ new = map snd gone @ kept \<and> now = extra @ kept \<and> subseq new off \<and> subseq acc new \<and>
     fst ` set gone \<subseteq> A \<and> distinct (map fst gone) \<and> (\<forall>x \<in> fst ` set gone. fst x < i \<or> fst x = i \<and> snd x \<le> c))"

lemma balanced_step:
  assumes b: "balanced first off acc A i c now" and n: "now @ N = map snd g @ now'" and N: "subseq N ps" "subseq qs N"
    and g: "fst ` set g \<subseteq> T" "distinct (map fst g)" "\<forall>x \<in> set g. c < fst x \<and> fst x \<le> c'" and c: "c \<le> c'"
    and T: "Pair i ` T \<subseteq> A'" "A \<subseteq> A'"
  shows "balanced first (off @ ps) (acc @ qs) A' i c' now'"
proof -
  obtain new gone kept extra where B: "first @ new = map snd gone @ kept" "now = extra @ kept" "subseq new off"
    "fst ` set gone \<subseteq> A" "distinct (map fst gone)" "\<forall>x \<in> fst ` set gone. fst x < i \<or> fst x = i \<and> snd x \<le> c"
    "subseq acc new" using b by (auto simp: balanced_def)
  have sub: "subseq (new @ N) (off @ ps)" by (rule list_emb_append_mono [OF B(3) N(1)])
  have sup: "subseq (acc @ qs) (new @ N)" by (rule list_emb_append_mono [OF B(7) N(2)])
  have old: "\<forall>x \<in> fst ` set gone. fst x < i \<or> fst x = i \<and> snd x \<le> c'" using B(6) c by force
  have cut: "extra @ (kept @ N) = map snd g @ now'" using n B(2) by simp
  from cut consider (some) ex where "extra = map snd g @ ex" "now' = ex @ kept @ N"
    | (all) p2 where "map snd g = extra @ p2" "kept @ N = p2 @ now'"
    unfolding append_eq_append_conv2 [of extra] by metis
  then show ?thesis
  proof cases
    case some
    then show ?thesis unfolding balanced_def using B(1,4,5) T(2) sub sup old
      by (intro exI [of _ "new @ N"] exI [of _ gone] exI [of _ "kept @ N"] exI [of _ ex]) auto
  next
    case all
    obtain g1 g2 where gg: "g = g1 @ g2" "map snd g1 = extra" "map snd g2 = p2" using all(1) by (auto simp: map_eq_append_conv)
    let ?h = "map (\<lambda>(t, p). ((i, t), p)) g2"
    have h: "map snd ?h = p2" "map fst ?h = map (Pair i) (map fst g2)" using gg(3) by (induction g2 arbitrary: p2) auto
    have "set (map fst ?h) = Pair i ` fst ` set g2" unfolding h(2) by auto
    then have hs: "fst ` set ?h = Pair i ` fst ` set g2" by (metis list.set_map)
    have "distinct (map fst ?h)" unfolding h(2) using g(2) gg(1) by (simp add: distinct_map inj_on_def)
    moreover have "fst ` set gone \<inter> fst ` set ?h = {}" unfolding hs using B(6) g(3) gg(1) by force
    ultimately have "distinct (map fst (gone @ ?h))" using B(5) by (simp add: image_image)
    moreover have "fst ` set g2 \<subseteq> T" using g(1) gg(1) by auto
    then have "fst ` set ?h \<subseteq> A'" unfolding hs using T(1) by blast
    then have "fst ` set (gone @ ?h) \<subseteq> A'" using B(4) T(2) by (auto simp: image_Un)
    moreover have "\<forall>x \<in> Pair i ` fst ` set g2. fst x < i \<or> fst x = i \<and> snd x \<le> c'" using g(3) gg(1) by auto
    then have "\<forall>x \<in> fst ` set (gone @ ?h). fst x < i \<or> fst x = i \<and> snd x \<le> c'"
      using old unfolding hs [symmetric] set_append image_Un by blast
    moreover have "first @ (new @ N) = map snd (gone @ ?h) @ now'" using B(1) all(2) h(1) by (metis append.assoc map_append)
    ultimately show ?thesis unfolding balanced_def using sub sup
      by (intro exI [of _ "new @ N"] exI [of _ "gone @ ?h"] exI [of _ now'] exI [of _ "[]"]) simp
  qed
qed

lemma life_keeps:
  assumes i: "session_ok xx s0" "lasting xx s0" and l: "life xx s0 off acc A i s"
  shows "session_ok xx s \<and> lasting xx s \<and> Pair i ` pending_of s \<subseteq> A \<and> balanced (backlog xx s0) off acc A i (commitOff s) (backlog xx s)"
  using l
proof induction
  case start
  have "balanced (backlog xx s0) [] [] (Pair 0 ` pending_of s0) 0 (commitOff s0) (backlog xx s0)"
    unfolding balanced_def by (intro exI [of _ "[]"] exI [of _ "backlog xx s0"]) simp
  then show ?case using i by simp
next
  case (oper off acc A i s a)
  then have s: "session_ok xx s" "lasting xx s" "Pair i ` pending_of s \<subseteq> A" "balanced (backlog xx s0) off acc A i (commitOff s) (backlog xx s)"
    by simp_all
  obtain gone and new :: "(int \<times> bytes) list" where g: "backlog xx s @ map snd new = map snd gone @ backlog xx (perform xx a s)" "subseq (map snd new) (offer a)" "subseq (accepted xx a s) (map snd new)"
    "fst ` set gone \<subseteq> pending_of s \<union> acks_of a" "distinct (map fst gone)" "commitOff s \<le> commitOff (perform xx a s)"
    "\<forall>x \<in> set gone. commitOff s < fst x \<and> fst x \<le> commitOff (perform xx a s)"
    by (rule perform_released [OF s(1) oper(2)])
  have "balanced (backlog xx s0) (off @ offer a) (acc @ accepted xx a s) (A \<union> Pair i ` acks_of a) i (commitOff (perform xx a s)) (backlog xx (perform xx a s))"
    by (rule balanced_step [OF s(4) g(1-5,7,6)]) (use s(3) in auto)
  moreover have "Pair i ` pending_of (perform xx a s) \<subseteq> A \<union> Pair i ` acks_of a" using perform_ok(2) [OF s(1) oper(2)] s(3) by blast
  ultimately show ?case using perform_ok(1) [OF s(1) oper(2)] perform_lasting [OF s(1,2) oper(2)] by blast
next
  case (restart off acc A i s w ents maxSegs nosync every maxOpen t)
  then have s: "session_ok xx s" "lasting xx s" "balanced (backlog xx s0) off acc A i (commitOff s) (backlog xx s)" by simp_all
  obtain extra where t: "session_ok xx t" "lasting xx t" "reserved t = []" "backlog xx t = extra @ backlog xx s"
    using reopen_core [OF s(1,2) restart(2-5)] by blast
  have "balanced (backlog xx s0) off acc A (Suc i) (commitOff t) (backlog xx t)"
  proof -
    obtain new gone kept ex where B: "backlog xx s0 @ new = map snd gone @ kept" "backlog xx s = ex @ kept" "subseq new off"
      "fst ` set gone \<subseteq> A" "distinct (map fst gone)" "\<forall>x \<in> fst ` set gone. fst x < i \<or> fst x = i \<and> snd x \<le> commitOff s"
      "subseq acc new" using s(3) by (auto simp: balanced_def)
    have "\<forall>x \<in> fst ` set gone. fst x < Suc i" using B(6) by force
    then show ?thesis unfolding balanced_def using B(1-5,7) t(4)
      by (intro exI [of _ new] exI [of _ gone] exI [of _ kept] exI [of _ "extra @ ex"]) simp
  qed
  then show ?case using t by (simp add: pending_of_def)
qed

section \<open>Properties\<close>

text \<open>
  C2: over a whole life, with any number of crashes and restarts in it, no record is lost that
  was not acknowledged.  A life starts from a well formed queue whose segments are sound on disk
  (\<open>lasting\<close>, as after opening a directory whose files and entries were flushed, or an empty one);
  its steps are appends, reservations, acknowledgements and rewinds under any pattern of I/O
  failures, as long as no append leaves the queue stranded (the first finding) and no record is
  within a header of the largest file size, and, while no durability failure is latched, the
  crashes of C4, each followed by an opening that succeeds.  The records the queue held at the start followed by those that joined it,
  which contain every record an append reported as appended and are a subsequence of those
  offered, are the records that are gone followed by those kept, in order; every record that is
  gone has an acknowledgement of its own, made in the session that let it go or before the life
  began; and what the queue holds is what is kept, behind at most some records that were already
  committed.  The queue stays well formed and what is on disk sound, so the life can go on.
\<close>

theorem life_no_loss:
  assumes "session_ok xx s0" "lasting xx s0" "life xx s0 off acc A i s"
  shows "session_ok xx s \<and> lasting xx s \<and>
    (\<exists>new gone kept extra. backlog xx s0 @ new = map snd gone @ kept \<and> backlog xx s = extra @ kept \<and> subseq new off \<and> subseq acc new \<and>
       fst ` set gone \<subseteq> A \<and> distinct (map fst gone))"
proof -
  obtain new gone kept extra where "backlog xx s0 @ new = map snd gone @ kept" "backlog xx s = extra @ kept" "subseq new off" "subseq acc new"
    "fst ` set gone \<subseteq> A" "distinct (map fst gone)"
    using life_keeps [OF assms] unfolding balanced_def by (elim conjE exE) (rule that)
  then show ?thesis using life_keeps [OF assms] by (intro conjI exI [of _ new] exI [of _ gone] exI [of _ kept] exI [of _ extra]) simp_all
qed

theorem life_no_loss_witness:
  "\<exists>acc A t. life (\<lambda>_. 5) sample_opened [[9, 9]] acc A 1 t \<and> session_ok (\<lambda>_. 5) t \<and> lasting (\<lambda>_. 5) t"
proof -
  note S = sample_stopped
  have "life (\<lambda>_. 5) sample_opened ([] @ offer (DoAppend [9, 9] True)) ([] @ accepted (\<lambda>_. 5) (DoAppend [9, 9] True) sample_opened) (Pair 0 ` pending_of sample_opened \<union> Pair 0 ` acks_of (DoAppend [9, 9] True)) 0 sample_after"
    unfolding sample_after_def by (rule life.oper [OF life.start]) (use S(1) in \<open>simp del: perform.simps admits.simps accepted.simps\<close>)
  then have l: "life (\<lambda>_. 5) sample_opened [[9, 9]] (accepted (\<lambda>_. 5) (DoAppend [9, 9] True) sample_opened) (Pair 0 ` pending_of sample_opened) 0 sample_after" by (simp del: accepted.simps)
  have "session_ok (\<lambda>_. 5) sample_after" "lasting (\<lambda>_. 5) sample_after"
    using life_keeps [OF sample_opened_ok(1,2) l] by simp_all
  from reopen_core [OF this S(2,3,5) surjective_pairing, of 0 False 1 3]
  obtain t where "openStore (\<lambda>_. 5) sample_listed (segmentSize sample_after) 0 False 1 3 sample_left = (Inr (), t)"
    using S(6,7) by (metis prod.collapse)
  then have "life (\<lambda>_. 5) sample_opened [[9, 9]] (accepted (\<lambda>_. 5) (DoAppend [9, 9] True) sample_opened) (Pair 0 ` pending_of sample_opened) 1 t"
    using life.restart [OF l S(2,3,5)] by (simp del: accepted.simps)
  then show ?thesis using life_no_loss [OF sample_opened_ok(1,2)] by blast
qed

end
