(* ===== verification/Sync.thy ===== *)
theory Sync
  imports Lifetime
begin

text \<open>
  \<open>Sync\<close>, the flush that runs with the mutex released.  It makes every segment stable that is
  marked as written since its last flush.  A segment loses that mark only by a flush, and a
  segment without it is never flushed; at the end the directory is flushed too.  So what a
  successful \<open>Sync\<close> leaves survives a power loss, as far as this process wrote it.
\<close>

section \<open>The mark of an unflushed segment\<close>

text \<open>Segment \<open>n\<close> is not written, does not become dirty, and is not flushed unless it was.\<close>

definition tidy :: "nat \<Rightarrow> store \<Rightarrow> store \<Rightarrow> bool" where
  "tidy n s s' \<longleftrightarrow> (df_dirty (heap s' n) \<longrightarrow> df_dirty (heap s n)) \<and> (\<not> df_dirty (heap s n) \<longrightarrow> stable (os s') n = stable (os s) n) \<and>
     df_writeSeq (heap s' n) = df_writeSeq (heap s n)"

named_theorems tidy_rules \<open>steps that flush dirty segments only\<close>

lemma tidy_refl [simp]: "tidy n s s"
  by (simp add: tidy_def)

lemma tidy_trans: "tidy n a b \<Longrightarrow> tidy n b c \<Longrightarrow> tidy n a c"
  by (auto simp: tidy_def)

lemma tidy_same: "df_dirty (heap s' n) = df_dirty (heap s n) \<Longrightarrow> df_writeSeq (heap s' n) = df_writeSeq (heap s n) \<Longrightarrow> stable (os s') n = stable (os s) n \<Longrightarrow> tidy n s s'"
  by (simp add: tidy_def)

lemma tidy_upd [simp]: "(\<And>d. df_dirty (f d) \<Longrightarrow> df_dirty d) \<Longrightarrow> (\<And>d. df_writeSeq (f d) = df_writeSeq d) \<Longrightarrow> tidy n s (upd_df m f s)"
  by (auto simp: tidy_def upd_df_def)

lemma tidy_os [tidy_rules]:
  "os_run (os_open m) s = (r, s') \<Longrightarrow> tidy n s s'" "os_run os_close s = (r, s') \<Longrightarrow> tidy n s s'" "os_run fsyncDir s = (r, s') \<Longrightarrow> tidy n s s'"
  using os_open_same [of m "os s"] os_close_same [of "os s"] fsyncDir_same [of "os s"]
  by (auto simp: os_run_def tidy_def split: prod.splits)

lemma tidy_datasync:
  assumes d: "os_run (datasync m) s = (r, s')" and m: "m = n \<Longrightarrow> df_dirty (heap s n)"
  shows "tidy n s s'"
proof -
  obtain w where w: "datasync m (os s) = (r, w)" "s' = s\<lparr>os := w\<rparr>" using d by (auto simp: os_run_def split: prod.splits)
  then show ?thesis using datasync_stable [OF w(1)] m by (auto simp: tidy_def split: sum.splits)
qed

lemma tidy_failIO [tidy_rules]: "failIO e s = (r, s') \<Longrightarrow> tidy n s s'"
  by (cases "ioErr s") (auto simp: failIO_def Let_def tidy_def)

lemma tidy_flushSync:
  assumes f: "flushSync m s = (r, s')" and m: "m = n \<Longrightarrow> df_dirty (heap s n)"
  shows "tidy n s s'"
proof -
  obtain r1 s1 where 1: "os_run (datasync m) s = (r1, s1)" by force
  have t: "tidy n s s1" by (rule tidy_datasync [OF 1 m])
  have "tidy n s (upd_df m (\<lambda>d. d\<lparr>df_dirty := False\<rparr>) s1)" by (rule tidy_trans [OF t tidy_upd]) simp_all
  then show ?thesis using f 1 tidy_trans [OF t tidy_failIO] by (auto simp: flushSync_def split: option.splits sum.splits)
qed

lemma tidy_flushVictim [tidy_rules]: "flushVictim m s = (r, s') \<Longrightarrow> tidy n s s'"
  by (auto simp: flushVictim_def split: if_splits dest: tidy_flushSync)

lemma tidy_lru [simp]: "tidy n s (lruUnlink m s)" "tidy n s (lruPushMRU m s)"
  by (rule tidy_same; auto simp: lruUnlink_def lruPushMRU_def upd_df_def Let_def split: option.splits)+

lemma tidy_evict_one [simp]: "tidy n s (evict_one m s)"
proof -
  let ?v = "if noSync s then s else snd (flushVictim m s)"
  have 1: "tidy n s ?v" using tidy_flushVictim [of m s _ _ n] by (simp add: prod_eq_iff)
  have "tidy n ?v (snd (os_run os_close ?v))" using tidy_os(2) [of ?v] by (metis prod.collapse)
  then have 2: "tidy n s (snd (os_run os_close ?v))" by (rule tidy_trans [OF 1])
  have "tidy n s (upd_df m (\<lambda>d. d\<lparr>df_open := False\<rparr>) (snd (os_run os_close ?v)))" by (rule tidy_trans [OF 2 tidy_upd]) simp_all
  then show ?thesis unfolding evict_one_def Let_def by (rule tidy_trans) (simp add: tidy_lru)
qed

lemma tidy_evict_loop [simp]: "tidy n s (evict_loop act keep s)"
proof (induction act keep s rule: evict_loop.induct)
  case (1 act keep s)
  then show ?case
    by (cases "evict_victim act keep s") (auto simp: evict_loop.simps [of act keep s] intro: tidy_trans [OF tidy_evict_one])
qed

lemma tidy_trackOpen [simp]: "tidy n s (trackOpen m s)"
  unfolding trackOpen_def evictOpen_def using tidy_trans [OF tidy_lru(2) tidy_evict_loop] by simp

lemma tidy_ensureOpen [tidy_rules]:
  assumes "ensureOpen m s = (r, s')"
  shows "tidy n s s'"
proof -
  obtain r1 s1 where 1: "os_run (os_open m) s = (r1, s1)" by force
  have c: "tidy n s s1" by (rule tidy_os(1) [OF 1])
  have "tidy n s (upd_df m (\<lambda>d. d\<lparr>df_open := True\<rparr>) s1)" by (rule tidy_trans [OF c tidy_upd]) simp_all
  then have "tidy n s (trackOpen m (upd_df m (\<lambda>d. d\<lparr>df_open := True\<rparr>) s1))" by (rule tidy_trans) simp
  moreover have "tidy n s (touchOpen m s)" unfolding touchOpen_def using tidy_trans [OF tidy_lru(1,2)] by simp
  ultimately show ?thesis using assms 1 c by (auto simp: ensureOpen_def split: if_splits sum.splits)
qed

lemma tidy_syncDir [tidy_rules]: "syncDir s = (r, s') \<Longrightarrow> tidy n s s'"
  unfolding syncDir_def
  by (auto split: if_splits prod.splits sum.splits dest: tidy_os(3) tidy_trans [OF tidy_os(3) tidy_failIO])

lemma tidy_flushFile [tidy_rules]:
  assumes f: "flushFile m s = (r, s')"
  shows "tidy n s s'"
proof -
  obtain r1 s1 where 1: "(if df_open (heap s m) then (Inr (), s) else ensureOpen m s) = (r1, s1)" by force
  have t: "tidy n s s1" using 1 by (auto split: if_splits dest: tidy_ensureOpen)
  have out: "s' = s \<or> s' = s1 \<or> df_dirty (heap s m) \<and> flushSync m s1 = (r, s')"
    using f 1 by (auto simp: flushFile_def split: sum.splits if_splits)
  show ?thesis
  proof (cases "flushSync m s1 = (r, s') \<and> m = n \<and> \<not> df_dirty (heap s1 n)")
    case True
    have "df_dirty (heap s' n) \<longrightarrow> df_dirty (heap s1 n)" "df_writeSeq (heap s' n) = df_writeSeq (heap s1 n)"
      using True by (auto simp: flushSync_def os_run_def failIO_def Let_def upd_df_def split: option.splits prod.splits sum.splits)
    then show ?thesis using t out True by (auto simp: tidy_def)
  next
    case False
    then show ?thesis using out t tidy_trans [OF t tidy_flushSync] by auto
  qed
qed

section \<open>The flush that releases the mutex\<close>

text \<open>Nothing that the queue or the disk invariant speaks of changes.\<close>

definition serene :: "store \<Rightarrow> store \<Rightarrow> bool" where
  "serene s s' \<longleftrightarrow> calm s s' \<and> mending s s'"

lemma serene_refl [simp]: "serene s s"
  by (simp add: serene_def)

lemma serene_trans: "serene a b \<Longrightarrow> serene b c \<Longrightarrow> serene a c"
  unfolding serene_def using calm_trans mending_trans by blast

lemma serene_quiet: "calm s s' \<Longrightarrow> quiet s s' \<Longrightarrow> serene s s'"
  by (simp add: serene_def mending_quiet)

lemma mending_flags: "mending s (upd_df n (\<lambda>d. d\<lparr>df_pins := f d\<rparr>) s)" "mending s (upd_df n (\<lambda>d. d\<lparr>df_dirty := b\<rparr>) s)"
proof -
  have "alike s (upd_df n (\<lambda>d. d\<lparr>df_pins := f d\<rparr>) s)" "alike s (upd_df n (\<lambda>d. d\<lparr>df_dirty := b\<rparr>) s)" by (rule alike_df; simp)+
  then show "mending s (upd_df n (\<lambda>d. d\<lparr>df_pins := f d\<rparr>) s)" "mending s (upd_df n (\<lambda>d. d\<lparr>df_dirty := b\<rparr>) s)"
    by (simp_all add: mending_def upd_df_def)
qed

lemma serene_pins: "serene s (upd_df n (\<lambda>d. d\<lparr>df_pins := f d\<rparr>) s)"
  unfolding serene_def using mending_flags(1) by simp

lemma serene_clean:
  assumes "stable (os s) n = inode (os s) n"
  shows "serene s (upd_df n (\<lambda>d. d\<lparr>df_dirty := False\<rparr>) s)"
proof -
  have "calm s (upd_df n (\<lambda>d. d\<lparr>df_dirty := False\<rparr>) s)"
    by (rule calmI) (auto simp: upd_df_def flushed_as_def stays_def dirs_def assms)
  then show ?thesis using mending_flags(2) by (simp add: serene_def)
qed

lemma serene_steps:
  "ensureOpen n s = (r, s') \<Longrightarrow> serene s s'" "os_run (datasync n) s = (r, s') \<Longrightarrow> serene s s'" "(failIO e s :: unit result \<times> store) = (r, s') \<Longrightarrow> serene s s'"
  "syncDir s = (r, s') \<Longrightarrow> serene s s'"
  by (rule serene_quiet; blast intro: calm_rules quiet_rules)+


lemma serene_live:
  assumes "serene s s'"
  shows "live n s' = live n s"
proof -
  have "files s' = files s" "df_num (heap s' m) = df_num (heap s m)" for m
    using assms calm_fields(1,18) by (auto simp: serene_def)
  then show ?thesis by (simp add: live_def)
qed

text \<open>Pinning: what is pinned was dirty, and what is still dirty is pinned or reported.\<close>

lemma pin_chunk_spec:
  "pin_chunk ns errs s = ((ts, errs'), s') \<Longrightarrow> serene s s' \<and> tidy n s s' \<and> (n \<in> fst ` set ts \<longrightarrow> df_dirty (heap s n)) \<and>
     (errs' = None \<longrightarrow> errs = None) \<and> (errs' = None \<and> n \<in> set ns \<and> live n s \<and> df_dirty (heap s' n) \<longrightarrow> n \<in> fst ` set ts) \<and>
     (\<forall>sq. (n, sq) \<in> set ts \<longrightarrow> sq = df_writeSeq (heap s n))"
proof (induction ns errs s arbitrary: ts errs' s' rule: pin_chunk.induct)
  case (2 m ns errs s)
  show ?case
  proof (cases "live m s \<and> df_dirty (heap s m)")
    case False
    then have "pin_chunk ns errs s = ((ts, errs'), s')" using "2.prems" by (auto split: if_splits)
    then have "serene s s' \<and> tidy n s s' \<and> (n \<in> fst ` set ts \<longrightarrow> df_dirty (heap s n)) \<and> (errs' = None \<longrightarrow> errs = None) \<and>
      (errs' = None \<and> n \<in> set ns \<and> live n s \<and> df_dirty (heap s' n) \<longrightarrow> n \<in> fst ` set ts) \<and> (\<forall>sq. (n, sq) \<in> set ts \<longrightarrow> sq = df_writeSeq (heap s n))"
      using "2.IH"(1,2) False by blast
    moreover from this have "\<not> (live m s \<and> df_dirty (heap s' m))" if "n = m" using False that by (auto simp: tidy_def)
    ultimately show ?thesis by auto
  next
    case True
    obtain r1 s1 where 1: "ensureOpen m s = (r1, s1)" by force
    have e: "serene s s1" "tidy n s s1" using serene_steps(1) tidy_ensureOpen 1 by blast+
    show ?thesis
    proof (cases r1)
      case (Inl e')
      then have p: "pin_chunk ns (err_join errs (Some e')) s1 = ((ts, errs'), s')" using "2.prems" True 1 by simp
      have "serene s1 s' \<and> tidy n s1 s' \<and> (n \<in> fst ` set ts \<longrightarrow> df_dirty (heap s1 n)) \<and> (errs' = None \<longrightarrow> err_join errs (Some e') = None) \<and>
        (\<forall>sq. (n, sq) \<in> set ts \<longrightarrow> sq = df_writeSeq (heap s1 n))"
        using "2.IH"(3) [OF _ _ 1 [symmetric] Inl p] True by blast
      then show ?thesis using serene_trans [OF e(1)] tidy_trans [OF e(2)] e(2) by (auto simp: tidy_def)
    next
      case (Inr u)
      define s2 where "s2 = upd_df m (\<lambda>d. d\<lparr>df_pins := df_pins d + 1\<rparr>) s1"
      obtain ts1 where p: "pin_chunk ns errs s2 = ((ts1, errs'), s')" "ts = (m, df_writeSeq (heap s2 m)) # ts1"
        using "2.prems" True 1 Inr by (auto simp: s2_def Let_def split: prod.splits)
      have e2: "serene s s2" "tidy n s s2" unfolding s2_def by (rule serene_trans [OF e(1) serene_pins], rule tidy_trans [OF e(2) tidy_upd]) simp_all
      have "serene s2 s' \<and> tidy n s2 s' \<and> (n \<in> fst ` set ts1 \<longrightarrow> df_dirty (heap s2 n)) \<and> (errs' = None \<longrightarrow> errs = None) \<and>
        (errs' = None \<and> n \<in> set ns \<and> live n s2 \<and> df_dirty (heap s' n) \<longrightarrow> n \<in> fst ` set ts1) \<and> (\<forall>sq. (n, sq) \<in> set ts1 \<longrightarrow> sq = df_writeSeq (heap s2 n))"
        using "2.IH"(4) [OF _ _ 1 [symmetric] Inr s2_def p(1)] True by blast
      then show ?thesis using serene_trans [OF e2(1)] tidy_trans [OF e2(2)] e2(2) True serene_live [OF e2(1)] by (auto simp: p(2) tidy_def)
    qed
  qed
qed simp

lemma sync_targets_spec:
  "sync_targets ts s = (rs, s') \<Longrightarrow> serene s s' \<and> heap s' = heap s \<and> map (\<lambda>(m, sq, e). (m, sq)) rs = ts \<and>
     (n \<notin> fst ` set ts \<longrightarrow> stable (os s') n = stable (os s) n) \<and> (stable (os s) n = inode (os s) n \<longrightarrow> stable (os s') n = inode (os s') n) \<and>
     (\<forall>sq. (n, sq, None) \<in> set rs \<longrightarrow> stable (os s') n = inode (os s') n)"
proof (induction ts s arbitrary: rs s' rule: sync_targets.induct)
  case (2 m sq ts s)
  obtain r s1 where 1: "os_run (datasync m) s = (r, s1)" by force
  obtain rs1 where rs: "sync_targets ts s1 = (rs1, s')" "rs = (m, sq, err_of r) # rs1"
    using "2.prems" 1 by (auto split: prod.splits)
  note IH = "2.IH" [OF 1 [symmetric] rs(1)]
  obtain w where w: "datasync m (os s) = (r, w)" "s1 = s\<lparr>os := w\<rparr>" using 1 by (auto simp: os_run_def split: prod.splits)
  have d: "stable w = (case r of Inr _ \<Rightarrow> (stable (os s))(m := inode (os s) m) | Inl _ \<Rightarrow> stable (os s))" "inode w = inode (os s)"
    using datasync_stable [OF w(1)] datasync_same [OF w(1)] by (simp_all add: same_files_def)
  have s1: "serene s s1" by (rule serene_steps(2) [OF 1])
  have k: "n \<noteq> m \<Longrightarrow> stable (os s1) n = stable (os s) n" "stable (os s) n = inode (os s) n \<Longrightarrow> stable (os s1) n = inode (os s1) n"
    "err_of r = None \<Longrightarrow> stable (os s1) m = inode (os s1) m"
    using d w(2) by (auto split: sum.splits)
  show ?case using IH k serene_trans [OF s1] w(2) by (auto simp: rs(2))
qed simp

text \<open>Unpinning: a segment flushed without error and not written meanwhile is clean again.\<close>

lemma unpin_chunk_spec:
  "unpin_chunk rs errs s = (errs', s') \<Longrightarrow> \<forall>m sq. (m, sq, None) \<in> set rs \<longrightarrow> stable (os s) m = inode (os s) m \<Longrightarrow>
   serene s s' \<and> tidy n s s' \<and> (errs' = None \<longrightarrow> errs = None \<and> (\<forall>sq e. (n, sq, e) \<in> set rs \<and> sq = df_writeSeq (heap s n) \<longrightarrow> \<not> df_dirty (heap s' n)))"
proof (induction rs errs s rule: unpin_chunk.induct)
  case (2 m sq e ts errs s)
  define s1 where "s1 = upd_df m (\<lambda>d. d\<lparr>df_pins := df_pins d - 1\<rparr>) s"
  have a: "serene s s1" "tidy n s s1" unfolding s1_def by (rule serene_pins, rule tidy_upd) simp_all
  have o: "os s1 = os s" by (simp add: s1_def upd_df_def)
  show ?case
  proof (cases e)
    case (Some x)
    obtain r :: "unit result" and s2 where 2: "failIO x s1 = (r, s2)" by force
    have b: "serene s1 s2" "tidy n s1 s2" by (rule serene_steps(3) [OF 2], rule tidy_failIO [OF 2])
    have bad: "err_of r \<noteq> None" "os s2 = os s1" using 2 by (auto simp: failIO_def Let_def err_of_def)
    have u: "unpin_chunk ts (err_join errs (err_of r)) s2 = (errs', s')"
      using "2.prems"(1) Some 2 by (simp add: Let_def s1_def)
    have st: "\<forall>m sq. (m, sq, None) \<in> set ts \<longrightarrow> stable (os s2) m = inode (os s2) m" using "2.prems"(2) bad(2) o by auto
    have "serene s2 s' \<and> tidy n s2 s' \<and> (errs' = None \<longrightarrow> err_join errs (err_of r) = None)"
      using "2.IH"(2) [OF s1_def Some 2 [symmetric] u st] by blast
    then show ?thesis using bad(1) serene_trans [OF a(1) serene_trans [OF b(1)]] tidy_trans [OF a(2) tidy_trans [OF b(2)]] by auto
  next
    case None
    define s2 where "s2 = (if df_writeSeq (heap s1 m) = sq then upd_df m (\<lambda>d. d\<lparr>df_dirty := False\<rparr>) s1 else s1)"
    have st: "stable (os s1) m = inode (os s1) m" using "2.prems"(2) None o by auto
    have b: "serene s1 s2" unfolding s2_def using serene_clean [OF st] by simp
    have "tidy n s1 (upd_df m (\<lambda>d. d\<lparr>df_dirty := False\<rparr>) s1)" by (rule tidy_upd) simp_all
    then have b2: "tidy n s1 s2" by (simp add: s2_def)
    have u: "unpin_chunk ts errs s2 = (errs', s')"
      using "2.prems"(1) None by (auto simp: Let_def s1_def s2_def)
    have o2: "os s2 = os s" using o by (simp add: s2_def upd_df_def)
    have st2: "\<forall>m sq. (m, sq, None) \<in> set ts \<longrightarrow> stable (os s2) m = inode (os s2) m" using "2.prems"(2) o2 by auto
    have i: "serene s2 s' \<and> tidy n s2 s' \<and> (errs' = None \<longrightarrow> errs = None \<and> (\<forall>sq e. (n, sq, e) \<in> set ts \<and> sq = df_writeSeq (heap s2 n) \<longrightarrow> \<not> df_dirty (heap s' n)))"
      using "2.IH"(1) [OF s1_def None u [unfolded s2_def] st2 [unfolded s2_def]] unfolding s2_def .
    have t: "tidy n s s2" by (rule tidy_trans [OF a(2) b2])
    have w: "df_writeSeq (heap s2 n) = df_writeSeq (heap s n)" "df_writeSeq (heap s1 n) = df_writeSeq (heap s n)" using t a(2) by (simp_all add: tidy_def)
    have "\<not> df_dirty (heap s' n)" if "m = n" "sq = df_writeSeq (heap s n)"
    proof -
      have "\<not> df_dirty (heap s2 n)" using that w by (simp add: s2_def upd_df_def)
      then show ?thesis using i by (simp add: tidy_def)
    qed
    then show ?thesis using i w serene_trans [OF a(1) serene_trans [OF b]] tidy_trans [OF t] by auto
  qed
qed simp

lemma flushChunk_spec:
  assumes f: "flushChunk ns s = (e, s')"
  shows "serene s s' \<and> tidy n s s' \<and> (e = None \<and> n \<in> set ns \<and> live n s \<longrightarrow> \<not> df_dirty (heap s' n))"
proof -
  obtain ts errs s1 where 1: "pin_chunk ns None s = ((ts, errs), s1)" by (metis prod.collapse)
  obtain rs s2 where 2: "sync_targets ts s1 = (rs, s2)" by force
  have 3: "unpin_chunk rs errs s2 = (e, s')" using f 1 2 by (simp add: flushChunk_def)
  note P = pin_chunk_spec [OF 1, where n = n] and S = sync_targets_spec [OF 2]
  have st: "\<forall>m sq. (m, sq, None) \<in> set rs \<longrightarrow> stable (os s2) m = inode (os s2) m" using S by blast
  note U = unpin_chunk_spec [OF 3 st, where n = n]
  have keys: "\<exists>sq e. (n, sq, e) \<in> set rs \<and> sq = df_writeSeq (heap s n)" if m: "n \<in> fst ` set ts"
  proof -
    obtain sq where "(n, sq) \<in> set ts" using m by force
    moreover from this have "(n, sq) \<in> (\<lambda>(m, sq, e). (m, sq)) ` set rs" using S [where n = n] by (metis list.set_map)
    ultimately show ?thesis using P by force
  qed
  have se: "serene s s'" using P S [where n = n] U serene_trans by blast
  have h: "heap s2 = heap s1" using S by blast
  have t2: "tidy n s s2" using P S [where n = n] h by (auto simp: tidy_def)
  then have t: "tidy n s s'" using U tidy_trans by blast
  have "\<not> df_dirty (heap s' n)" if e: "e = None" and n: "n \<in> set ns" "live n s"
  proof (cases "df_dirty (heap s1 n)")
    case True
    then have "n \<in> fst ` set ts" using P U e n by blast
    then obtain sq e' where "(n, sq, e') \<in> set rs" "sq = df_writeSeq (heap s n)" using keys by blast
    moreover have "df_writeSeq (heap s2 n) = df_writeSeq (heap s n)" using t2 by (simp add: tidy_def)
    ultimately show ?thesis using U e by auto
  next
    case False
    then show ?thesis using U h by (simp add: tidy_def)
  qed
  then show ?thesis using se t by blast
qed

lemma flush_chunks_spec:
  "flush_chunks ns errs s = (e, s') \<Longrightarrow>
   serene s s' \<and> tidy n s s' \<and> (e = None \<longrightarrow> errs = None \<and> (n \<in> set ns \<and> live n s \<longrightarrow> \<not> df_dirty (heap s' n)))"
proof (induction ns errs s rule: flush_chunks.induct)
  case (1 ns errs s)
  show ?case
  proof (cases "ns = []")
    case True
    then show ?thesis using "1.prems" by (simp add: flush_chunks.simps)
  next
    case False
    define k where "k = chunk_len ns s"
    obtain e1 s1 where 1: "flushChunk (take k ns) s = (e1, s1)" by force
    have r: "flush_chunks (drop k ns) (err_join errs e1) s1 = (e, s')"
      using "1.prems" False 1 by (simp add: flush_chunks.simps [of ns] Let_def k_def)
    note C = flushChunk_spec [OF 1, where n = n] and I = "1.IH" [OF False k_def 1 [symmetric] r]
    have "set ns = set (take k ns) \<union> set (drop k ns)" by (metis append_take_drop_id set_append)
    then show ?thesis using C I serene_trans [of s s1 s'] tidy_trans [of n s s1 s'] serene_live [of s s1 n] by (auto simp: tidy_def)
  qed
qed

section \<open>A successful Sync\<close>

lemma live_member:
  assumes p: "placed s" and t: "\<forall>m \<in> set (files s). df_num (heap s m) = m" and n: "n \<in> set (files s)"
  shows "live n s"
proof -
  let ?fs = "files s" and ?f = "\<lambda>i. df_num (heap s n) \<le> df_num (heap s (files s ! i))"
  have num: "df_num (heap s n) = n" "i < length ?fs \<Longrightarrow> df_num (heap s (?fs ! i)) = ?fs ! i" for i using t n by simp_all
  have so: "sorted_wrt (<) ?fs" using p by (simp add: placed_def)
  obtain i where i: "i < length ?fs" "?fs ! i = n" using n by (auto simp: in_set_conv_nth)
  have mono: "?fs ! a \<le> ?fs ! b" if "a \<le> b" "b < length ?fs" for a b
    using sorted_wrt_nth_less [OF so, of a b] that by (cases "a = b") auto
  then have up: "upward (length ?fs) ?f" unfolding upward_def num(1) using num(2) by (metis le_trans le_less_trans)
  have "sort_Search (length ?fs) ?f = i"
  proof (rule sort_Search_eqI [OF up i(1)])
    show "\<not> ?f k" if "k < i" for k
      using sorted_wrt_nth_less [OF so that i(1)] num(1) num(2) [of k] i that by simp
  qed (use i in simp)
  then show ?thesis using i by (simp add: live_def Let_def)
qed

lemma serene_syncDir:
  assumes "syncDir s = (Inr u, s')"
  shows "serene s s' \<and> tidy n s s' \<and> ioErr s' = ioErr s"
  using serene_steps(4) [OF assms] tidy_syncDir [OF assms] assms
  by (auto simp: syncDir_def os_run_def failIO_def Let_def split: if_splits prod.splits sum.splits)

lemma serene_counters: "serene s (s\<lparr>unsynced := a, unsyncedBytes := b\<rparr>)"
proof -
  have a: "alike s (s\<lparr>unsynced := a, unsyncedBytes := b\<rparr>)"
    by (simp add: alike_def options_def same_seg_def data_of_def block_ok_def cong: option.case_cong)
  have "calm s (s\<lparr>unsynced := a, unsyncedBytes := b\<rparr>)" by (rule calm_cases) (simp_all add: dirs_def)
  then show ?thesis using a by (simp add: serene_def mending_def)
qed

lemma sync_body_spec:
  assumes "sync_body s = (Inr u, t)" and p: "placed s" and num: "\<forall>m \<in> set (files s). df_num (heap s m) = m" and do: "dirOpen s"
  shows "serene s t \<and> tidy n s t \<and> ioErr s = None \<and> ioErr t = None \<and> (n \<in> set (files s) \<longrightarrow> \<not> df_dirty (heap t n)) \<and>
    stable_dir (os t) = linked (os s)"
proof -
  let ?ns = "filter (\<lambda>n. df_dirty (heap s n)) (files s)"
  obtain e s1 where 1: "flush_chunks ?ns None s = (e, s1)" by force
  obtain r s2 where 2: "syncDir s1 = (r, s2)" by force
  have a: "ioErr s = None" "e = None" "ioErr s1 = None" "r = Inr ()"
    "t = (if flushEpoch s2 = flushEpoch s
          then s2\<lparr>unsynced := max (unsynced s2 - unsynced s) 0, unsyncedBytes := max (unsyncedBytes s2 - unsyncedBytes s) 0\<rparr>
          else s2)"
    using assms(1) 1 2 by (auto simp: sync_body_def split: option.splits sum.splits)
  note F = flush_chunks_spec [OF 1, where n = n] and D = serene_syncDir [OF 2 [unfolded a(4)], where n = n]
  have 3: "serene s2 t" "tidy n s2 t" "ioErr t = ioErr s2" "os t = os s2" using a(5) serene_counters by (auto intro: tidy_same)
  have k: "calm s s1" using F by (simp add: serene_def)
  have "stable_dir (os s2) = linked (os s1)"
    by (rule syncDir_done [OF 2]) (use calm_fields(19) [OF k] do D a(3) in \<open>simp_all add: dirs_def\<close>)
  then have sd: "stable_dir (os t) = linked (os s)" using 3(4) calm_fields(13) [OF k] by simp
  have "\<not> df_dirty (heap t n)" if n: "n \<in> set (files s)"
  proof (cases "df_dirty (heap s n)")
    case True
    then have "\<not> df_dirty (heap s1 n)" using F a(2) n live_member [OF p num n] by simp
    then show ?thesis using D 3(2) by (simp add: tidy_def)
  next
    case False
    then show ?thesis using F D 3(2) by (simp add: tidy_def)
  qed
  then show ?thesis
    using F D 3 a(1,3) sd serene_trans [of s s1 s2] serene_trans [of s s2 t] tidy_trans [of n s s1 s2] tidy_trans [of n s s2 t] by simp
qed

lemma mending_session:
  assumes i: "session_ok xx s" and m: "mending s t" and h: "\<And>n. df_hdr (heap t n) = df_hdr (heap s n)"
  shows "session_ok xx t" "backlog xx t = backlog xx s" "unread xx t = unread xx s"
proof -
  note D = session_okD [OF i]
  note q = mending_queue [OF D(2) m]
  have a: "alike s t" and cm: "commitOff t = commitOff s" "df_committed (heap t n) = df_committed (heap s n)" for n
    using m by (simp_all add: mending_def)
  have op: "stagedBytes t = stagedBytes s \<and> segmentSize t = segmentSize s \<and> pendingCorrupt t = pendingCorrupt s"
    by (rule session_options [OF alikeD(8) [OF a]])
  have "marked xx (commitOff t) t n" if "n \<in> set (files s)" for n
    using D(3) that alike_flat(8-10) [OF a] h cm by (simp add: marks_ok_def marked_def)
  then have "marks_ok xx t" using alikeD(1) [OF a] by (simp add: marks_ok_def)
  moreover have "ledger_fit xx t" using D(7) q(3) alikeD(3,7) [OF a] cm by (simp add: ledger_fit_def)
  ultimately show "session_ok xx t" using q(1) D(4-6) op by (simp add: session_ok_def commit_ok_alt)
  show "backlog xx t = backlog xx s" "unread xx t = unread xx s" by (rule q)+
qed

lemma serene_session:
  assumes i: "session_ok xx s" and c: "serene s t"
  shows "session_ok xx t" "backlog xx t = backlog xx s" "unread xx t = unread xx s"
  using mending_session [OF i, of t] c calm_fields(6) by (simp_all add: serene_def)

lemma sync_keeps:
  assumes i: "session_ok xx s" and l: "lasting xx s" and r: "sync_body s = (Inr u, t)"
  shows "serene s t \<and> ioErr t = None \<and> (\<forall>n \<in> set (files s). \<not> df_dirty (heap t n) \<and> stable_dir (os t) n) \<and> session_ok xx t \<and> lasting xx t \<and>
    backlog xx t = backlog xx s \<and> unread xx t = unread xx s"
proof -
  have p: "placed s" and so: "ioErr s = None \<Longrightarrow> \<forall>n \<in> set (files s). sound xx s n" using l by (simp_all add: lasting_def)
  have e: "ioErr s = None" using r by (auto simp: sync_body_def split: option.splits)
  have do: "dirOpen s" using lastingD(2) [OF l e] by (simp add: entered_def)
  have lk: "\<forall>n \<in> set (files s). linked (os s) n" using file_okD(4) queue_okD(1) session_okD(2) [OF i] by blast
  have num: "\<forall>m \<in> set (files s). df_num (heap s m) = m" using so [OF e] by (simp add: sound_def told_def)
  note S = sync_body_spec [OF r p num do]
  have c: "serene s t" using S by blast
  then have "lasting xx t" using lasting_calm [OF _ session_okD(2) [OF i] l] by (simp add: serene_def)
  then show ?thesis using serene_session [OF i c] S lk by simp
qed

section \<open>Sync on a healthy store\<close>

lemma pin_chunk_live:
  "healthy s \<Longrightarrow> \<forall>n \<in> set ns. linked (os s) n \<Longrightarrow> pin_chunk ns errs s = ((ts, errs'), s') \<Longrightarrow>
   healthy s' \<and> errs' = errs \<and> linked (os s') = linked (os s)"
proof (induction ns errs s arbitrary: ts errs' s' rule: pin_chunk.induct)
  case (2 m ns errs s)
  show ?case
  proof (cases "live m s \<and> df_dirty (heap s m)")
    case False
    then have "pin_chunk ns errs s = ((ts, errs'), s')" using "2.prems"(3) by (auto split: if_splits)
    then show ?thesis using "2.IH"(1,2) "2.prems"(1,2) False by auto
  next
    case True
    obtain s1 where 1: "ensureOpen m s = (Inr (), s1)" "healthy s1"
      using healthy_ensureOpen [OF "2.prems"(1), of m] "2.prems"(2) by auto
    have l1: "linked (os s1) = linked (os s)" using calm_fields(13) [OF calm_ensureOpen [OF 1(1)]] .
    define s2 where "s2 = upd_df m (\<lambda>d. d\<lparr>df_pins := df_pins d + 1\<rparr>) s1"
    obtain ts1 where p: "pin_chunk ns errs s2 = ((ts1, errs'), s')"
      using "2.prems"(3) True 1(1) by (auto simp: s2_def Let_def split: prod.splits)
    have o2: "healthy s2" "os s2 = os s1" using 1(2) by (simp_all add: s2_def upd_df_def healthy_def)
    have l2: "\<forall>n \<in> set ns. linked (os s2) n" using o2(2) l1 "2.prems"(2) by simp
    show ?thesis using "2.IH"(4) [OF _ _ 1(1) [symmetric] refl s2_def o2(1) l2 p] True o2 l1 by simp
  qed
qed simp

lemma sync_targets_live:
  "healthy s \<Longrightarrow> sync_targets ts s = (rs, s') \<Longrightarrow> healthy s' \<and> linked (os s') = linked (os s) \<and> (\<forall>(n, sq, e) \<in> set rs. e = None)"
proof (induction ts s arbitrary: rs s' rule: sync_targets.induct)
  case (2 m sq ts s)
  define s1 where "s1 = s\<lparr>os := (os s)\<lparr>stable := (stable (os s))(m := inode (os s) m)\<rparr>\<rparr>"
  have 1: "os_run (datasync m) s = (Inr (), s1)" using "2.prems"(1) by (simp add: os_run_def healthy_def os_healthy s1_def)
  obtain rs1 where rs: "sync_targets ts s1 = (rs1, s')" "rs = (m, sq, None) # rs1"
    using "2.prems"(2) 1 by (auto simp: err_of_def split: prod.splits)
  have "healthy s1" "linked (os s1) = linked (os s)" using "2.prems"(1) by (simp_all add: s1_def healthy_os_stable)
  then show ?case using "2.IH" [OF 1 [symmetric] _ rs(1)] rs(2) by simp
qed simp

lemma unpin_chunk_live:
  "\<forall>(n, sq, e) \<in> set rs. e = None \<Longrightarrow> unpin_chunk rs errs s = (errs', s') \<Longrightarrow> errs' = errs \<and> os s' = os s \<and> (healthy s \<longrightarrow> healthy s')"
proof (induction rs errs s rule: unpin_chunk.induct)
  case (2 m sq e ts errs s)
  define s1 where "s1 = upd_df m (\<lambda>d. d\<lparr>df_pins := df_pins d - 1\<rparr>) s"
  have e: "e = None" "\<forall>(n, sq, e) \<in> set ts. e = None" using "2.prems"(1) by auto
  have u: "unpin_chunk ts errs (if df_writeSeq (heap s1 m) = sq then upd_df m (\<lambda>d. d\<lparr>df_dirty := False\<rparr>) s1 else s1) = (errs', s')"
    using "2.prems"(2) e(1) by (auto simp: Let_def s1_def)
  show ?case using "2.IH"(1) [OF s1_def e(1,2) u] by (auto simp: s1_def upd_df_def healthy_def)
qed simp

lemma flush_chunks_live:
  "healthy s \<Longrightarrow> \<forall>n \<in> set ns. linked (os s) n \<Longrightarrow> flush_chunks ns errs s = (e, s') \<Longrightarrow> healthy s' \<and> e = errs"
proof (induction ns errs s rule: flush_chunks.induct)
  case (1 ns errs s)
  show ?case
  proof (cases "ns = []")
    case True
    then show ?thesis using "1.prems" by (simp add: flush_chunks.simps)
  next
    case False
    define k where "k = chunk_len ns s"
    obtain e1 s1 where c: "flushChunk (take k ns) s = (e1, s1)" by force
    obtain ts errs1 t where p: "pin_chunk (take k ns) None s = ((ts, errs1), t)" by (metis prod.collapse)
    obtain rs u where q: "sync_targets ts t = (rs, u)" by force
    have un: "unpin_chunk rs errs1 u = (e1, s1)" using c p q by (simp add: flushChunk_def)
    have "\<forall>n \<in> set (take k ns). linked (os s) n" using "1.prems"(2) by (meson in_set_takeD)
    note P = pin_chunk_live [OF "1.prems"(1) this p]
    note Q = sync_targets_live [OF conjunct1 [OF P] q]
    note U = unpin_chunk_live [OF _ un]
    have s1: "healthy s1" "e1 = None" "linked (os s1) = linked (os s)" using P Q U by simp_all
    have r: "flush_chunks (drop k ns) (err_join errs e1) s1 = (e, s')"
      using "1.prems"(3) False c by (simp add: flush_chunks.simps [of ns] Let_def k_def)
    have "\<forall>n \<in> set (drop k ns). linked (os s1) n" using "1.prems"(2) s1(3) by (simp add: in_set_dropD)
    then show ?thesis using "1.IH" [OF False k_def c [symmetric] s1(1) _ r] s1(2) by (simp add: err_join_def split: option.splits)
  qed
qed

section \<open>Sync after opening\<close>

text \<open>Opening leaves no segment dirty: it flushes what it corrected and wrote nothing else.\<close>

lemma flushFile_clean: "flushFile n s = (Inr u, s') \<Longrightarrow> \<not> df_dirty (heap s' n)"
  by (auto simp: flushFile_def flushSync_def upd_df_def split: if_splits prod.splits sum.splits option.splits dest: failIO_result)

lemma writeHeader_others:
  assumes w: "writeHeader n s = (Inr u, s')" and m: "m \<noteq> n"
  shows "df_dirty (heap s' m) \<longrightarrow> df_dirty (heap s m)"
proof -
  obtain r1 s1 where 1: "(if df_open (heap s n) then (Inr (), s) else ensureOpen n s) = (r1, s1)" by force
  have t: "tidy m s s1" using 1 by (auto split: if_splits dest: tidy_ensureOpen)
  obtain r2 s2 where 2: "os_run (os_pwrite n 0 (df_hdr (heap s1 n))) s1 = (r2, s2)" by force
  have "heap s2 = heap s1" using 2 by (auto simp: os_run_def split: prod.splits)
  moreover have "as_result (err_join (Some e) f) \<noteq> Inr u" for e f by (cases f) (simp_all add: err_join_def)
  ultimately have "heap s' m = heap s1 m"
    using w 1 2 m by (auto simp: writeHeader_def mark_dirty_def upd_df_def Let_def split: sum.splits option.splits if_splits prod.splits)
  then show ?thesis using t by (simp add: tidy_def)
qed

lemma repairSegment_clean:
  assumes p: "repairSegment xx n s = (Inr u, s')"
  shows "df_dirty (heap s' m) \<longrightarrow> df_dirty (heap s m)"
proof (cases "needs_repair (heap s n) (repair_cursor (heap s n) (commitOff s))")
  case False
  then show ?thesis using p by (simp add: repairSegment_def)
next
  case True
  obtain u1 s1 where 1: "ensureOpen n s = (Inr u1, s1)"
    using p True by (cases "ensureOpen n s") (auto simp: repairSegment_def split: sum.splits)
  define s2 where "s2 = upd_df n (\<lambda>d. header xx [setWriteCursor (int headerSize + df_size d), setWrittenCount (df_written d),
      setCommitCursor (repair_cursor (heap s n) (commitOff s)), setCommittedCount (df_committed d)] d) s1"
  obtain u3 s3 where 3: "writeHeader n s2 = (Inr u3, s3)"
    using p True 1 by (cases "writeHeader n s2") (auto simp: repairSegment_def s2_def Let_def split: sum.splits)
  obtain u4 s4 where 4: "flushFile n s3 = (Inr u4, s4)"
    using p True 1 3 by (cases "flushFile n s3") (auto simp: repairSegment_def s2_def Let_def split: sum.splits)
  obtain r5 s5 where 5: "os_run (preallocate n (wrap64 (int headerSize + df_capacity (heap s4 n)))) s4 = (r5, s5)" by force
  have "heap s5 = heap s4" using 5 by (auto simp: os_run_def split: prod.splits)
  then have d: "df_dirty (heap s' m) = df_dirty (heap s4 m)"
    using p True 1 3 4 5 by (auto simp: repairSegment_def s2_def upd_df_def Let_def split: if_splits)
  have "df_dirty (heap s4 m) \<longrightarrow> df_dirty (heap s3 m)" "tidy m s s1"
    using tidy_flushFile [OF 4, of m] tidy_ensureOpen [OF 1] by (simp_all add: tidy_def)
  moreover have "df_dirty (heap s2 m) = df_dirty (heap s1 m)" by (simp add: s2_def upd_df_def header_def)
  ultimately show ?thesis using d flushFile_clean [OF 4] writeHeader_others [OF 3, of m] by (cases "m = n") (auto simp: tidy_def)
qed

lemma repair_loop_clean: "repair_loop xx ns s = (Inr u, s') \<Longrightarrow> df_dirty (heap s' m) \<longrightarrow> df_dirty (heap s m)"
proof (induction ns arbitrary: s)
  case (Cons n ns)
  obtain u1 s1 where 1: "repairSegment xx n s = (Inr u1, s1)" "repair_loop xx ns s1 = (Inr u, s')"
    using Cons.prems by (cases "repairSegment xx n s") (auto split: sum.splits)
  then show ?case using Cons.IH [OF 1(2)] repairSegment_clean [OF 1(1)] by blast
qed simp

lemma opened_clean:
  assumes o: "opened xx img w t s" and n: "n \<in> fst ` set img"
  shows "\<not> df_dirty (heap s n)"
proof -
  obtain u where u: "repair_loop xx (rev (files t)) t = (Inr (), u)" "open_active u = (Inr (), s)" using o by (auto simp: opened_def)
  obtain b sz c where "heap t n = (loaded n b sz (page w n))\<lparr>df_committed := c\<rparr>" using o n by (fastforce simp: opened_def)
  then have "\<not> df_dirty (heap t n)" by (simp add: loaded_def zero_dataFile_def)
  then have u1: "\<not> df_dirty (heap u n)" using repair_loop_clean [OF u(1)] by blast
  let ?a = "the (active u)"
  obtain u1 s1 where 1: "ensureOpen ?a u = (Inr u1, s1)"
    using u(2) by (cases "ensureOpen ?a u") (auto simp: open_active_def Let_def split: sum.splits)
  have "heap s = heap s1" using u(2) 1 by (auto simp: open_active_def Let_def os_run_def split: prod.splits)
  then show ?thesis using tidy_ensureOpen [OF 1, of n] u1 by (simp add: tidy_def)
qed

lemma sync_clean:
  assumes "sync_body s = (Inr u, t)" "\<forall>n \<in> set (files s). \<not> df_dirty (heap s n)"
  shows "stable (os t) = stable (os s)"
proof -
  have "filter (\<lambda>n. df_dirty (heap s n)) (files s) = []" using assms(2) by (simp add: filter_empty_conv)
  then obtain r2 s2 where 2: "syncDir s = (r2, s2)" "r2 = Inr ()" "os t = os s2"
    using assms(1) by (auto simp: sync_body_def flush_chunks.simps [of "[]"] split: option.splits prod.splits sum.splits)
  have "tidy n s s2" for n using serene_syncDir 2(1,2) by blast
  moreover have "heap s2 = heap s" using 2(1) by (auto simp: syncDir_def os_run_def failIO_def Let_def split: if_splits prod.splits sum.splits)
  ultimately show ?thesis using 2(3) 2(1) by (auto simp: syncDir_def os_run_def failIO_def Let_def fsyncDir_same split: if_splits prod.splits sum.splits)
qed

section \<open>Properties\<close>

text \<open>
  What a power loss may leave: every segment reads as it was last written or as it was last
  flushed, and every directory entry that was not flushed may be gone, whatever the durability
  options are.
\<close>

definition power_cut :: "store \<Rightarrow> os \<Rightarrow> bool" where
  "power_cut s w \<longleftrightarrow> (\<forall>n < 2 ^ 64. (linked w n \<longrightarrow> n \<in> set (files s) \<and> stable_dir w n) \<and>
       (n \<in> set (files s) \<and> stable_dir (os s) n \<longrightarrow> linked w n)) \<and> (\<forall>n \<in> set (files s).
     (reads_as s n (inode w n) (inode (os s) n) \<or> reads_as s n (inode w n) (stable (os s) n)) \<and>
     (reads_as s n (stable w n) (inode w n) \<or> reads_as s n (stable w n) (stable (os s) n)))"

lemma power_cut_crashed:
  assumes c: "\<forall>n \<in> set (files s). flush_counts s n \<and> stable_dir (os s) n" and w: "power_cut s w"
  shows "crashed s w"
  unfolding crashed_def
proof (intro conjI ballI)
  show "dir_left s w" using w c unfolding dir_left_def power_cut_def by metis
qed (use w c in \<open>simp_all add: power_cut_def\<close>)

lemma cut_reopens:
  assumes i: "session_ok xx s" and l: "lasting xx s" and c: "serene s t" and e: "ioErr t = None"
    and clean: "\<forall>n \<in> set (files s). \<not> df_dirty (heap t n) \<and> stable_dir (os t) n" and w: "power_cut t w" "dir_lists ents w"
    and r: "openStore xx ents (segmentSize s) maxSegs nosync every maxOpen w = (r, v)"
  shows "(r = Inr () \<and> session_ok xx v \<and> lasting xx v \<and> (\<exists>extra. unread xx v = extra @ backlog xx s)) \<or>
     (\<exists>e. r = Inl e) \<and> (files s = [] \<or> script w \<noteq> [])"
proof -
  have k: "calm s t" using c by (simp add: serene_def)
  note f = calm_fields(1,2) [OF k] and S = serene_session [OF i c]
  have lt: "lasting xx t" by (rule lasting_calm [OF k session_okD(2) [OF i] l])
  have "\<forall>n \<in> set (files t). flush_counts t n \<and> stable_dir (os t) n" using clean f by (simp add: flush_counts_def)
  then have cr: "crashed t w" using power_cut_crashed w(1) by blast
  have "openStore xx ents (segmentSize t) maxSegs nosync every maxOpen w = (r, v)" using r f by simp
  from reopen_core [OF S(1) lt e cr w(2) this] show ?thesis using f S(2) by metis
qed

lemma syncOffLock_st:
  assumes "syncOffLock q = (r, q')" "\<not> closed q"
  shows "sync_body (st q) = (r, st q')"
  using assms by (auto simp: syncOffLock_def on_store_def signalSpace_def close_chan_def split: prod.splits option.splits)

lemma syncOffLock_open: "syncOffLock q = (Inr u, q') \<Longrightarrow> \<not> closed q"
  by (auto simp: syncOffLock_def)

lemma sync_done:
  assumes "session_ok xx (st q)" "healthy (st q)" "\<not> closed q"
  shows "\<exists>q'. syncOffLock q = (Inr (), q') \<and> healthy (st q')"
proof -
  let ?s = "st q" and ?ns = "filter (\<lambda>n. df_dirty (heap (st q) n)) (files (st q))"
  obtain e s1 where 1: "flush_chunks ?ns None ?s = (e, s1)" by force
  have "\<forall>n \<in> set ?ns. linked (os ?s) n" using file_okD(4) queue_okD(1) session_okD(2) [OF assms(1)] by fastforce
  then have h: "healthy s1" "e = None" using flush_chunks_live [OF assms(2) _ 1] by blast+
  obtain r s2 where 2: "syncDir s1 = (r, s2)" by force
  then have s2: "r = Inr ()" "healthy s2" using smooth_syncDir [OF h(1) 2] by (auto simp: smooth_def)
  obtain s3 where 3: "sync_body ?s = (Inr (), s3)" "healthy s3"
    using assms(2) h s2 1 2 by (auto simp: sync_body_def healthy_def)
  obtain r4 q' where 4: "syncOffLock q = (r4, q')" by force
  have "r4 = Inr ()" "st q' = s3" using syncOffLock_st [OF 4 assms(3)] 3(1) by simp_all
  then show ?thesis using 4 3(2) by blast
qed

text \<open>An opened store with \<open>NoSync\<close>, one append, and a queue around it.\<close>

definition sample_lazy :: store where
  "sample_lazy = perform (\<lambda>_. 5) (DoAppend [9, 9] True) (sample_open True)"

lemma sample_lazy_ok:
  "session_ok (\<lambda>_. 5) sample_lazy" "lasting (\<lambda>_. 5) sample_lazy" "healthy sample_lazy" "backlog (\<lambda>_. 5) sample_lazy = [[3], [4], [9, 9]]"
proof -
  note S = sample_open_ok [of True] and A = sample_appended [of True, folded sample_lazy_def]
  show "session_ok (\<lambda>_. 5) sample_lazy" unfolding sample_lazy_def by (rule session.step_inv [OF S(1) A(1)])
  show "lasting (\<lambda>_. 5) sample_lazy" unfolding sample_lazy_def by (rule perform_lasting [OF S(1,2) A(1)])
  show "healthy sample_lazy" "backlog (\<lambda>_. 5) sample_lazy = [[3], [4], [9, 9]]" by (rule A)+
qed

text \<open>
  C5: a \<open>Sync\<close> that returns without an error, on a queue whose segments are sound on disk, makes
  it safe against a power loss, in every durability mode.  Sound on disk (\<open>lasting\<close>) includes that a
  segment this process has not written since its last flush really is on stable storage; a store
  reopened over bytes that an earlier process wrote and nobody flushed is not, and for it the
  claim fails (C39 and the finding on \<open>Sync\<close>).  \<open>Sync\<close> leaves the records and the invariants
  alone.  After it each segment may read back either as it was last written or as it was last
  flushed, independently of the others, and every directory entry that was not flushed may be
  gone, as long as no other segment file is there and stable storage holds what is found; opening
  the directory then gives a well formed queue with every record that was not committed, in order,
  behind at most some that were.  Opening can only fail when the disk does or there was no segment.
\<close>

theorem sync_survives:
  assumes "session_ok xx (st q)" "lasting xx (st q)" "syncOffLock q = (Inr (), q')" "power_cut (st q') w" "dir_lists ents w"
    and "openStore xx ents (segmentSize (st q)) maxSegs nosync every maxOpen w = (r, v)"
  shows "session_ok xx (st q') \<and> lasting xx (st q') \<and> backlog xx (st q') = backlog xx (st q) \<and> unread xx (st q') = unread xx (st q) \<and>
    ((r = Inr () \<and> session_ok xx v \<and> lasting xx v \<and> (\<exists>extra. unread xx v = extra @ backlog xx (st q))) \<or>
     (\<exists>e. r = Inl e) \<and> (files (st q) = [] \<or> script w \<noteq> []))"
proof -
  note K = sync_keeps [OF assms(1,2) syncOffLock_st [OF assms(3) syncOffLock_open [OF assms(3)]]]
  then show ?thesis using cut_reopens [OF assms(1,2) _ _ _ assms(4-6)] by blast
qed

definition sample_cut :: "store \<Rightarrow> os" where
  "sample_cut s = (os s)\<lparr>linked := (\<lambda>n. n \<in> set (files s)), inode := stable (os s), stable_dir := (\<lambda>n. n \<in> set (files s))\<rparr>"

lemma sample_cut_ok:
  assumes "placed s"
  shows "power_cut s (sample_cut s)" "dir_lists (map (\<lambda>n. (filePath n, False)) (files s)) (sample_cut s)"
proof -
  show "power_cut s (sample_cut s)" by (simp add: power_cut_def reads_as_def sample_cut_def)
  show "dir_lists (map (\<lambda>n. (filePath n, False)) (files s)) (sample_cut s)"
    using assms filePath_inj by (force simp: dir_lists_def placed_def sample_cut_def)
qed

theorem sync_survives_witness:
  "\<exists>q' v. syncOffLock (new_queue False False sample_lazy) = (Inr (), q') \<and>
     openStore (\<lambda>_. 5) (map (\<lambda>n. (filePath n, False)) (files (st q'))) (segmentSize sample_lazy) 0 True 1 3 (sample_cut (st q')) = (Inr (), v) \<and>
     (\<exists>extra. unread (\<lambda>_. 5) v = extra @ [[3], [4], [9, 9]])"
proof -
  let ?q = "new_queue False False sample_lazy"
  note S = sample_lazy_ok
  have q: "st ?q = sample_lazy" "\<not> closed ?q" by (simp_all add: new_queue_def)
  obtain q' where q': "syncOffLock ?q = (Inr (), q')" "healthy (st q')" using sync_done [of _ ?q] S(1,3) q by auto
  note K = sync_keeps [OF _ _ syncOffLock_st [OF q'(1) q(2)], unfolded q(1), OF S(1,2)]
  let ?s = "st q'" and ?ents = "map (\<lambda>n. (filePath n, False)) (files (st q'))"
  have pl: "placed ?s" using K by (simp add: lasting_def)
  note cut = sample_cut_ok [OF pl]
  have "files sample_lazy \<noteq> []" using S(4) by (auto simp: backlog_def flat_def from_off_def)
  moreover have "script (sample_cut ?s) = []" using q'(2) by (simp add: healthy_def sample_cut_def)
  ultimately show ?thesis
    using sync_survives [of "\<lambda>_. 5" ?q q' "sample_cut ?s" ?ents 0 True 1 3, unfolded q(1), OF S(1,2) q'(1) cut surjective_pairing] q'(1) S(4)
    by (auto simp: prod_eq_iff)
qed

text \<open>
  C21: when no I/O operation fails, \<open>Sync\<close> on a well formed open queue returns without an error,
  whatever the number of segments to flush, and leaves no failure behind.
\<close>

theorem sync_returns:
  assumes "session_ok xx (st q)" "healthy (st q)" "\<not> closed q"
  shows "\<exists>q'. syncOffLock q = (Inr (), q') \<and> healthy (st q')"
  by (rule sync_done [OF assms])

theorem sync_returns_witness:
  "\<exists>q'. syncOffLock (new_queue False False sample_lazy) = (Inr (), q') \<and> healthy (st q')"
  by (rule sync_returns [of "\<lambda>_. 5"]) (simp_all add: new_queue_def sample_lazy_ok)



end
