(* ===== verification/Closing.thy ===== *)
theory Closing
  imports Sync
begin

text \<open>
  Closing.  \<open>Close\<close> flushes every segment and the directory, whatever the durability options say,
  before it gives the handles up: when it returns without an error the queue survives a power
  loss, as it does after a \<open>Sync\<close>.
\<close>

section \<open>Flushing on the way out\<close>

lemma close_files_error: "close_files ns (Some e) s = (r, s') \<Longrightarrow> r = Some e"
proof (induction ns arbitrary: s)
  case (Cons n ns)
  then obtain s1 where "close_files ns (Some e) s1 = (r, s')"
    by (auto simp: Let_def split: if_splits prod.splits sum.splits)
  then show ?case by (rule Cons.IH)
qed simp

lemma clean_same:
  assumes "\<not> df_dirty (heap t n)"
  shows "upd_df n (\<lambda>d. d\<lparr>df_dirty := False\<rparr>) t = t"
proof -
  have "(heap t n)\<lparr>df_dirty := False\<rparr> = heap t n" using assms by (cases "heap t n") simp
  then show ?thesis by (simp add: upd_df_def)
qed

lemma flushFile_unlatched:
  assumes f: "flushFile n s = (Inr u, t)" and e: "ioErr s = None"
  shows "ioErr t = None"
proof -
  have "df_dirty (heap s n) \<Longrightarrow> \<exists>s1. flushSync n s1 = (Inr u, t)"
    using f by (auto simp: flushFile_def split: if_splits prod.splits sum.splits)
  then show ?thesis using f e
    by (cases "df_dirty (heap s n)") (auto simp: flushFile_def flushSync_def os_run_def upd_df_def split: option.splits prod.splits sum.splits dest: failIO_result)
qed

lemma close_files_calm:
  "close_files ns first s = (None, s') \<Longrightarrow> ioErr s = None \<Longrightarrow>
   first = None \<and> calm s s' \<and> ioErr s' = None \<and> (df_dirty (heap s' m) \<longrightarrow> df_dirty (heap s m) \<and> m \<notin> set ns)"
proof (induction ns first s rule: close_files.induct)
  case (2 n ns first s)
  obtain r t where f: "flushFile n s = (r, t)" by force
  define first1 where "first1 = (case r of Inl e \<Rightarrow> (if first = None then Some e else first) | Inr _ \<Rightarrow> first)"
  have 1: "(if ioErr s = None then (case flushFile n s of (Inl e, t) \<Rightarrow> (if first = None then Some e else first, t)
      | (Inr _, t) \<Rightarrow> (first, t)) else (first, s)) = (first1, t)" using "2.prems"(2) f by (simp add: first1_def split: sum.split)
  define s2 where "s2 = upd_df n (\<lambda>d. d\<lparr>df_dirty := False\<rparr>) t"
  define s4 where "s4 = (if df_open (heap s2 n) then upd_df n (\<lambda>d. d\<lparr>df_open := False\<rparr>) (untrackOpen n (snd (os_run os_close s2))) else s2)"
  define first2 where "first2 = (if df_open (heap s2 n) \<and> first1 = None then err_of (fst (os_run os_close s2)) else first1)"
  have c: "close_files ns first2 s4 = (None, s')"
    using "2.prems"(1) 1 by (auto simp: Let_def s2_def s4_def first2_def split: if_splits prod.splits)
  have ft: "flushFile n s = (Inr (), t)" if "first1 = None"
    using f that by (cases r) (simp_all add: first1_def split: if_splits)
  have f0: "first1 = None" "first = None" using close_files_error [of ns] c by (cases first1; cases first; auto simp: first1_def first2_def split: sum.splits if_splits)+
  note F = ft [OF f0(1)]
  have t: "calm s t" "ioErr t = None" "tidy m s t" "\<not> df_dirty (heap t n)"
    using calm_flushFile [OF F] flushFile_unlatched [OF F "2.prems"(2)] tidy_flushFile [OF F] flushFile_clean [OF F] by simp_all
  have "s2 = t" using clean_same [OF t(4)] by (simp add: s2_def)
  moreover obtain r3 s3 where 3: "os_run os_close t = (r3, s3)" by force
  ultimately have s4: "s4 = (if df_open (heap t n) then upd_df n (\<lambda>d. d\<lparr>df_open := False\<rparr>) (untrackOpen n s3) else t)" by (simp add: s4_def)
  have c3: "calm t s3" "tidy m t s3" "ioErr s3 = ioErr t" using calm_os(2) [OF 3] tidy_os(2) [OF 3] 3 by (auto simp: os_run_def split: prod.splits)
  have "calm s3 (upd_df n (\<lambda>d. d\<lparr>df_open := False\<rparr>) (untrackOpen n s3))"
    unfolding untrackOpen_def by (rule calm_trans [OF calm_lru(1) calm_upd]) simp_all
  moreover have "tidy m s3 (upd_df n (\<lambda>d. d\<lparr>df_open := False\<rparr>) (untrackOpen n s3))"
    unfolding untrackOpen_def by (rule tidy_trans [OF tidy_lru(1) tidy_upd]) simp_all
  ultimately have s4c: "calm t s4" "tidy m t s4" "ioErr s4 = None"
    using calm_trans [OF c3(1)] tidy_trans [OF c3(2)] c3(3) t(2) by (auto simp: s4 untrackOpen_def)
  have IH: "calm s4 s' \<and> ioErr s' = None \<and> (df_dirty (heap s' m) \<longrightarrow> df_dirty (heap s4 m) \<and> m \<notin> set ns)"
  proof (cases "df_open (heap s2 n)")
    case False
    then show ?thesis using "2.IH"(1) [OF 1 [symmetric] refl s2_def] c s4c(3) by (simp add: s4_def first2_def)
  next
    case True
    obtain r3' s3' where o: "os_run os_close s2 = (r3', s3')" by force
    have e: "s4 = upd_df n (\<lambda>d. d\<lparr>df_open := False\<rparr>) (untrackOpen n s3')" "first2 = (if first1 = None then err_of r3' else first1)"
      using True o by (auto simp: s4_def first2_def)
    show ?thesis using "2.IH"(2) [OF 1 [symmetric] refl s2_def _ o [symmetric] c [unfolded e] s4c(3) [unfolded e]] True unfolding e by blast
  qed
  show ?case using IH f0(2) calm_trans [OF t(1) calm_trans [OF s4c(1)]] s4c(2) t(3,4) by (auto simp: tidy_def)
qed simp

lemma serene_frame:
  "serene s (s\<lparr>unsynced := a, unsyncedBytes := b\<rparr>)" "serene s (s\<lparr>lruMRU := c, lruLRU := d, nOpen := k\<rparr>)"
proof -
  show "serene s (s\<lparr>unsynced := a, unsyncedBytes := b\<rparr>)" by (rule serene_counters)
  have a: "alike s (s\<lparr>lruMRU := c, lruLRU := d, nOpen := k\<rparr>)"
    by (simp add: alike_def options_def same_seg_def data_of_def block_ok_def cong: option.case_cong)
  have "calm s (s\<lparr>lruMRU := c, lruLRU := d, nOpen := k\<rparr>)" by (rule calm_cases) (simp_all add: dirs_def)
  then show "serene s (s\<lparr>lruMRU := c, lruLRU := d, nOpen := k\<rparr>)" using a by (simp add: serene_def mending_def)
qed

text \<open>Giving the directory handle up changes no record.\<close>

lemma shut_session:
  assumes "session_ok xx s"
  shows "session_ok xx (s\<lparr>dirOpen := e\<rparr>)" "backlog xx (s\<lparr>dirOpen := e\<rparr>) = backlog xx s" "unread xx (s\<lparr>dirOpen := e\<rparr>) = unread xx s"
proof -
  have "alike s (s\<lparr>dirOpen := e\<rparr>)"
    by (simp add: alike_def options_def same_seg_def data_of_def block_ok_def cong: option.case_cong)
  then have m: "mending s (s\<lparr>dirOpen := e\<rparr>)" by (simp add: mending_def)
  show "session_ok xx (s\<lparr>dirOpen := e\<rparr>)" "backlog xx (s\<lparr>dirOpen := e\<rparr>) = backlog xx s" "unread xx (s\<lparr>dirOpen := e\<rparr>) = unread xx s"
    using mending_session [OF assms m] by simp_all
qed

lemma close_store_cases:
  assumes "close_store s = (r, t)"
  obtains first1 s1 first2 s2 s4 where "close_files (files s) (ioErr s) s = (first1, s1)"
    "(if first1 = None then (case syncDir s1 of (r, t) \<Rightarrow> (err_of r, t)) else (first1, s1)) = (first2, s2)"
    "s4 = (if first2 = None then s2\<lparr>unsynced := 0, unsyncedBytes := 0\<rparr> else s2)\<lparr>lruMRU := None, lruLRU := None, nOpen := 0\<rparr>"
    "\<not> dirOpen s4 \<and> r = as_result first2 \<and> t = s4 \<or>
     (\<exists>r5 s5. os_run os_close s4 = (r5, s5) \<and> r = as_result (if first2 = None then err_of r5 else first2) \<and> t = s5\<lparr>dirOpen := False\<rparr>)"
proof -
  obtain first1 s1 where 1: "close_files (files s) (ioErr s) s = (first1, s1)" by force
  obtain first2 s2 where 2: "(if first1 = None then (case syncDir s1 of (r, t) \<Rightarrow> (err_of r, t)) else (first1, s1)) = (first2, s2)" by force
  let ?s4 = "(if first2 = None then s2\<lparr>unsynced := 0, unsyncedBytes := 0\<rparr> else s2)\<lparr>lruMRU := None, lruLRU := None, nOpen := 0\<rparr>"
  obtain r5 s5 where 5: "os_run os_close ?s4 = (r5, s5)" by force
  show ?thesis
    by (rule that [OF 1 2 refl]) (use assms 1 2 5 in \<open>auto simp: close_store_def Let_def split: if_splits\<close>)
qed

lemma close_store_spec:
  assumes c: "close_store s = (Inr (), t)"
  shows "\<exists>s'. serene s s' \<and> (t = s' \<or> t = s'\<lparr>dirOpen := False\<rparr>) \<and> ioErr s = None \<and> ioErr s' = None \<and> (\<forall>n \<in> set (files s). \<not> df_dirty (heap s' n)) \<and>
    (dirOpen s \<longrightarrow> stable_dir (os s') = linked (os s))"
proof -
  from c obtain first1 s1 first2 s2 s4 where C: "close_files (files s) (ioErr s) s = (first1, s1)"
    "(if first1 = None then (case syncDir s1 of (r, t) \<Rightarrow> (err_of r, t)) else (first1, s1)) = (first2, s2)"
    "s4 = (if first2 = None then s2\<lparr>unsynced := 0, unsyncedBytes := 0\<rparr> else s2)\<lparr>lruMRU := None, lruLRU := None, nOpen := 0\<rparr>"
    "\<not> dirOpen s4 \<and> Inr () = as_result first2 \<and> t = s4 \<or>
     (\<exists>r5 s5. os_run os_close s4 = (r5, s5) \<and> Inr () = as_result (if first2 = None then err_of r5 else first2) \<and> t = s5\<lparr>dirOpen := False\<rparr>)"
    by (rule close_store_cases)
  have n2: "first2 = None" using C(4) by (cases first2) auto
  then have n1: "first1 = None" using C(2) by (cases first1) auto
  have e: "ioErr s = None" using close_files_error [of "files s" _ s first1 s1] C(1) n1 by (cases "ioErr s") auto
  note F = close_files_calm [OF C(1) [unfolded n1 e] e]
  have "mending s s1" by (rule mending_quiet [OF quiet_core [OF core_close_files [OF C(1)]]])
  then have 1: "serene s s1" "ioErr s1 = None" using F by (simp_all add: serene_def)
  obtain r where "syncDir s1 = (r, s2)" "err_of r = None" using C(2) n1 n2 by (auto split: prod.splits)
  then have sd: "syncDir s1 = (Inr (), s2)" by (cases r) (simp_all add: err_of_def)
  note D = serene_syncDir [OF sd]
  have s4: "serene s2 s4" "heap s4 = heap s2" "ioErr s4 = ioErr s2" "os s4 = os s2"
    using C(3) n2 serene_trans [OF serene_frame(1) serene_frame(2)] by simp_all
  obtain s' where s': "serene s4 s'" "heap s' = heap s4" "ioErr s' = ioErr s4" "stable_dir (os s') = stable_dir (os s4)" "t = s' \<or> t = s'\<lparr>dirOpen := False\<rparr>"
  proof (cases "t = s4")
    case True
    then show ?thesis using that [of s4] by simp
  next
    case False
    then obtain r5 s5 where 5: "os_run os_close s4 = (r5, s5)" "t = s5\<lparr>dirOpen := False\<rparr>" using C(4) by blast
    have "serene s4 s5" by (rule serene_quiet [OF calm_os(2) [OF 5(1)] quiet_os_close [OF 5(1)]])
    moreover have "heap s5 = heap s4" "ioErr s5 = ioErr s4" "stable_dir (os s5) = stable_dir (os s4)"
      using 5(1) os_close_same [of "os s4"] by (auto simp: os_run_def split: prod.splits)
    ultimately show ?thesis using that [of s5] 5(2) by simp
  qed
  have "\<not> df_dirty (heap s' n)" if "n \<in> set (files s)" for n
  proof -
    have "\<not> df_dirty (heap s1 n)" using F [where m = n] that by blast
    then show ?thesis using D [where n = n] s4(2) s'(2) by (auto simp: tidy_def)
  qed
  moreover have "serene s s'" using 1 D s4 s' serene_trans by blast
  moreover have "stable_dir (os s') = linked (os s)" if "dirOpen s"
  proof -
    have k: "calm s s1" using 1(1) by (simp add: serene_def)
    have "stable_dir (os s2) = linked (os s1)"
      by (rule syncDir_done [OF sd]) (use calm_fields(19) [OF k] that D 1(2) in \<open>simp_all add: dirs_def\<close>)
    then show ?thesis using s'(4) s4(4) calm_fields(13) [OF k] by simp
  qed
  moreover have "ioErr s' = None" using s'(3) s4(3) D 1(2) by simp
  ultimately show ?thesis using s'(5) e by blast
qed

text \<open>When no I/O operation fails, closing succeeds.\<close>

lemma close_files_live:
  "healthy s \<Longrightarrow> \<forall>n \<in> set ns. linked (os s) n \<Longrightarrow> close_files ns None s = (e, s') \<Longrightarrow> e = None \<and> healthy s'"
proof (induction ns arbitrary: s)
  case (Cons n ns)
  have io: "ioErr s = None" using Cons.prems(1) by (simp add: healthy_def)
  obtain r t where f: "flushFile n s = (r, t)" by force
  have sm: "r = Inr ()" "healthy t" "linked (os t) = linked (os s)"
    using smooth_flushFile [OF Cons.prems(1) _ f] Cons.prems(2) by (simp_all add: smooth_def)
  let ?s2 = "upd_df n (\<lambda>d. d\<lparr>df_dirty := False\<rparr>) t"
  have h2: "healthy ?s2" using sm(2) by simp
  have cl: "os_run os_close ?s2 = (Inr (), ?s2)" by (rule healthy_os_close [OF h2])
  let ?s4 = "if df_open (heap ?s2 n) then upd_df n (\<lambda>d. d\<lparr>df_open := False\<rparr>) (untrackOpen n ?s2) else ?s2"
  have h4: "healthy ?s4" using h2 by (simp add: untrackOpen_def)
  have o4: "os ?s4 = os t" by (simp add: untrackOpen_def upd_df_def lruUnlink_def Let_def split: option.split)
  have c: "close_files ns None ?s4 = (e, s')"
    using Cons.prems(3) io f sm(1) cl by (auto simp: Let_def err_of_def split: if_splits)
  show ?case by (rule Cons.IH [OF h4 _ c]) (use Cons.prems(2) o4 sm(3) in simp)
qed simp

lemma close_store_live:
  assumes h: "healthy s" and l: "\<forall>n \<in> set (files s). linked (os s) n"
  shows "\<exists>t. close_store s = (Inr (), t) \<and> healthy t"
proof -
  obtain r t where c: "close_store s = (r, t)" by force
  have io: "ioErr s = None" using h by (simp add: healthy_def)
  from c obtain first1 s1 first2 s2 s4 where C: "close_files (files s) (ioErr s) s = (first1, s1)"
    "(if first1 = None then (case syncDir s1 of (r, t) \<Rightarrow> (err_of r, t)) else (first1, s1)) = (first2, s2)"
    "s4 = (if first2 = None then s2\<lparr>unsynced := 0, unsyncedBytes := 0\<rparr> else s2)\<lparr>lruMRU := None, lruLRU := None, nOpen := 0\<rparr>"
    "\<not> dirOpen s4 \<and> r = as_result first2 \<and> t = s4 \<or>
     (\<exists>r5 s5. os_run os_close s4 = (r5, s5) \<and> r = as_result (if first2 = None then err_of r5 else first2) \<and> t = s5\<lparr>dirOpen := False\<rparr>)"
    by (rule close_store_cases)
  have 1: "first1 = None" "healthy s1" using close_files_live [OF h l] C(1) io by auto
  obtain r2 where "syncDir s1 = (r2, s2)" "first2 = err_of r2" using C(2) 1(1) by (auto split: prod.splits)
  then have 2: "first2 = None" "healthy s2" using smooth_syncDir [OF 1(2)] by (auto simp: smooth_def err_of_def)
  then have 4: "healthy s4" using C(3) by (simp add: healthy_def)
  have "r = Inr () \<and> healthy t" using C(4) healthy_os_close [OF 4] 2(1) 4 by (auto simp: err_of_def healthy_def)
  then show ?thesis using c by blast
qed

section \<open>Properties\<close>

lemma close_parts:
  assumes "close_begin q = (Inr (), q1)" "close_finish q1 = (r, q')"
  shows "close_store (st q) = (r, st q')"
  using assms by (auto simp: close_begin_def close_finish_def on_store_def signalSpace_def signal_def close_chan_def split: if_splits prod.splits option.splits)

lemma close_keeps:
  assumes i: "session_ok xx s" and l: "lasting xx s" and c: "close_store s = (Inr (), t)"
  obtains s' where "serene s s'" "t = s' \<or> t = s'\<lparr>dirOpen := False\<rparr>" "ioErr s' = None"
    "\<forall>n \<in> set (files s). \<not> df_dirty (heap s' n) \<and> stable_dir (os s') n"
    "session_ok xx t" "backlog xx t = backlog xx s" "unread xx t = unread xx s"
proof -
  obtain s' where s': "serene s s'" "t = s' \<or> t = s'\<lparr>dirOpen := False\<rparr>" "ioErr s = None" "ioErr s' = None" "\<forall>n \<in> set (files s). \<not> df_dirty (heap s' n)"
    "dirOpen s \<longrightarrow> stable_dir (os s') = linked (os s)" using close_store_spec [OF c] by blast
  have "dirOpen s" using lastingD(2) [OF l s'(3)] by (simp add: entered_def)
  moreover have "\<forall>n \<in> set (files s). linked (os s) n" using file_okD(4) queue_okD(1) session_okD(2) [OF i] by blast
  ultimately have d: "\<forall>n \<in> set (files s). \<not> df_dirty (heap s' n) \<and> stable_dir (os s') n" using s'(5,6) by simp
  note S = serene_session [OF i s'(1)]
  have "session_ok xx t \<and> backlog xx t = backlog xx s \<and> unread xx t = unread xx s"
    using s'(2) S shut_session [OF S(1), of False] by auto
  then show ?thesis using that [of s'] s'(1,2,4) d by blast
qed

text \<open>
  C6: a queue whose segments are sound on disk and that is closed without an error survives a
  power loss, in every durability mode, \<open>NoSync\<close> included.  Sound on disk is as for C5, and fails
  for a store reopened over bytes that were never flushed.  \<open>Close\<close> keeps the invariant, the records
  and those to be read.  After it each segment may read back either as it was last written or as
  it was last flushed, independently of the others, and every directory entry that was not
  flushed may be gone, as long as no other segment file is there and stable storage holds what is
  found; opening the directory again then gives a well formed queue with every record that was not
  committed, in order, behind at most some that were.  Opening can only fail when the disk does or
  there was no segment.
\<close>

theorem close_survives:
  assumes "session_ok xx (st q)" "lasting xx (st q)" "close_begin q = (Inr (), q1)" "close_finish q1 = (Inr (), q')"
    and "power_cut (st q') w" "dir_lists ents w"
    and "openStore xx ents (segmentSize (st q)) maxSegs nosync every maxOpen w = (r, v)"
  shows "session_ok xx (st q') \<and> backlog xx (st q') = backlog xx (st q) \<and> unread xx (st q') = unread xx (st q) \<and>
    ((r = Inr () \<and> session_ok xx v \<and> lasting xx v \<and> (\<exists>extra. unread xx v = extra @ backlog xx (st q))) \<or>
     (\<exists>e. r = Inl e) \<and> (files (st q) = [] \<or> script w \<noteq> []))"
proof -
  obtain s' where k: "serene (st q) s'" "st q' = s' \<or> st q' = s'\<lparr>dirOpen := False\<rparr>" "ioErr s' = None"
    "\<forall>n \<in> set (files (st q)). \<not> df_dirty (heap s' n) \<and> stable_dir (os s') n"
    "session_ok xx (st q')" "backlog xx (st q') = backlog xx (st q)" "unread xx (st q') = unread xx (st q)"
    by (rule close_keeps [OF assms(1,2) close_parts [OF assms(3,4)]])
  have "power_cut s' w" using assms(5) k(2) by (auto simp: power_cut_def reads_as_def)
  from cut_reopens [OF assms(1,2) k(1,3,4) this assms(6,7)] show ?thesis using k(5-7) by blast
qed

theorem close_survives_witness:
  "\<exists>q1 q' v. close_begin (new_queue False False sample_lazy) = (Inr (), q1) \<and> close_finish q1 = (Inr (), q') \<and>
     openStore (\<lambda>_. 5) (map (\<lambda>n. (filePath n, False)) (files (st q'))) (segmentSize sample_lazy) 0 True 1 3 (sample_cut (st q')) = (Inr (), v) \<and>
     (\<exists>extra. unread (\<lambda>_. 5) v = extra @ [[3], [4], [9, 9]])"
proof -
  let ?q = "new_queue False False sample_lazy"
  note S = sample_lazy_ok
  have q: "st ?q = sample_lazy" by (simp add: new_queue_def)
  obtain q1 where q1: "close_begin ?q = (Inr (), q1)" by (simp add: close_begin_def new_queue_def)
  obtain r q' where f: "close_finish q1 = (r, q')" by force
  have "\<forall>n \<in> set (files sample_lazy). linked (os sample_lazy) n" using file_okD(4) queue_okD(1) session_okD(2) [OF S(1)] by blast
  then have q': "r = Inr ()" "healthy (st q')" using close_store_live [OF S(3)] close_parts [OF q1 f] q by auto
  let ?s = "st q'" and ?ents = "map (\<lambda>n. (filePath n, False)) (files (st q'))"
  have "close_store sample_lazy = (Inr (), ?s)" using close_parts [OF q1 f] q q'(1) by simp
  then obtain s' where k: "serene sample_lazy s'" "?s = s' \<or> ?s = s'\<lparr>dirOpen := False\<rparr>" by (rule close_keeps [OF S(1,2)])
  have "placed s'" using lasting_calm [OF _ session_okD(2) [OF S(1)] S(2)] k(1) by (simp add: serene_def lasting_def)
  then have pl: "placed ?s" using k(2) by (auto simp: placed_def)
  note cut = sample_cut_ok [OF pl]
  have "files sample_lazy \<noteq> []" using S(4) by (auto simp: backlog_def flat_def from_off_def)
  moreover have "script (sample_cut ?s) = []" using q'(2) by (simp add: healthy_def sample_cut_def)
  ultimately show ?thesis
    using close_survives [of "\<lambda>_. 5" ?q q1 q' "sample_cut ?s" ?ents 0 True 1 3, unfolded q, OF S(1,2) q1 f [unfolded q'(1)] cut surjective_pairing]
      q1 f q'(1) S(4) by (auto simp: prod_eq_iff)
qed

end
